(* ===== verification/Prelude.thy ===== *)
theory Prelude
  imports Main "HOL-Library.Word"
begin

text \<open>
  Shared vocabulary of the development.  The machine integers of
  \<^verbatim>\<open>kernel/types.h\<close> are words, a kernel routine that can call
  \<^verbatim>\<open>panic\<close> returns a value of type \<open>kres\<close>, and kernel state is
  threaded explicitly.  The theory also holds the generic facts about words, lists and
  transition systems that the component theories use.
\<close>

unbundle bit_operations_syntax

section \<open>Machine integers (types.h)\<close>

type_synonym u8 = "8 word"
type_synonym u16 = "16 word"
type_synonym u32 = "32 word"
type_synonym u64 = "64 word"

section \<open>Outcomes of kernel code\<close>

text \<open>
  \<^verbatim>\<open>panic\<close> prints its message and spins forever (\<^verbatim>\<open>printf.c\<close>), so
  the state after it is not observable: an outcome is a value, or the message of a panic,
  or \<open>Spin\<close>, the outcome of a loop that is cut off when its fuel runs out.  Every loop
  with fuel comes with a lemma that says how much is enough.
\<close>

datatype 'a kres = Ok 'a | Panic string | Spin

fun andThen :: "'a kres \<Rightarrow> ('a \<Rightarrow> 'b kres) \<Rightarrow> 'b kres" where
  "andThen (Ok x) f = f x"
| "andThen (Panic msg) f = Panic msg"
| "andThen Spin f = Spin"

lemma andThen_eq_Ok: "andThen r f = Ok y \<longleftrightarrow> (\<exists>x. r = Ok x \<and> f x = Ok y)"
  by (cases r) auto

lemma andThen_eq_Panic:
  "andThen r f = Panic msg \<longleftrightarrow> r = Panic msg \<or> (\<exists>x. r = Ok x \<and> f x = Panic msg)"
  by (cases r) auto

lemma andThen_eq_Spin: "andThen r f = Spin \<longleftrightarrow> r = Spin \<or> (\<exists>x. r = Ok x \<and> f x = Spin)"
  by (cases r) auto

lemma andThen_cong [fundef_cong]:
  "r = r' \<Longrightarrow> (\<And>x. r' = Ok x \<Longrightarrow> f x = f' x) \<Longrightarrow> andThen r f = andThen r' f'"
  by (cases r') auto

lemma andThen_assoc: "andThen (andThen r f) g = andThen r (\<lambda>x. andThen (f x) g)"
  by (cases r) auto

text \<open>A counting loop whose body may panic, and its invariant rule.\<close>

fun forM :: "('i \<Rightarrow> 's \<Rightarrow> 's kres) \<Rightarrow> 'i list \<Rightarrow> 's \<Rightarrow> 's kres" where
  "forM f [] s = Ok s"
| "forM f (i # is) s = andThen (f i s) (forM f is)"

lemma forM_append: "forM f (is @ js) s = andThen (forM f is s) (forM f js)"
proof (induction "is" arbitrary: s)
  case (Cons i "is")
  then show ?case by (cases "f i s") auto
qed simp

lemma forM_upt:
  assumes "I 0 s" and step: "\<And>k s. k < n \<Longrightarrow> I k s \<Longrightarrow> \<exists>s'. f k s = Ok s' \<and> I (Suc k) s'"
  shows "\<exists>s'. forM f [0..<n] s = Ok s' \<and> I n s'"
  using step
proof (induction n)
  case 0
  then show ?case using assms(1) by simp
next
  case (Suc n)
  then obtain t where "forM f [0..<n] s = Ok t" "I n t" by (meson less_Suc_eq)
  moreover obtain u where "f n t = Ok u" "I (Suc n) u" using Suc.prems [OF _ \<open>I n t\<close>] by auto
  ultimately show ?case by (simp add: forM_append)
qed

text \<open>C truth values of \<^verbatim>\<open>int\<close> results.\<close>

definition c_bool :: "bool \<Rightarrow> int" where
  [simp]: "c_bool b = (if b then 1 else 0)"

section \<open>Collections of rewrite rules\<close>

named_theorems page_simps \<open>page rounding, page-table entry and offset arithmetic\<close>
named_theorems mem_simps \<open>reads from an updated byte memory\<close>
named_theorems frame_simps \<open>fields an operation leaves alone\<close>

section \<open>Words\<close>

lemma unat_plus_no_wrap:
  fixes a b :: "'a::len word"
  assumes "unat a + unat b < 2 ^ LENGTH('a)"
  shows "unat (a + b) = unat a + unat b"
  using assms by (simp add: unat_word_ariths)

lemma unat_of_nat_small: "n < 2 ^ LENGTH('a) \<Longrightarrow> unat (of_nat n :: 'a::len word) = n"
  by (simp add: unat_of_nat)

lemma unat_u32_less [simp]: "unat (n :: u32) < 2 ^ 32"
  using unsigned_less [of n, where ?'a = nat] by simp

lemma unat_u64_less [simp]: "unat (n :: u64) < 2 ^ 64"
  using unsigned_less [of n, where ?'a = nat] by simp

lemma unat_ucast_u32 [simp]: "unat (ucast (n :: u32) :: u64) = unat n"
  by (subst unsigned_ucast_eq) (use unat_u32_less [of n] in \<open>simp add: take_bit_nat_eq_self\<close>)

lemma word_diff_less_iff:
  fixes a d :: "'a::len word"
  assumes "unat d + n \<le> 2 ^ LENGTH('a)"
  shows "unat (a - d) < n \<longleftrightarrow> d \<le> a \<and> unat a < unat d + n"
proof (cases "d \<le> a")
  case True
  then have "unat (a - d) = unat a - unat d" by (simp add: unat_sub)
  with True show ?thesis by (auto simp: word_le_nat_alt)
next
  case False
  then have lt: "unat a < unat d" by (simp add: word_le_nat_alt)
  have "unat (a - d) = unat a + 2 ^ LENGTH('a) - unat d"
    using lt by (simp add: unat_sub_if_size word_size)
  with assms lt False show ?thesis by (simp add: word_le_nat_alt)
qed

lemma and_not_mask_unat:
  fixes a :: "'a::len word"
  shows "unat (a AND NOT (mask n)) = unat a div 2 ^ n * 2 ^ n"
proof -
  have "a AND NOT (mask n) = a - take_bit n a"
    by (subst disjunctive_diff_eq_and_not) (auto simp: bit_eq_iff bit_simps)
  moreover have "unat (take_bit n a) = unat a mod 2 ^ n"
    by (subst unsigned_take_bit_eq) (simp add: take_bit_eq_mod)
  moreover from this have "take_bit n a \<le> a"
    by (simp add: word_le_nat_alt)
  ultimately show ?thesis
    by (simp add: unat_sub minus_mod_eq_div_mult)
qed

section \<open>Transition systems\<close>

text \<open>
  The interface of every state machine of the development: an initial predicate, a step
  relation and an invariant that both respect.  The reachable states then satisfy it.
\<close>

locale transition_system =
  fixes init :: "'s \<Rightarrow> bool"
    and step :: "'s \<Rightarrow> 's \<Rightarrow> bool"
    and inv :: "'s \<Rightarrow> bool"
  assumes init_inv: "init s \<Longrightarrow> inv s"
    and step_inv: "step s t \<Longrightarrow> inv s \<Longrightarrow> inv t"
begin

lemma steps_inv: "step\<^sup>*\<^sup>* s t \<Longrightarrow> inv s \<Longrightarrow> inv t"
  by (induction rule: rtranclp_induct) (auto intro: step_inv)

lemma reach_inv: "init s \<Longrightarrow> step\<^sup>*\<^sup>* s t \<Longrightarrow> inv t"
  by (rule steps_inv) (auto intro: init_inv)

end

end
