(* ===== verification/Riscv.thy ===== *)
theory Riscv
  imports Prelude
begin

text \<open>
  The address arithmetic of \<^verbatim>\<open>kernel/riscv.h\<close> and the constants of
  \<^verbatim>\<open>kernel/memlayout.h\<close>: page rounding, the Sv39 page-table entry format and
  the three 9-bit indices of a virtual address.  The lemmas are the algebra the
  page-table code relies on: rounding is idempotent and exact on page offsets, an entry
  gives back the address and the flags it was built from, and the three indices
  determine a page-aligned address below \<open>MAXVA\<close>.
\<close>

section \<open>Pages (riscv.h)\<close>

definition PGSIZE :: u64 where
  [simp]: "PGSIZE = 4096"

definition PGROUNDUP :: "u64 \<Rightarrow> u64" where
  "PGROUNDUP sz = (sz + PGSIZE - 1) AND NOT (PGSIZE - 1)"

definition PGROUNDDOWN :: "u64 \<Rightarrow> u64" where
  "PGROUNDDOWN a = a AND NOT (PGSIZE - 1)"

section \<open>Page-table entries\<close>

definition PTE_V :: u64 where [simp]: "PTE_V = 1"
definition PTE_R :: u64 where [simp]: "PTE_R = 2"
definition PTE_W :: u64 where [simp]: "PTE_W = 4"
definition PTE_X :: u64 where [simp]: "PTE_X = 8"
definition PTE_U :: u64 where [simp]: "PTE_U = 16"
definition PTE_COW :: u64 where [simp]: "PTE_COW = 256"

definition PA2PTE :: "u64 \<Rightarrow> u64" where
  "PA2PTE pa = push_bit 10 (drop_bit 12 pa)"

definition PTE2PA :: "u64 \<Rightarrow> u64" where
  "PTE2PA pte = push_bit 12 (drop_bit 10 pte)"

definition PTE_FLAGS :: "u64 \<Rightarrow> u64" where
  "PTE_FLAGS pte = pte AND 0x3FF"

definition PX :: "nat \<Rightarrow> u64 \<Rightarrow> u64" where
  "PX level va = drop_bit (12 + 9 * level) va AND 0x1FF"

definition MAXVA :: u64 where
  [simp]: "MAXVA = 0x4000000000"

section \<open>Memory layout (memlayout.h)\<close>

definition UART0 :: u64 where [simp]: "UART0 = 0x10000000"
definition VIRTIO0 :: u64 where [simp]: "VIRTIO0 = 0x10001000"
definition PLIC :: u64 where [simp]: "PLIC = 0x0c000000"
definition KERNBASE :: u64 where [simp]: "KERNBASE = 0x80000000"
definition PHYSTOP :: u64 where [simp]: "PHYSTOP = 0x88000000"
definition TRAMPOLINE :: u64 where [simp]: "TRAMPOLINE = 0x3FFFFFF000"
definition TRAPFRAME :: u64 where [simp]: "TRAPFRAME = 0x3FFFFFE000"

definition KSTACK :: "u64 \<Rightarrow> u64" where
  "KSTACK p = TRAMPOLINE - (p + 1) * 2 * PGSIZE"

section \<open>Page rounding\<close>

definition pg_aligned :: "u64 \<Rightarrow> bool" where
  "pg_aligned a \<longleftrightarrow> a mod PGSIZE = 0"

lemma pg_aligned_unat: "pg_aligned a \<longleftrightarrow> unat a mod 4096 = 0"
  by (simp add: pg_aligned_def unat_mod word_unat_eq_iff)

lemma pg_alignedE:
  assumes "pg_aligned a"
  obtains k where "unat a = 4096 * k"
  using assms unfolding pg_aligned_unat by (metis mod_0_imp_dvd dvd_def)

lemma unat_PGROUNDDOWN [page_simps]: "unat (PGROUNDDOWN a) = unat a div 4096 * 4096"
proof -
  have "PGROUNDDOWN a = a AND NOT (mask 12)"
    by (simp add: PGROUNDDOWN_def mask_eq_exp_minus_1)
  then show ?thesis by (simp add: and_not_mask_unat)
qed

lemma PGROUNDDOWN_aligned [simp]: "pg_aligned (PGROUNDDOWN a)"
  by (simp add: pg_aligned_unat page_simps)

lemma PGROUNDDOWN_id: "pg_aligned a \<Longrightarrow> PGROUNDDOWN a = a"
  by (erule pg_alignedE) (simp add: word_unat_eq_iff page_simps)

lemma PGROUNDDOWN_idem [simp]: "PGROUNDDOWN (PGROUNDDOWN a) = PGROUNDDOWN a"
  by (simp add: PGROUNDDOWN_id)

lemma PGROUNDDOWN_le: "PGROUNDDOWN a \<le> a"
  by (simp add: word_le_nat_alt page_simps)

lemma pg_aligned_room: "pg_aligned p \<Longrightarrow> unat p + 4096 \<le> 2 ^ 64"
proof -
  assume "pg_aligned p"
  then obtain k where k: "unat p = 4096 * k" by (rule pg_alignedE)
  moreover have "unat p < 2 ^ 64" using unsigned_less [of p] by simp
  ultimately show ?thesis by simp
qed

lemma unat_page_off:
  assumes "pg_aligned p" "unat off < 4096"
  shows "unat (p + off) = unat p + unat off"
  using pg_aligned_room [OF assms(1)] assms(2) by (simp add: unat_plus_no_wrap)

lemma PGROUNDDOWN_off [page_simps]:
  assumes "pg_aligned p" "unat off < 4096"
  shows "PGROUNDDOWN (p + off) = p"
proof -
  obtain k where "unat p = 4096 * k" using assms(1) by (rule pg_alignedE)
  with assms show ?thesis
    by (simp add: word_unat_eq_iff unat_PGROUNDDOWN unat_page_off)
qed

lemma page_off_of: "unat (a - PGROUNDDOWN a) = unat a mod 4096"
  by (simp add: unat_sub PGROUNDDOWN_le page_simps minus_div_mult_eq_mod)

lemma page_off_lt: "unat (a - PGROUNDDOWN a) < 4096"
  by (simp add: page_off_of)

lemma unat_PGROUNDUP:
  assumes "unat a + 4095 < 2 ^ 64"
  shows "unat (PGROUNDUP a) = (unat a + 4095) div 4096 * 4096"
proof -
  have "PGROUNDUP a = PGROUNDDOWN (a + 4095)"
    by (simp add: PGROUNDUP_def PGROUNDDOWN_def algebra_simps)
  moreover have "unat (a + 4095) = unat a + 4095"
    using assms by (subst unat_plus_no_wrap) simp_all
  ultimately show ?thesis by (simp add: page_simps)
qed

lemma PGROUNDUP_aligned [simp]: "pg_aligned (PGROUNDUP a)"
proof -
  have "PGROUNDUP a = PGROUNDDOWN (a + 4095)"
    by (simp add: PGROUNDUP_def PGROUNDDOWN_def algebra_simps)
  then show ?thesis by simp
qed

section \<open>Entries\<close>

lemma PTE2PA_aligned [simp]: "pg_aligned (PTE2PA e)"
proof -
  have "unat (PTE2PA e) = take_bit 64 (push_bit 12 (unat (drop_bit 10 e)))"
    unfolding PTE2PA_def by (subst unsigned_push_bit_eq) simp
  also have "\<dots> mod 4096 = 0"
    by (simp add: take_bit_eq_mod push_bit_eq_mult mod_mod_cancel)
  finally show ?thesis by (simp add: pg_aligned_unat)
qed

lemma flags_bit_above: "f < 0x400 \<Longrightarrow> 10 \<le> n \<Longrightarrow> \<not> bit (f :: u64) n"
proof -
  assume "f < 0x400" "10 \<le> n"
  then have "unat f < 2 ^ 10" by (simp add: word_less_nat_alt)
  then have "f = take_bit 10 f"
    by (simp add: word_unat_eq_iff unsigned_take_bit_eq take_bit_nat_eq_self)
  with \<open>10 \<le> n\<close> show ?thesis by (metis bit_take_bit_iff not_le)
qed

lemma pg_aligned_bit: "pg_aligned a \<Longrightarrow> n < 12 \<Longrightarrow> \<not> bit a n"
proof -
  assume "pg_aligned a" "n < 12"
  then have "a = a AND NOT (PGSIZE - 1)" using PGROUNDDOWN_id by (simp add: PGROUNDDOWN_def)
  also have "PGSIZE - 1 = mask 12" by (simp add: mask_eq_exp_minus_1)
  finally show ?thesis using \<open>n < 12\<close> by (metis bit_and_iff bit_mask_iff bit_not_iff)
qed

text \<open>Physical addresses have at most 56 bits, the width of an entry's page number.\<close>

lemma pa_bit_above: "a < 0x100000000000000 \<Longrightarrow> 56 \<le> n \<Longrightarrow> \<not> bit (a :: u64) n"
proof -
  assume "a < 0x100000000000000" "56 \<le> n"
  then have "unat a < 2 ^ 56" by (simp add: word_less_nat_alt)
  then have "a = take_bit 56 a"
    by (simp add: word_unat_eq_iff unsigned_take_bit_eq take_bit_nat_eq_self)
  with \<open>56 \<le> n\<close> show ?thesis by (metis bit_take_bit_iff not_le)
qed

lemma PTE_FLAGS_take_bit: "PTE_FLAGS e = take_bit 10 e"
  by (simp add: PTE_FLAGS_def take_bit_eq_mask mask_eq_exp_minus_1)

lemma bit_PTE2PA: "bit (PTE2PA e) n \<longleftrightarrow> 12 \<le> n \<and> n < 64 \<and> bit e (n - 2)"
proof (cases "12 \<le> n")
  case True
  then have "10 + (n - 12) = n - 2" by simp
  then show ?thesis by (auto simp: PTE2PA_def bit_simps)
qed (simp add: PTE2PA_def bit_simps)

lemma bit_PA2PTE: "bit (PA2PTE a) n \<longleftrightarrow> 10 \<le> n \<and> n < 64 \<and> bit a (n + 2)"
proof (cases "10 \<le> n")
  case True
  then have "12 + (n - 10) = n + 2" by simp
  then show ?thesis by (auto simp: PA2PTE_def bit_simps)
qed (simp add: PA2PTE_def bit_simps)

lemma PTE2PA_PA2PTE [page_simps]:
  assumes "pg_aligned pa" "pa < 0x100000000000000" "f < 0x400"
  shows "PTE2PA (PA2PTE pa OR f) = pa"
proof (rule bit_word_eqI)
  fix n :: nat assume "n < LENGTH(64)"
  moreover have "12 \<le> n \<Longrightarrow> Suc (Suc (n - 2)) = n" by simp
  ultimately show "bit (PTE2PA (PA2PTE pa OR f)) n = bit pa n"
    using pg_aligned_bit [OF assms(1), of n] flags_bit_above [OF assms(3), of "n - 2"]
    by (cases "12 \<le> n") (auto simp: bit_PTE2PA bit_PA2PTE bit_or_iff le_diff_conv2)
qed

lemma PTE_FLAGS_PA2PTE [page_simps]:
  assumes "f < 0x400"
  shows "PTE_FLAGS (PA2PTE pa OR f) = f"
proof (rule bit_word_eqI)
  fix n :: nat assume "n < LENGTH(64)"
  then show "bit (PTE_FLAGS (PA2PTE pa OR f)) n = bit f n"
    using flags_bit_above [OF assms, of n]
    by (auto simp: PTE_FLAGS_take_bit bit_PA2PTE bit_or_iff bit_take_bit_iff)
qed

lemma PTE_decompose:
  assumes "e < 0x40000000000000"
  shows "PA2PTE (PTE2PA e) OR PTE_FLAGS e = e"
proof (rule bit_word_eqI)
  have "unat e < 2 ^ 54" using assms by (simp add: word_less_nat_alt)
  then have "e = take_bit 54 e"
    by (simp add: word_unat_eq_iff unsigned_take_bit_eq take_bit_nat_eq_self)
  then have hi: "\<And>n. 54 \<le> n \<Longrightarrow> \<not> bit e n" by (metis bit_take_bit_iff not_le)
  fix n :: nat assume "n < LENGTH(64)"
  then show "bit (PA2PTE (PTE2PA e) OR PTE_FLAGS e) n = bit e n"
    using hi [of n] not_le [of 54 n]
    by (cases "10 \<le> n"; cases "n < 54")
      (auto simp: PTE_FLAGS_take_bit bit_PA2PTE bit_PTE2PA bit_or_iff bit_take_bit_iff)
qed

section \<open>Indices\<close>

lemma PX_less: "PX l va < 512"
proof -
  have "PX l va \<le> 0x1FF" unfolding PX_def by (rule word_and_le1)
  then show ?thesis by (simp add: word_le_nat_alt word_less_nat_alt)
qed

lemma unat_PX_less [simp]: "unat (PX l va) < 512"
  using PX_less [of l va] by (simp add: word_less_nat_alt)

lemma bit_PX: "bit (PX l va) n \<longleftrightarrow> n < 9 \<and> bit va (12 + 9 * l + n)"
proof -
  have "PX l va = take_bit 9 (drop_bit (12 + 9 * l) va)"
    by (simp add: PX_def take_bit_eq_mask mask_eq_exp_minus_1)
  then show ?thesis by (simp add: bit_take_bit_iff bit_drop_bit_eq)
qed

lemma maxva_bit: "va < MAXVA \<Longrightarrow> 38 \<le> n \<Longrightarrow> \<not> bit va n"
proof -
  assume "va < MAXVA" "38 \<le> n"
  then have "unat va < 2 ^ 38" by (simp add: word_less_nat_alt)
  then have "va = take_bit 38 va"
    by (simp add: word_unat_eq_iff unsigned_take_bit_eq take_bit_nat_eq_self)
  with \<open>38 \<le> n\<close> show ?thesis by (metis bit_take_bit_iff not_le)
qed

lemma PX_inject:
  assumes "pg_aligned va" "pg_aligned vb" "va < MAXVA" "vb < MAXVA"
    and "PX 2 va = PX 2 vb" "PX 1 va = PX 1 vb" "PX 0 va = PX 0 vb"
  shows "va = vb"
proof (rule bit_word_eqI)
  fix n :: nat assume n: "n < LENGTH(64)"
  consider "n < 12" | "12 \<le> n" "n < 21" | "21 \<le> n" "n < 30" | "30 \<le> n" "n < 38" | "38 \<le> n"
    by linarith
  then show "bit va n = bit vb n"
  proof cases
    case 1 then show ?thesis using assms(1,2) pg_aligned_bit by blast
  next
    case 2 then show ?thesis using assms(7) bit_PX [of 0 va "n - 12"] bit_PX [of 0 vb "n - 12"] by auto
  next
    case 3 then show ?thesis using assms(6) bit_PX [of 1 va "n - 21"] bit_PX [of 1 vb "n - 21"] by auto
  next
    case 4 then show ?thesis using assms(5) bit_PX [of 2 va "n - 30"] bit_PX [of 2 vb "n - 30"] by auto
  next
    case 5 then show ?thesis using assms(3,4) maxva_bit by blast
  qed
qed

end
