(* ===== verification/Kstring.thy ===== *)
theory Kstring
  imports Riscv
begin

text \<open>
  Byte-addressed memory, little-endian 64-bit loads and stores, and the routines of
  \<^verbatim>\<open>kernel/string.c\<close> on it.  The loops of \<open>memset\<close> and
  \<open>memmove\<close> are translated as they are written and then shown equal to the closed
  forms \<open>mem_fill\<close> and \<open>mem_copy\<close>, which the rest of the development
  computes with.  A pointer result that is only the first argument is not returned.
\<close>

type_synonym mem = "u64 \<Rightarrow> u8"

section \<open>Words in memory\<close>

text \<open>A 64-bit load and store of the processor; RISC-V is little-endian.\<close>

definition load64 :: "mem \<Rightarrow> u64 \<Rightarrow> u64" where
  "load64 m a = fold (\<lambda>i v. v OR push_bit (8 * i) (ucast (m (a + of_nat i)))) [0..<8] 0"

definition store64 :: "mem \<Rightarrow> u64 \<Rightarrow> u64 \<Rightarrow> mem" where
  "store64 m a v =
     (\<lambda>x. if unat (x - a) < 8 then ucast (drop_bit (8 * unat (x - a)) v) else m x)"

section \<open>memset, memcmp, memmove\<close>

function memset_loop :: "mem \<Rightarrow> u64 \<Rightarrow> u8 \<Rightarrow> nat \<Rightarrow> nat \<Rightarrow> mem" where
  "memset_loop m cdst c i n =
     (if i < n then memset_loop (m(cdst + of_nat i := c)) cdst c (i + 1) n else m)"
  by pat_completeness auto
termination
  by (relation "measure (\<lambda>(m, cdst, c, i, n). n - i)") auto

definition memset :: "mem \<Rightarrow> u64 \<Rightarrow> u32 \<Rightarrow> u32 \<Rightarrow> mem" where
  "memset m dst c n = memset_loop m dst (ucast c) 0 (unat n)"

fun memcmp_loop :: "mem \<Rightarrow> u64 \<Rightarrow> u64 \<Rightarrow> nat \<Rightarrow> int" where
  "memcmp_loop m s1 s2 0 = 0"
| "memcmp_loop m s1 s2 (Suc n) =
     (if m s1 \<noteq> m s2 then uint (m s1) - uint (m s2) else memcmp_loop m (s1 + 1) (s2 + 1) n)"

definition memcmp :: "mem \<Rightarrow> u64 \<Rightarrow> u64 \<Rightarrow> u32 \<Rightarrow> int" where
  "memcmp m v1 v2 n = memcmp_loop m v1 v2 (unat n)"

text \<open>\<^verbatim>\<open>while(n-- > 0) *d++ = *s++\<close> and
  \<^verbatim>\<open>while(n-- > 0) *--d = *--s\<close>.\<close>

fun copy_up :: "mem \<Rightarrow> u64 \<Rightarrow> u64 \<Rightarrow> nat \<Rightarrow> mem" where
  "copy_up m d s 0 = m"
| "copy_up m d s (Suc n) = copy_up (m(d := m s)) (d + 1) (s + 1) n"

fun copy_down :: "mem \<Rightarrow> u64 \<Rightarrow> u64 \<Rightarrow> nat \<Rightarrow> mem" where
  "copy_down m d s 0 = m"
| "copy_down m d s (Suc n) = copy_down (m(d - 1 := m (s - 1))) (d - 1) (s - 1) n"

definition memmove :: "mem \<Rightarrow> u64 \<Rightarrow> u64 \<Rightarrow> u32 \<Rightarrow> mem" where
  "memmove m dst src n =
     (if n = 0 then m
      else if src < dst \<and> src + ucast n > dst
      then copy_down m (dst + ucast n) (src + ucast n) (unat n)
      else copy_up m dst src (unat n))"

definition memcpy :: "mem \<Rightarrow> u64 \<Rightarrow> u64 \<Rightarrow> u32 \<Rightarrow> mem" where
  "memcpy m dst src n = memmove m dst src n"

section \<open>Strings\<close>

fun strncmp_loop :: "mem \<Rightarrow> u64 \<Rightarrow> u64 \<Rightarrow> nat \<Rightarrow> int" where
  "strncmp_loop m p q 0 = 0"
| "strncmp_loop m p q (Suc n) =
     (if m p \<noteq> 0 \<and> m p = m q then strncmp_loop m (p + 1) (q + 1) n
      else uint (m p) - uint (m q))"

definition strncmp :: "mem \<Rightarrow> u64 \<Rightarrow> u64 \<Rightarrow> u32 \<Rightarrow> int" where
  "strncmp m p q n = strncmp_loop m p q (unat n)"

text \<open>The copying loop of \<open>strncpy\<close> gives back \<open>s\<close> and \<open>n\<close> as it leaves
  them: \<open>n\<close> has been decremented once more than the number of bytes it copied when it
  stops because \<open>n\<close> ran out.\<close>

function strncpy_copy :: "mem \<Rightarrow> u64 \<Rightarrow> u64 \<Rightarrow> int \<Rightarrow> mem \<times> u64 \<times> int" where
  "strncpy_copy m s t n =
     (if n > 0
      then let m' = m(s := m t) in
           if m' s \<noteq> 0 then strncpy_copy m' (s + 1) (t + 1) (n - 1) else (m', s + 1, n - 1)
      else (m, s, n - 1))"
  by pat_completeness auto
termination
  by (relation "measure (\<lambda>(m, s, t, n). nat n)") auto

function strncpy_pad :: "mem \<Rightarrow> u64 \<Rightarrow> int \<Rightarrow> mem" where
  "strncpy_pad m s n = (if n > 0 then strncpy_pad (m(s := 0)) (s + 1) (n - 1) else m)"
  by pat_completeness auto
termination
  by (relation "measure (\<lambda>(m, s, n). nat n)") auto

definition strncpy :: "mem \<Rightarrow> u64 \<Rightarrow> u64 \<Rightarrow> int \<Rightarrow> mem" where
  "strncpy m s t n = (let (m', s', n') = strncpy_copy m s t n in strncpy_pad m' s' n')"

function safestrcpy_copy :: "mem \<Rightarrow> u64 \<Rightarrow> u64 \<Rightarrow> int \<Rightarrow> mem \<times> u64" where
  "safestrcpy_copy m s t n =
     (if n - 1 > 0
      then let m' = m(s := m t) in
           if m' s \<noteq> 0 then safestrcpy_copy m' (s + 1) (t + 1) (n - 1) else (m', s + 1)
      else (m, s))"
  by pat_completeness auto
termination
  by (relation "measure (\<lambda>(m, s, t, n). nat n)") auto

definition safestrcpy :: "mem \<Rightarrow> u64 \<Rightarrow> u64 \<Rightarrow> int \<Rightarrow> mem" where
  "safestrcpy m s t n =
     (if n \<le> 0 then m else let (m', s') = safestrcpy_copy m s t n in m'(s' := 0))"

text \<open>\<open>strlen\<close> returns only when there is a NUL: \<open>None\<close> is the loop that never
  stops.\<close>

partial_function (option) strlen_loop :: "mem \<Rightarrow> u64 \<Rightarrow> nat \<Rightarrow> nat option" where
  "strlen_loop m s n = (if m (s + of_nat n) \<noteq> 0 then strlen_loop m s (n + 1) else Some n)"

definition strlen :: "mem \<Rightarrow> u64 \<Rightarrow> nat option" where
  "strlen m s = strlen_loop m s 0"

declare memset_loop.simps [simp del] strncpy_copy.simps [simp del] strncpy_pad.simps [simp del]
  safestrcpy_copy.simps [simp del]

section \<open>Closed forms\<close>

definition mem_fill :: "mem \<Rightarrow> u64 \<Rightarrow> nat \<Rightarrow> u8 \<Rightarrow> mem" where
  "mem_fill m d n c = (\<lambda>x. if unat (x - d) < n then c else m x)"

definition mem_copy :: "mem \<Rightarrow> u64 \<Rightarrow> u64 \<Rightarrow> nat \<Rightarrow> mem" where
  "mem_copy m d s n = (\<lambda>x. if unat (x - d) < n then m (s + (x - d)) else m x)"

lemma word_eq_base_iff:
  assumes "i < 2 ^ 64"
  shows "(x :: u64) = d + of_nat i \<longleftrightarrow> unat (x - d) = i"
proof
  assume "x = d + of_nat i"
  with assms show "unat (x - d) = i" by (simp add: unat_of_nat_small)
next
  assume "unat (x - d) = i"
  then have "x - d = of_nat i" by auto
  then show "x = d + of_nat i" by (simp add: algebra_simps)
qed

lemma memset_loop_fill:
  assumes "n \<le> 2 ^ 64"
  shows "memset_loop m d c i n = (\<lambda>x. if i \<le> unat (x - d) \<and> unat (x - d) < n then c else m x)"
  using assms
proof (induction m d c i n rule: memset_loop.induct)
  case (1 m d c i n)
  show ?case
  proof (cases "i < n")
    case True
    with "1.prems" have "i < 2 ^ 64" by simp
    note eq = word_eq_base_iff [OF this]
    have "memset_loop m d c i n = memset_loop (m(d + of_nat i := c)) d c (i + 1) n"
      using True by (simp add: memset_loop.simps [of m d c i n])
    also have "\<dots> = (\<lambda>x. if i + 1 \<le> unat (x - d) \<and> unat (x - d) < n then c
                        else (m(d + of_nat i := c)) x)"
      by (rule "1.IH" [OF True "1.prems"])
    finally show ?thesis using True by (auto simp: eq fun_eq_iff)
  qed (subst memset_loop.simps, auto simp: fun_eq_iff)
qed

lemma memset_fill: "memset m d c n = mem_fill m d (unat n) (ucast c)"
proof -
  have "unat n \<le> 2 ^ 64" using unat_u32_less [of n] by simp
  then show ?thesis by (simp add: memset_def memset_loop_fill mem_fill_def)
qed

text \<open>A forward copy is right unless the destination starts inside the source.\<close>

lemma copy_up_copy:
  assumes "unat s + n \<le> 2 ^ 64" "unat d + n \<le> 2 ^ 64" "d \<le> s \<or> unat s + n \<le> unat d"
    and "n < 2 ^ 64"
  shows "copy_up m d s n = mem_copy m d s n"
  using assms
proof (induction n arbitrary: m d s)
  case 0
  then show ?case by (simp add: mem_copy_def)
next
  case (Suc n)
  show ?case
  proof (cases "n = 0")
    case True
    have "unat (x - d) < 1 \<longleftrightarrow> x = d" for x :: u64 by (simp add: unat_eq_zero)
    with True show ?thesis by (auto simp: mem_copy_def fun_eq_iff)
  next
    case False
    have ds: "unat (d + 1) = unat d + 1" "unat (s + 1) = unat s + 1"
      using Suc.prems False by (simp_all add: unat_plus_no_wrap)
    have "copy_up m d s (Suc n) = mem_copy (m(d := m s)) (d + 1) (s + 1) n"
      using Suc.prems ds by (simp, intro Suc.IH) (auto simp: word_le_nat_alt)
    also have "\<dots> = mem_copy m d s (Suc n)"
    proof
      fix x :: u64
      define k where "k = x - d"
      have x: "x = d + k" by (simp add: k_def)
      show "mem_copy (m(d := m s)) (d + 1) (s + 1) n x = mem_copy m d s (Suc n) x"
      proof (cases "k = 0")
        case True
        have "unat (- 1 :: u64) = 2 ^ 64 - 1"
          by (simp add: unsigned_minus_1_eq_mask mask_eq_exp_minus_1)
        moreover have "n < 2 ^ 64 - 1" using Suc.prems(4) by simp
        ultimately show ?thesis using True x by (simp add: mem_copy_def)
      next
        case False
        then have k1: "unat (k - 1) = unat k - 1" "0 < unat k"
          by (simp_all add: unat_minus_one unat_gt_0)
        have "s + k \<noteq> d" if "unat k < Suc n"
        proof -
          have "unat (s + k) = unat s + unat k"
            using that Suc.prems by (simp add: unat_plus_no_wrap)
          then show ?thesis using that Suc.prems(3) k1(2) by (auto simp: word_le_nat_alt)
        qed
        with k1 False show ?thesis by (auto simp: mem_copy_def x algebra_simps)
      qed
    qed
    finally show ?thesis .
  qed
qed

text \<open>A backward copy, from the end pointers, is right when the destination starts after
  the source.\<close>

lemma copy_down_copy:
  assumes "unat s + n \<le> 2 ^ 64" "unat d + n \<le> 2 ^ 64" "s \<le> d"
  shows "copy_down m (d + of_nat n) (s + of_nat n) n = mem_copy m d s n"
  using assms
proof (induction n arbitrary: m)
  case 0
  then show ?case by (simp add: mem_copy_def)
next
  case (Suc n)
  let ?m = "m(d + of_nat n := m (s + of_nat n))"
  have n: "n < 2 ^ 64" using Suc.prems by simp
  have "copy_down m (d + of_nat (Suc n)) (s + of_nat (Suc n)) (Suc n) = mem_copy ?m d s n"
    using Suc by (simp add: algebra_simps)
  also have "\<dots> = mem_copy m d s (Suc n)"
  proof
    fix x :: u64
    define k where "k = x - d"
    have x: "x = d + k" by (simp add: k_def)
    have kn: "k = of_nat n \<longleftrightarrow> unat k = n" using n by (auto simp: unat_of_nat_small)
    have "s + k \<noteq> d + of_nat n" if "unat k < n"
    proof -
      have "unat (s + k) = unat s + unat k" "unat (d + of_nat n) = unat d + n"
        using that Suc.prems n by (simp_all add: unat_plus_no_wrap unat_of_nat_small)
      then show ?thesis using that Suc.prems(3) by (auto simp: word_le_nat_alt)
    qed
    then show "mem_copy ?m d s n x = mem_copy m d s (Suc n) x"
      by (auto simp: mem_copy_def x kn less_Suc_eq)
  qed
  finally show ?case .
qed

lemma memmove_copy:
  assumes "unat src + unat n < 2 ^ 64" "unat dst + unat n < 2 ^ 64"
  shows "memmove m dst src n = mem_copy m dst src (unat n)"
proof -
  have end_src: "unat (src + ucast n) = unat src + unat n"
    using assms(1) by (simp add: unat_plus_no_wrap)
  consider (down) "src < dst" "src + ucast n > dst"
    | (up) "\<not> (src < dst \<and> src + ucast n > dst)" "dst \<le> src \<or> unat src + unat n \<le> unat dst"
    using end_src by (simp add: word_less_nat_alt word_le_nat_alt) linarith
  then show ?thesis
  proof cases
    case down
    have "copy_down m (dst + ucast n) (src + ucast n) (unat n) = mem_copy m dst src (unat n)"
      using assms down(1) copy_down_copy [of src "unat n" dst m] by simp
    with down show ?thesis by (auto simp: memmove_def mem_copy_def)
  next
    case up
    have "copy_up m dst src (unat n) = mem_copy m dst src (unat n)"
      using assms up(2) by (intro copy_up_copy) simp_all
    with up(1) show ?thesis by (auto simp: memmove_def mem_copy_def)
  qed
qed

section \<open>Loads after stores\<close>

lemma bit_load_fold:
  "bit (fold (\<lambda>i v. v OR push_bit (8 * i) (ucast (m (a + of_nat i)))) [0..<k] 0 :: u64) n \<longleftrightarrow>
   n < 64 \<and> n < 8 * k \<and> bit (m (a + of_nat (n div 8)) :: u8) (n mod 8)"
proof (induction k)
  case 0
  then show ?case by simp
next
  case (Suc k)
  have "bit (push_bit (8 * k) (ucast (m (a + of_nat k)) :: u64)) n \<longleftrightarrow>
        n < 64 \<and> 8 * k \<le> n \<and> bit (m (a + of_nat k)) (n - 8 * k)"
    by (auto simp: bit_simps)
  moreover have "bit (m (a + of_nat k)) (n - 8 * k) \<longleftrightarrow>
        n < 8 * Suc k \<and> bit (m (a + of_nat (n div 8))) (n mod 8)" if "8 * k \<le> n"
  proof (cases "n < 8 * Suc k")
    case True
    with that have "n div 8 = k" "n - 8 * k = n mod 8" by (simp_all add: div_nat_eqI modulo_nat_def)
    with True show ?thesis by simp
  next
    case False
    then have "LENGTH(8) \<le> n - 8 * k" by simp
    with False show ?thesis using bit_imp_le_length by (metis not_le)
  qed
  ultimately show ?case using Suc by (auto simp: bit_or_iff)
qed

lemma bit_load64:
  "bit (load64 m a) n \<longleftrightarrow> n < 64 \<and> bit (m (a + of_nat (n div 8))) (n mod 8)"
  unfolding load64_def bit_load_fold by auto

lemma load64_cong:
  assumes "\<And>i. i < 8 \<Longrightarrow> m (a + of_nat i) = m' (a + of_nat i)"
  shows "load64 m a = load64 m' a"
  by (rule bit_word_eqI) (use assms in \<open>simp add: bit_load64\<close>)

lemma load64_store64_same [mem_simps]: "load64 (store64 m a v) a = v"
proof (rule bit_word_eqI)
  fix n :: nat assume "n < LENGTH(64)"
  then have "n div 8 < 8" by simp
  then have "unat (of_nat (n div 8) :: u64) = n div 8" by (simp add: unat_of_nat_small)
  with \<open>n div 8 < 8\<close> show "bit (load64 (store64 m a v) a) n = bit v n"
    using \<open>n < LENGTH(64)\<close> by (auto simp: bit_load64 store64_def bit_simps)
qed

definition word_aligned :: "u64 \<Rightarrow> bool" where
  "word_aligned a \<longleftrightarrow> unat a mod 8 = 0"

lemma word_aligned_apart:
  assumes "word_aligned a" "word_aligned b" "a \<noteq> b" "i < 8"
  shows "\<not> unat (b + of_nat i - a) < 8"
proof
  assume near: "unat (b + of_nat i - a) < 8"
  obtain k l where kl: "unat a = 8 * k" "unat b = 8 * l"
    using assms(1,2) unfolding word_aligned_def by (metis mod_0_imp_dvd dvd_def)
  have room: "8 * k + 8 \<le> 2 ^ 64" "8 * l + 8 \<le> 2 ^ 64"
    using unat_u64_less [of a] unat_u64_less [of b] kl by simp_all
  have "unat (b + of_nat i) = 8 * l + i"
    using room(2) assms(4) kl by (simp add: unat_plus_no_wrap unat_of_nat_small)
  with near room(1) have "8 * k \<le> 8 * l + i" "8 * l + i < 8 * k + 8"
    using word_diff_less_iff [of a 8 "b + of_nat i"] kl by (simp_all add: word_le_nat_alt)
  then have "k = l" using assms(4) by linarith
  with kl assms(3) show False by (simp add: word_unat_eq_iff)
qed

lemma load64_store64_other [mem_simps]:
  "word_aligned a \<Longrightarrow> word_aligned b \<Longrightarrow> a \<noteq> b \<Longrightarrow> load64 (store64 m a v) b = load64 m b"
  by (rule load64_cong) (simp add: store64_def word_aligned_apart)

lemma store64_outside: "\<not> unat (x - a) < 8 \<Longrightarrow> store64 m a v x = m x"
  by (simp add: store64_def)

section \<open>Byte strings in memory\<close>

definition get_bytes :: "mem \<Rightarrow> u64 \<Rightarrow> nat \<Rightarrow> u8 list" where
  "get_bytes m a n = map (\<lambda>i. m (a + of_nat i)) [0..<n]"

definition put_bytes :: "mem \<Rightarrow> u64 \<Rightarrow> u8 list \<Rightarrow> mem" where
  "put_bytes m a ys = (\<lambda>x. if unat (x - a) < length ys then ys ! unat (x - a) else m x)"

definition str_at :: "mem \<Rightarrow> u64 \<Rightarrow> u8 list \<Rightarrow> bool" where
  "str_at m a xs \<longleftrightarrow>
     get_bytes m a (length xs) = xs \<and> 0 \<notin> set xs \<and> m (a + of_nat (length xs)) = 0"

lemma length_get_bytes [simp]: "length (get_bytes m a n) = n"
  by (simp add: get_bytes_def)

lemma nth_get_bytes [simp]: "i < n \<Longrightarrow> get_bytes m a n ! i = m (a + of_nat i)"
  by (simp add: get_bytes_def)

lemma get_bytes_Suc: "get_bytes m a (Suc n) = m a # get_bytes m (a + 1) n"
  unfolding get_bytes_def by (simp add: upt_conv_Cons map_Suc_upt [symmetric] comp_def
      algebra_simps del: upt_Suc)

lemma get_bytes_0 [simp]: "get_bytes m a 0 = []"
  by (simp add: get_bytes_def)

lemma put_bytes_Nil [simp]: "put_bytes m a [] = m"
  by (simp add: put_bytes_def)

lemma put_bytes_Cons:
  assumes "length ys < 2 ^ 64"
  shows "put_bytes (m(a := y)) (a + 1) ys = put_bytes m a (y # ys)"
proof
  fix x :: u64
  define k where "k = x - a"
  have x: "x = a + k" by (simp add: k_def)
  show "put_bytes (m(a := y)) (a + 1) ys x = put_bytes m a (y # ys) x"
  proof (cases "k = 0")
    case True
    have "unat (- 1 :: u64) = 2 ^ 64 - 1"
      by (simp add: unsigned_minus_1_eq_mask mask_eq_exp_minus_1)
    with True x assms show ?thesis by (auto simp: put_bytes_def)
  next
    case False
    then have "unat (k - 1) = unat k - 1" "0 < unat k"
      by (simp_all add: unat_minus_one unat_gt_0)
    with False x show ?thesis by (auto simp: put_bytes_def algebra_simps nth_Cons')
  qed
qed

lemma put_bytes_single: "put_bytes m a [y] = m(a := y)"
  using put_bytes_Cons [of "[]" m a y] by simp

lemma get_put_bytes:
  assumes "length ys < 2 ^ 64"
  shows "get_bytes (put_bytes m a ys) a (length ys) = ys"
  using assms by (intro nth_equalityI) (auto simp: put_bytes_def unat_of_nat_small)

lemma str_at_Nil [simp]: "str_at m a [] \<longleftrightarrow> m a = 0"
  by (simp add: str_at_def)

lemma str_at_Cons [simp]: "str_at m a (x # xs) \<longleftrightarrow> m a = x \<and> x \<noteq> 0 \<and> str_at m (a + 1) xs"
  by (auto simp: str_at_def get_bytes_Suc algebra_simps)

lemma str_at_upd:
  assumes "\<And>j. j \<le> length xs \<Longrightarrow> s \<noteq> a + of_nat j"
  shows "str_at (m(s := v)) a xs = str_at m a xs"
  using assms
proof (induction xs arbitrary: a)
  case Nil
  then show ?case using Nil [of 0] by auto
next
  case (Cons x xs)
  have "str_at (m(s := v)) (a + 1) xs = str_at m (a + 1) xs"
    using Cons.prems [of "Suc _"] by (intro Cons.IH) (auto simp: algebra_simps)
  moreover have "s \<noteq> a" using Cons.prems [of 0] by simp
  ultimately show ?case by (simp add: fun_upd_def)
qed

text \<open>\<open>ranges_apart s n t k\<close>: the \<open>n\<close> bytes at \<open>s\<close> and the \<open>k\<close> bytes at
  \<open>t\<close> do not overlap.\<close>

definition ranges_apart :: "u64 \<Rightarrow> nat \<Rightarrow> u64 \<Rightarrow> nat \<Rightarrow> bool" where
  "ranges_apart s n t k \<longleftrightarrow> (\<forall>i<n. \<forall>j<k. s + of_nat i \<noteq> t + of_nat j)"

lemma ranges_apart_Suc:
  assumes "ranges_apart s (Suc n) t (Suc k)"
  shows "ranges_apart (s + 1) n (t + 1) k"
  unfolding ranges_apart_def
proof (intro allI impI)
  fix i j assume "i < n" "j < k"
  then have "s + of_nat (Suc i) \<noteq> t + of_nat (Suc j)"
    using assms unfolding ranges_apart_def by blast
  then show "s + 1 + of_nat i \<noteq> t + 1 + of_nat j" by (simp add: algebra_simps)
qed

lemma str_at_after_write:
  assumes "ranges_apart s (Suc n) t (Suc (Suc (length xs)))" "str_at m (t + 1) xs"
  shows "str_at (m(s := v)) (t + 1) xs"
proof (subst str_at_upd)
  fix j assume "j \<le> length xs"
  then have "s + of_nat 0 \<noteq> t + of_nat (Suc j)"
    using assms(1) unfolding ranges_apart_def by (meson less_Suc_eq_le Suc_less_eq zero_less_Suc)
  then show "s \<noteq> t + 1 + of_nat j" by (simp add: algebra_simps)
qed (rule assms(2))

lemma safestrcpy_copy_spec:
  assumes "str_at m t xs" "n < 2 ^ 63" "ranges_apart s (nat n) t (Suc (length xs))"
    and "ys = (if int (length xs) < n - 1 then xs @ [0] else take (nat (n - 1)) xs)"
  shows "safestrcpy_copy m s t n = (put_bytes m s ys, s + of_nat (length ys))"
  using assms
proof (induction xs arbitrary: m s t n ys)
  case Nil
  then show ?case by (subst safestrcpy_copy.simps) (auto simp: put_bytes_single)
next
  case (Cons x xs)
  show ?case
  proof (cases "n - 1 > 0")
    case False
    with Cons.prems show ?thesis by (subst safestrcpy_copy.simps) auto
  next
    case True
    define zs where "zs = (if int (length xs) < n - 1 - 1 then xs @ [0] else take (nat (n - 1 - 1)) xs)"
    have nn: "nat n = Suc (nat (n - 1))" using True by simp
    have apart: "ranges_apart s (Suc (nat (n - 1))) t (Suc (Suc (length xs)))"
      using Cons.prems(3) nn by simp
    have ys: "ys = x # zs"
    proof -
      have "nat (n - 1) = Suc (nat (n - 1 - 1))" using True by simp
      with Cons.prems(4) show ?thesis by (auto simp: zs_def)
    qed
    have len: "length zs < 2 ^ 64" using Cons.prems(2) True by (auto simp: zs_def)
    have "safestrcpy_copy m s t n = safestrcpy_copy (m(s := x)) (s + 1) (t + 1) (n - 1)"
      using True Cons.prems(1) by (simp add: safestrcpy_copy.simps [of m s t n])
    also have "\<dots> = (put_bytes (m(s := x)) (s + 1) zs, s + 1 + of_nat (length zs))"
    proof (rule Cons.IH)
      show "str_at (m(s := x)) (t + 1) xs"
        by (rule str_at_after_write [OF apart]) (use Cons.prems(1) in simp)
      show "ranges_apart (s + 1) (nat (n - 1)) (t + 1) (Suc (length xs))"
        by (rule ranges_apart_Suc [OF apart])
    qed (use Cons.prems(2) zs_def in simp_all)
    finally show ?thesis using len by (simp add: ys put_bytes_Cons add.assoc)
  qed
qed

lemma safestrcpy_bytes:
  assumes "str_at m t xs" "0 < n" "n < 2 ^ 63" "ranges_apart s (nat n) t (Suc (length xs))"
    and "ys = (if int (length xs) < n - 1 then xs @ [0, 0] else take (nat (n - 1)) xs @ [0])"
  shows "safestrcpy m s t n = put_bytes m s ys"
proof -
  define zs where "zs = (if int (length xs) < n - 1 then xs @ [0] else take (nat (n - 1)) xs)"
  have "length zs < 2 ^ 64" using assms(2,3) by (auto simp: zs_def)
  then have "(put_bytes m s zs)(s + of_nat (length zs) := 0) = put_bytes m s (zs @ [0])"
    by (auto simp: put_bytes_def fun_eq_iff nth_append word_eq_base_iff less_Suc_eq)
  moreover have "ys = zs @ [0]" using assms(5) by (simp add: zs_def)
  ultimately show ?thesis
    using assms safestrcpy_copy_spec [OF assms(1,3,4) zs_def] by (simp add: safestrcpy_def)
qed

lemma put_bytes_append:
  assumes "length ys + length zs \<le> 2 ^ 64"
  shows "put_bytes (put_bytes m a ys) (a + of_nat (length ys)) zs = put_bytes m a (ys @ zs)"
  using assms
proof (induction ys arbitrary: m a)
  case Nil
  then show ?case by simp
next
  case (Cons y ys)
  have "put_bytes (put_bytes m a (y # ys)) (a + of_nat (length (y # ys))) zs
      = put_bytes (put_bytes (m(a := y)) (a + 1) ys) (a + 1 + of_nat (length ys)) zs"
    using Cons.prems by (simp add: put_bytes_Cons add.assoc)
  also have "\<dots> = put_bytes (m(a := y)) (a + 1) (ys @ zs)"
    using Cons.prems by (intro Cons.IH) simp
  also have "\<dots> = put_bytes m a ((y # ys) @ zs)"
    using Cons.prems by (simp add: put_bytes_Cons)
  finally show ?case .
qed

lemma strncpy_pad_zero: "n < 2 ^ 63 \<Longrightarrow> strncpy_pad m s n = put_bytes m s (replicate (nat n) 0)"
proof (induction m s n rule: strncpy_pad.induct)
  case (1 m s n)
  show ?case
  proof (cases "n > 0")
    case True
    then have n: "replicate (nat n) 0 = 0 # replicate (nat (n - 1)) (0 :: u8)"
      by (simp flip: replicate_Suc)
    have "strncpy_pad m s n = strncpy_pad (m(s := 0)) (s + 1) (n - 1)"
      using True by (simp add: strncpy_pad.simps [of m s n])
    also have "\<dots> = put_bytes (m(s := 0)) (s + 1) (replicate (nat (n - 1)) 0)"
      using True "1.prems" by (intro "1.IH") simp_all
    also have "\<dots> = put_bytes m s (replicate (nat n) 0)"
      using "1.prems" unfolding n by (intro put_bytes_Cons) simp
    finally show ?thesis .
  qed (simp add: strncpy_pad.simps [of m s n])
qed

lemma strncpy_copy_spec:
  assumes "str_at m t xs" "0 \<le> n" "n < 2 ^ 63" "ranges_apart s (nat n) t (Suc (length xs))"
  shows "strncpy_copy m s t n =
    (if int (length xs) < n
     then (put_bytes m s (xs @ [0]), s + of_nat (length xs) + 1, n - int (length xs) - 1)
     else (put_bytes m s (take (nat n) xs), s + of_nat (nat n), - 1))"
  using assms
proof (induction xs arbitrary: m s t n)
  case Nil
  then show ?case by (subst strncpy_copy.simps) (auto simp: put_bytes_single)
next
  case (Cons x xs)
  show ?case
  proof (cases "n > 0")
    case False
    with Cons.prems show ?thesis by (subst strncpy_copy.simps) auto
  next
    case True
    have nn: "nat n = Suc (nat (n - 1))" using True by simp
    have apart: "ranges_apart s (Suc (nat (n - 1))) t (Suc (Suc (length xs)))"
      using Cons.prems(4) nn by simp
    have "strncpy_copy m s t n = strncpy_copy (m(s := x)) (s + 1) (t + 1) (n - 1)"
      using True Cons.prems(1) by (simp add: strncpy_copy.simps [of m s t n])
    also have "\<dots> = (if int (length xs) < n - 1
      then (put_bytes (m(s := x)) (s + 1) (xs @ [0]), s + 1 + of_nat (length xs) + 1,
            n - 1 - int (length xs) - 1)
      else (put_bytes (m(s := x)) (s + 1) (take (nat (n - 1)) xs), s + 1 + of_nat (nat (n - 1)), - 1))"
    proof (rule Cons.IH)
      show "str_at (m(s := x)) (t + 1) xs"
        by (rule str_at_after_write [OF apart]) (use Cons.prems(1) in simp)
      show "ranges_apart (s + 1) (nat (n - 1)) (t + 1) (Suc (length xs))"
        by (rule ranges_apart_Suc [OF apart])
    qed (use Cons.prems True in simp_all)
    finally have eq: "strncpy_copy m s t n = \<dots>" .
    show ?thesis
    proof (cases "int (length xs) < n - 1")
      case True
      then have "length (xs @ [0 :: u8]) < 2 ^ 64" using Cons.prems(3) by simp
      from put_bytes_Cons [OF this, of m s x] True eq show ?thesis by simp
    next
      case False
      have "length (take (nat (n - 1)) xs) < 2 ^ 64" using Cons.prems(3) by simp
      from put_bytes_Cons [OF this, of m s x] False eq nn show ?thesis by simp
    qed
  qed
qed

lemma strncpy_bytes:
  assumes "str_at m t xs" "0 \<le> n" "n < 2 ^ 63" "ranges_apart s (nat n) t (Suc (length xs))"
  shows "strncpy m s t n =
    put_bytes m s (take (nat n) xs @ replicate (nat n - length xs) 0)"
proof (cases "int (length xs) < n")
  case True
  define k where "k = nat n - length xs - 1"
  have k: "nat (n - int (length xs) - 1) = k" "nat n - length xs = Suc k" "length xs + 1 + k < 2 ^ 64"
    using True assms(3) by (simp_all add: k_def)
  have "strncpy m s t n =
      put_bytes (put_bytes m s (xs @ [0])) (s + of_nat (length (xs @ [0]))) (replicate k 0)"
    using strncpy_copy_spec [OF assms] True assms(3) k(1)
    by (simp add: strncpy_def strncpy_pad_zero ac_simps)
  also have "\<dots> = put_bytes m s ((xs @ [0]) @ replicate k 0)"
    using k(3) by (intro put_bytes_append) simp
  finally show ?thesis using True k(2) by simp
next
  case False
  then show ?thesis using strncpy_copy_spec [OF assms] assms(2)
    by (simp add: strncpy_def strncpy_pad_zero)
qed

lemma strlen_loop_str_at:
  assumes "str_at m (s + of_nat n) xs"
  shows "strlen_loop m s n = Some (n + length xs)"
  using assms
proof (induction xs arbitrary: n)
  case Nil
  then show ?case by (subst strlen_loop.simps) simp
next
  case (Cons x xs)
  then have "strlen_loop m s (n + 1) = Some (n + 1 + length xs)"
    by (intro Cons.IH) (simp add: algebra_simps)
  with Cons.prems show ?case by (subst strlen_loop.simps) simp
qed

lemma strlen_str_at: "str_at m s xs \<Longrightarrow> strlen m s = Some (length xs)"
  using strlen_loop_str_at [of m s 0 xs] by (simp add: strlen_def)

text \<open>\<open>strncmp\<close> compares the first \<open>n\<close> bytes up to the NUL.\<close>

lemma strncmp_loop_eq_0:
  assumes "str_at m p xs" "str_at m q ys"
  shows "strncmp_loop m p q n = 0 \<longleftrightarrow> take n xs = take n ys"
  using assms
proof (induction n arbitrary: p q xs ys)
  case 0
  then show ?case by simp
next
  case (Suc n)
  then show ?case
    by (cases xs; cases ys) (auto simp: word_uint_eq_iff)
qed

end
