(* ===== verification/Physmem.thy ===== *)
theory Physmem
  imports Kstring
begin

text \<open>
  Page-granular reasoning about physical memory: which page a byte belongs to, what a
  64-bit access and the page-sized \<open>memset\<close> and \<open>memmove\<close> calls of the kernel
  touch, and the frame rules built from that.
\<close>

section \<open>The page of an address\<close>

lemma page_diff_iff:
  assumes "pg_aligned p"
  shows "unat (x - p) < 4096 \<longleftrightarrow> PGROUNDDOWN x = p"
proof
  assume "unat (x - p) < 4096"
  with assms have "PGROUNDDOWN (p + (x - p)) = p" by (intro PGROUNDDOWN_off)
  then show "PGROUNDDOWN x = p" by simp
next
  assume "PGROUNDDOWN x = p"
  then show "unat (x - p) < 4096" using page_off_lt [of x] by simp
qed

lemma pg_aligned_word_aligned: "pg_aligned p \<Longrightarrow> word_aligned p"
proof -
  assume "pg_aligned p"
  then obtain k where "unat p = 8 * (512 * k)" by (auto elim: pg_alignedE)
  then show ?thesis unfolding word_aligned_def by (simp only: mod_mult_self1_is_0)
qed

lemma word_aligned_page_off:
  assumes "word_aligned a"
  shows "unat a mod 4096 \<le> 4088"
proof -
  obtain k where k: "unat a = 8 * k"
    using assms unfolding word_aligned_def by (metis mod_0_imp_dvd dvd_def)
  have "8 * k mod 4096 = 8 * (k mod 512)" using mult_mod_right [of 8 k 512] by simp
  moreover have "k mod 512 < 512" by simp
  ultimately show ?thesis using k by simp
qed

lemma page_of_word:
  assumes "word_aligned a" "i < 8"
  shows "PGROUNDDOWN (a + of_nat i) = PGROUNDDOWN a"
proof -
  have "a + of_nat i = PGROUNDDOWN a + (a - PGROUNDDOWN a + of_nat i)" by simp
  also have "PGROUNDDOWN \<dots> = PGROUNDDOWN a"
  proof (rule PGROUNDDOWN_off)
    have "unat (a - PGROUNDDOWN a + of_nat i) = unat a mod 4096 + i"
      using assms(2) by (subst unat_plus_no_wrap) (simp_all add: page_off_of unat_of_nat_small
          less_le_trans [OF mod_less_divisor])
    then show "unat (a - PGROUNDDOWN a + of_nat i) < 4096"
      using word_aligned_page_off [OF assms(1)] assms(2) by simp
  qed simp
  finally show ?thesis .
qed

lemma page_of_word_diff:
  assumes "word_aligned a" "unat (x - a) < 8"
  shows "PGROUNDDOWN x = PGROUNDDOWN a"
  using page_of_word [OF assms] by simp

lemma load64_page_cong:
  assumes "word_aligned a" "\<And>x. PGROUNDDOWN x = PGROUNDDOWN a \<Longrightarrow> m x = m' x"
  shows "load64 m a = load64 m' a"
  by (rule load64_cong) (use assms page_of_word in simp)

lemma store64_other_page [mem_simps]:
  "word_aligned a \<Longrightarrow> PGROUNDDOWN x \<noteq> PGROUNDDOWN a \<Longrightarrow> store64 m a v x = m x"
  by (metis page_of_word_diff store64_outside)

section \<open>Page-sized fills and copies\<close>

lemma fill_page [mem_simps]:
  "pg_aligned p \<Longrightarrow> mem_fill m p 4096 c x = (if PGROUNDDOWN x = p then c else m x)"
  by (simp add: mem_fill_def page_diff_iff)

lemma copy_page [mem_simps]:
  "pg_aligned p \<Longrightarrow> mem_copy m p q 4096 x = (if PGROUNDDOWN x = p then m (q + (x - p)) else m x)"
  by (simp add: mem_copy_def page_diff_iff)

lemma memset_page: "memset m p c 4096 = mem_fill m p 4096 (ucast c)"
  by (simp add: memset_fill)

lemma memmove_page:
  assumes "p < 0x100000000000000" "q < 0x100000000000000"
  shows "memmove m p q 4096 = mem_copy m p q 4096"
proof -
  have "unat p < 0x100000000000000" "unat q < 0x100000000000000"
    using assms by (simp_all add: word_less_nat_alt)
  then show ?thesis using memmove_copy [of q 4096 p m] by simp
qed

lemma load64_zero: "(\<And>i. i < 8 \<Longrightarrow> m (a + of_nat i) = 0) \<Longrightarrow> load64 m a = 0"
  by (rule bit_word_eqI) (simp add: bit_load64)

lemma load64_fill_page:
  assumes "pg_aligned p" "word_aligned a"
  shows "load64 (mem_fill m p 4096 c) a =
    (if PGROUNDDOWN a = p then load64 (\<lambda>_. c) a else load64 m a)"
proof (cases "PGROUNDDOWN a = p")
  case True
  then show ?thesis using assms by (auto simp: mem_simps intro!: load64_page_cong)
next
  case False
  then show ?thesis using assms by (auto simp: mem_simps intro!: load64_page_cong)
qed

lemma load64_zero_page [mem_simps]:
  assumes "pg_aligned p" "word_aligned a"
  shows "load64 (mem_fill m p 4096 0) a = (if PGROUNDDOWN a = p then 0 else load64 m a)"
  using load64_fill_page [OF assms] load64_zero [of "\<lambda>_. 0" a] by simp

section \<open>Slots of a page\<close>

text \<open>The \<open>i\<close>th 64-bit slot of page \<open>t\<close>: where entry \<open>i\<close> of a page table lives.\<close>

definition slot :: "u64 \<Rightarrow> u64 \<Rightarrow> u64" where
  "slot t i = t + 8 * i"

lemma unat_slot_off: "i < 512 \<Longrightarrow> unat (8 * i :: u64) = 8 * unat i"
proof -
  assume "i < 512"
  then have "unat i < 512" by (simp add: word_less_nat_alt)
  then show ?thesis by (simp add: unat_word_ariths)
qed

lemma PGROUNDDOWN_slot [simp]:
  assumes "pg_aligned t" "i < 512"
  shows "PGROUNDDOWN (slot t i) = t"
proof -
  have "unat (8 * i) < 4096" using unat_slot_off [OF assms(2)] assms(2) by (simp add: word_less_nat_alt)
  then show ?thesis using assms(1) by (simp add: slot_def PGROUNDDOWN_off)
qed

lemma unat_slot: "pg_aligned t \<Longrightarrow> i < 512 \<Longrightarrow> unat (slot t i) = unat t + 8 * unat i"
  by (simp add: slot_def unat_page_off unat_slot_off word_less_nat_alt)

lemma slot_word_aligned [simp]: "pg_aligned t \<Longrightarrow> i < 512 \<Longrightarrow> word_aligned (slot t i)"
  using pg_aligned_word_aligned [of t] by (simp add: word_aligned_def unat_slot)

lemma slot_inject:
  assumes "pg_aligned t" "pg_aligned u" "i < 512" "j < 512"
  shows "slot t i = slot u j \<longleftrightarrow> t = u \<and> i = j"
proof
  assume eq: "slot t i = slot u j"
  then have "t = u" using assms by (metis PGROUNDDOWN_slot)
  moreover have "unat i = unat j"
    using arg_cong [OF eq, of unat] \<open>t = u\<close> assms by (simp add: unat_slot)
  ultimately show "t = u \<and> i = j" by (simp add: word_unat_eq_iff)
qed simp

lemma slot_nonzero: "t \<noteq> 0 \<Longrightarrow> pg_aligned t \<Longrightarrow> i < 512 \<Longrightarrow> slot t i \<noteq> 0"
  by (simp add: word_unat_eq_iff unat_slot)

lemma store_slot_other [mem_simps]:
  "pg_aligned t \<Longrightarrow> i < 512 \<Longrightarrow> PGROUNDDOWN x \<noteq> t \<Longrightarrow> store64 m (slot t i) v x = m x"
  by (simp add: store64_other_page)

end
