(* ===== verification/Allocator.thy ===== *)
theory Allocator
  imports Prelude
begin

text \<open>
  The contract of a reference-counted page allocator, as its clients in the kernel use
  it: allocation takes a page nobody refers to, sharing adds a reference, freeing drops
  one and returns the page to the pool with the last.  The lemmas are what clients rely
  on, proved from the contract alone.
\<close>

locale page_allocator =
  fixes alloc :: "'s \<Rightarrow> 'p \<times> 's"
    and free :: "'p \<Rightarrow> 's \<Rightarrow> 's kres"
    and share :: "'p \<Rightarrow> 's \<Rightarrow> 's"
    and null :: 'p
    and pool :: "'s \<Rightarrow> 'p list \<Rightarrow> bool"
    and count :: "'s \<Rightarrow> 'p \<Rightarrow> int"
    and managed :: "'s \<Rightarrow> 'p \<Rightarrow> bool"
  assumes pool_distinct: "pool s ps \<Longrightarrow> distinct ps"
    and pool_managed: "pool s ps \<Longrightarrow> p \<in> set ps \<Longrightarrow> managed s p \<and> p \<noteq> null"
    and pool_count: "pool s ps \<Longrightarrow> managed s p \<Longrightarrow> p \<in> set ps \<longleftrightarrow> count s p = 0"
    and pool_nonneg: "pool s ps \<Longrightarrow> managed s p \<Longrightarrow> 0 \<le> count s p"
    and alloc_none: "pool s [] \<Longrightarrow> alloc s = (null, s)"
    and alloc_some: "pool s (p # ps) \<Longrightarrow>
      \<exists>s'. alloc s = (p, s') \<and> pool s' ps \<and> managed s' = managed s \<and> count s' p = 1 \<and>
           (\<forall>q. managed s q \<longrightarrow> q \<noteq> p \<longrightarrow> count s' q = count s q)"
    and share_pool: "pool s ps \<Longrightarrow> managed s p \<Longrightarrow> 0 < count s p \<Longrightarrow>
      pool (share p s) ps \<and> managed (share p s) = managed s \<and>
      count (share p s) p = count s p + 1 \<and>
      (\<forall>q. managed s q \<longrightarrow> q \<noteq> p \<longrightarrow> count (share p s) q = count s q)"
    and free_shared: "pool s ps \<Longrightarrow> managed s p \<Longrightarrow> 1 < count s p \<Longrightarrow>
      \<exists>s'. free p s = Ok s' \<and> pool s' ps \<and> managed s' = managed s \<and>
           count s' p = count s p - 1 \<and>
           (\<forall>q. managed s q \<longrightarrow> q \<noteq> p \<longrightarrow> count s' q = count s q)"
    and free_last: "pool s ps \<Longrightarrow> managed s p \<Longrightarrow> count s p = 1 \<Longrightarrow>
      \<exists>s'. free p s = Ok s' \<and> pool s' (p # ps) \<and> managed s' = managed s \<and>
           (\<forall>q. managed s q \<longrightarrow> q \<noteq> p \<longrightarrow> count s' q = count s q)"
begin

lemma alloc_fresh:
  assumes "pool s ps" "alloc s = (p, s')" "p \<noteq> null"
  shows "managed s p" "count s p = 0" "count s' p = 1" "pool s' (tl ps)" "ps = p # tl ps"
proof -
  obtain q qs where ps: "ps = q # qs" using assms alloc_none by (cases ps) auto
  then have q: "q = p" "pool s' qs" "count s' p = 1" using alloc_some [of s q qs] assms by auto
  show "managed s p" using pool_managed [OF assms(1)] ps q by auto
  then show "count s p = 0" using pool_count [OF assms(1)] ps q by auto
  show "count s' p = 1" "pool s' (tl ps)" "ps = p # tl ps" using ps q by auto
qed

lemma alloc_fails_iff: "pool s ps \<Longrightarrow> fst (alloc s) = null \<longleftrightarrow> ps = []"
  using alloc_none alloc_some pool_managed by (cases ps) fastforce+

text \<open>Freeing a managed, referenced page never panics.\<close>

lemma free_ok:
  assumes "pool s ps" "managed s p" "0 < count s p"
  shows "\<exists>s' ps'. free p s = Ok s' \<and> pool s' ps' \<and> managed s' = managed s \<and>
           count s' p = count s p - 1 \<and> (\<forall>q. managed s q \<longrightarrow> q \<noteq> p \<longrightarrow> count s' q = count s q)"
proof (cases "count s p = 1")
  case True
  obtain s' where s': "free p s = Ok s'" "pool s' (p # ps)" "managed s' = managed s"
    "\<forall>q. managed s q \<longrightarrow> q \<noteq> p \<longrightarrow> count s' q = count s q"
    using free_last [OF assms(1,2) True] by blast
  moreover have "count s' p = 0" using pool_count [OF s'(2), of p] s'(3) assms(2) by simp
  ultimately show ?thesis using True by auto
next
  case False
  with assms(3) have "1 < count s p" by simp
  from free_shared [OF assms(1,2) this] show ?thesis by blast
qed

text \<open>Sharing a page and freeing it again restores every count and the pool.\<close>

lemma free_share:
  assumes "pool s ps" "managed s p" "0 < count s p"
  shows "\<exists>s'. free p (share p s) = Ok s' \<and> pool s' ps \<and>
           (\<forall>q. managed s q \<longrightarrow> count s' q = count s q)"
proof -
  have sh: "pool (share p s) ps" "managed (share p s) = managed s"
    "count (share p s) p = count s p + 1"
    "\<forall>q. managed s q \<longrightarrow> q \<noteq> p \<longrightarrow> count (share p s) q = count s q"
    using share_pool [OF assms] by auto
  with assms(2,3) have "managed (share p s) p" "1 < count (share p s) p" by simp_all
  from free_shared [OF sh(1) this] sh show ?thesis by fastforce
qed

fun alloc_n :: "nat \<Rightarrow> 's \<Rightarrow> 'p list \<times> 's" where
  "alloc_n 0 s = ([], s)"
| "alloc_n (Suc n) s = (let (p, s) = alloc s; (ps, s) = alloc_n n s in (p # ps, s))"

text \<open>Repeated allocation hands out the pool in order: no page twice, none in use.\<close>

lemma alloc_n_take:
  "pool s ps \<Longrightarrow> n \<le> length ps \<Longrightarrow>
     fst (alloc_n n s) = take n ps \<and> pool (snd (alloc_n n s)) (drop n ps)"
proof (induction n arbitrary: s ps)
  case 0
  then show ?case by simp
next
  case (Suc n)
  then obtain p qs where ps: "ps = p # qs" by (cases ps) auto
  then obtain s' where "alloc s = (p, s')" "pool s' qs" using alloc_some Suc.prems(1) by blast
  with Suc.IH [of s' qs] Suc.prems(2) ps show ?case by (simp add: case_prod_beta)
qed

end

end
