(* ===== verification/Kalloc.thy ===== *)
theory Kalloc
  imports Physmem Allocator
begin

text \<open>
  The physical page allocator of \<^verbatim>\<open>kernel/kalloc.c\<close>, with the reference
  counts that copy-on-write fork shares pages by.  The free list is the linked list the
  code threads through the free pages themselves.  Each operation is modelled as the
  state change it makes while it holds \<^verbatim>\<open>kmem.lock\<close>; \<open>kfree\<close>, which
  takes the lock twice, is two definitions, and the last section interleaves them with the
  other operations.
\<close>

section \<open>State\<close>

text \<open>
  \<^verbatim>\<open>struct kmem\<close> and the memory it manages.  \<open>kend\<close> is the linker symbol
  \<^verbatim>\<open>end\<close>, the first address after the kernel image.  A \<^verbatim>\<open>struct run *\<close>
  is the address of a free page whose first word is the \<^verbatim>\<open>next\<close> pointer; 0 is
  the null pointer.
\<close>

record kmem =
  pmem :: mem
  kend :: u64
  freelist :: u64
  refcnt :: "nat \<Rightarrow> int"

definition pfn :: "u64 \<Rightarrow> nat" where
  "pfn pa = unat (pa div PGSIZE)"

section \<open>Operations\<close>

text \<open>The first critical section of \<open>kfree\<close>: drop one reference and report whether it
  was the last.\<close>

definition kfree_dec :: "u64 \<Rightarrow> ('a kmem_scheme) \<Rightarrow> (bool \<times> 'a kmem_scheme) kres" where
  "kfree_dec pa s =
     (if pa mod PGSIZE \<noteq> 0 \<or> pa < kend s \<or> pa \<ge> PHYSTOP then Panic ''kfree''
      else let s = s\<lparr>refcnt := (refcnt s)(pfn pa := refcnt s (pfn pa) - 1)\<rparr>
           in Ok (refcnt s (pfn pa) = 0, s))"

text \<open>Fill with junk to catch dangling refs; then the second critical section links the
  page at the head of the free list.\<close>

definition kfree_push :: "u64 \<Rightarrow> ('a kmem_scheme) \<Rightarrow> 'a kmem_scheme" where
  "kfree_push pa s =
     (let s = s\<lparr>pmem := memset (pmem s) pa 1 (ucast PGSIZE)\<rparr>;
          s = s\<lparr>pmem := store64 (pmem s) pa (freelist s)\<rparr>
      in s\<lparr>freelist := pa\<rparr>)"

definition kfree :: "u64 \<Rightarrow> ('a kmem_scheme) \<Rightarrow> 'a kmem_scheme kres" where
  "kfree pa s =
     andThen (kfree_dec pa s) (\<lambda>(last, s). Ok (if last then kfree_push pa s else s))"

definition kalloc :: "('a kmem_scheme) \<Rightarrow> u64 \<times> 'a kmem_scheme" where
  "kalloc s =
     (let r = freelist s;
          s = (if r \<noteq> 0
               then s\<lparr>freelist := load64 (pmem s) r,
                      refcnt := (refcnt s)(pfn r := refcnt s (pfn r) + 1)\<rparr>
               else s);
          s = (if r \<noteq> 0 then s\<lparr>pmem := memset (pmem s) r 5 (ucast PGSIZE)\<rparr> else s)
      in (r, s))"

definition inc_refcnt :: "u64 \<Rightarrow> ('a kmem_scheme) \<Rightarrow> 'a kmem_scheme" where
  "inc_refcnt pa s = s\<lparr>refcnt := (refcnt s)(pfn pa := refcnt s (pfn pa) + 1)\<rparr>"

text \<open>The pointer \<open>p\<close> never passes \<open>pa_end\<close>, so its addition does not wrap and the
  comparison is that of the addresses.\<close>

function freerange_loop :: "u64 \<Rightarrow> u64 \<Rightarrow> ('a kmem_scheme) \<Rightarrow> 'a kmem_scheme kres" where
  "freerange_loop p pa_end s =
     (if unat p + unat PGSIZE \<le> unat pa_end
      then andThen (kfree p (s\<lparr>refcnt := (refcnt s)(pfn p := 1)\<rparr>))
             (\<lambda>s. freerange_loop (p + PGSIZE) pa_end s)
      else Ok s)"
  by pat_completeness auto
termination
proof (relation "measure (\<lambda>(p, pa_end, s). unat pa_end - unat p)")
  fix p pa_end :: u64 and s x :: "'a kmem_scheme"
  assume guard: "unat p + unat PGSIZE \<le> unat pa_end"
  then have "unat (p + PGSIZE) = unat p + unat PGSIZE"
    using unat_u64_less [of pa_end] by (intro unat_plus_no_wrap) simp
  with guard show "((p + PGSIZE, pa_end, x), (p, pa_end, s))
      \<in> measure (\<lambda>(p, pa_end, s). unat pa_end - unat p)"
    by simp
qed simp

definition freerange :: "u64 \<Rightarrow> u64 \<Rightarrow> ('a kmem_scheme) \<Rightarrow> 'a kmem_scheme kres" where
  "freerange pa_start pa_end s = freerange_loop (PGROUNDUP pa_start) pa_end s"

definition kinit :: "('a kmem_scheme) \<Rightarrow> 'a kmem_scheme kres" where
  "kinit s = freerange (kend s) PHYSTOP s"

declare freerange_loop.simps [simp del]

section \<open>The free list in memory\<close>

primrec run_list :: "mem \<Rightarrow> u64 \<Rightarrow> u64 list \<Rightarrow> bool" where
  "run_list m h [] \<longleftrightarrow> h = 0"
| "run_list m h (p # ps) \<longleftrightarrow> h = p \<and> p \<noteq> 0 \<and> run_list m (load64 m p) ps"

lemma run_list_unique: "run_list m h ps \<Longrightarrow> run_list m h qs \<Longrightarrow> ps = qs"
proof (induction ps arbitrary: h qs)
  case Nil
  then show ?case by (cases qs) auto
next
  case (Cons p ps)
  then show ?case by (cases qs) auto
qed

lemma run_list_cong:
  assumes "\<And>p. p \<in> set ps \<Longrightarrow> load64 m p = load64 m' p"
  shows "run_list m h ps = run_list m' h ps"
  using assms by (induction ps arbitrary: h) auto

text \<open>Pages the allocator manages.\<close>

definition page_ok :: "('a kmem_scheme) \<Rightarrow> u64 \<Rightarrow> bool" where
  "page_ok s p \<longleftrightarrow> pg_aligned p \<and> kend s \<le> p \<and> p < PHYSTOP"

text \<open>
  The allocator's invariant, with its abstraction.  \<open>ps\<close> is the free list and
  \<open>pend\<close> the pages between the two critical sections of a \<open>kfree\<close>; a managed
  page is one of these exactly when no reference to it is counted.  The kernel image
  starts at \<open>KERNBASE\<close>, so its end is not 0.
\<close>

definition kmem_inv :: "('a kmem_scheme) \<Rightarrow> u64 list \<Rightarrow> u64 list \<Rightarrow> bool" where
  "kmem_inv s pend ps \<longleftrightarrow>
     run_list (pmem s) (freelist s) ps \<and> distinct (ps @ pend) \<and> KERNBASE \<le> kend s \<and>
     (\<forall>p\<in>set ps \<union> set pend. page_ok s p) \<and>
     (\<forall>p. page_ok s p \<longrightarrow>
        0 \<le> refcnt s (pfn p) \<and> (refcnt s (pfn p) = 0 \<longleftrightarrow> p \<in> set ps \<union> set pend))"

abbreviation kmem_rep :: "('a kmem_scheme) \<Rightarrow> u64 list \<Rightarrow> bool" where
  "kmem_rep s ps \<equiv> kmem_inv s [] ps"

lemma kmem_inv_unique: "kmem_inv s pend ps \<Longrightarrow> kmem_inv s pend' qs \<Longrightarrow> ps = qs"
  by (auto simp: kmem_inv_def intro: run_list_unique)

lemma pfn_inject: "pg_aligned p \<Longrightarrow> pg_aligned q \<Longrightarrow> pfn p = pfn q \<longleftrightarrow> p = q"
  by (elim pg_alignedE) (simp add: pfn_def unat_div word_unat_eq_iff)

lemma page_ok_nonzero: "KERNBASE \<le> kend s \<Longrightarrow> page_ok s p \<Longrightarrow> p \<noteq> 0"
  by (auto simp: page_ok_def word_le_nat_alt word_unat_eq_iff)

lemma page_ok_bound: "page_ok s p \<Longrightarrow> p < 0x100000000000000"
  by (auto simp: page_ok_def word_less_nat_alt)

lemma page_ok_aligned: "page_ok s p \<Longrightarrow> pg_aligned p"
  by (simp add: page_ok_def)

lemma page_ok_cong: "kend s' = kend s \<Longrightarrow> page_ok s' p = page_ok s p"
  by (simp add: page_ok_def)

text \<open>Memory outside the free pages may change freely.\<close>

lemma kmem_inv_frame:
  assumes "kmem_inv s pend ps" "freelist s' = freelist s" "refcnt s' = refcnt s" "kend s' = kend s"
    and mem: "\<And>x. PGROUNDDOWN x \<in> set ps \<Longrightarrow> pmem s' x = pmem s x"
  shows "kmem_inv s' pend ps"
proof -
  have al: "\<And>p. p \<in> set ps \<Longrightarrow> pg_aligned p"
    using assms(1) by (auto simp: kmem_inv_def page_ok_def)
  have "run_list (pmem s') (freelist s) ps = run_list (pmem s) (freelist s) ps"
    by (rule run_list_cong, rule load64_page_cong)
      (use al mem in \<open>auto simp: PGROUNDDOWN_id pg_aligned_word_aligned\<close>)
  with assms show ?thesis by (simp add: kmem_inv_def page_ok_def)
qed

section \<open>What the operations do\<close>

lemma kalloc_Nil: "kmem_inv s pend [] \<Longrightarrow> kalloc s = (0, s)"
  by (simp add: kmem_inv_def kalloc_def)

lemma kalloc_Cons:
  assumes "kmem_inv s pend (p # ps)"
  shows "kalloc s = (p, s\<lparr>pmem := mem_fill (pmem s) p 4096 5,
                          freelist := load64 (pmem s) p,
                          refcnt := (refcnt s)(pfn p := 1)\<rparr>)"
    and "kmem_inv (snd (kalloc s)) pend ps"
proof -
  have p: "freelist s = p" "p \<noteq> 0" "page_ok s p" "refcnt s (pfn p) = 0" "p \<notin> set ps"
    "run_list (pmem s) (load64 (pmem s) p) ps"
    using assms by (auto simp: kmem_inv_def)
  show eq: "kalloc s = (p, s\<lparr>pmem := mem_fill (pmem s) p 4096 5,
                          freelist := load64 (pmem s) p,
                          refcnt := (refcnt s)(pfn p := 1)\<rparr>)"
    using p by (simp add: kalloc_def memset_page)
  have al: "\<And>q. q \<in> set ps \<Longrightarrow> pg_aligned q"
    using assms by (auto simp: kmem_inv_def page_ok_def)
  have "run_list (mem_fill (pmem s) p 4096 5) (load64 (pmem s) p) ps
      = run_list (pmem s) (load64 (pmem s) p) ps"
  proof (rule run_list_cong)
    fix q assume "q \<in> set ps"
    with p al show "load64 (mem_fill (pmem s) p 4096 5) q = load64 (pmem s) q"
      by (subst load64_fill_page)
        (auto simp: page_ok_aligned pg_aligned_word_aligned PGROUNDDOWN_id)
  qed
  then show "kmem_inv (snd (kalloc s)) pend ps"
    using assms p by (auto simp: eq kmem_inv_def page_ok_def pfn_inject)
qed

lemma kfree_push_rep:
  assumes rep: "run_list (pmem s) (freelist s) ps" "page_ok s p" "p \<notin> set ps" "KERNBASE \<le> kend s"
    and al: "\<And>q. q \<in> set ps \<Longrightarrow> pg_aligned q"
  shows "run_list (pmem (kfree_push p s)) p (p # ps)"
proof -
  have p: "pg_aligned p" "p \<noteq> 0" using rep page_ok_nonzero by (auto simp: page_ok_def)
  let ?m = "store64 (mem_fill (pmem s) p 4096 1) p (freelist s)"
  have m: "pmem (kfree_push p s) = ?m" by (simp add: kfree_push_def memset_page)
  have "run_list ?m (freelist s) ps = run_list (pmem s) (freelist s) ps"
  proof (rule run_list_cong)
    fix q assume q: "q \<in> set ps"
    then have "pg_aligned q" "q \<noteq> p" using al rep(3) by auto
    then show "load64 ?m q = load64 (pmem s) q"
      using p by (simp add: load64_store64_other load64_fill_page pg_aligned_word_aligned
          PGROUNDDOWN_id)
  qed
  with rep(1) p m show ?thesis by (simp add: load64_store64_same)
qed

lemma kfree_push_frame [frame_simps]:
  "refcnt (kfree_push p s) = refcnt s" "kend (kfree_push p s) = kend s"
  "freelist (kfree_push p s) = p"
  by (simp_all add: kfree_push_def)

lemma kfree_push_mem:
  assumes "pg_aligned p" "PGROUNDDOWN x \<noteq> p"
  shows "pmem (kfree_push p s) x = pmem s x"
  using assms by (simp add: kfree_push_def memset_page store64_other_page fill_page
      pg_aligned_word_aligned PGROUNDDOWN_id)

lemma kfree_more:
  assumes "kmem_inv s pend ps" "page_ok s p" "refcnt s (pfn p) > 1"
  shows "kfree p s = Ok (s\<lparr>refcnt := (refcnt s)(pfn p := refcnt s (pfn p) - 1)\<rparr>)"
    and "kmem_inv (s\<lparr>refcnt := (refcnt s)(pfn p := refcnt s (pfn p) - 1)\<rparr>) pend ps"
proof -
  show "kfree p s = Ok (s\<lparr>refcnt := (refcnt s)(pfn p := refcnt s (pfn p) - 1)\<rparr>)"
    using assms(2,3) by (simp add: kfree_def kfree_dec_def page_ok_def pg_aligned_def not_less not_le)
  have "p \<notin> set ps" using assms by (auto simp: kmem_inv_def)
  then show "kmem_inv (s\<lparr>refcnt := (refcnt s)(pfn p := refcnt s (pfn p) - 1)\<rparr>) pend ps"
    using assms by (auto simp: kmem_inv_def page_ok_def pfn_inject)
qed

lemma kfree_last:
  assumes "kmem_inv s pend ps" "page_ok s p" "refcnt s (pfn p) = 1"
  defines "s' \<equiv> kfree_push p (s\<lparr>refcnt := (refcnt s)(pfn p := 0)\<rparr>)"
  shows "kfree p s = Ok s'" and "kmem_inv s' pend (p # ps)"
proof -
  show "kfree p s = Ok s'"
    using assms(2,3) by (simp add: s'_def kfree_def kfree_dec_def page_ok_def pg_aligned_def
        not_less not_le)
  have np: "p \<notin> set ps" using assms by (auto simp: kmem_inv_def)
  have "run_list (pmem s') (freelist s') (p # ps)"
    using assms np kfree_push_rep [of "s\<lparr>refcnt := (refcnt s)(pfn p := 0)\<rparr>" ps p]
    by (auto simp: s'_def kmem_inv_def frame_simps page_ok_def)
  then show "kmem_inv s' pend (p # ps)"
    using assms(1-3) np by (auto simp: s'_def kmem_inv_def frame_simps page_ok_def pfn_inject)
qed

lemma inc_refcnt_rep:
  assumes "kmem_inv s pend ps" "page_ok s p" "refcnt s (pfn p) > 0"
  shows "kmem_inv (inc_refcnt p s) pend ps"
proof -
  have "p \<notin> set ps" using assms by (auto simp: kmem_inv_def)
  then show ?thesis
    using assms by (auto simp: inc_refcnt_def kmem_inv_def page_ok_def pfn_inject)
qed

section \<open>Initialisation\<close>

lemma aligned_below_next:
  assumes "pg_aligned p" "pg_aligned q" "unat p + 4096 < 2 ^ 64"
  shows "q < p + 4096 \<longleftrightarrow> q < p \<or> q = p"
proof -
  obtain k l where kl: "unat p = 4096 * k" "unat q = 4096 * l"
    using assms(1,2) by (metis pg_alignedE)
  have "unat (p + 4096) = 4096 * k + 4096"
    using assms(3) kl by (simp add: unat_plus_no_wrap)
  with kl show ?thesis by (auto simp: word_less_nat_alt word_unat_eq_iff)
qed

lemma freerange_loop_rep:
  assumes "run_list (pmem s) (freelist s) ps" "distinct ps" "set ps = {q. page_ok s q \<and> q < p}"
    and "\<forall>q\<in>set ps. refcnt s (pfn q) = 0" "KERNBASE \<le> kend s"
    and "pg_aligned p" "kend s \<le> p" "p \<le> PHYSTOP"
  shows "\<exists>s' ps'. freerange_loop p PHYSTOP s = Ok s' \<and> kmem_rep s' ps' \<and> kend s' = kend s \<and>
           set ps' = {q. page_ok s q}"
  using assms
proof (induction p "PHYSTOP" s arbitrary: ps rule: freerange_loop.induct)
  case (1 p s)
  obtain k where k: "unat p = 4096 * k" using "1.prems"(6) by (rule pg_alignedE)
  show ?case
  proof (cases "unat p + unat PGSIZE \<le> unat PHYSTOP")
    case True
    then have p: "page_ok s p" and room: "unat p + 4096 < 2 ^ 64"
      using "1.prems" by (auto simp: page_ok_def word_less_nat_alt)
    let ?s0 = "s\<lparr>refcnt := (refcnt s)(pfn p := 0)\<rparr>" and ?s1 = "s\<lparr>refcnt := (refcnt s)(pfn p := 1)\<rparr>"
    let ?s' = "kfree_push p ?s0"
    have np: "p \<notin> set ps" using "1.prems"(3) by simp
    have free: "kfree p ?s1 = Ok ?s'"
      using p by (simp add: kfree_def kfree_dec_def page_ok_def pg_aligned_def not_less not_le)
    have al_ps: "\<And>q. q \<in> set ps \<Longrightarrow> pg_aligned q" using "1.prems"(3) by (simp add: page_ok_def)
    have "run_list (pmem ?s') p (p # ps)"
      by (rule kfree_push_rep) (use "1.prems"(1,5) p np al_ps in \<open>simp_all add: page_ok_def\<close>)
    then have rl: "run_list (pmem ?s') (freelist ?s') (p # ps)" by (simp only: frame_simps)
    have next_p: "unat (p + PGSIZE) = unat p + 4096" using room by (simp add: unat_plus_no_wrap)
    have al: "pg_aligned (p + PGSIZE)"
      using k next_p by (simp add: pg_aligned_unat)
    have sets: "set (p # ps) = {q. page_ok ?s' q \<and> q < p + PGSIZE}"
      using "1.prems"(3) p aligned_below_next [OF "1.prems"(6) _ room]
      by (simp add: page_ok_def frame_simps set_eq_iff) blast
    have zero: "\<forall>q\<in>set (p # ps). refcnt ?s' (pfn q) = 0"
      using "1.prems"(4,6) al_ps by (simp add: frame_simps pfn_inject)
    have bounds: "kend ?s' \<le> p + PGSIZE" "p + PGSIZE \<le> PHYSTOP"
      using "1.prems"(7) True next_p by (auto simp: frame_simps word_le_nat_alt)
    have "\<exists>s'' ps'. freerange_loop (p + PGSIZE) PHYSTOP ?s' = Ok s'' \<and> kmem_rep s'' ps' \<and>
        kend s'' = kend ?s' \<and> set ps' = {q. page_ok ?s' q}"
      by (rule "1.hyps" [OF True free rl _ sets zero _ al bounds])
        (use "1.prems"(2,5) np in \<open>auto simp: frame_simps\<close>)
    then obtain s'' ps' where st: "freerange_loop (p + PGSIZE) PHYSTOP ?s' = Ok s''"
      "kmem_rep s'' ps'" "kend s'' = kend ?s'" "set ps' = {q. page_ok ?s' q}" by (elim exE conjE)
    have "freerange_loop p PHYSTOP s = freerange_loop (p + PGSIZE) PHYSTOP ?s'"
      using True free by (simp add: freerange_loop.simps [of p])
    moreover have "page_ok ?s' = page_ok s" by (simp add: fun_eq_iff page_ok_def frame_simps)
    ultimately show ?thesis using st by (intro exI [of _ s''] exI [of _ ps']) (simp add: frame_simps)
  next
    case False
    then have "p = PHYSTOP" using "1.prems"(8) k by (auto simp: word_le_nat_alt word_unat_eq_iff)
    then have "set ps = {q. page_ok s q}" using "1.prems"(3) by (auto simp: page_ok_def)
    moreover from this have "kmem_rep s ps"
      using "1.prems"(1,2,4,5) unfolding kmem_inv_def by simp
    ultimately show ?thesis
      using False by (intro exI [of _ s] exI [of _ ps]) (simp add: freerange_loop.simps [of p])
  qed
qed

lemma kinit_rep:
  assumes "KERNBASE \<le> kend s" "kend s \<le> PHYSTOP" "freelist s = 0"
  shows "\<exists>s' ps. kinit s = Ok s' \<and> kmem_inv s' [] ps \<and> set ps = {p. page_ok s p} \<and> kend s' = kend s"
proof -
  let ?p = "PGROUNDUP (kend s)"
  have ke: "unat (kend s) \<le> 0x88000000" using assms(2) by (simp add: word_le_nat_alt)
  have up: "unat ?p = (unat (kend s) + 4095) div 4096 * 4096" using ke by (intro unat_PGROUNDUP) simp
  then have "unat (kend s) \<le> unat ?p" by linarith
  moreover have "unat ?p \<le> 0x88000000"
    using div_le_mono [of "unat (kend s) + 4095" "0x88000000 + 4095" 4096] up ke by simp
  ultimately have b: "kend s \<le> ?p" "?p \<le> PHYSTOP" by (simp_all add: word_le_nat_alt)
  have "\<not> q < ?p" if q: "page_ok s q" for q
  proof -
    obtain k where k: "unat q = 4096 * k" using page_ok_aligned [OF q] by (rule pg_alignedE)
    have "unat (kend s) \<le> 4096 * k" using q k by (simp add: page_ok_def word_le_nat_alt)
    with k up show ?thesis by (simp add: word_less_nat_alt)
  qed
  then have "set [] = {q. page_ok s q \<and> q < ?p}" by auto
  from freerange_loop_rep [OF _ _ this _ assms(1) _ b] assms(3) show ?thesis
    by (auto simp: kinit_def freerange_def)
qed

text \<open>C7. Booting the allocator never panics and frees every page between the end of the
  kernel and the end of RAM, exactly once.  The static \<^verbatim>\<open>kmem\<close> starts zeroed.\<close>

theorem kinit_frees_all:
  assumes "KERNBASE \<le> kend s" "kend s \<le> PHYSTOP" "freelist s = 0"
  shows "\<exists>s' ps. kinit s = Ok s' \<and> kmem_inv s' [] ps \<and> set ps = {p. page_ok s p}"
  using kinit_rep [OF assms] by blast

text \<open>A machine with one free page at the end of RAM, as the kernel finds it and after
  boot.\<close>

definition ex_kmem :: kmem where
  "ex_kmem = \<lparr>pmem = (\<lambda>_. 0), kend = 0x87FFE800, freelist = 0, refcnt = (\<lambda>_. 0)\<rparr>"

definition ex_booted :: kmem where
  "ex_booted = kfree_push 0x87FFF000 (ex_kmem\<lparr>refcnt := (\<lambda>_. 0)\<rparr>)"

lemma kinit_ex: "kinit ex_kmem = Ok ex_booted"
proof -
  have "PGROUNDUP 0x87FFE800 = 0x87FFF000" by (simp add: PGROUNDUP_def)
  moreover have "(\<lambda>_. 0 :: int)(i := 0) = (\<lambda>_. 0)" for i :: nat by auto
  ultimately show ?thesis
    by (simp add: kinit_def freerange_def freerange_loop.simps kfree_def kfree_dec_def
        ex_kmem_def ex_booted_def Let_def)
qed

theorem kinit_frees_all_witness:
  "\<exists>s' ps. kinit ex_kmem = Ok s' \<and> kmem_inv s' [] ps \<and> set ps = {p. page_ok ex_kmem p}"
  by (rule kinit_frees_all) (simp_all add: ex_kmem_def)

section \<open>The allocator contract\<close>

interpretation pages: page_allocator kalloc kfree inc_refcnt 0 "\<lambda>s. kmem_inv s []"
  "\<lambda>s p. refcnt s (pfn p)" page_ok
proof unfold_locales
  fix s :: "'a kmem_scheme" and ps p
  assume rep: "kmem_inv s [] ps"
  show "distinct ps" using rep by (simp add: kmem_inv_def)
  show "page_ok s p \<and> p \<noteq> 0" if "p \<in> set ps"
    using rep that page_ok_nonzero by (auto simp: kmem_inv_def)
  show "p \<in> set ps \<longleftrightarrow> refcnt s (pfn p) = 0" "0 \<le> refcnt s (pfn p)" if "page_ok s p"
    using rep that by (auto simp: kmem_inv_def)
  show "kmem_inv (inc_refcnt p s) [] ps \<and> page_ok (inc_refcnt p s) = page_ok s \<and>
      refcnt (inc_refcnt p s) (pfn p) = refcnt s (pfn p) + 1 \<and>
      (\<forall>q. page_ok s q \<longrightarrow> q \<noteq> p \<longrightarrow> refcnt (inc_refcnt p s) (pfn q) = refcnt s (pfn q))"
    if "page_ok s p" "0 < refcnt s (pfn p)"
    using inc_refcnt_rep [OF rep that] that
    by (auto simp: inc_refcnt_def page_ok_def pfn_inject fun_eq_iff)
  show "\<exists>s'. kfree p s = Ok s' \<and> kmem_inv s' [] ps \<and> page_ok s' = page_ok s \<and>
      refcnt s' (pfn p) = refcnt s (pfn p) - 1 \<and>
      (\<forall>q. page_ok s q \<longrightarrow> q \<noteq> p \<longrightarrow> refcnt s' (pfn q) = refcnt s (pfn q))"
    if "page_ok s p" "1 < refcnt s (pfn p)"
    using kfree_more [OF rep that] that
    by (intro exI [of _ "s\<lparr>refcnt := (refcnt s)(pfn p := refcnt s (pfn p) - 1)\<rparr>"])
      (auto simp: page_ok_def pfn_inject fun_eq_iff)
  show "\<exists>s'. kfree p s = Ok s' \<and> kmem_inv s' [] (p # ps) \<and> page_ok s' = page_ok s \<and>
      (\<forall>q. page_ok s q \<longrightarrow> q \<noteq> p \<longrightarrow> refcnt s' (pfn q) = refcnt s (pfn q))"
    if "page_ok s p" "refcnt s (pfn p) = 1"
    using kfree_last [OF rep that] that
    by (intro exI [of _ "kfree_push p (s\<lparr>refcnt := (refcnt s)(pfn p := 0)\<rparr>)"])
      (auto simp: page_ok_def pfn_inject fun_eq_iff frame_simps)
next
  fix s :: "'a kmem_scheme"
  show "kalloc s = (0, s)" if "kmem_inv s [] []" using that by (rule kalloc_Nil)
next
  fix s :: "'a kmem_scheme" and p ps
  assume rep: "kmem_inv s [] (p # ps)"
  then have "page_ok s p" by (simp add: kmem_inv_def)
  then show "\<exists>s'. kalloc s = (p, s') \<and> kmem_inv s' [] ps \<and> page_ok s' = page_ok s \<and>
      refcnt s' (pfn p) = 1 \<and>
      (\<forall>q. page_ok s q \<longrightarrow> q \<noteq> p \<longrightarrow> refcnt s' (pfn q) = refcnt s (pfn q))"
    using kalloc_Cons [OF rep]
    by (intro exI [of _ "snd (kalloc s)"]) (auto simp: page_ok_def pfn_inject fun_eq_iff)
qed

section \<open>Interleavings\<close>

text \<open>
  \<^verbatim>\<open>kmem.lock\<close> makes each critical section atomic, but \<open>kfree\<close> releases it
  between dropping the last reference and linking the page.  A system state is the
  allocator and the pages in that window; a step is one critical section of some CPU.
  The guards are the callers' obligation: only a page the caller holds a reference to is
  freed, shared or written.
\<close>

inductive kmem_step :: "kmem \<times> u64 list \<Rightarrow> kmem \<times> u64 list \<Rightarrow> bool" where
  step_alloc: "kalloc s = (r, s') \<Longrightarrow> kmem_step (s, pend) (s', pend)"
| step_drop: "0 < refcnt s (pfn p) \<Longrightarrow> kfree_dec p s = Ok (False, s') \<Longrightarrow>
    kmem_step (s, pend) (s', pend)"
| step_drop_last: "0 < refcnt s (pfn p) \<Longrightarrow> kfree_dec p s = Ok (True, s') \<Longrightarrow>
    kmem_step (s, pend) (s', p # pend)"
| step_push: "p \<in> set pend \<Longrightarrow> kmem_step (s, pend) (kfree_push p s, remove1 p pend)"
| step_share: "page_ok s p \<Longrightarrow> 0 < refcnt s (pfn p) \<Longrightarrow>
    kmem_step (s, pend) (inc_refcnt p s, pend)"
| step_write: "page_ok s p \<Longrightarrow> 0 < refcnt s (pfn p) \<Longrightarrow>
    (\<And>x. PGROUNDDOWN x \<noteq> p \<Longrightarrow> m x = pmem s x) \<Longrightarrow>
    kmem_step (s, pend) (s\<lparr>pmem := m\<rparr>, pend)"

definition kmem_sys_inv :: "kmem \<times> u64 list \<Rightarrow> bool" where
  "kmem_sys_inv = (\<lambda>(s, pend). \<exists>ps. kmem_inv s pend ps)"

definition kmem_booted :: "kmem \<times> u64 list \<Rightarrow> bool" where
  "kmem_booted = (\<lambda>(s, pend). pend = [] \<and>
     (\<exists>s0. KERNBASE \<le> kend s0 \<and> kend s0 \<le> PHYSTOP \<and> freelist s0 = 0 \<and> kinit s0 = Ok s))"

lemma kmem_inv_step_dec:
  assumes inv: "kmem_inv s pend ps" and "0 < refcnt s (pfn p)" "kfree_dec p s = Ok (lst, s')"
  shows "kmem_inv s' (if lst then p # pend else pend) ps"
proof -
  have p: "page_ok s p" and s': "s' = s\<lparr>refcnt := (refcnt s)(pfn p := refcnt s (pfn p) - 1)\<rparr>"
    and last: "lst \<longleftrightarrow> refcnt s (pfn p) = 1"
    using assms(3) by (auto simp: kfree_dec_def page_ok_def pg_aligned_def split: if_splits)
  have np: "p \<notin> set ps" "p \<notin> set pend" using inv p assms(2) by (auto simp: kmem_inv_def)
  show ?thesis
    using inv p np assms(2) last
    by (cases lst) (auto simp: s' kmem_inv_def page_ok_def pfn_inject)
qed

lemma kmem_inv_step_push:
  assumes inv: "kmem_inv s pend ps" and p: "p \<in> set pend"
  shows "kmem_inv (kfree_push p s) (remove1 p pend) (p # ps)"
proof -
  have ok: "page_ok s p" "p \<notin> set ps" "distinct pend" using inv p by (auto simp: kmem_inv_def)
  have "run_list (pmem (kfree_push p s)) p (p # ps)"
    by (rule kfree_push_rep) (use inv ok in \<open>auto simp: kmem_inv_def page_ok_def\<close>)
  moreover have "set (remove1 p pend) = set pend - {p}" using ok(3) by simp
  ultimately show ?thesis
    using inv ok p unfolding kmem_inv_def by (auto simp: frame_simps page_ok_def)
qed

lemma kmem_step_inv: "kmem_step x y \<Longrightarrow> kmem_sys_inv x \<Longrightarrow> kmem_sys_inv y"
proof (induction rule: kmem_step.induct)
  case (step_alloc s r s' pend)
  then obtain ps where ps: "kmem_inv s pend ps" by (auto simp: kmem_sys_inv_def)
  show ?case
  proof (cases ps)
    case Nil
    then show ?thesis using ps step_alloc kalloc_Nil [of s pend] by (auto simp: kmem_sys_inv_def)
  next
    case (Cons p qs)
    then show ?thesis using ps step_alloc kalloc_Cons(2) [of s pend p qs]
      by (auto simp: kmem_sys_inv_def)
  qed
next
  case (step_write s p m pend)
  then obtain ps where ps: "kmem_inv s pend ps" by (auto simp: kmem_sys_inv_def)
  then have "p \<notin> set ps" using step_write by (auto simp: kmem_inv_def)
  then have "kmem_inv (s\<lparr>pmem := m\<rparr>) pend ps"
    using step_write(3) by (intro kmem_inv_frame [OF ps]) (simp_all, metis)
  then show ?case by (auto simp: kmem_sys_inv_def)
qed (fastforce simp: kmem_sys_inv_def dest: kmem_inv_step_dec kmem_inv_step_push inc_refcnt_rep)+

lemma kmem_booted_inv: "kmem_booted x \<Longrightarrow> kmem_sys_inv x"
  using kinit_rep by (fastforce simp: kmem_booted_def kmem_sys_inv_def)

interpretation kmem_sys: transition_system kmem_booted kmem_step kmem_sys_inv
  by unfold_locales (rule kmem_booted_inv, assumption, rule kmem_step_inv)

text \<open>C8. On any number of CPUs, in any interleaving of the critical sections after boot, a
  page that \<open>kalloc\<close> returns has no reference and is not one another CPU is still
  freeing, and it is handed out with exactly one reference.\<close>

theorem kalloc_exclusive:
  assumes "kmem_booted x" "kmem_step\<^sup>*\<^sup>* x (s, pend)" "kalloc s = (r, s')" "r \<noteq> 0"
  shows "page_ok s r \<and> refcnt s (pfn r) = 0 \<and> r \<notin> set pend \<and> refcnt s' (pfn r) = 1"
proof -
  have "kmem_sys_inv (s, pend)" using assms(1,2) by (rule kmem_sys.reach_inv)
  then obtain ps where inv: "kmem_inv s pend ps" by (auto simp: kmem_sys_inv_def)
  obtain p qs where ps: "ps = p # qs" using inv assms(3,4) kalloc_Nil by (cases ps) fastforce+
  then have "r = p" "refcnt s' (pfn r) = 1" using kalloc_Cons(1) [of s pend p qs] inv assms(3) by auto
  with inv ps show ?thesis by (auto simp: kmem_inv_def)
qed

theorem kalloc_exclusive_witness:
  "kalloc ex_booted = (0x87FFF000, snd (kalloc ex_booted)) \<and>
   page_ok ex_booted 0x87FFF000 \<and> refcnt ex_booted (pfn 0x87FFF000) = 0 \<and>
   refcnt (snd (kalloc ex_booted)) (pfn 0x87FFF000) = 1"
proof -
  have boot: "kmem_booted (ex_booted, [])"
    using kinit_ex by (auto simp: kmem_booted_def ex_kmem_def intro!: exI [of _ ex_kmem])
  have al: "kalloc ex_booted = (0x87FFF000, snd (kalloc ex_booted))"
    by (simp add: kalloc_def ex_booted_def frame_simps Let_def)
  show ?thesis
    using al kalloc_exclusive [OF boot rtranclp.rtrancl_refl al] by simp
qed

end
