(* ===== verification/Vm.thy ===== *)
theory Vm
  imports Kalloc
begin

text \<open>
  The page-table code of \<^verbatim>\<open>kernel/vm.c\<close>: walking and extending the
  three-level Sv39 tree, mapping and unmapping, growing, copying (copy-on-write) and
  freeing address spaces, page faults, and copying between kernel and user memory.  Page
  tables live in physical memory and are read and written word by word.

  Conventions.  A \<^verbatim>\<open>pte_t *\<close> is the address of the entry, 0 is the null
  pointer.  \<^verbatim>\<open>myproc()->sz\<close>, which \<open>vmfault\<close> reads, is its argument
  \<open>psz\<close>.  A kernel buffer that is not a page (the \<^verbatim>\<open>src\<close> of
  \<open>copyout\<close>, the \<^verbatim>\<open>dst\<close> of \<open>copyin\<close> and \<open>copyinstr\<close>) is a
  byte list.  A loop over pages has as fuel the number of pages it can visit.
\<close>

section \<open>walk\<close>

fun walk_loop :: "nat \<Rightarrow> u64 \<Rightarrow> u64 \<Rightarrow> bool \<Rightarrow> 'a kmem_scheme \<Rightarrow> u64 \<times> 'a kmem_scheme" where
  "walk_loop 0 pagetable va alloc s = (slot pagetable (PX 0 va), s)"
| "walk_loop (Suc l) pagetable va alloc s =
     (let pte = slot pagetable (PX (Suc l) va) in
      if load64 (pmem s) pte AND PTE_V \<noteq> 0
      then walk_loop l (PTE2PA (load64 (pmem s) pte)) va alloc s
      else if \<not> alloc then (0, s)
      else let (pagetable, s) = kalloc s in
           if pagetable = 0 then (0, s)
           else let s = s\<lparr>pmem := memset (pmem s) pagetable 0 (ucast PGSIZE)\<rparr>;
                    s = s\<lparr>pmem := store64 (pmem s) pte (PA2PTE pagetable OR PTE_V)\<rparr>
                in walk_loop l pagetable va alloc s)"

definition walk :: "u64 \<Rightarrow> u64 \<Rightarrow> bool \<Rightarrow> 'a kmem_scheme \<Rightarrow> (u64 \<times> 'a kmem_scheme) kres" where
  "walk pagetable va alloc s =
     (if va \<ge> MAXVA then Panic ''walk'' else Ok (walk_loop 2 pagetable va alloc s))"

definition walkaddr :: "u64 \<Rightarrow> u64 \<Rightarrow> 'a kmem_scheme \<Rightarrow> u64 kres" where
  "walkaddr pagetable va s =
     (if va \<ge> MAXVA then Ok 0
      else andThen (walk pagetable va False s) (\<lambda>(pte, s).
        if pte = 0 then Ok 0
        else if load64 (pmem s) pte AND PTE_V = 0 then Ok 0
        else if load64 (pmem s) pte AND PTE_U = 0 then Ok 0
        else Ok (PTE2PA (load64 (pmem s) pte))))"

definition ismapped :: "u64 \<Rightarrow> u64 \<Rightarrow> 'a kmem_scheme \<Rightarrow> bool kres" where
  "ismapped pagetable va s =
     andThen (walk pagetable va False s) (\<lambda>(pte, s).
       if pte = 0 then Ok False
       else if load64 (pmem s) pte AND PTE_V \<noteq> 0 then Ok True
       else Ok False)"

section \<open>Mapping\<close>

fun mappages_loop :: "nat \<Rightarrow> u64 \<Rightarrow> u64 \<Rightarrow> u64 \<Rightarrow> u64 \<Rightarrow> u64 \<Rightarrow> 'a kmem_scheme \<Rightarrow>
    (int \<times> 'a kmem_scheme) kres" where
  "mappages_loop 0 pagetable a last_a pa perm s = Spin"
| "mappages_loop (Suc fuel) pagetable a last_a pa perm s =
     andThen (walk pagetable a True s) (\<lambda>(pte, s).
       if pte = 0 then Ok (- 1, s)
       else if load64 (pmem s) pte AND PTE_V \<noteq> 0 then Panic ''mappages: remap''
       else let s = s\<lparr>pmem := store64 (pmem s) pte (PA2PTE pa OR perm OR PTE_V)\<rparr> in
            if a = last_a then Ok (0, s)
            else mappages_loop fuel pagetable (a + PGSIZE) last_a (pa + PGSIZE) perm s)"

definition mappages :: "u64 \<Rightarrow> u64 \<Rightarrow> u64 \<Rightarrow> u64 \<Rightarrow> u64 \<Rightarrow> 'a kmem_scheme \<Rightarrow>
    (int \<times> 'a kmem_scheme) kres" where
  "mappages pagetable va sz pa perm s =
     (if va mod PGSIZE \<noteq> 0 then Panic ''mappages: va not aligned''
      else if sz mod PGSIZE \<noteq> 0 then Panic ''mappages: size not aligned''
      else if sz = 0 then Panic ''mappages: size''
      else mappages_loop (unat (sz div PGSIZE)) pagetable va (va + sz - PGSIZE) pa perm s)"

definition kvmmap :: "u64 \<Rightarrow> u64 \<Rightarrow> u64 \<Rightarrow> u64 \<Rightarrow> u64 \<Rightarrow> 'a kmem_scheme \<Rightarrow> 'a kmem_scheme kres" where
  "kvmmap kpgtbl va pa sz perm s =
     andThen (mappages kpgtbl va sz pa perm s) (\<lambda>(r, s).
       if r \<noteq> 0 then Panic ''kvmmap'' else Ok s)"

definition uvmcreate :: "'a kmem_scheme \<Rightarrow> u64 \<times> 'a kmem_scheme" where
  "uvmcreate s =
     (let (pagetable, s) = kalloc s in
      if pagetable = 0 then (0, s)
      else (pagetable, s\<lparr>pmem := memset (pmem s) pagetable 0 (ucast PGSIZE)\<rparr>))"

section \<open>Unmapping, growing and shrinking\<close>

fun uvmunmap_loop :: "nat \<Rightarrow> u64 \<Rightarrow> u64 \<Rightarrow> u64 \<Rightarrow> bool \<Rightarrow> 'a kmem_scheme \<Rightarrow> 'a kmem_scheme kres" where
  "uvmunmap_loop 0 pagetable a end_a do_free s = (if a < end_a then Spin else Ok s)"
| "uvmunmap_loop (Suc fuel) pagetable a end_a do_free s =
     (if a < end_a
      then andThen (walk pagetable a False s) (\<lambda>(pte, s).
        if pte = 0 then uvmunmap_loop fuel pagetable (a + PGSIZE) end_a do_free s
        else if load64 (pmem s) pte AND PTE_V = 0
        then uvmunmap_loop fuel pagetable (a + PGSIZE) end_a do_free s
        else andThen (if do_free then kfree (PTE2PA (load64 (pmem s) pte)) s else Ok s) (\<lambda>s.
          uvmunmap_loop fuel pagetable (a + PGSIZE) end_a do_free
            (s\<lparr>pmem := store64 (pmem s) pte 0\<rparr>)))
      else Ok s)"

definition uvmunmap :: "u64 \<Rightarrow> u64 \<Rightarrow> u64 \<Rightarrow> bool \<Rightarrow> 'a kmem_scheme \<Rightarrow> 'a kmem_scheme kres" where
  "uvmunmap pagetable va npages do_free s =
     (if va mod PGSIZE \<noteq> 0 then Panic ''uvmunmap: not aligned''
      else uvmunmap_loop (unat npages) pagetable va (va + npages * PGSIZE) do_free s)"

text \<open>\<^verbatim>\<open>int npages\<close> keeps the low 32 bits of the quotient and is widened again, with
  its sign, when it is passed on.\<close>

definition uvmdealloc :: "u64 \<Rightarrow> u64 \<Rightarrow> u64 \<Rightarrow> 'a kmem_scheme \<Rightarrow> (u64 \<times> 'a kmem_scheme) kres" where
  "uvmdealloc pagetable oldsz newsz s =
     (if newsz \<ge> oldsz then Ok (oldsz, s)
      else andThen
        (if PGROUNDUP newsz < PGROUNDUP oldsz
         then let npages = (ucast ((PGROUNDUP oldsz - PGROUNDUP newsz) div PGSIZE) :: u32)
              in uvmunmap pagetable (PGROUNDUP newsz) (scast npages) True s
         else Ok s)
        (\<lambda>s. Ok (newsz, s)))"

fun uvmalloc_loop :: "nat \<Rightarrow> u64 \<Rightarrow> u64 \<Rightarrow> u64 \<Rightarrow> u64 \<Rightarrow> u64 \<Rightarrow> 'a kmem_scheme \<Rightarrow>
    (u64 \<times> 'a kmem_scheme) kres" where
  "uvmalloc_loop 0 pagetable oldsz a newsz xperm s = (if a < newsz then Spin else Ok (newsz, s))"
| "uvmalloc_loop (Suc fuel) pagetable oldsz a newsz xperm s =
     (if a < newsz
      then let (mem, s) = kalloc s in
        if mem = 0 then andThen (uvmdealloc pagetable a oldsz s) (\<lambda>(_, s). Ok (0, s))
        else let s = s\<lparr>pmem := memset (pmem s) mem 0 (ucast PGSIZE)\<rparr> in
          andThen (mappages pagetable a PGSIZE mem (PTE_R OR PTE_U OR xperm) s) (\<lambda>(r, s).
            if r \<noteq> 0
            then andThen (kfree mem s) (\<lambda>s.
                   andThen (uvmdealloc pagetable a oldsz s) (\<lambda>(_, s). Ok (0, s)))
            else uvmalloc_loop fuel pagetable oldsz (a + PGSIZE) newsz xperm s)
      else Ok (newsz, s))"

definition uvmalloc :: "u64 \<Rightarrow> u64 \<Rightarrow> u64 \<Rightarrow> u64 \<Rightarrow> 'a kmem_scheme \<Rightarrow> (u64 \<times> 'a kmem_scheme) kres" where
  "uvmalloc pagetable oldsz newsz xperm s =
     (if newsz < oldsz then Ok (oldsz, s)
      else let oldsz = PGROUNDUP oldsz in
           uvmalloc_loop (unat (newsz div PGSIZE) + 1) pagetable oldsz oldsz newsz xperm s)"

section \<open>Freeing\<close>

text \<open>\<open>freewalk\<close> recurses along child pointers and loops over the 512 entries.  The fuel
  bounds the depth of the recursion; the depth of a page-table tree is 3.\<close>

fun freewalk_f :: "nat \<Rightarrow> u64 \<Rightarrow> 'a kmem_scheme \<Rightarrow> 'a kmem_scheme kres"
and freewalk_loop :: "nat \<Rightarrow> nat \<Rightarrow> u64 \<Rightarrow> 'a kmem_scheme \<Rightarrow> 'a kmem_scheme kres" where
  "freewalk_f 0 pagetable s = Spin"
| "freewalk_f (Suc d) pagetable s =
     andThen (freewalk_loop d 512 pagetable s) (\<lambda>s. kfree pagetable s)"
| "freewalk_loop d 0 pagetable s = Ok s"
| "freewalk_loop d (Suc k) pagetable s =
     (let pte = slot pagetable (of_nat (511 - k)); e = load64 (pmem s) pte in
      if e AND PTE_V \<noteq> 0 \<and> e AND (PTE_R OR PTE_W OR PTE_X) = 0
      then andThen (freewalk_f d (PTE2PA e) s) (\<lambda>s.
             freewalk_loop d k pagetable (s\<lparr>pmem := store64 (pmem s) pte 0\<rparr>))
      else if e AND PTE_V \<noteq> 0 then Panic ''freewalk: leaf''
      else freewalk_loop d k pagetable s)"

definition freewalk :: "u64 \<Rightarrow> 'a kmem_scheme \<Rightarrow> 'a kmem_scheme kres" where
  "freewalk pagetable s = freewalk_f 4 pagetable s"

definition uvmfree :: "u64 \<Rightarrow> u64 \<Rightarrow> 'a kmem_scheme \<Rightarrow> 'a kmem_scheme kres" where
  "uvmfree pagetable sz s =
     andThen (if sz > 0 then uvmunmap pagetable 0 (PGROUNDUP sz div PGSIZE) True s else Ok s)
       (\<lambda>s. freewalk pagetable s)"

section \<open>Copy-on-write fork\<close>

fun uvmcopy_loop :: "nat \<Rightarrow> u64 \<Rightarrow> u64 \<Rightarrow> u64 \<Rightarrow> u64 \<Rightarrow> 'a kmem_scheme \<Rightarrow>
    (int \<times> 'a kmem_scheme) kres" where
  "uvmcopy_loop 0 old new i sz s = (if i < sz then Spin else Ok (0, s))"
| "uvmcopy_loop (Suc fuel) old new i sz s =
     (if i < sz
      then andThen (walk old i False s) (\<lambda>(pte, s).
        if pte = 0 then uvmcopy_loop fuel old new (i + PGSIZE) sz s
        else if load64 (pmem s) pte AND PTE_V = 0
        then uvmcopy_loop fuel old new (i + PGSIZE) sz s
        else let pa = PTE2PA (load64 (pmem s) pte);
                 s = (if load64 (pmem s) pte AND PTE_W \<noteq> 0
                      then s\<lparr>pmem := store64 (pmem s) pte
                               ((load64 (pmem s) pte AND NOT PTE_W) OR PTE_COW)\<rparr>
                      else s);
                 flags = PTE_FLAGS (load64 (pmem s) pte)
             in andThen (mappages new i PGSIZE pa flags s) (\<lambda>(r, s).
                  if r \<noteq> 0
                  then andThen (uvmunmap new 0 (i div PGSIZE) True s) (\<lambda>s. Ok (- 1, s))
                  else uvmcopy_loop fuel old new (i + PGSIZE) sz (inc_refcnt pa s)))
      else Ok (0, s))"

definition uvmcopy :: "u64 \<Rightarrow> u64 \<Rightarrow> u64 \<Rightarrow> 'a kmem_scheme \<Rightarrow> (int \<times> 'a kmem_scheme) kres" where
  "uvmcopy old new sz s = uvmcopy_loop (unat (sz div PGSIZE) + 1) old new 0 sz s"

definition uvmclear :: "u64 \<Rightarrow> u64 \<Rightarrow> 'a kmem_scheme \<Rightarrow> 'a kmem_scheme kres" where
  "uvmclear pagetable va s =
     andThen (walk pagetable va False s) (\<lambda>(pte, s).
       if pte = 0 then Panic ''uvmclear''
       else Ok (s\<lparr>pmem := store64 (pmem s) pte (load64 (pmem s) pte AND NOT PTE_U)\<rparr>))"

section \<open>Page faults\<close>

definition vmfault :: "u64 \<Rightarrow> u64 \<Rightarrow> u64 \<Rightarrow> bool \<Rightarrow> 'a kmem_scheme \<Rightarrow> (u64 \<times> 'a kmem_scheme) kres" where
  "vmfault psz pagetable va0 read s =
     (if va0 \<ge> psz then Ok (0, s)
      else let va = PGROUNDDOWN va0 in
        andThen (ismapped pagetable va s) (\<lambda>mapped.
          if \<not> mapped
          then let (mem, s) = kalloc s in
            if mem = 0 then Ok (0, s)
            else let s = s\<lparr>pmem := memset (pmem s) mem 0 (ucast PGSIZE)\<rparr> in
              andThen (mappages pagetable va PGSIZE mem (PTE_W OR PTE_U OR PTE_R) s) (\<lambda>(r, s).
                if r \<noteq> 0 then andThen (kfree mem s) (\<lambda>s. Ok (0, s)) else Ok (mem, s))
          else andThen (walk pagetable va False s) (\<lambda>(pte, s).
            let pa = PTE2PA (load64 (pmem s) pte); flags = PTE_FLAGS (load64 (pmem s) pte) in
            if \<not> read \<and> load64 (pmem s) pte AND PTE_COW \<noteq> 0
            then let (mem, s) = kalloc s in
              if mem = 0 then Ok (0, s)
              else let s = s\<lparr>pmem := memmove (pmem s) mem pa (ucast PGSIZE)\<rparr>;
                       flags = (flags AND NOT PTE_COW) OR PTE_W;
                       s = s\<lparr>pmem := store64 (pmem s) pte (PA2PTE mem OR flags)\<rparr>
                   in andThen (kfree pa s) (\<lambda>s. Ok (mem, s))
            else Ok (0, s))))"

section \<open>Copying between kernel and user memory\<close>

text \<open>The part of an iteration of \<open>copyout\<close> that finds, and if need be makes, the writable
  frame behind \<open>va0\<close>; 0 stands for \<^verbatim>\<open>return -1\<close>.\<close>

definition copyout_frame :: "u64 \<Rightarrow> u64 \<Rightarrow> u64 \<Rightarrow> 'a kmem_scheme \<Rightarrow> (u64 \<times> 'a kmem_scheme) kres" where
  "copyout_frame psz pagetable va0 s =
     (if va0 \<ge> MAXVA then Ok (0, s)
      else andThen (walkaddr pagetable va0 s) (\<lambda>pa0.
        andThen (if pa0 = 0 then vmfault psz pagetable va0 False s else Ok (pa0, s)) (\<lambda>(pa0, s).
          if pa0 = 0 then Ok (0, s)
          else andThen (walk pagetable va0 False s) (\<lambda>(pte, s).
            andThen (if load64 (pmem s) pte AND PTE_COW \<noteq> 0
                     then vmfault psz pagetable va0 False s else Ok (pa0, s)) (\<lambda>(pa0, s).
              if pa0 = 0 then Ok (0, s)
              else if load64 (pmem s) pte AND PTE_W = 0 then Ok (0, s)
              else Ok (pa0, s))))))"

text \<open>How many bytes an iteration moves: to the end of the page, at most what is left.\<close>

definition chunk :: "u64 \<Rightarrow> nat \<Rightarrow> nat" where
  "chunk va len = min (unat (PGSIZE - (va - PGROUNDDOWN va))) len"

lemma chunk_pos: "0 < len \<Longrightarrow> 0 < chunk va len"
  using page_off_lt [of va] by (auto simp: chunk_def unat_gt_0 PGSIZE_def)

function copyout :: "u64 \<Rightarrow> u64 \<Rightarrow> u64 \<Rightarrow> u8 list \<Rightarrow> 'a kmem_scheme \<Rightarrow>
    (int \<times> 'a kmem_scheme) kres" where
  "copyout psz pagetable dstva src s =
     (if src = [] then Ok (0, s)
      else let va0 = PGROUNDDOWN dstva in
        andThen (copyout_frame psz pagetable va0 s) (\<lambda>(pa0, s).
          if pa0 = 0 then Ok (- 1, s)
          else let n = chunk dstva (length src);
                   s = s\<lparr>pmem := put_bytes (pmem s) (pa0 + (dstva - va0)) (take n src)\<rparr>
               in copyout psz pagetable (va0 + PGSIZE) (drop n src) s))"
  by pat_completeness auto
termination
  by (relation "measure (\<lambda>(psz, pagetable, dstva, src, s). length src)")
    (auto intro!: diff_less chunk_pos)

declare copyout.simps [simp del]

definition copyin_frame :: "u64 \<Rightarrow> u64 \<Rightarrow> u64 \<Rightarrow> 'a kmem_scheme \<Rightarrow> (u64 \<times> 'a kmem_scheme) kres" where
  "copyin_frame psz pagetable va0 s =
     andThen (walkaddr pagetable va0 s) (\<lambda>pa0.
       if pa0 = 0 then vmfault psz pagetable va0 False s else Ok (pa0, s))"

text \<open>\<open>copyin\<close> and \<open>copyinstr\<close> return, beside the result code, the bytes they have stored at
  \<^verbatim>\<open>dst\<close>.\<close>

function copyin :: "u64 \<Rightarrow> u64 \<Rightarrow> u64 \<Rightarrow> nat \<Rightarrow> 'a kmem_scheme \<Rightarrow>
    (int \<times> u8 list \<times> 'a kmem_scheme) kres" where
  "copyin psz pagetable srcva len s =
     (if len = 0 then Ok (0, [], s)
      else let va0 = PGROUNDDOWN srcva in
        andThen (copyin_frame psz pagetable va0 s) (\<lambda>(pa0, s).
          if pa0 = 0 then Ok (- 1, [], s)
          else let n = chunk srcva len;
                   bs = get_bytes (pmem s) (pa0 + (srcva - va0)) n
               in andThen (copyin psz pagetable (va0 + PGSIZE) (len - n) s) (\<lambda>(r, dst, s).
                    Ok (r, bs @ dst, s))))"
  by pat_completeness auto
termination
  by (relation "measure (\<lambda>(psz, pagetable, srcva, len, s). len)")
    (auto intro!: diff_less chunk_pos)

declare copyin.simps [simp del]

fun copyinstr_page :: "nat \<Rightarrow> mem \<Rightarrow> u64 \<Rightarrow> bool \<times> u8 list" where
  "copyinstr_page 0 m p = (False, [])"
| "copyinstr_page (Suc n) m p =
     (if m p = 0 then (True, [0])
      else let (got_null, dst) = copyinstr_page n m (p + 1) in (got_null, m p # dst))"

function copyinstr :: "u64 \<Rightarrow> u64 \<Rightarrow> nat \<Rightarrow> 'a kmem_scheme \<Rightarrow> (int \<times> u8 list) kres" where
  "copyinstr pagetable srcva mx s =
     (if mx = 0 then Ok (- 1, [])
      else let va0 = PGROUNDDOWN srcva in
        andThen (walkaddr pagetable va0 s) (\<lambda>pa0.
          if pa0 = 0 then Ok (- 1, [])
          else let n = chunk srcva mx;
                   (got_null, bs) = copyinstr_page n (pmem s) (pa0 + (srcva - va0))
               in if got_null then Ok (0, bs)
                  else andThen (copyinstr pagetable (va0 + PGSIZE) (mx - n) s) (\<lambda>(r, dst).
                    Ok (r, bs @ dst))))"
  by pat_completeness auto
termination
  by (relation "measure (\<lambda>(pagetable, srcva, mx, s). mx)")
    (auto intro!: diff_less chunk_pos)

declare copyinstr.simps [simp del]

end
