(* ===== verification/Pagetable.thy ===== *)
theory Pagetable
  imports Vm
begin

text \<open>
  The page-table trees as data.  A table page is named by its root and the path of indices
  that leads to it (\<open>tab\<close>), an entry by its root and the path that ends in it
  (\<open>pte_at\<close>).  \<open>pt_inv\<close> says that the trees of a set of roots are disjoint from
  each other, from the free list and from the pages the leaves map.  The rest of the theory
  shows what the two kinds of update, adding a table page and storing a leaf, do to the
  trees, and the specification of \<open>walk\<close>.
\<close>

declare PTE_V_def [simp del] PTE_R_def [simp del] PTE_W_def [simp del] PTE_X_def [simp del]
  PTE_U_def [simp del] PTE_COW_def [simp del]

section \<open>Flags as bits\<close>

named_theorems pte_simps \<open>flag tests of page-table entries as bits\<close>

lemma and_flag_0: "e AND (push_bit n 1 :: u64) = 0 \<longleftrightarrow> \<not> bit e n" if "n < 64" for e :: u64
proof
  assume "e AND push_bit n 1 = 0"
  then have "\<not> bit (e AND push_bit n 1) n" by simp
  with that show "\<not> bit e n" by (simp add: bit_simps)
next
  assume "\<not> bit e n"
  with that show "e AND push_bit n 1 = 0" by (intro bit_word_eqI) (auto simp: bit_simps bit_1_iff)
qed

lemma pte_flag_tests [pte_simps]:
  fixes e :: u64
  shows "e AND PTE_V = 0 \<longleftrightarrow> \<not> bit e 0" "e AND PTE_R = 0 \<longleftrightarrow> \<not> bit e 1"
    "e AND PTE_W = 0 \<longleftrightarrow> \<not> bit e 2" "e AND PTE_X = 0 \<longleftrightarrow> \<not> bit e 3"
    "e AND PTE_U = 0 \<longleftrightarrow> \<not> bit e 4" "e AND PTE_COW = 0 \<longleftrightarrow> \<not> bit e 8"
  using and_flag_0 [of 0 e] and_flag_0 [of 1 e] and_flag_0 [of 2 e] and_flag_0 [of 3 e]
    and_flag_0 [of 4 e] and_flag_0 [of 8 e]
  by (simp_all add: PTE_V_def PTE_R_def PTE_W_def PTE_X_def PTE_U_def PTE_COW_def push_bit_eq_mult)

lemma pte_flag_bits [pte_simps]:
  "bit PTE_V n \<longleftrightarrow> n = 0" "bit PTE_R n \<longleftrightarrow> n = 1" "bit PTE_W n \<longleftrightarrow> n = 2"
  "bit PTE_X n \<longleftrightarrow> n = 3" "bit PTE_U n \<longleftrightarrow> n = 4" "bit PTE_COW n \<longleftrightarrow> n = 8"
proof -
  have *: "bit (push_bit k 1 :: u64) n \<longleftrightarrow> n = k" if "k < 64" for k
    using that by (auto simp: bit_simps bit_1_iff)
  show "bit PTE_V n \<longleftrightarrow> n = 0" "bit PTE_R n \<longleftrightarrow> n = 1" "bit PTE_W n \<longleftrightarrow> n = 2"
    "bit PTE_X n \<longleftrightarrow> n = 3" "bit PTE_U n \<longleftrightarrow> n = 4" "bit PTE_COW n \<longleftrightarrow> n = 8"
    using * [of 0] * [of 1] * [of 2] * [of 3] * [of 4] * [of 8]
    by (simp_all add: PTE_V_def PTE_R_def PTE_W_def PTE_X_def PTE_U_def PTE_COW_def push_bit_eq_mult)
qed

section \<open>Paths\<close>

primrec tab :: "mem \<Rightarrow> u64 \<Rightarrow> u64 list \<Rightarrow> u64 option" where
  "tab m t [] = Some t"
| "tab m t (i # p) =
     (if bit (load64 m (slot t i)) 0 then tab m (PTE2PA (load64 m (slot t i))) p else None)"

definition pte_at :: "mem \<Rightarrow> u64 \<Rightarrow> u64 list \<Rightarrow> u64" where
  "pte_at m r p = (case tab m r (butlast p) of None \<Rightarrow> 0 | Some t \<Rightarrow> load64 m (slot t (last p)))"

text \<open>Paths to table pages, and paths to mapped pages.\<close>

definition tpath :: "u64 list \<Rightarrow> bool" where
  "tpath p \<longleftrightarrow> length p \<le> 2 \<and> (\<forall>i\<in>set p. i < 512)"

definition lpath :: "u64 list \<Rightarrow> bool" where
  "lpath p \<longleftrightarrow> length p = 3 \<and> (\<forall>i\<in>set p. i < 512)"

definition vpath :: "u64 \<Rightarrow> u64 list" where
  "vpath va = [PX 2 va, PX 1 va, PX 0 va]"

lemma lpath_vpath [simp]: "lpath (vpath va)"
  by (simp add: lpath_def vpath_def PX_less)

lemma vpath_inject:
  assumes "pg_aligned va" "pg_aligned vb" "va < MAXVA" "vb < MAXVA"
  shows "vpath va = vpath vb \<longleftrightarrow> va = vb"
  using PX_inject [OF assms] by (auto simp: vpath_def)

lemma tab_append: "tab m t (p @ q) = (case tab m t p of None \<Rightarrow> None | Some u \<Rightarrow> tab m u q)"
  by (induction p arbitrary: t) auto

lemma tab_snoc:
  "tab m t (p @ [i]) = (case tab m t p of None \<Rightarrow> None
     | Some u \<Rightarrow> if bit (load64 m (slot u i)) 0 then Some (PTE2PA (load64 m (slot u i))) else None)"
  by (simp add: tab_append split: option.split)

lemma pte_at_snoc: "pte_at m r (p @ [i]) = (case tab m r p of None \<Rightarrow> 0 | Some t \<Rightarrow> load64 m (slot t i))"
  by (simp add: pte_at_def split: option.split)

lemma tab_leaf: "p \<noteq> [] \<Longrightarrow>
  tab m r p = (if bit (pte_at m r p) 0 then Some (PTE2PA (pte_at m r p)) else None)"
  using tab_snoc [of m r "butlast p" "last p"] by (simp add: pte_at_def split: option.split)

lemma tab_aligned: "pg_aligned r \<Longrightarrow> tab m r p = Some t \<Longrightarrow> pg_aligned t"
  by (cases p rule: rev_cases) (auto simp: tab_snoc split: option.splits if_splits)

lemma tab_cong:
  assumes "\<And>q i q' u. p = q @ i # q' \<Longrightarrow> tab m t q = Some u \<Longrightarrow>
      load64 m' (slot u i) = load64 m (slot u i)"
  shows "tab m' t p = tab m t p"
  using assms
proof (induction p arbitrary: t)
  case (Cons i p)
  have eq: "load64 m' (slot t i) = load64 m (slot t i)" using Cons.prems [of "[]" i p t] by simp
  show ?case
  proof (cases "bit (load64 m (slot t i)) 0")
    case True
    have "tab m' (PTE2PA (load64 m (slot t i))) p = tab m (PTE2PA (load64 m (slot t i))) p"
      by (rule Cons.IH) (use Cons.prems [of "i # _"] True in auto)
    with eq True show ?thesis by simp
  qed (simp add: eq)
qed simp

text \<open>A path splits at an entry in one way only.\<close>

lemma tpath_prefix: "tpath (q @ q') \<Longrightarrow> tpath q"
  by (simp add: tpath_def)

lemma tpath_prefix_l: "lpath (q @ i # q') \<Longrightarrow> tpath q \<and> i < 512"
  by (simp add: tpath_def lpath_def)

lemma tpath_prefix_t: "tpath (q @ i # q') \<Longrightarrow> tpath q \<and> i < 512"
  by (simp add: tpath_def)

lemma lpath_snoc: "lpath p \<longleftrightarrow> (\<exists>q i. p = q @ [i] \<and> tpath q \<and> length q = 2 \<and> i < 512)"
proof
  assume "lpath p"
  then obtain a b c where "p = [a, b] @ [c]" "lpath ([a, b] @ [c])"
    by (auto simp: lpath_def numeral_3_eq_3 length_Suc_conv)
  then show "\<exists>q i. p = q @ [i] \<and> tpath q \<and> length q = 2 \<and> i < 512"
    by (intro exI [of _ "[a, b]"] exI [of _ c]) (auto simp: lpath_def tpath_def)
qed (auto simp: lpath_def tpath_def)

section \<open>The forest\<close>

definition tables :: "'a kmem_scheme \<Rightarrow> u64 set \<Rightarrow> u64 set" where
  "tables s R = {t. \<exists>r\<in>R. \<exists>p. tpath p \<and> tab (pmem s) r p = Some t}"

definition pt_inv :: "'a kmem_scheme \<Rightarrow> u64 list \<Rightarrow> u64 set \<Rightarrow> bool" where
  "pt_inv s ps R \<longleftrightarrow>
     kmem_inv s [] ps \<and> finite R \<and>
     (\<forall>t\<in>tables s R. page_ok s t \<and> refcnt s (pfn t) = 1) \<and>
     (\<forall>r\<in>R. \<forall>p i. tpath (p @ [i]) \<longrightarrow> bit (pte_at (pmem s) r (p @ [i])) 0 \<longrightarrow>
        PTE_FLAGS (pte_at (pmem s) r (p @ [i])) = PTE_V) \<and>
     (\<forall>r\<in>R. \<forall>r'\<in>R. \<forall>p p' t. tpath p \<longrightarrow> tpath p' \<or> lpath p' \<longrightarrow>
        tab (pmem s) r p = Some t \<longrightarrow> tab (pmem s) r' p' = Some t \<longrightarrow> r = r' \<and> p = p') \<and>
     (\<forall>r\<in>R. \<forall>p f. lpath p \<longrightarrow> tab (pmem s) r p = Some f \<longrightarrow> f \<notin> set ps)"

lemma tablesI: "r \<in> R \<Longrightarrow> tpath p \<Longrightarrow> tab (pmem s) r p = Some t \<Longrightarrow> t \<in> tables s R"
  by (auto simp: tables_def)

lemma pt_invI:
  assumes "kmem_inv s [] ps" "finite R"
    and "\<And>t. t \<in> tables s R \<Longrightarrow> page_ok s t" "\<And>t. t \<in> tables s R \<Longrightarrow> refcnt s (pfn t) = 1"
    and "\<And>r p i. r \<in> R \<Longrightarrow> tpath (p @ [i]) \<Longrightarrow> bit (pte_at (pmem s) r (p @ [i])) 0 \<Longrightarrow>
        PTE_FLAGS (pte_at (pmem s) r (p @ [i])) = PTE_V"
    and "\<And>r r' p p' t. r \<in> R \<Longrightarrow> r' \<in> R \<Longrightarrow> tpath p \<Longrightarrow> tpath p' \<or> lpath p' \<Longrightarrow>
        tab (pmem s) r p = Some t \<Longrightarrow> tab (pmem s) r' p' = Some t \<Longrightarrow> r = r' \<and> p = p'"
    and "\<And>r p f. r \<in> R \<Longrightarrow> lpath p \<Longrightarrow> tab (pmem s) r p = Some f \<Longrightarrow> f \<notin> set ps"
  shows "pt_inv s ps R"
  unfolding pt_inv_def using assms by (intro conjI ballI allI impI) blast+

lemma pt_flags: "pt_inv s ps R \<Longrightarrow> r \<in> R \<Longrightarrow> tpath (p @ [i]) \<Longrightarrow> bit (pte_at (pmem s) r (p @ [i])) 0 \<Longrightarrow>
    PTE_FLAGS (pte_at (pmem s) r (p @ [i])) = PTE_V"
  unfolding pt_inv_def by blast

lemma pt_finite: "pt_inv s ps R \<Longrightarrow> finite R"
  by (simp add: pt_inv_def)

lemma pt_kmem: "pt_inv s ps R \<Longrightarrow> kmem_inv s [] ps"
  by (simp add: pt_inv_def)

lemma pt_table:
  assumes "pt_inv s ps R" "t \<in> tables s R"
  shows "page_ok s t" "refcnt s (pfn t) = 1" "pg_aligned t" "t \<noteq> 0" "t \<notin> set ps"
  using assms page_ok_nonzero [of s t] by (auto simp: pt_inv_def page_ok_def kmem_inv_def)

lemma pt_inj: "pt_inv s ps R \<Longrightarrow> r \<in> R \<Longrightarrow> r' \<in> R \<Longrightarrow> tpath p \<Longrightarrow> tpath p' \<or> lpath p' \<Longrightarrow>
    tab (pmem s) r p = Some t \<Longrightarrow> tab (pmem s) r' p' = Some t \<Longrightarrow> r = r' \<and> p = p'"
  unfolding pt_inv_def by blast

lemma pt_leaf: "pt_inv s ps R \<Longrightarrow> r \<in> R \<Longrightarrow> lpath p \<Longrightarrow> tab (pmem s) r p = Some f \<Longrightarrow> f \<notin> set ps"
  unfolding pt_inv_def by blast

lemma pt_leaf_table:
  assumes "pt_inv s ps R" "r \<in> R" "lpath p" "tab (pmem s) r p = Some f"
  shows "f \<notin> tables s R"
proof
  assume "f \<in> tables s R"
  then obtain r' p' where "r' \<in> R" "tpath p'" "tab (pmem s) r' p' = Some f" by (auto simp: tables_def)
  with assms pt_inj [of s ps R r' r p' p f] show False by (auto simp: tpath_def lpath_def)
qed

text \<open>Changing memory outside the table pages leaves the trees alone.\<close>

lemma tab_frame:
  assumes inv: "pt_inv s ps R"
    and mem: "\<And>x. PGROUNDDOWN x \<in> tables s R \<Longrightarrow> m' x = pmem s x"
    and "r \<in> R" "tpath p \<or> lpath p"
  shows "tab m' r p = tab (pmem s) r p"
proof (rule tab_cong)
  fix q i q' u assume *: "p = q @ i # q'" "tab (pmem s) r q = Some u"
  then have q: "tpath q" "i < 512" using assms(4) tpath_prefix_l tpath_prefix_t by blast+
  with assms(3) * have u: "u \<in> tables s R" by (auto intro: tablesI)
  then show "load64 m' (slot u i) = load64 (pmem s) (slot u i)"
    by (intro load64_page_cong) (use q pt_table(3) [OF inv] mem in auto)
qed

lemma pte_at_frame:
  assumes inv: "pt_inv s ps R"
    and mem: "\<And>x. PGROUNDDOWN x \<in> tables s R \<Longrightarrow> m' x = pmem s x"
    and "r \<in> R" "tpath p" "i < 512"
  shows "pte_at m' r (p @ [i]) = pte_at (pmem s) r (p @ [i])"
proof -
  have "tab m' r p = tab (pmem s) r p" using tab_frame [OF inv mem] assms by blast
  moreover have "load64 m' (slot u i) = load64 (pmem s) (slot u i)" if "tab (pmem s) r p = Some u" for u
    by (rule load64_page_cong)
      (use tablesI [OF assms(3,4) that] pt_table(3) [OF inv] mem assms(5) in auto)
  ultimately show ?thesis by (simp add: pte_at_snoc split: option.split)
qed

lemma pt_inv_frame:
  assumes inv: "pt_inv s ps R" and "kmem_inv s' [] ps'" "kend s' = kend s"
    and mem: "\<And>x. PGROUNDDOWN x \<in> tables s R \<Longrightarrow> pmem s' x = pmem s x"
    and "\<And>t. t \<in> tables s R \<Longrightarrow> refcnt s' (pfn t) = 1"
    and "\<And>r p f. r \<in> R \<Longrightarrow> lpath p \<Longrightarrow> tab (pmem s) r p = Some f \<Longrightarrow> f \<notin> set ps'"
  shows "pt_inv s' ps' R" "tables s' R = tables s R"
proof -
  note tab = tab_frame [OF inv mem] and pte = pte_at_frame [OF inv mem]
  show tables: "tables s' R = tables s R"
    unfolding tables_def by (intro Collect_cong bex_cong refl ex_cong1 conj_cong) (simp add: tab)
  show "pt_inv s' ps' R"
  proof (rule pt_invI)
    fix t assume "t \<in> tables s' R"
    then show "page_ok s' t" "refcnt s' (pfn t) = 1"
      using pt_table(1) [OF inv, of t] assms(3,5) tables by (auto simp: page_ok_def)
  next
    fix r p i
    assume *: "r \<in> R" "tpath (p @ [i])" "bit (pte_at (pmem s') r (p @ [i])) 0"
    then have "pte_at (pmem s') r (p @ [i]) = pte_at (pmem s) r (p @ [i])"
      using tpath_prefix_t [of p i "[]"] by (intro pte) auto
    with * show "PTE_FLAGS (pte_at (pmem s') r (p @ [i])) = PTE_V" using pt_flags [OF inv, of r p i] by simp
  next
    fix r r' p p' t
    assume *: "r \<in> R" "r' \<in> R" "tpath p" "tpath p' \<or> lpath p'"
      "tab (pmem s') r p = Some t" "tab (pmem s') r' p' = Some t"
    then show "r = r' \<and> p = p'" using pt_inj [OF inv *(1-4)] tab [of r p] tab [of r' p'] by auto
  next
    fix r p f assume "r \<in> R" "lpath p" "tab (pmem s') r p = Some f"
    then show "f \<notin> set ps'" using assms(6) tab [of r p] by auto
  qed (use assms(2) pt_finite [OF inv] in auto)
qed

section \<open>Storing an entry\<close>

lemma tab_store_other:
  assumes inv: "pt_inv s ps R" and t0: "r0 \<in> R" "tpath q0" "tab (pmem s) r0 q0 = Some t0" "i0 < 512"
    and "r \<in> R" "tpath p \<or> lpath p" and off: "r = r0 \<Longrightarrow> (\<And>q'. p \<noteq> q0 @ i0 # q')"
  shows "tab (store64 (pmem s) (slot t0 i0) v) r p = tab (pmem s) r p"
proof (rule tab_cong)
  fix q i q' u assume *: "p = q @ i # q'" "tab (pmem s) r q = Some u"
  then have q: "tpath q" "i < 512" using assms(7) tpath_prefix_l tpath_prefix_t by blast+
  with assms(6) * have u: "u \<in> tables s R" "t0 \<in> tables s R"
    using tablesI [OF t0(1-3)] by (auto intro: tablesI)
  then have al: "pg_aligned u" "pg_aligned t0" using pt_table(3) [OF inv] by auto
  have "slot u i \<noteq> slot t0 i0"
  proof
    assume "slot u i = slot t0 i0"
    then have "u = t0" "i = i0" using al q t0(4) by (simp_all add: slot_inject)
    with * pt_inj [OF inv assms(6) t0(1) q(1) _ _ t0(3)] t0(2) off show False by blast
  qed
  then show "load64 (store64 (pmem s) (slot t0 i0) v) (slot u i) = load64 (pmem s) (slot u i)"
    using al q t0(4) by (simp add: load64_store64_other)
qed

lemma tab_store_through:
  assumes inv: "pt_inv s ps R" and t0: "r0 \<in> R" "tpath q0" "tab (pmem s) r0 q0 = Some t0" "i0 < 512"
  shows "tab (store64 (pmem s) (slot t0 i0) v) r0 (q0 @ i0 # q') =
    (if bit v 0 then tab (store64 (pmem s) (slot t0 i0) v) (PTE2PA v) q' else None)"
  using tab_store_other [OF inv t0 t0(1), of q0 v] t0(2,3) by (simp add: tab_append mem_simps)

lemma pte_at_store:
  assumes inv: "pt_inv s ps R" and t0: "r0 \<in> R" "tpath q0" "tab (pmem s) r0 q0 = Some t0" "i0 < 512"
    and "r \<in> R" "tpath p" "i < 512" and off: "r = r0 \<Longrightarrow> (\<And>q'. p \<noteq> q0 @ i0 # q')"
  shows "pte_at (store64 (pmem s) (slot t0 i0) v) r (p @ [i]) =
    (if r = r0 \<and> p = q0 \<and> i = i0 then v else pte_at (pmem s) r (p @ [i]))"
proof -
  let ?m = "store64 (pmem s) (slot t0 i0) v"
  have tab: "tab ?m r p = tab (pmem s) r p"
    using tab_store_other [OF inv t0 assms(6)] assms(7) off by blast
  show ?thesis
  proof (cases "tab (pmem s) r p")
    case (Some u)
    have u: "u \<in> tables s R" "t0 \<in> tables s R"
      using assms(6,7) Some tablesI [OF t0(1-3)] by (auto intro: tablesI)
    then have al: "pg_aligned u" "pg_aligned t0" using pt_table(3) [OF inv] by auto
    have "slot u i = slot t0 i0 \<longleftrightarrow> u = t0 \<and> i = i0"
      using al assms(8) t0(4) by (simp add: slot_inject)
    also have "\<dots> \<longleftrightarrow> r = r0 \<and> p = q0 \<and> i = i0"
      using pt_inj [OF inv assms(6) t0(1) assms(7) _ Some] t0 Some by auto
    finally show ?thesis
      using tab Some al assms(8) t0(4) by (auto simp: pte_at_snoc mem_simps)
  next
    case None
    with t0(3) show ?thesis by (auto simp: pte_at_snoc tab)
  qed
qed

text \<open>Installing a zeroed page \<open>n\<close> as a new table page.\<close>

lemma tab_zero_page:
  assumes "pg_aligned n" "\<And>x. PGROUNDDOWN x = n \<Longrightarrow> m x = 0" "i < 512"
  shows "load64 m (slot n i) = 0"
proof -
  have "load64 m (slot n i) = load64 (\<lambda>_. 0) (slot n i)"
    by (rule load64_page_cong) (use assms in auto)
  then show ?thesis by (simp add: load64_zero)
qed

lemma PTE_V_entry:
  assumes "page_ok s n"
  shows "bit (PA2PTE n OR PTE_V) 0" "PTE2PA (PA2PTE n OR PTE_V) = n" "PTE_FLAGS (PA2PTE n OR PTE_V) = PTE_V"
proof -
  have "PTE_V < 0x400" by (simp add: PTE_V_def)
  then show "bit (PA2PTE n OR PTE_V) 0" "PTE2PA (PA2PTE n OR PTE_V) = n"
    "PTE_FLAGS (PA2PTE n OR PTE_V) = PTE_V"
    using assms page_ok_bound [OF assms] by (simp_all add: page_simps pte_simps bit_or_iff page_ok_def)
qed

lemma tab_add_table:
  assumes inv: "pt_inv s ps R" and q: "r0 \<in> R" "tpath (q @ [i])" "tab (pmem s) r0 q = Some t"
    and empty: "\<not> bit (load64 (pmem s) (slot t i)) 0"
    and n: "page_ok s n" "n \<notin> tables s R" "\<And>x. PGROUNDDOWN x = n \<Longrightarrow> pmem s x = 0"
    and rp: "r \<in> R" "tpath p \<or> lpath p"
  defines "m' \<equiv> store64 (pmem s) (slot t i) (PA2PTE n OR PTE_V)"
  shows "tab m' r p = (if r = r0 \<and> p = q @ [i] then Some n else tab (pmem s) r p)"
proof -
  have qi: "tpath q" "i < 512" using q(2) tpath_prefix_t [of q i "[]"] by auto
  note t0 = q(1) qi(1) q(3) qi(2)
  have n_al: "pg_aligned n" using n(1) by (simp add: page_ok_def)
  show ?thesis
  proof (cases "r = r0 \<and> (\<exists>q'. p = q @ i # q')")
    case False
    then have "tab m' r p = tab (pmem s) r p"
      unfolding m'_def using tab_store_other [OF inv t0 rp] by blast
    with False show ?thesis by auto
  next
    case True
    then obtain q' where q': "r = r0" "p = q @ i # q'" by blast
    have old: "tab (pmem s) r p = None" using q' q(3) empty by (simp add: tab_append)
    have new: "tab m' r p = tab m' n q'"
      using tab_store_through [OF inv t0, of "PA2PTE n OR PTE_V" q'] q' PTE_V_entry [OF n(1)]
      by (simp add: m'_def)
    show ?thesis
    proof (cases q')
      case (Cons j q'')
      have j: "j < 512" using rp(2) q' Cons by (auto simp: tpath_def lpath_def)
      have t: "t \<in> tables s R" using t0 by (intro tablesI)
      then have t_al: "pg_aligned t" using pt_table(3) [OF inv] by auto
      have "slot n j \<noteq> slot t i" using n_al t_al t n(2) j qi by (auto simp: slot_inject)
      then have "load64 m' (slot n j) = load64 (pmem s) (slot n j)"
        using n_al t_al j qi by (simp add: m'_def load64_store64_other)
      also have "\<dots> = 0" using tab_zero_page n_al n(3) j by blast
      finally have "tab m' n q' = None" using Cons by simp
      with new old q' Cons show ?thesis by simp
    qed (use new q' in simp)
  qed
qed

definition fresh_table :: "'a kmem_scheme \<Rightarrow> u64 set \<Rightarrow> u64 \<Rightarrow> bool" where
  "fresh_table s R n \<longleftrightarrow> page_ok s n \<and> n \<notin> tables s R \<and> refcnt s (pfn n) = 1 \<and>
     (\<forall>x. PGROUNDDOWN x = n \<longrightarrow> pmem s x = 0) \<and>
     (\<forall>r\<in>R. \<forall>p. lpath p \<longrightarrow> tab (pmem s) r p \<noteq> Some n)"

lemma fresh_tableD:
  assumes "fresh_table s R n"
  shows "page_ok s n" "n \<notin> tables s R" "\<And>x. PGROUNDDOWN x = n \<Longrightarrow> pmem s x = 0"
    "refcnt s (pfn n) = 1" "\<And>r p. r \<in> R \<Longrightarrow> lpath p \<Longrightarrow> tab (pmem s) r p \<noteq> Some n" "pg_aligned n"
  using assms by (auto simp: fresh_table_def page_ok_def)

text \<open>The entry \<open>(r, q @ [i])\<close> is empty and its table page is there.\<close>

definition empty_slot :: "'a kmem_scheme \<Rightarrow> u64 set \<Rightarrow> u64 \<Rightarrow> u64 list \<Rightarrow> u64 \<Rightarrow> u64 \<Rightarrow> bool" where
  "empty_slot s R r q i t \<longleftrightarrow> r \<in> R \<and> tpath (q @ [i]) \<and> tab (pmem s) r q = Some t \<and>
     \<not> bit (load64 (pmem s) (slot t i)) 0"

lemma empty_slotD:
  assumes "empty_slot s R r q i t"
  shows "r \<in> R" "tpath (q @ [i])" "tab (pmem s) r q = Some t" "\<not> bit (load64 (pmem s) (slot t i)) 0"
    "tpath q" "i < 512" "length q \<le> 1" "t \<in> tables s R" "tab (pmem s) r (q @ i # q') = None"
proof -
  show *: "r \<in> R" "tpath (q @ [i])" "tab (pmem s) r q = Some t" "\<not> bit (load64 (pmem s) (slot t i)) 0"
    using assms by (simp_all add: empty_slot_def)
  then show "tpath q" "i < 512" "length q \<le> 1" "tab (pmem s) r (q @ i # q') = None"
    by (simp_all add: tpath_def tab_append)
  with * show "t \<in> tables s R" by (intro tablesI)
qed

abbreviation install :: "'a kmem_scheme \<Rightarrow> u64 \<Rightarrow> u64 \<Rightarrow> u64 \<Rightarrow> 'a kmem_scheme" where
  "install s t i v \<equiv> s\<lparr>pmem := store64 (pmem s) (slot t i) v\<rparr>"

lemma install_kmem:
  assumes "pt_inv s ps R" "t \<in> tables s R" "i < 512"
  shows "kmem_inv (install s t i v) [] ps"
  by (rule kmem_inv_frame [OF pt_kmem [OF assms(1)]])
    (use pt_table(3,5) [OF assms(1,2)] assms(3) in \<open>auto intro!: store_slot_other\<close>)

lemma add_table_tab:
  assumes "pt_inv s ps R" "empty_slot s R r0 q i t" "fresh_table s R n" "r \<in> R" "tpath p \<or> lpath p"
  shows "tab (pmem (install s t i (PA2PTE n OR PTE_V))) r p =
    (if r = r0 \<and> p = q @ [i] then Some n else tab (pmem s) r p)"
  using tab_add_table [OF assms(1) empty_slotD(1-4) [OF assms(2)] fresh_tableD(1-3) [OF assms(3)]] assms
  by simp

lemma add_table_tables:
  assumes inv: "pt_inv s ps R" and e: "empty_slot s R r0 q i t" and n: "fresh_table s R n"
  shows "tables (install s t i (PA2PTE n OR PTE_V)) R = insert n (tables s R)" (is "tables ?s R = _")
proof (rule set_eqI, rule iffI)
  fix u assume "u \<in> tables ?s R"
  then obtain r p where "r \<in> R" "tpath p" "tab (pmem ?s) r p = Some u" by (auto simp: tables_def)
  then show "u \<in> insert n (tables s R)"
    using add_table_tab [OF inv e n, of r p] by (auto split: if_splits intro: tablesI)
next
  note tab = add_table_tab [OF inv e n]
  fix u assume "u \<in> insert n (tables s R)"
  then consider "u = n" | r p where "r \<in> R" "tpath p" "tab (pmem s) r p = Some u"
    by (auto simp: tables_def)
  then show "u \<in> tables ?s R"
  proof cases
    case 1
    have "tab (pmem ?s) r0 (q @ [i]) = Some n" using tab empty_slotD [OF e] by simp
    with 1 empty_slotD [OF e] show ?thesis by (auto intro: tablesI)
  next
    case (2 r p)
    then have "tab (pmem ?s) r p = Some u" using tab [of r p] empty_slotD(9) [OF e, of "[]"] by auto
    with 2 show ?thesis by (auto intro: tablesI)
  qed
qed

text \<open>No leaf entry changes; the entries of the new page are empty.\<close>

lemma add_table_pte:
  assumes inv: "pt_inv s ps R" and e: "empty_slot s R r0 q i t" and n: "fresh_table s R n"
    and pj: "r \<in> R" "tpath p" "j < 512"
  shows "pte_at (pmem (install s t i (PA2PTE n OR PTE_V))) r (p @ [j]) =
    (if r = r0 \<and> p = q \<and> j = i then PA2PTE n OR PTE_V else pte_at (pmem s) r (p @ [j]))"
    (is "pte_at (pmem ?s) _ _ = _")
proof (cases "r = r0 \<and> (\<exists>q'. p = q @ i # q')")
  case False
  then show ?thesis
    using pte_at_store [OF inv empty_slotD(1,5,3,6) [OF e] pj] by auto
next
  case True
  then obtain q' where q': "r = r0" "p = q @ i # q'" by blast
  note al = pt_table(3) [OF inv empty_slotD(8) [OF e]] fresh_tableD(6) [OF n]
  have "slot n j \<noteq> slot t i"
    using al fresh_tableD(2) [OF n] empty_slotD(6,8) [OF e] pj(3) by (auto simp: slot_inject)
  then have "load64 (pmem ?s) (slot n j) = load64 (pmem s) (slot n j)"
    using al pj(3) empty_slotD(6) [OF e] by (simp add: load64_store64_other)
  also have "\<dots> = 0" using tab_zero_page al fresh_tableD(3) [OF n] pj(3) by blast
  finally have zero: "load64 (pmem ?s) (slot n j) = 0" .
  have "tab (pmem ?s) r p = (if q' = [] then Some n else None)"
    using add_table_tab [OF inv e n pj(1), of p] pj(2) q' empty_slotD(9) [OF e, of q'] by simp
  with zero have "pte_at (pmem ?s) r (p @ [j]) = 0" by (simp add: pte_at_snoc)
  moreover have "pte_at (pmem s) r (p @ [j]) = 0"
    using q' empty_slotD(9) [OF e, of q'] unfolding pte_at_snoc by simp
  ultimately show ?thesis using q' by auto
qed

lemma add_table:
  assumes inv: "pt_inv s ps R" and e: "empty_slot s R r0 q i t" and n: "fresh_table s R n"
  shows "pt_inv (install s t i (PA2PTE n OR PTE_V)) ps R" (is "pt_inv ?s ps R")
proof (rule pt_invI)
  note tab = add_table_tab [OF inv e n] and D = empty_slotD [OF e] and F = fresh_tableD [OF n]
  show "kmem_inv ?s [] ps" using install_kmem [OF inv] D by blast
  show "finite R" using pt_finite [OF inv] .
  fix u assume "u \<in> tables ?s R"
  then show "page_ok ?s u" "refcnt ?s (pfn u) = 1"
    using pt_table(1,2) [OF inv, of u] F(1,4) add_table_tables [OF inv e n] by (auto simp: page_ok_def)
next
  fix r p j assume *: "r \<in> R" "tpath (p @ [j])" "bit (pte_at (pmem ?s) r (p @ [j])) 0"
  then have "tpath p" "j < 512" using tpath_prefix_t [of p j "[]"] by auto
  with * show "PTE_FLAGS (pte_at (pmem ?s) r (p @ [j])) = PTE_V"
    using add_table_pte [OF inv e n *(1)] PTE_V_entry(3) [OF fresh_tableD(1) [OF n]] pt_flags [OF inv]
    by (simp split: if_splits)
next
  note tab = add_table_tab [OF inv e n] and D = empty_slotD [OF e] and F = fresh_tableD [OF n]
  have new: "\<not> lpath (q @ [i])" using D(7) by (simp add: lpath_def)
  fix r r' p p' u
  assume *: "r \<in> R" "r' \<in> R" "tpath p" "tpath p' \<or> lpath p'"
    "tab (pmem ?s) r p = Some u" "tab (pmem ?s) r' p' = Some u"
  have old: "tab (pmem s) r p = Some u \<or> r = r0 \<and> p = q @ [i] \<and> u = n"
    using *(1,3,5) tab [of r p] by (cases "r = r0 \<and> p = q @ [i]") auto
  have old': "tab (pmem s) r' p' = Some u \<or> r' = r0 \<and> p' = q @ [i] \<and> u = n"
    using *(2,4,6) tab [of r' p'] by (cases "r' = r0 \<and> p' = q @ [i]") auto
  have "tab (pmem s) r p \<noteq> Some n" "tab (pmem s) r' p' \<noteq> Some n"
    using *(1-4) F(2,5) by (auto intro: tablesI)
  with old old' show "r = r' \<and> p = p'" using pt_inj [OF inv *(1-4)] by blast
next
  fix r p f assume *: "r \<in> R" "lpath p" "tab (pmem ?s) r p = Some f"
  then have "tab (pmem s) r p = Some f"
    using add_table_tab [OF inv e n, of r p] empty_slotD(7) [OF e] by (auto simp: lpath_def)
  with * show "f \<notin> set ps" using pt_leaf [OF inv] by blast
qed

section \<open>Storing a leaf entry\<close>

definition leaf_slot :: "'a kmem_scheme \<Rightarrow> u64 set \<Rightarrow> u64 \<Rightarrow> u64 list \<Rightarrow> u64 \<Rightarrow> u64 \<Rightarrow> bool" where
  "leaf_slot s R r q i t \<longleftrightarrow> r \<in> R \<and> tpath q \<and> length q = 2 \<and> i < 512 \<and> tab (pmem s) r q = Some t"

lemma leaf_slotD:
  assumes "leaf_slot s R r q i t"
  shows "r \<in> R" "tpath q" "tab (pmem s) r q = Some t" "i < 512" "length q = 2" "t \<in> tables s R"
    "lpath (q @ [i])" "pte_at (pmem s) r (q @ [i]) = load64 (pmem s) (slot t i)"
proof -
  show *: "r \<in> R" "tpath q" "tab (pmem s) r q = Some t" "i < 512" "length q = 2"
    using assms by (simp_all add: leaf_slot_def)
  then show "lpath (q @ [i])" "pte_at (pmem s) r (q @ [i]) = load64 (pmem s) (slot t i)"
    by (auto simp: lpath_def tpath_def pte_at_snoc)
  from * show "t \<in> tables s R" by (intro tablesI)
qed

lemma leaf_store_tab:
  assumes inv: "pt_inv s ps R" and l: "leaf_slot s R r0 q i t" and rp: "r \<in> R" "tpath p \<or> lpath p"
  shows "tab (pmem (install s t i v)) r p =
    (if r = r0 \<and> p = q @ [i] then if bit v 0 then Some (PTE2PA v) else None else tab (pmem s) r p)"
proof (cases "r = r0 \<and> p = q @ [i]")
  case True
  then show ?thesis using tab_store_through [OF inv leaf_slotD(1-4) [OF l], of v "[]"] by simp
next
  case False
  have "p \<noteq> q @ i # q'" if "r = r0" for q'
    using that False rp(2) leaf_slotD(5) [OF l] by (auto simp: tpath_def lpath_def)
  then have "tab (pmem (install s t i v)) r p = tab (pmem s) r p"
    using tab_store_other [OF inv leaf_slotD(1-4) [OF l] rp] by simp
  with False show ?thesis by auto
qed

lemma leaf_store_tables:
  assumes inv: "pt_inv s ps R" and l: "leaf_slot s R r0 q i t"
  shows "tables (install s t i v) R = tables s R"
proof -
  have "tab (pmem (install s t i v)) r p = tab (pmem s) r p" if "r \<in> R" "tpath p" for r p
    using leaf_store_tab [OF inv l that(1), of p v] that(2) leaf_slotD(5) [OF l] by (auto simp: tpath_def)
  then show ?thesis
    unfolding tables_def by (intro Collect_cong bex_cong refl ex_cong1 conj_cong) simp_all
qed

lemma leaf_store_pte:
  assumes inv: "pt_inv s ps R" and l: "leaf_slot s R r0 q i t" and pj: "r \<in> R" "tpath p" "j < 512"
  shows "pte_at (pmem (install s t i v)) r (p @ [j]) =
    (if r = r0 \<and> p @ [j] = q @ [i] then v else pte_at (pmem s) r (p @ [j]))"
proof -
  have "p \<noteq> q @ i # q'" for q'
    using pj(2) leaf_slotD(5) [OF l] by (auto simp: tpath_def)
  then show ?thesis using pte_at_store [OF inv leaf_slotD(1-4) [OF l] pj] by simp
qed

lemma leaf_store:
  assumes inv: "pt_inv s ps R" and l: "leaf_slot s R r0 q i t"
    and v: "bit v 0 \<Longrightarrow> PTE2PA v \<notin> set ps \<union> tables s R"
  shows "pt_inv (install s t i v) ps R" (is "pt_inv ?s ps R")
proof (rule pt_invI)
  show "kmem_inv ?s [] ps" using install_kmem [OF inv] leaf_slotD [OF l] by blast
  show "finite R" using pt_finite [OF inv] .
  fix u assume "u \<in> tables ?s R"
  then show "page_ok ?s u" "refcnt ?s (pfn u) = 1"
    using pt_table(1,2) [OF inv, of u] leaf_store_tables [OF inv l] by (auto simp: page_ok_def)
next
  fix r p j assume *: "r \<in> R" "tpath (p @ [j])" "bit (pte_at (pmem ?s) r (p @ [j])) 0"
  then have "tpath p" "j < 512" "p @ [j] \<noteq> q @ [i]"
    using leaf_slotD(5) [OF l] by (auto simp: tpath_def)
  then have "pte_at (pmem ?s) r (p @ [j]) = pte_at (pmem s) r (p @ [j])"
    using leaf_store_pte [OF inv l *(1), of p j v] by auto
  with * show "PTE_FLAGS (pte_at (pmem ?s) r (p @ [j])) = PTE_V" using pt_flags [OF inv] by simp
next
  note tab = leaf_store_tab [OF inv l]
  fix r r' p p' u
  assume *: "r \<in> R" "r' \<in> R" "tpath p" "tpath p' \<or> lpath p'"
    "tab (pmem ?s) r p = Some u" "tab (pmem ?s) r' p' = Some u"
  have p: "tab (pmem s) r p = Some u"
    using * tab [of r p v] leaf_slotD(5) [OF l] by (auto simp: tpath_def)
  then have "u \<in> tables s R" using * by (intro tablesI)
  then have "tab (pmem s) r' p' = Some u"
    using *(2,4,6) tab [of r' p' v] v by (auto split: if_splits)
  with p show "r = r' \<and> p = p'" using pt_inj [OF inv *(1-4)] by blast
next
  fix r p f assume *: "r \<in> R" "lpath p" "tab (pmem ?s) r p = Some f"
  then show "f \<notin> set ps"
    using leaf_store_tab [OF inv l *(1), of p v] v pt_leaf [OF inv] by (auto split: if_splits)
qed

section \<open>What walk finds\<close>

text \<open>The indices \<open>walk\<close> has left to follow at level \<open>l\<close>.\<close>

primrec upper :: "nat \<Rightarrow> u64 \<Rightarrow> u64 list" where
  "upper 0 va = []"
| "upper (Suc l) va = PX (Suc l) va # upper l va"

lemma upper_2: "upper 2 va = [PX 2 va, PX 1 va]"
  by (simp add: numeral_2_eq_2)

lemma walk_loop_find:
  "walk_loop l t va False s =
     (case tab (pmem s) t (upper l va) of None \<Rightarrow> (0, s) | Some u \<Rightarrow> (slot u (PX 0 va), s))"
  by (induction l arbitrary: t) (auto simp: Let_def pte_simps split: option.split)

lemma leaf_slot_walk:
  "r \<in> R \<Longrightarrow> tab (pmem s) r (upper 2 va) = Some t \<Longrightarrow> leaf_slot s R r (upper 2 va) (PX 0 va) t"
  by (simp add: leaf_slot_def tpath_def upper_2 PX_less)

lemma vpath_upper: "vpath va = upper 2 va @ [PX 0 va]"
  by (simp add: vpath_def upper_2)

text \<open>Without \<^verbatim>\<open>alloc\<close>, \<open>walk\<close> returns the address of the leaf entry, or null when a
  table page on the way is missing; then the entry counts as 0.\<close>

lemma walk_find:
  assumes "va < MAXVA"
  obtains (missing) "walk r va False s = Ok (0, s)" "pte_at (pmem s) r (vpath va) = 0"
      "tab (pmem s) r (upper 2 va) = None"
  | (found) t where "walk r va False s = Ok (slot t (PX 0 va), s)"
      "tab (pmem s) r (upper 2 va) = Some t"
      "pte_at (pmem s) r (vpath va) = load64 (pmem s) (slot t (PX 0 va))"
proof (cases "tab (pmem s) r (upper 2 va)")
  case None
  then show ?thesis
    using missing assms unfolding vpath_upper by (simp add: walk_def walk_loop_find pte_at_snoc not_le)
next
  case (Some t)
  then show ?thesis
    using found assms unfolding vpath_upper by (simp add: walk_def walk_loop_find pte_at_snoc not_le)
qed

lemma slot_walk_nonzero:
  assumes "pt_inv s ps R" "r \<in> R" "tab (pmem s) r (upper 2 va) = Some t"
  shows "slot t (PX 0 va) \<noteq> 0"
  using pt_table(3,4) [OF assms(1) leaf_slotD(6) [OF leaf_slot_walk [OF assms(2,3)]]]
  by (simp add: slot_nonzero PX_less)

end
