(* ===== verification/Addrspace.thy ===== *)
theory Addrspace
  imports Pagetable
begin

text \<open>
  The invariant that copy-on-write rests on.  For a set \<open>R\<close> of user page tables,
  \<open>vm_inv\<close> adds to the shape of the trees that a page's reference count is the number of
  user mappings of it, plus one if it is a table page, plus \<open>own\<close>, the references the
  rest of the kernel holds (a page just allocated, a trapframe, a kernel stack, a pipe);
  and that a page mapped writable is mapped once.  The two pages at the top of every
  address space, trampoline and trapframe, are mapped without being counted.
\<close>

section \<open>References\<close>

definition upath :: "u64 list \<Rightarrow> bool" where
  "upath p \<longleftrightarrow> lpath p \<and> p \<noteq> vpath TRAPFRAME \<and> p \<noteq> vpath TRAMPOLINE"

lemma upathD: "upath p \<Longrightarrow> lpath p"
  by (simp add: upath_def)

definition refs :: "mem \<Rightarrow> u64 set \<Rightarrow> u64 \<Rightarrow> (u64 \<times> u64 list) set" where
  "refs m R f = {(r, p). r \<in> R \<and> upath p \<and> bit (pte_at m r p) 0 \<and> PTE2PA (pte_at m r p) = f}"

lemma finite_refs:
  assumes "finite R"
  shows "finite (refs m R f)"
proof (rule finite_subset)
  show "refs m R f \<subseteq> R \<times> {p. set p \<subseteq> UNIV \<and> length p = 3}"
    by (auto simp: refs_def upath_def lpath_def)
  have "finite {p :: u64 list. set p \<subseteq> UNIV \<and> length p = 3}"
    using finite_class.finite_UNIV by (rule finite_lists_length_eq)
  with assms show "finite (R \<times> {p :: u64 list. set p \<subseteq> UNIV \<and> length p = 3})" by simp
qed

lemma tab_lpath: "lpath p \<Longrightarrow> bit (pte_at m r p) 0 \<Longrightarrow> tab m r p = Some (PTE2PA (pte_at m r p))"
  by (subst tab_leaf) (auto simp: lpath_def)

lemma refs_tab: "(r, p) \<in> refs m R f \<Longrightarrow> r \<in> R \<and> lpath p \<and> tab m r p = Some f"
  by (auto simp: refs_def upath_def tab_lpath)

definition same_leaves :: "u64 set \<Rightarrow> mem \<Rightarrow> mem \<Rightarrow> bool" where
  "same_leaves R m m' \<longleftrightarrow> (\<forall>r\<in>R. \<forall>p. lpath p \<longrightarrow> pte_at m' r p = pte_at m r p)"

lemma same_leaves_refl [simp]: "same_leaves R m m"
  by (simp add: same_leaves_def)

lemma same_leaves_trans: "same_leaves R m m' \<Longrightarrow> same_leaves R m' m'' \<Longrightarrow> same_leaves R m m''"
  by (simp add: same_leaves_def)

lemma same_leavesD: "same_leaves R m m' \<Longrightarrow> r \<in> R \<Longrightarrow> lpath p \<Longrightarrow> pte_at m' r p = pte_at m r p"
  by (simp add: same_leaves_def)

lemma same_leaves_tab: "same_leaves R m m' \<Longrightarrow> r \<in> R \<Longrightarrow> lpath p \<Longrightarrow> tab m' r p = tab m r p"
  using same_leavesD [of R m m' r p] tab_leaf [of p m r] tab_leaf [of p m' r] by (cases p) (auto simp: lpath_def)

lemma refs_cong:
  assumes "same_leaves R m m'"
  shows "refs m' R f = refs m R f"
  unfolding refs_def by (intro Collect_cong) (auto simp: same_leavesD [OF assms] upathD)

section \<open>The invariant\<close>

definition leaf_ok :: "'a kmem_scheme \<Rightarrow> u64 set \<Rightarrow> (u64 \<Rightarrow> int) \<Rightarrow> u64 \<Rightarrow> u64 list \<Rightarrow> bool" where
  "leaf_ok s R own r p \<longleftrightarrow>
     (let e = pte_at (pmem s) r p in
      bit e 0 \<longrightarrow>
      (if upath p
       then page_ok s (PTE2PA e) \<and>
            (bit e 2 \<longrightarrow> refs (pmem s) R (PTE2PA e) = {(r, p)} \<and> own (PTE2PA e) = 0)
       else \<not> bit e 4 \<and> \<not> bit e 8 \<and>
            (page_ok s (PTE2PA e) \<longrightarrow> 0 < own (PTE2PA e) \<and> refs (pmem s) R (PTE2PA e) = {})))"

definition vm_inv :: "'a kmem_scheme \<Rightarrow> u64 list \<Rightarrow> u64 set \<Rightarrow> (u64 \<Rightarrow> int) \<Rightarrow> bool" where
  "vm_inv s ps R own \<longleftrightarrow>
     pt_inv s ps R \<and>
     (\<forall>f. page_ok s f \<longrightarrow> refcnt s (pfn f) =
        int (card (refs (pmem s) R f)) + (if f \<in> tables s R then 1 else 0) + own f) \<and>
     (\<forall>r\<in>R. \<forall>p. lpath p \<longrightarrow> leaf_ok s R own r p)"

lemma vm_invI:
  assumes "pt_inv s ps R"
    and "\<And>f. page_ok s f \<Longrightarrow> refcnt s (pfn f) =
        int (card (refs (pmem s) R f)) + (if f \<in> tables s R then 1 else 0) + own f"
    and "\<And>r p. r \<in> R \<Longrightarrow> lpath p \<Longrightarrow> leaf_ok s R own r p"
  shows "vm_inv s ps R own"
  using assms by (simp add: vm_inv_def)

lemma vm_pt: "vm_inv s ps R own \<Longrightarrow> pt_inv s ps R"
  by (simp add: vm_inv_def)

lemma vm_count: "vm_inv s ps R own \<Longrightarrow> page_ok s f \<Longrightarrow> refcnt s (pfn f) =
    int (card (refs (pmem s) R f)) + (if f \<in> tables s R then 1 else 0) + own f"
  by (simp add: vm_inv_def)

lemma vm_leaf_ok: "vm_inv s ps R own \<Longrightarrow> r \<in> R \<Longrightarrow> lpath p \<Longrightarrow> leaf_ok s R own r p"
  by (simp add: vm_inv_def)

lemma vm_leaf:
  assumes "vm_inv s ps R own" "r \<in> R" "upath p" "bit (pte_at (pmem s) r p) 0"
  shows "page_ok s (PTE2PA (pte_at (pmem s) r p))"
    and "PTE2PA (pte_at (pmem s) r p) \<notin> set ps" "PTE2PA (pte_at (pmem s) r p) \<notin> tables s R"
    and "bit (pte_at (pmem s) r p) 2 \<Longrightarrow> refs (pmem s) R (PTE2PA (pte_at (pmem s) r p)) = {(r, p)}"
    and "bit (pte_at (pmem s) r p) 2 \<Longrightarrow> own (PTE2PA (pte_at (pmem s) r p)) = 0"
proof -
  show "page_ok s (PTE2PA (pte_at (pmem s) r p))"
    "bit (pte_at (pmem s) r p) 2 \<Longrightarrow> refs (pmem s) R (PTE2PA (pte_at (pmem s) r p)) = {(r, p)}"
    "bit (pte_at (pmem s) r p) 2 \<Longrightarrow> own (PTE2PA (pte_at (pmem s) r p)) = 0"
    using vm_leaf_ok [OF assms(1,2) upathD [OF assms(3)]] assms(3,4) by (simp_all add: leaf_ok_def Let_def)
  have "tab (pmem s) r p = Some (PTE2PA (pte_at (pmem s) r p))"
    using assms(3,4) by (subst tab_leaf) (auto simp: upath_def lpath_def)
  then show "PTE2PA (pte_at (pmem s) r p) \<notin> set ps" "PTE2PA (pte_at (pmem s) r p) \<notin> tables s R"
    using pt_leaf [OF vm_pt [OF assms(1)] assms(2)] pt_leaf_table [OF vm_pt [OF assms(1)] assms(2)]
      upathD [OF assms(3)] by blast+
qed

text \<open>A page on the free list has no references.\<close>

lemma vm_free:
  assumes inv: "vm_inv s ps R own" and "n \<in> set ps"
  shows "page_ok s n" "refcnt s (pfn n) = 0" "refs (pmem s) R n = {}" "n \<notin> tables s R" "own n = 0"
    "\<And>r p. r \<in> R \<Longrightarrow> lpath p \<Longrightarrow> tab (pmem s) r p \<noteq> Some n"
proof -
  note pt = vm_pt [OF inv]
  show ok: "page_ok s n" "refcnt s (pfn n) = 0"
    using pt_kmem [OF pt] assms(2) by (auto simp: kmem_inv_def)
  show refs: "refs (pmem s) R n = {}"
    using vm_leaf(2) [OF inv] assms(2) by (auto simp: refs_def)
  show "n \<notin> tables s R" using pt_table(5) [OF pt] assms(2) by blast
  with refs ok vm_count [OF inv ok(1)] show "own n = 0" by simp
  show "\<And>r p. r \<in> R \<Longrightarrow> lpath p \<Longrightarrow> tab (pmem s) r p \<noteq> Some n"
    using pt_leaf [OF pt] assms(2) by blast
qed

section \<open>Frame rules\<close>

text \<open>The pages only the kernel may write: table pages and free pages.\<close>

definition kpages :: "'a kmem_scheme \<Rightarrow> u64 list \<Rightarrow> u64 set \<Rightarrow> u64 set" where
  "kpages s ps R = set ps \<union> tables s R"

lemma leaf_ok_cong:
  assumes "same_leaves R (pmem s) (pmem s')" "kend s' = kend s" "r \<in> R" "lpath p"
    and "bit (pte_at (pmem s) r p) 0 \<Longrightarrow> page_ok s (PTE2PA (pte_at (pmem s) r p)) \<Longrightarrow>
      own' (PTE2PA (pte_at (pmem s) r p)) = own (PTE2PA (pte_at (pmem s) r p))"
  shows "leaf_ok s' R own' r p \<longleftrightarrow> leaf_ok s R own r p"
  using assms(5) same_leavesD [OF assms(1,3,4)]
  by (auto simp: leaf_ok_def Let_def page_ok_def assms(2) refs_cong [OF assms(1)])

lemma vm_inv_frame:
  assumes inv: "vm_inv s ps R own" and "kmem_inv s' [] ps'" "kend s' = kend s" "set ps' \<subseteq> set ps"
    and mem: "\<And>x. PGROUNDDOWN x \<in> tables s R \<Longrightarrow> pmem s' x = pmem s x"
    and count: "\<And>f. page_ok s f \<Longrightarrow> refcnt s' (pfn f) - refcnt s (pfn f) = own' f - own f"
    and own: "\<And>f. page_ok s f \<Longrightarrow> f \<notin> set ps \<Longrightarrow> own' f = own f"
  shows "vm_inv s' ps' R own'" "tables s' R = tables s R" "same_leaves R (pmem s) (pmem s')"
proof -
  note pt = vm_pt [OF inv]
  have tc: "refcnt s' (pfn t) = 1" if "t \<in> tables s R" for t
    using pt_table [OF pt that] count [of t] own [of t] by simp
  have pt': "pt_inv s' ps' R" "tables s' R = tables s R"
    using pt_inv_frame [OF pt assms(2,3) mem tc] assms(4) pt_leaf [OF pt] by blast+
  show sl: "same_leaves R (pmem s) (pmem s')"
    using pte_at_frame [OF pt mem] by (auto simp: same_leaves_def lpath_snoc)
  show "tables s' R = tables s R" by (rule pt')
  show "vm_inv s' ps' R own'"
  proof (rule vm_invI)
    fix f assume "page_ok s' f"
    then have "page_ok s f" by (simp add: page_ok_def assms(3))
    then show "refcnt s' (pfn f) =
        int (card (refs (pmem s') R f)) + (if f \<in> tables s' R then 1 else 0) + own' f"
      using vm_count [OF inv] count [of f] by (simp add: pt' refs_cong [OF sl])
  next
    fix r p assume rp: "r \<in> R" "lpath p"
    have "leaf_ok s' R own' r p \<longleftrightarrow> leaf_ok s R own r p"
    proof (rule leaf_ok_cong [OF sl assms(3) rp])
      assume v: "bit (pte_at (pmem s) r p) 0" "page_ok s (PTE2PA (pte_at (pmem s) r p))"
      have "p \<noteq> []" using rp by (auto simp: lpath_def)
      then have "PTE2PA (pte_at (pmem s) r p) \<notin> set ps"
        using pt_leaf [OF pt rp] v by (simp add: tab_leaf)
      with v show "own' (PTE2PA (pte_at (pmem s) r p)) = own (PTE2PA (pte_at (pmem s) r p))"
        by (intro own)
    qed
    with vm_leaf_ok [OF inv rp] show "leaf_ok s' R own' r p" by simp
  qed (rule pt')
qed

lemma vm_write:
  assumes inv: "vm_inv s ps R own" and mem: "\<And>x. PGROUNDDOWN x \<in> kpages s ps R \<Longrightarrow> m' x = pmem s x"
  shows "vm_inv (s\<lparr>pmem := m'\<rparr>) ps R own" "tables (s\<lparr>pmem := m'\<rparr>) R = tables s R"
    "same_leaves R (pmem s) m'"
proof -
  have "kmem_inv (s\<lparr>pmem := m'\<rparr>) [] ps"
    by (rule kmem_inv_frame [OF pt_kmem [OF vm_pt [OF inv]]]) (use mem in \<open>auto simp: kpages_def\<close>)
  from vm_inv_frame [OF inv this] mem show "vm_inv (s\<lparr>pmem := m'\<rparr>) ps R own"
    "tables (s\<lparr>pmem := m'\<rparr>) R = tables s R" "same_leaves R (pmem s) m'"
    by (auto simp: kpages_def)
qed

lemma vm_kalloc_Nil: "vm_inv s [] R own \<Longrightarrow> kalloc s = (0, s)"
  using kalloc_Nil pt_kmem vm_pt by blast

lemma vm_kalloc:
  assumes inv: "vm_inv s (n # ps) R own"
  defines "s' \<equiv> snd (kalloc s)"
  shows "kalloc s = (n, s')" "n \<noteq> 0" "page_ok s n" "kend s' = kend s" "kmem.more s' = kmem.more s"
    "vm_inv s' ps R (own(n := 1))" "tables s' R = tables s R" "same_leaves R (pmem s) (pmem s')"
    "\<And>x. PGROUNDDOWN x \<noteq> n \<Longrightarrow> pmem s' x = pmem s x"
    "n \<notin> kpages s' ps R"
proof -
  note k = pt_kmem [OF vm_pt [OF inv]]
  note free = vm_free [OF inv, of n, simplified]
  have eq: "kalloc s = (n, s\<lparr>pmem := mem_fill (pmem s) n 4096 5, freelist := load64 (pmem s) n,
      refcnt := (refcnt s)(pfn n := 1)\<rparr>)"
    by (rule kalloc_Cons(1) [OF k])
  then show "kalloc s = (n, s')" "kend s' = kend s" "kmem.more s' = kmem.more s" by (simp_all add: s'_def)
  have al: "pg_aligned n" using free(1) by (simp add: page_ok_def)
  show mem: "pmem s' x = pmem s x" if "PGROUNDDOWN x \<noteq> n" for x
    using that al by (simp add: s'_def eq mem_simps)
  show ok: "page_ok s n" by (rule free)
  show "n \<noteq> 0" using k by (auto simp: kmem_inv_def)
  have k': "kmem_inv s' [] ps" unfolding s'_def by (rule kalloc_Cons(2) [OF k])
  have "vm_inv s' ps R (own(n := 1)) \<and> tables s' R = tables s R \<and> same_leaves R (pmem s) (pmem s')"
  proof (intro conjI)
    note * = vm_inv_frame [OF inv k', where own' = "own(n := 1)"]
    have 1: "kend s' = kend s" "set ps \<subseteq> set (n # ps)" using eq by (auto simp: s'_def)
    have 2: "pmem s' x = pmem s x" if "PGROUNDDOWN x \<in> tables s R" for x
      using that free(4) by (intro mem) auto
    have 3: "refcnt s' (pfn f) - refcnt s (pfn f) = (own(n := 1)) f - own f" if "page_ok s f" for f
      using that al free(2,5) eq pfn_inject [of f n] by (auto simp: s'_def page_ok_def)
    have 4: "(own(n := 1)) f = own f" if "f \<notin> set (n # ps)" for f using that by simp
    show "vm_inv s' ps R (own(n := 1))" "tables s' R = tables s R" "same_leaves R (pmem s) (pmem s')"
      using *[OF 1 2 3 4] by blast+
  qed
  then show "vm_inv s' ps R (own(n := 1))" "tables s' R = tables s R"
    "same_leaves R (pmem s) (pmem s')" by blast+
  moreover have "n \<notin> set ps" using k by (auto simp: kmem_inv_def)
  ultimately show "n \<notin> kpages s' ps R" using free(4) by (simp add: kpages_def)
qed

section \<open>Adding a table page\<close>

abbreviation zeroed :: "u64 \<Rightarrow> 'a kmem_scheme \<Rightarrow> 'a kmem_scheme" where
  "zeroed n s \<equiv> s\<lparr>pmem := memset (pmem s) n 0 (ucast PGSIZE)\<rparr>"

lemma vm_kalloc_zero:
  assumes inv: "vm_inv s (n # ps) R own"
  defines "s' \<equiv> zeroed n (snd (kalloc s))"
  shows "kend s' = kend s" "kmem.more s' = kmem.more s"
    "vm_inv s' ps R (own(n := 1))" "tables s' R = tables s R" "same_leaves R (pmem s) (pmem s')"
    "\<And>x. PGROUNDDOWN x \<noteq> n \<Longrightarrow> pmem s' x = pmem s x" "\<And>x. PGROUNDDOWN x = n \<Longrightarrow> pmem s' x = 0"
    "n \<notin> kpages s' ps R" "refcnt s' (pfn n) = 1" "page_ok s' n"
    "\<And>r p. r \<in> R \<Longrightarrow> lpath p \<Longrightarrow> tab (pmem s') r p \<noteq> Some n"
proof -
  note a = vm_kalloc [OF inv] and free = vm_free [OF inv, of n, simplified]
  have al: "pg_aligned n" using a(3) by (simp add: page_ok_def)
  have m: "pmem s' = mem_fill (pmem (snd (kalloc s))) n 4096 0" by (simp add: s'_def memset_page)
  show k: "kend s' = kend s" "kmem.more s' = kmem.more s" using a(4,5) by (simp_all add: s'_def)
  have w: "pmem s' x = pmem (snd (kalloc s)) x" if "PGROUNDDOWN x \<in> kpages (snd (kalloc s)) ps R" for x
    using that a(10) al by (auto simp: m mem_simps)
  note w = vm_write [OF a(6) w]
  show sl: "same_leaves R (pmem s) (pmem s')" using same_leaves_trans [OF a(8) w(3)] .
  show T: "tables s' R = tables s R" using w(2) a(7) by (simp add: s'_def)
  show inv': "vm_inv s' ps R (own(n := 1))" using w(1) by (simp add: s'_def)
  show "\<And>x. PGROUNDDOWN x \<noteq> n \<Longrightarrow> pmem s' x = pmem s x" "\<And>x. PGROUNDDOWN x = n \<Longrightarrow> pmem s' x = 0"
    using a(9) al by (simp_all add: m mem_simps)
  show "n \<notin> kpages s' ps R" using a(7,10) T by (simp add: kpages_def)
  show ok: "page_ok s' n" using a(3) k by (simp add: page_ok_def)
  show "refcnt s' (pfn n) = 1"
    using vm_count [OF inv' ok] free(3,4) by (simp add: refs_cong [OF sl] T)
  show "\<And>r p. r \<in> R \<Longrightarrow> lpath p \<Longrightarrow> tab (pmem s') r p \<noteq> Some n"
    using free(6) same_leaves_tab [OF sl] by simp
qed

lemma vm_add_table:
  assumes inv: "vm_inv s ps R own" and e: "empty_slot s R r q i t"
    and n: "page_ok s n" "own n = 1" "refcnt s (pfn n) = 1" "n \<notin> tables s R"
      "\<And>x. PGROUNDDOWN x = n \<Longrightarrow> pmem s x = 0" "\<And>r p. r \<in> R \<Longrightarrow> lpath p \<Longrightarrow> tab (pmem s) r p \<noteq> Some n"
  defines "s' \<equiv> install s t i (PA2PTE n OR PTE_V)"
  shows "vm_inv s' ps R (own(n := 0))" "tables s' R = insert n (tables s R)"
    "same_leaves R (pmem s) (pmem s')" "tab (pmem s') r (q @ [i]) = Some n"
proof -
  note pt = vm_pt [OF inv]
  have fr: "fresh_table s R n" using n by (simp add: fresh_table_def)
  show T: "tables s' R = insert n (tables s R)"
    unfolding s'_def by (rule add_table_tables [OF pt e fr])
  show "tab (pmem s') r (q @ [i]) = Some n"
    unfolding s'_def using add_table_tab [OF pt e fr] empty_slotD [OF e] by simp
  show sl: "same_leaves R (pmem s) (pmem s')"
    unfolding same_leaves_def
  proof (intro ballI allI impI)
    fix r' p assume "r' \<in> R" "lpath p"
    moreover from this obtain p' j where "p = p' @ [j]" "tpath p'" "j < 512" "length p' = 2"
      by (auto simp: lpath_snoc)
    ultimately show "pte_at (pmem s') r' p = pte_at (pmem s) r' p"
      unfolding s'_def using add_table_pte [OF pt e fr, of r' p' j] empty_slotD(7) [OF e] by auto
  qed
  have none: "refs (pmem s) R n = {}"
    using n(6) refs_tab by fastforce
  show "vm_inv s' ps R (own(n := 0))"
  proof (rule vm_invI)
    show "pt_inv s' ps R" unfolding s'_def by (rule add_table [OF pt e fr])
    fix f assume "page_ok s' f"
    then have f: "page_ok s f" by (simp add: page_ok_def s'_def)
    show "refcnt s' (pfn f) =
        int (card (refs (pmem s') R f)) + (if f \<in> tables s' R then 1 else 0) + (own(n := 0)) f"
      using vm_count [OF inv f] n(2,3,4) none by (simp add: T refs_cong [OF sl]) (simp add: s'_def)
  next
    fix r p assume rp: "r \<in> R" "lpath p"
    have "leaf_ok s' R (own(n := 0)) r p \<longleftrightarrow> leaf_ok s R own r p"
    proof (rule leaf_ok_cong [OF sl _ rp])
      assume "bit (pte_at (pmem s) r p) 0"
      moreover have "p \<noteq> []" using rp by (auto simp: lpath_def)
      ultimately have "PTE2PA (pte_at (pmem s) r p) \<noteq> n" using n(6) [OF rp] by (simp add: tab_leaf)
      then show "(own(n := 0)) (PTE2PA (pte_at (pmem s) r p)) = own (PTE2PA (pte_at (pmem s) r p))" by simp
    qed (simp add: s'_def)
    with vm_leaf_ok [OF inv rp] show "leaf_ok s' R (own(n := 0)) r p" by simp
  qed
qed

section \<open>walk with allocation\<close>

text \<open>A step that writes kernel pages only, and takes kernel pages only from the kernel's.\<close>

definition vm_private :: "u64 set \<Rightarrow> 'a kmem_scheme \<Rightarrow> u64 list \<Rightarrow> 'a kmem_scheme \<Rightarrow> u64 list \<Rightarrow> bool" where
  "vm_private R s ps s' ps' \<longleftrightarrow> kend s' = kend s \<and> kmem.more s' = kmem.more s \<and>
     kpages s' ps' R \<subseteq> kpages s ps R \<and>
     (\<forall>x. PGROUNDDOWN x \<notin> kpages s ps R \<longrightarrow> pmem s' x = pmem s x)"

lemma vm_private_refl [simp]: "vm_private R s ps s ps"
  by (simp add: vm_private_def)

lemma vm_private_trans:
  "vm_private R s ps s' ps' \<Longrightarrow> vm_private R s' ps' s'' ps'' \<Longrightarrow> vm_private R s ps s'' ps''"
  unfolding vm_private_def by (metis subset_iff)

lemma empty_slot_frame:
  assumes "pt_inv s ps R" "empty_slot s R r q i t"
    and mem: "\<And>x. PGROUNDDOWN x \<in> tables s R \<Longrightarrow> pmem s' x = pmem s x"
  shows "empty_slot s' R r q i t"
proof -
  note e = empty_slotD [OF assms(2)]
  have "tab (pmem s') r q = Some t" using tab_frame [OF assms(1) mem e(1)] e(3,5) by simp
  moreover have "load64 (pmem s') (slot t i) = load64 (pmem s) (slot t i)"
    by (rule load64_page_cong) (use pt_table(3) [OF assms(1) e(8)] e(6,8) mem in auto)
  ultimately show ?thesis using e by (simp add: empty_slot_def)
qed

text \<open>One level of \<open>walk\<close> that allocates.\<close>

lemma vm_grow:
  assumes inv: "vm_inv s (n # ps) R own" and e: "empty_slot s R r q i t"
  defines "s' \<equiv> install (zeroed n (snd (kalloc s))) t i (PA2PTE n OR PTE_V)"
  shows "vm_inv s' ps R own" "same_leaves R (pmem s) (pmem s')" "vm_private R s (n # ps) s' ps"
    "tab (pmem s') r (q @ [i]) = Some n"
proof -
  let ?s1 = "zeroed n (snd (kalloc s))"
  note z = vm_kalloc_zero [OF inv] and free = vm_free [OF inv, of n, simplified]
  have e1: "empty_slot ?s1 R r q i t"
    by (rule empty_slot_frame [OF vm_pt [OF inv] e z(6)]) (use free(4) in auto)
  have n: "page_ok ?s1 n" "(own(n := 1)) n = 1" "refcnt ?s1 (pfn n) = 1" "n \<notin> tables ?s1 R"
    using z(8-10) by (auto simp: kpages_def)
  note g = vm_add_table [OF z(3) e1 n z(7,11)]
  have own: "own(n := 1, n := 0) = own" using free(5) by (auto simp: fun_eq_iff)
  show "vm_inv s' ps R own" using g(1) unfolding s'_def own .
  show "same_leaves R (pmem s) (pmem s')" using same_leaves_trans [OF z(5) g(3)] unfolding s'_def by simp
  show "tab (pmem s') r (q @ [i]) = Some n" using g(4) unfolding s'_def .
  have T: "tables s' R = insert n (tables s R)" using g(2) z(4) unfolding s'_def by simp
  note t = pt_table(3) [OF vm_pt [OF inv] empty_slotD(8) [OF e]]
  have mem: "pmem s' x = pmem s x" if "PGROUNDDOWN x \<notin> kpages s (n # ps) R" for x
  proof -
    have "PGROUNDDOWN x \<noteq> t" "PGROUNDDOWN x \<noteq> n"
      using that empty_slotD(8) [OF e] by (auto simp: kpages_def)
    then have "pmem s' x = pmem ?s1 x"
      unfolding s'_def using t empty_slotD(6) [OF e] by (simp add: store_slot_other)
    with z(6) \<open>PGROUNDDOWN x \<noteq> n\<close> show ?thesis by simp
  qed
  show "vm_private R s (n # ps) s' ps"
    unfolding vm_private_def using mem T z(1,2) by (auto simp: kpages_def s'_def)
qed

lemma walk_loop_alloc:
  assumes "vm_inv s ps R own" "r \<in> R" "tab (pmem s) r q = Some t" "tpath (q @ upper l va)" "length q + l = 2"
    and "walk_loop l t va True s = (pte, s')"
  shows "\<exists>k\<le>l. vm_inv s' (drop k ps) R own \<and> same_leaves R (pmem s) (pmem s') \<and>
    vm_private R s ps s' (drop k ps) \<and>
    (if pte = 0 then drop k ps = [] \<and> length ps < l
     else \<exists>u. tab (pmem s') r (q @ upper l va) = Some u \<and> pte = slot u (PX 0 va))"
  using assms
proof (induction l arbitrary: s ps q t)
  case 0
  then have "t \<in> tables s R" by (auto simp: tpath_def intro!: tablesI [of r R q])
  then have "slot t (PX 0 va) \<noteq> 0"
    using pt_table(3,4) [OF vm_pt [OF "0.prems"(1)]] by (intro slot_nonzero) (auto simp: PX_less)
  with 0 show ?case by auto
next
  case (Suc l)
  let ?i = "PX (Suc l) va"
  have path: "tpath (q @ [?i])" "tpath ((q @ [?i]) @ upper l va)" "length (q @ [?i]) + l = 2"
    using Suc.prems(4,5) by (auto simp: tpath_def)
  show ?case
  proof (cases "bit (load64 (pmem s) (slot t ?i)) 0")
    case True
    then have "tab (pmem s) r (q @ [?i]) = Some (PTE2PA (load64 (pmem s) (slot t ?i)))"
      using Suc.prems(3) by (simp add: tab_snoc)
    moreover have "walk_loop l (PTE2PA (load64 (pmem s) (slot t ?i))) va True s = (pte, s')"
      using Suc.prems(6) True by (simp add: Let_def pte_simps)
    ultimately obtain k where "k \<le> l" "vm_inv s' (drop k ps) R own" "same_leaves R (pmem s) (pmem s')"
      "vm_private R s ps s' (drop k ps)"
      "if pte = 0 then drop k ps = [] \<and> length ps < l
       else \<exists>u. tab (pmem s') r ((q @ [?i]) @ upper l va) = Some u \<and> pte = slot u (PX 0 va)"
      using Suc.IH [OF Suc.prems(1,2) _ path(2,3)] by blast
    then show ?thesis by (intro exI [of _ k]) (auto split: if_splits)
  next
    case False
    then have e: "empty_slot s R r q ?i t" using Suc.prems(2,3) path(1) by (simp add: empty_slot_def)
    show ?thesis
    proof (cases ps)
      case Nil
      then have "kalloc s = (0, s)" using vm_kalloc_Nil Suc.prems(1) by blast
      with Suc.prems(1,6) False Nil show ?thesis by (auto simp: Let_def pte_simps)
    next
      case (Cons n ps1)
      note inv = Suc.prems(1) [unfolded Cons]
      let ?s1 = "install (zeroed n (snd (kalloc s))) t ?i (PA2PTE n OR PTE_V)"
      note a = vm_kalloc(1,2) [OF inv] and g = vm_grow [OF inv e]
      have "walk_loop l n va True ?s1 = (pte, s')"
        using Suc.prems(6) False a(2) a(1) by (simp add: Let_def pte_simps split: prod.splits)
      then obtain k where k: "k \<le> l" "vm_inv s' (drop k ps1) R own" "same_leaves R (pmem ?s1) (pmem s')"
        "vm_private R ?s1 ps1 s' (drop k ps1)"
        "if pte = 0 then drop k ps1 = [] \<and> length ps1 < l
         else \<exists>u. tab (pmem s') r ((q @ [?i]) @ upper l va) = Some u \<and> pte = slot u (PX 0 va)"
        using Suc.IH [OF g(1) Suc.prems(2) g(4) path(2,3)] by blast
      with same_leaves_trans [OF g(2) k(3)] vm_private_trans [OF g(3) k(4)] Cons show ?thesis
        by (intro exI [of _ "Suc k"]) (auto split: if_splits)
    qed
  qed
qed

end
