(* ===== verification/Uvm.thy ===== *)
theory Uvm
  imports Addrspace
begin

text \<open>
  What storing a user leaf entry and dropping a reference do to the invariant, and from
  these the specifications of the operations of \<^verbatim>\<open>kernel/vm.c\<close> that map and
  unmap single pages.
\<close>

section \<open>Storing a user leaf\<close>

definition leaf_upd :: "u64 set \<Rightarrow> u64 \<Rightarrow> u64 list \<Rightarrow> u64 \<Rightarrow> mem \<Rightarrow> mem \<Rightarrow> bool" where
  "leaf_upd R r p v m m' \<longleftrightarrow>
     (\<forall>r'\<in>R. \<forall>p'. lpath p' \<longrightarrow> pte_at m' r' p' = (if r' = r \<and> p' = p then v else pte_at m r' p'))"

lemma leaf_updD: "leaf_upd R r p v m m' \<Longrightarrow> r' \<in> R \<Longrightarrow> lpath p' \<Longrightarrow>
    pte_at m' r' p' = (if r' = r \<and> p' = p then v else pte_at m r' p')"
  by (simp add: leaf_upd_def)

lemma leaf_upd_same: "same_leaves R m m' \<Longrightarrow> leaf_upd R r p v m' m'' \<Longrightarrow> leaf_upd R r p v m m''"
  "leaf_upd R r p v m m' \<Longrightarrow> same_leaves R m' m'' \<Longrightarrow> leaf_upd R r p v m m''"
  by (simp_all add: leaf_upd_def same_leaves_def)

lemma leaf_upd_install:
  assumes "pt_inv s ps R" "leaf_slot s R r q i t"
  shows "leaf_upd R r (q @ [i]) v (pmem s) (pmem (install s t i v))"
  unfolding leaf_upd_def lpath_snoc using leaf_store_pte [OF assms] by blast

text \<open>A leaf that maps \<open>f\<close>, as a number.\<close>

definition maps :: "u64 \<Rightarrow> u64 \<Rightarrow> int" where
  "maps e f = (if bit e 0 \<and> PTE2PA e = f then 1 else 0)"

lemma maps_simps [simp]: "maps 0 f = 0" "\<not> bit e 0 \<Longrightarrow> maps e f = 0" "PTE2PA e \<noteq> f \<Longrightarrow> maps e f = 0"
  "bit e 0 \<Longrightarrow> maps e (PTE2PA e) = 1"
  by (simp_all add: maps_def)

lemma refs_upd:
  assumes "leaf_upd R r p v m m'" "r \<in> R" "upath p"
  shows "refs m' R f = refs m R f - {(r, p)} \<union> (if maps v f = 1 then {(r, p)} else {})"
  using leaf_updD [OF assms(1)] assms(2,3) by (auto simp: refs_def maps_def upathD split: if_splits)

lemma card_refs_upd:
  assumes "leaf_upd R r p v m m'" "r \<in> R" "upath p" "finite R"
  shows "int (card (refs m' R f)) = int (card (refs m R f)) - maps (pte_at m r p) f + maps v f"
proof -
  have fin: "finite (refs m R f)" by (rule finite_refs [OF assms(4)])
  have "(r, p) \<in> refs m R f \<longleftrightarrow> maps (pte_at m r p) f = 1" using assms(2,3) by (simp add: refs_def maps_def)
  then have "int (card (refs m R f - {(r, p)})) = int (card (refs m R f)) - maps (pte_at m r p) f"
    using fin card_Suc_Diff1 [OF fin, of "(r, p)"] by (cases "(r, p) \<in> refs m R f") (auto simp: maps_def)
  moreover have "int (card (refs m' R f)) = int (card (refs m R f - {(r, p)})) + maps v f"
    unfolding refs_upd [OF assms(1-3)] using fin by (auto simp: maps_def card.insert_remove)
  ultimately show ?thesis by simp
qed

text \<open>When entry \<open>v\<close> may be stored at \<open>(r, p)\<close>: its page is in use, no other leaf maps it
  writable, and if \<open>v\<close> itself is writable, no other leaf maps it at all.\<close>

definition storable :: "'a kmem_scheme \<Rightarrow> u64 list \<Rightarrow> u64 set \<Rightarrow> (u64 \<Rightarrow> int) \<Rightarrow> u64 \<Rightarrow> u64 list \<Rightarrow> u64 \<Rightarrow> bool" where
  "storable s ps R own r p v \<longleftrightarrow>
     (bit v 0 \<longrightarrow>
        page_ok s (PTE2PA v) \<and> PTE2PA v \<notin> kpages s ps R \<and>
        (\<forall>r'\<in>R. \<forall>p'. lpath p' \<longrightarrow> \<not> upath p' \<longrightarrow> tab (pmem s) r' p' \<noteq> Some (PTE2PA v)) \<and>
        (\<forall>(r', p')\<in>refs (pmem s) R (PTE2PA v) - {(r, p)}. \<not> bit (pte_at (pmem s) r' p') 2 \<and> \<not> bit v 2) \<and>
        (bit v 2 \<longrightarrow> own (PTE2PA v) + maps (pte_at (pmem s) r p) (PTE2PA v) = 1))"

lemma storable_invalid: "\<not> bit v 0 \<Longrightarrow> storable s ps R own r p v"
  by (simp add: storable_def)

abbreviation moved :: "u64 \<Rightarrow> u64 \<Rightarrow> (u64 \<Rightarrow> int) \<Rightarrow> u64 \<Rightarrow> int" where
  "moved e v own \<equiv> \<lambda>f. own f + maps e f - maps v f"

lemma vm_store_leaf_ok:
  assumes inv: "vm_inv s ps R own" and upd: "leaf_upd R r p v (pmem s) (pmem s')" "kend s' = kend s"
    and p: "r \<in> R" "upath p" and v: "storable s ps R own r p v" and rp': "r' \<in> R" "lpath p'"
  shows "leaf_ok s' R (moved (pte_at (pmem s) r p) v own) r' p'"
proof (cases "r' = r \<and> p' = p")
  case True
  have e': "pte_at (pmem s') r p = v" using leaf_updD [OF upd(1) p(1) upathD [OF p(2)]] by simp
  show ?thesis
  proof (cases "bit v 0")
    case True': True
    have "refs (pmem s') R (PTE2PA v) = {(r, p)}" if "bit v 2"
      using v True' that unfolding refs_upd [OF upd(1) p] storable_def by auto
    with v True True' e' p(2) upd(2) show ?thesis
      by (auto simp: leaf_ok_def storable_def page_ok_def)
  qed (use True e' in \<open>simp add: leaf_ok_def\<close>)
next
  case False
  let ?e = "pte_at (pmem s) r p" and ?g = "pte_at (pmem s) r' p'"
  have e': "pte_at (pmem s') r' p' = ?g" using leaf_updD [OF upd(1) rp'] False by auto
  note ok = vm_leaf_ok [OF inv rp', unfolded leaf_ok_def Let_def]
  show ?thesis
  proof (cases "bit ?g 0")
    case True
    have g: "tab (pmem s) r' p' = Some (PTE2PA ?g)" by (rule tab_lpath [OF rp'(2) True])
    show ?thesis
    proof (cases "upath p'")
      case True': True
      have "refs (pmem s') R (PTE2PA ?g) = {(r', p')} \<and> moved ?e v own (PTE2PA ?g) = 0" if "bit ?g 2"
      proof -
        have one: "refs (pmem s) R (PTE2PA ?g) = {(r', p')}" "own (PTE2PA ?g) = 0"
          using ok True True' that by auto
        then have "maps ?e (PTE2PA ?g) = 0"
          using False p by (auto simp: maps_def refs_def)
        moreover have "maps v (PTE2PA ?g) = 0"
          using v one that False by (auto simp: maps_def storable_def)
        ultimately show ?thesis
          using one False unfolding refs_upd [OF upd(1) p] by auto
      qed
      with ok True True' e' show ?thesis by (auto simp: leaf_ok_def page_ok_def upd(2))
    next
      case False': False
      have "refs (pmem s') R (PTE2PA ?g) = {} \<and> 0 < moved ?e v own (PTE2PA ?g)" if "page_ok s (PTE2PA ?g)"
      proof -
        have one: "refs (pmem s) R (PTE2PA ?g) = {}" "0 < own (PTE2PA ?g)"
          using ok True False' that by auto
        then have "maps ?e (PTE2PA ?g) = 0" using p by (auto simp: maps_def refs_def)
        moreover have "maps v (PTE2PA ?g) = 0"
          using v g rp' False' by (auto simp: maps_def storable_def)
        ultimately show ?thesis using one unfolding refs_upd [OF upd(1) p] by auto
      qed
      with ok True False' e' show ?thesis by (auto simp: leaf_ok_def page_ok_def upd(2))
    qed
  qed (simp add: leaf_ok_def e')
qed

lemma vm_store:
  assumes inv: "vm_inv s ps R own" and l: "leaf_slot s R r q i t" and p: "upath (q @ [i])"
    and v: "storable s ps R own r (q @ [i]) v"
  shows "vm_inv (install s t i v) ps R (moved (pte_at (pmem s) r (q @ [i])) v own)" (is "vm_inv ?s ps R ?own")
    and "leaf_upd R r (q @ [i]) v (pmem s) (pmem (install s t i v))"
    and "vm_private R s ps (install s t i v) ps" "tables (install s t i v) R = tables s R"
proof -
  note pt = vm_pt [OF inv] and D = leaf_slotD [OF l]
  show upd: "leaf_upd R r (q @ [i]) v (pmem s) (pmem ?s)" by (rule leaf_upd_install [OF pt l])
  show T: "tables ?s R = tables s R" by (rule leaf_store_tables [OF pt l])
  show "vm_private R s ps ?s ps"
    using T D(4,6) pt_table(3) [OF pt D(6)]
    by (auto simp: vm_private_def kpages_def intro!: store_slot_other)
  show "vm_inv ?s ps R ?own"
  proof (rule vm_invI)
    show "pt_inv ?s ps R"
      by (rule leaf_store [OF pt l]) (use v in \<open>auto simp: storable_def kpages_def\<close>)
    fix f assume "page_ok ?s f"
    then have "page_ok s f" by (simp add: page_ok_def)
    then show "refcnt ?s (pfn f) =
        int (card (refs (pmem ?s) R f)) + (if f \<in> tables ?s R then 1 else 0) + ?own f"
      using vm_count [OF inv] T card_refs_upd [OF upd D(1) p pt_finite [OF pt], of f] by simp
  next
    fix r' p' assume "r' \<in> R" "lpath p'"
    then show "leaf_ok ?s R ?own r' p'"
      by (intro vm_store_leaf_ok [OF inv upd _ D(1) p v]) auto
  qed
qed

section \<open>Dropping a reference\<close>

lemma kfree_cases:
  assumes "kmem_inv s [] ps" "page_ok s f" "0 < refcnt s (pfn f)"
  obtains (shared) s' where "kfree f s = Ok s'" "s' = s\<lparr>refcnt := (refcnt s)(pfn f := refcnt s (pfn f) - 1)\<rparr>"
      "1 < refcnt s (pfn f)" "kmem_inv s' [] ps"
  | (lastref) s' where "kfree f s = Ok s'" "s' = kfree_push f (s\<lparr>refcnt := (refcnt s)(pfn f := 0)\<rparr>)"
      "refcnt s (pfn f) = 1" "kmem_inv s' [] (f # ps)"
proof (cases "refcnt s (pfn f) = 1")
  case True
  then show ?thesis using lastref kfree_last [OF assms(1,2)] by blast
next
  case False
  then show ?thesis using shared kfree_more [OF assms(1,2)] assms(3) by auto
qed

text \<open>A page the kernel owns a reference to, which may be dropped: if it is mapped, then not
  writable, and not as one of the uncounted pages unless another kernel reference remains.\<close>

definition droppable :: "'a kmem_scheme \<Rightarrow> u64 set \<Rightarrow> (u64 \<Rightarrow> int) \<Rightarrow> u64 \<Rightarrow> bool" where
  "droppable s R own f \<longleftrightarrow>
     page_ok s f \<and> 0 < own f \<and> f \<notin> tables s R \<and>
     (\<forall>(r, p)\<in>refs (pmem s) R f. \<not> bit (pte_at (pmem s) r p) 2) \<and>
     (\<forall>r\<in>R. \<forall>p. lpath p \<longrightarrow> \<not> upath p \<longrightarrow> tab (pmem s) r p = Some f \<longrightarrow> 1 < own f)"

lemma droppableD:
  assumes "droppable s R own f"
  shows "page_ok s f" "0 < own f" "f \<notin> tables s R" "pg_aligned f"
    "\<And>r p. (r, p) \<in> refs (pmem s) R f \<Longrightarrow> \<not> bit (pte_at (pmem s) r p) 2"
    "\<And>r p. r \<in> R \<Longrightarrow> lpath p \<Longrightarrow> \<not> upath p \<Longrightarrow> tab (pmem s) r p = Some f \<Longrightarrow> 1 < own f"
  using assms by (auto simp: droppable_def page_ok_def)

lemma droppable_count:
  assumes inv: "vm_inv s ps R own" and d: "droppable s R own f"
  shows "0 < refcnt s (pfn f)"
    and "refcnt s (pfn f) = 1 \<Longrightarrow> r \<in> R \<Longrightarrow> lpath p \<Longrightarrow> tab (pmem s) r p \<noteq> Some f"
proof -
  note d = droppableD [OF d]
  have cnt: "refcnt s (pfn f) = int (card (refs (pmem s) R f)) + own f"
    using vm_count [OF inv d(1)] d(3) by simp
  then show "0 < refcnt s (pfn f)" using d(2) by simp
  show "tab (pmem s) r p \<noteq> Some f" if "refcnt s (pfn f) = 1" "r \<in> R" "lpath p"
  proof
    assume t: "tab (pmem s) r p = Some f"
    have "card (refs (pmem s) R f) = 0" "own f = 1" using cnt that(1) d(2) by linarith+
    then have "refs (pmem s) R f = {}" using finite_refs [OF pt_finite [OF vm_pt [OF inv]]] by simp
    moreover have "p \<noteq> []" using that(3) by (auto simp: lpath_def)
    ultimately have "\<not> upath p" using t that(2) by (auto simp: refs_def tab_leaf split: if_splits)
    with d(6) [OF that(2,3) _ t] \<open>own f = 1\<close> show False by simp
  qed
qed

lemma vm_release:
  assumes inv: "vm_inv s ps R own" and d: "droppable s R own f" and k: "kmem_inv s' [] ps'"
    and s': "kend s' = kend s" "refcnt s' = (refcnt s)(pfn f := refcnt s (pfn f) - 1)"
    and ps': "ps' = ps \<and> 1 < refcnt s (pfn f) \<or> ps' = f # ps \<and> refcnt s (pfn f) = 1"
    and mem: "\<And>x. PGROUNDDOWN x \<noteq> f \<or> ps' = ps \<Longrightarrow> pmem s' x = pmem s x"
  shows "vm_inv s' ps' R (own(f := own f - 1))" "same_leaves R (pmem s) (pmem s')" "tables s' R = tables s R"
proof -
  note pt = vm_pt [OF inv] and D = droppableD [OF d]
  have mem_t: "pmem s' x = pmem s x" if "PGROUNDDOWN x \<in> tables s R" for x
    using that D(3) by (intro mem) auto
  have one: "refcnt s' (pfn t) = 1" if "t \<in> tables s R" for t
    using that D(3,4) pt_table [OF pt that] by (auto simp: s' pfn_inject)
  have leaf: "g \<notin> set ps'" if "r \<in> R" "lpath p" "tab (pmem s) r p = Some g" for r p g
    using droppable_count(2) [OF inv d _ that(1,2)] that(3) pt_leaf [OF pt that] ps' by auto
  have pt': "pt_inv s' ps' R" "tables s' R = tables s R"
    by (rule pt_inv_frame [OF pt k s'(1) mem_t one leaf]; assumption)+
  show "tables s' R = tables s R" by (rule pt')
  show sl: "same_leaves R (pmem s) (pmem s')"
    using pte_at_frame [OF pt mem_t] by (auto simp: same_leaves_def lpath_snoc)
  show "vm_inv s' ps' R (own(f := own f - 1))"
  proof (rule vm_invI)
    fix g assume "page_ok s' g"
    then have g: "page_ok s g" by (simp add: page_ok_def s')
    then have "pfn g = pfn f \<longleftrightarrow> g = f" using D(4) by (simp add: page_ok_def pfn_inject)
    with g show "refcnt s' (pfn g) = int (card (refs (pmem s') R g)) +
        (if g \<in> tables s' R then 1 else 0) + (own(f := own f - 1)) g"
      using vm_count [OF inv g] D(3) by (auto simp: pt' refs_cong [OF sl] s')
  next
    fix r p assume rp: "r \<in> R" "lpath p"
    note ok = vm_leaf_ok [OF inv rp]
    show "leaf_ok s' R (own(f := own f - 1)) r p"
    proof (cases "bit (pte_at (pmem s) r p) 0 \<and> PTE2PA (pte_at (pmem s) r p) = f")
      case False
      then have "leaf_ok s' R (own(f := own f - 1)) r p \<longleftrightarrow> leaf_ok s R own r p"
        by (intro leaf_ok_cong [OF sl s'(1) rp]) auto
      with ok show ?thesis by simp
    next
      case True
      then have t: "tab (pmem s) r p = Some f" using tab_lpath [OF rp(2)] by auto
      have "\<not> bit (pte_at (pmem s) r p) 2" if "upath p" using D(5) [of r p] rp True that by (auto simp: refs_def)
      with ok True t D(6) [OF rp] show ?thesis
        by (auto simp: leaf_ok_def Let_def same_leavesD [OF sl rp] refs_cong [OF sl]
            page_ok_cong [OF s'(1)])
    qed
  qed (rule pt')
qed

lemma vm_kfree:
  assumes inv: "vm_inv s ps R own" and d: "droppable s R own f"
  obtains s' ps' where "kfree f s = Ok s'" "vm_inv s' ps' R (own(f := own f - 1))"
    "same_leaves R (pmem s) (pmem s')" "tables s' R = tables s R" "kend s' = kend s"
    "kmem.more s' = kmem.more s"
    "ps' = ps \<and> 1 < refcnt s (pfn f) \<or> ps' = f # ps \<and> refcnt s (pfn f) = 1"
    "\<forall>x. PGROUNDDOWN x \<noteq> f \<or> ps' = ps \<longrightarrow> pmem s' x = pmem s x"
proof (rule kfree_cases [OF pt_kmem [OF vm_pt [OF inv]] droppableD(1) [OF d] droppable_count(1) [OF inv d]])
  fix s' assume *: "kfree f s = Ok s'" "s' = s\<lparr>refcnt := (refcnt s)(pfn f := refcnt s (pfn f) - 1)\<rparr>"
    "1 < refcnt s (pfn f)" "kmem_inv s' [] ps"
  with vm_release [OF inv d *(4)] show thesis by (intro that [of s' ps]) auto
next
  fix s' assume *: "kfree f s = Ok s'" "s' = kfree_push f (s\<lparr>refcnt := (refcnt s)(pfn f := 0)\<rparr>)"
    "refcnt s (pfn f) = 1" "kmem_inv s' [] (f # ps)"
  have mem: "pmem s' x = pmem s x" if "PGROUNDDOWN x \<noteq> f \<or> f # ps = ps" for x
    using that droppableD(4) [OF d] *(2) by (simp add: kfree_push_mem)
  have s': "kend s' = kend s" "refcnt s' = (refcnt s)(pfn f := refcnt s (pfn f) - 1)" "kmem.more s' = kmem.more s"
    using *(2,3) by (simp_all add: frame_simps) (simp add: kfree_push_def)
  from vm_release [OF inv d *(4) s'(1,2) _ mem] *(1,3) s' mem show thesis
    by (intro that [of s' "f # ps"]) auto
qed

section \<open>Unmapping one page\<close>

text \<open>\<open>uvmunmap\<close> frees the page before it clears the entry; the order does not matter,
  because the entry is not in the page.\<close>

lemma store64_commute:
  assumes "word_aligned a" "word_aligned b" "PGROUNDDOWN a \<noteq> PGROUNDDOWN b"
  shows "store64 (store64 m a v) b w = store64 (store64 m b w) a v"
proof
  fix x
  show "store64 (store64 m a v) b w x = store64 (store64 m b w) a v x"
    using assms page_of_word_diff [of a x] page_of_word_diff [of b x] by (auto simp: store64_def)
qed

lemma store64_fill_commute:
  assumes "word_aligned a" "pg_aligned p" "PGROUNDDOWN a \<noteq> p"
  shows "store64 (mem_fill m p 4096 c) a v = mem_fill (store64 m a v) p 4096 c"
proof
  fix x
  show "store64 (mem_fill m p 4096 c) a v x = mem_fill (store64 m a v) p 4096 c x"
    using assms page_of_word_diff [of a x] by (auto simp: store64_def fill_page)
qed

lemma kfree_install:
  assumes "pg_aligned t" "i < 512" "pg_aligned f" "t \<noteq> f" "kfree f s = Ok s'"
  shows "kfree f (install s t i v) = Ok (install s' t i v)"
proof -
  have "kfree_push f (install s t i v\<lparr>refcnt := c\<rparr>) = install (kfree_push f (s\<lparr>refcnt := c\<rparr>)) t i v" for c
    using assms(1-4)
    by (simp add: kfree_push_def memset_page store64_commute [of f] store64_fill_commute
        pg_aligned_word_aligned PGROUNDDOWN_id)
  then show ?thesis
    using assms(5) by (auto simp: kfree_def kfree_dec_def Let_def split: if_splits)
qed

lemma leaf_slot_frame:
  assumes "pt_inv s ps R" "leaf_slot s R r q i t"
    and "\<And>x. PGROUNDDOWN x \<in> tables s R \<Longrightarrow> pmem s' x = pmem s x"
  shows "leaf_slot s' R r q i t"
  using tab_frame [OF assms(1,3), of r q] leaf_slotD [OF assms(2)] by (simp add: leaf_slot_def)

lemma vm_leaf_uncounted:
  assumes inv: "vm_inv s ps R own" and "(r, p) \<in> refs (pmem s) R f" "r' \<in> R" "lpath p'" "\<not> upath p'"
  shows "tab (pmem s) r' p' \<noteq> Some f"
proof
  assume t: "tab (pmem s) r' p' = Some f"
  moreover have "p' \<noteq> []" using assms(4) by (auto simp: lpath_def)
  ultimately have "bit (pte_at (pmem s) r' p') 0" "PTE2PA (pte_at (pmem s) r' p') = f"
    by (auto simp: tab_leaf split: if_splits)
  moreover have "page_ok s f" using vm_leaf(1) [OF inv, of r p] assms(2) by (auto simp: refs_def)
  ultimately have "refs (pmem s) R f = {}"
    using vm_leaf_ok [OF inv assms(3,4)] assms(5) by (auto simp: leaf_ok_def Let_def)
  with assms(2) show False by simp
qed

lemma vm_cleared_droppable:
  assumes inv: "vm_inv s ps R own" and l: "leaf_slot s R r q i t" and p: "upath (q @ [i])"
    and e: "e = pte_at (pmem s) r (q @ [i])" "bit e 0" "bit v 0 \<Longrightarrow> PTE2PA v \<noteq> PTE2PA e" and own: "0 \<le> own (PTE2PA e)"
  shows "droppable (install s t i v) R (moved e v own) (PTE2PA e)" (is "droppable ?s0 R ?own ?f")
proof -
  note D = leaf_slotD [OF l] and pt = vm_pt [OF inv]
  note leaf = vm_leaf [OF inv D(1) p, folded e(1), OF e(2)]
  note upd = leaf_upd_install [OF pt l, of v]
  have nv: "maps v ?f = 0" using e(3) by (auto simp: maps_def)
  have rp: "(r, q @ [i]) \<in> refs (pmem s) R ?f" using D(1) p e by (auto simp: refs_def)
  show ?thesis
    unfolding droppable_def
  proof (intro conjI ballI allI impI)
    show "page_ok ?s0 ?f" using leaf(1) by (simp add: page_ok_def)
    show "0 < ?own ?f" using own e(2) nv by simp
    show "?f \<notin> tables ?s0 R" using leaf(3) leaf_store_tables [OF pt l] by simp
  next
    fix x assume x: "x \<in> refs (pmem ?s0) R ?f"
    obtain r' p' where [simp]: "x = (r', p')" by force
    have *: "(r', p') \<in> refs (pmem s) R ?f" "(r', p') \<noteq> (r, q @ [i])"
      using x refs_upd [OF upd D(1) p, of ?f] nv by auto
    then have "pte_at (pmem ?s0) r' p' = pte_at (pmem s) r' p'"
      using leaf_updD [OF upd, of r' p'] by (auto simp: refs_def upath_def)
    moreover have "\<not> bit (pte_at (pmem s) r' p') 2"
    proof
      have in_refs: "r' \<in> R" "upath p'" "bit (pte_at (pmem s) r' p') 0" "PTE2PA (pte_at (pmem s) r' p') = ?f"
        using *(1) by (auto simp: refs_def)
      assume "bit (pte_at (pmem s) r' p') 2"
      then have "refs (pmem s) R ?f = {(r', p')}" using vm_leaf(4) [OF inv in_refs(1-3)] in_refs(4) by simp
      with rp *(2) show False by auto
    qed
    ultimately show "case x of (r, p) \<Rightarrow> \<not> bit (pte_at (pmem ?s0) r p) 2" by simp
  next
    fix r' p' assume *: "r' \<in> R" "lpath p'" "\<not> upath p'" "tab (pmem ?s0) r' p' = Some ?f"
    then have "tab (pmem s) r' p' = Some ?f"
      using leaf_store_tab [OF pt l *(1), of p' v] p by (auto split: if_splits)
    with vm_leaf_uncounted [OF inv rp] * show "1 < ?own ?f" by blast
  qed
qed

lemma vm_mapped_count:
  assumes "vm_inv s ps R own" "r \<in> R" "upath p" "bit (pte_at (pmem s) r p) 0"
  shows "0 < refcnt s (pfn (PTE2PA (pte_at (pmem s) r p)))"
proof -
  have "kmem_inv s [] ps" using pt_kmem [OF vm_pt [OF assms(1)]] .
  with vm_leaf(1,2) [OF assms] show ?thesis by (fastforce simp: kmem_inv_def)
qed

text \<open>Drop the page a leaf mapped, and store another entry \<open>v\<close> that does not map it, in
  either order.\<close>

lemma vm_replace:
  assumes inv: "vm_inv s ps R own" and l: "leaf_slot s R r q i t" and p: "upath (q @ [i])"
    and e: "e = pte_at (pmem s) r (q @ [i])" "bit e 0" "bit v 0 \<Longrightarrow> PTE2PA v \<noteq> PTE2PA e" and own: "0 \<le> own (PTE2PA e)"
    and v: "storable s ps R own r (q @ [i]) v"
  obtains s' ps' s1 where "kfree (PTE2PA e) (install s t i v) = Ok s'"
    "kfree (PTE2PA e) s = Ok s1" "s' = install s1 t i v"
    "vm_inv s' ps' R (\<lambda>f. own f - maps v f)" "leaf_upd R r (q @ [i]) v (pmem s) (pmem s')"
    "leaf_slot s' R r q i t" "tables s' R = tables s R" "kend s' = kend s" "kmem.more s' = kmem.more s"
    "ps' = ps \<and> 1 < refcnt s (pfn (PTE2PA e)) \<or> ps' = PTE2PA e # ps \<and> refcnt s (pfn (PTE2PA e)) = 1"
    "\<forall>x. PGROUNDDOWN x \<notin> tables s R \<longrightarrow> PGROUNDDOWN x \<noteq> PTE2PA e \<or> ps' = ps \<longrightarrow> pmem s' x = pmem s x"
proof -
  note D = leaf_slotD [OF l] and pt = vm_pt [OF inv]
  let ?f = "PTE2PA e" and ?s0 = "install s t i v"
  note leaf = vm_leaf [OF inv D(1) p, folded e(1), OF e(2)]
  have tf: "t \<noteq> ?f" using leaf(3) D(6) by blast
  note t_al = pt_table(3) [OF pt D(6)]
  note st = vm_store [OF inv l p v, folded e(1)]
  note d = vm_cleared_droppable [OF inv l p e own]
  have own_eq: "(moved e v own)(?f := moved e v own ?f - 1) = (\<lambda>f. own f - maps v f)"
    using e(2) by (auto simp: fun_eq_iff maps_def)
  obtain s' ps' where k: "kfree ?f ?s0 = Ok s'" "vm_inv s' ps' R (\<lambda>f. own f - maps v f)"
    "same_leaves R (pmem ?s0) (pmem s')" "tables s' R = tables ?s0 R" "kend s' = kend ?s0"
    "kmem.more s' = kmem.more ?s0"
    "ps' = ps \<and> 1 < refcnt ?s0 (pfn ?f) \<or> ps' = ?f # ps \<and> refcnt ?s0 (pfn ?f) = 1"
    "\<forall>x. PGROUNDDOWN x \<noteq> ?f \<or> ps' = ps \<longrightarrow> pmem s' x = pmem ?s0 x"
    by (rule vm_kfree [OF st(1) d, unfolded own_eq]) blast
  obtain s1 where s1: "kfree ?f s = Ok s1"
    by (rule kfree_cases [OF pt_kmem [OF pt] leaf(1)])
      (use vm_mapped_count [OF inv D(1) p] e in \<open>simp_all\<close>)
  then have "s' = install s1 t i v"
    using kfree_install [OF t_al D(4) _ tf s1, of v] k(1) by simp
  moreover have "pmem ?s0 x = pmem s x" if "PGROUNDDOWN x \<notin> tables s R" for x
    using that D(4,6) t_al by (auto intro!: store_slot_other)
  moreover have "leaf_upd R r (q @ [i]) v (pmem s) (pmem s')" using leaf_upd_same(2) [OF st(2) k(3)] .
  moreover have "leaf_slot s' R r q i t"
  proof (rule leaf_slot_frame [OF vm_pt [OF st(1)]])
    show "leaf_slot ?s0 R r q i t"
      using leaf_store_tab [OF pt l D(1), of q v] D by (simp add: leaf_slot_def)
    show "pmem s' x = pmem ?s0 x" if "PGROUNDDOWN x \<in> tables ?s0 R" for x
    proof -
      have "PGROUNDDOWN x \<noteq> ?f" using that st(4) leaf(3) by auto
      with k(8) show ?thesis by blast
    qed
  qed
  ultimately show thesis
    using k s1 st(4) by (intro that [of s' s1 ps']) auto
qed

section \<open>Mapping one page\<close>

lemma walk_alloc:
  assumes inv: "vm_inv s ps R own" and "r \<in> R" "va < MAXVA"
  obtains (full) s' where "walk r va True s = Ok (0, s')" "vm_inv s' [] R own"
      "same_leaves R (pmem s) (pmem s')" "vm_private R s ps s' []" "length ps < 2"
  | (got) k t s' where "walk r va True s = Ok (slot t (PX 0 va), s')" "slot t (PX 0 va) \<noteq> 0" "k \<le> 2"
      "vm_inv s' (drop k ps) R own" "same_leaves R (pmem s) (pmem s')" "vm_private R s ps s' (drop k ps)"
      "leaf_slot s' R r (upper 2 va) (PX 0 va) t"
proof -
  obtain pte s' where w: "walk_loop 2 r va True s = (pte, s')" by fastforce
  have "tpath (upper 2 va)" by (simp add: tpath_def upper_2 PX_less)
  with walk_loop_alloc [OF inv assms(2), of "[]" r 2 va pte s', unfolded append_Nil] w obtain k where k: "k \<le> 2" "vm_inv s' (drop k ps) R own"
    "same_leaves R (pmem s) (pmem s')" "vm_private R s ps s' (drop k ps)"
    "if pte = 0 then drop k ps = [] \<and> length ps < 2
     else \<exists>u. tab (pmem s') r (upper 2 va) = Some u \<and> pte = slot u (PX 0 va)" by auto
  have walk: "walk r va True s = Ok (pte, s')" using assms(3) w by (simp add: walk_def not_le)
  show thesis
  proof (cases "pte = 0")
    case True
    then show ?thesis using k walk by (intro full) auto
  next
    case False
    with k(5) obtain u where u: "tab (pmem s') r (upper 2 va) = Some u" "pte = slot u (PX 0 va)" by auto
    show ?thesis
      using got [OF _ _ k(1-4) leaf_slot_walk [OF assms(2) u(1)]] walk False u(2) by simp
  qed
qed

text \<open>The entry \<^verbatim>\<open>mappages\<close> stores.\<close>

abbreviation leaf_entry :: "u64 \<Rightarrow> u64 \<Rightarrow> u64" where
  "leaf_entry pa perm \<equiv> PA2PTE pa OR perm OR PTE_V"

lemma PTE_V_less:
  assumes "perm < 0x400"
  shows "perm OR PTE_V < 0x400"
proof -
  have "n < 10" if "bit perm n" for n using flags_bit_above [OF assms, of n] that by force
  then have "perm OR PTE_V = take_bit 10 (perm OR PTE_V)"
    by (intro bit_word_eqI) (auto simp: bit_simps pte_simps)
  moreover have "unat (take_bit 10 (perm OR PTE_V)) < 2 ^ 10"
    by (subst unsigned_take_bit_eq) (rule take_bit_nat_less_exp)
  ultimately show ?thesis by (simp add: word_less_nat_alt)
qed

lemma leaf_entry_simps:
  assumes "pg_aligned pa" "pa < 0x100000000000000" "perm < 0x400"
  shows "PTE2PA (leaf_entry pa perm) = pa" "PTE_FLAGS (leaf_entry pa perm) = perm OR PTE_V"
    "bit (leaf_entry pa perm) 0" "0 < n \<Longrightarrow> n < 10 \<Longrightarrow> bit (leaf_entry pa perm) n = bit perm n"
proof -
  note f = PTE_V_less [OF assms(3)]
  show "PTE2PA (leaf_entry pa perm) = pa" "PTE_FLAGS (leaf_entry pa perm) = perm OR PTE_V"
    using PTE2PA_PA2PTE [OF assms(1,2) f] PTE_FLAGS_PA2PTE [OF f] by (simp_all add: or.assoc)
  show "bit (leaf_entry pa perm) 0" by (simp add: bit_or_iff pte_simps)
  show "bit (leaf_entry pa perm) n = bit perm n" if "0 < n" "n < 10"
    using that by (auto simp: bit_or_iff pte_simps bit_PA2PTE)
qed

lemma storable_mono:
  assumes v: "storable s ps R own r p v" and sl: "same_leaves R (pmem s) (pmem s')"
    and priv: "vm_private R s ps s' ps'" and rp: "r \<in> R" "lpath p"
  shows "storable s' ps' R own r p v"
proof (cases "bit v 0")
  case True
  have refs: "refs (pmem s') R f = refs (pmem s) R f" for f by (rule refs_cong [OF sl])
  have pte: "pte_at (pmem s') r' p' = pte_at (pmem s) r' p'" if "(r', p') \<in> refs (pmem s) R f" for r' p' f
    using that same_leavesD [OF sl] by (auto simp: refs_def upathD)
  have "\<forall>(r', p')\<in>refs (pmem s) R (PTE2PA v) - {(r, p)}. \<not> bit (pte_at (pmem s') r' p') 2 \<and> \<not> bit v 2"
  proof
    fix x assume x: "x \<in> refs (pmem s) R (PTE2PA v) - {(r, p)}"
    then have "case x of (r', p') \<Rightarrow> \<not> bit (pte_at (pmem s) r' p') 2 \<and> \<not> bit v 2"
      using v True unfolding storable_def by blast
    with x pte show "case x of (r', p') \<Rightarrow> \<not> bit (pte_at (pmem s') r' p') 2 \<and> \<not> bit v 2" by auto
  qed
  then show ?thesis
    using v True priv same_leaves_tab [OF sl]
    by (auto simp: storable_def vm_private_def page_ok_def refs same_leavesD [OF sl rp])
qed (simp add: storable_invalid)

lemma mappages_one_eq:
  assumes "pg_aligned va"
  shows "mappages r va PGSIZE pa perm s =
     andThen (walk r va True s) (\<lambda>(pte, s).
       if pte = 0 then Ok (- 1, s)
       else if bit (load64 (pmem s) pte) 0 then Panic ''mappages: remap''
       else Ok (0, s\<lparr>pmem := store64 (pmem s) pte (leaf_entry pa perm)\<rparr>))"
proof -
  have "va mod 4096 = 0" using assms by (simp add: pg_aligned_def)
  moreover have "Suc 0 = unat (4096 div 4096 :: u64)" by simp
  ultimately show ?thesis
    unfolding mappages_def by (auto simp: pte_simps intro!: andThen_cong split: prod.splits)
qed

lemma mappages_one:
  fixes s :: "'a kmem_scheme"
  assumes inv: "vm_inv s ps R own" and r: "r \<in> R" "pg_aligned va" "va < MAXVA" "upath (vpath va)"
    and free: "\<not> bit (pte_at (pmem s) r (vpath va)) 0"
    and v: "storable s ps R own r (vpath va) (leaf_entry pa perm)"
  obtains (full) s' where "mappages r va PGSIZE pa perm s = Ok (- 1, s')" "vm_inv s' [] R own"
      "same_leaves R (pmem s) (pmem s')" "vm_private R s ps s' []" "length ps < 2"
  | (mapped) k s' where "mappages r va PGSIZE pa perm s = Ok (0, s')" "k \<le> 2"
      "vm_inv s' (drop k ps) R (\<lambda>f. own f - maps (leaf_entry pa perm) f)"
      "leaf_upd R r (vpath va) (leaf_entry pa perm) (pmem s) (pmem s')"
      "vm_private R s ps s' (drop k ps)"
proof (rule walk_alloc [OF inv r(1,3)])
  fix s' assume "walk r va True s = Ok (0, s')" "vm_inv s' [] R own" "same_leaves R (pmem s) (pmem s')"
    "vm_private R s ps s' []" "length ps < 2"
  then show thesis by (intro full [of s']) (simp_all add: mappages_one_eq [OF r(2), simplified])
next
  fix k t and s1 :: "'a kmem_scheme" let ?pte = "slot t (PX 0 va)" and ?v = "leaf_entry pa perm"
  let ?s' = "install s1 t (PX 0 va) ?v"
  assume w: "walk r va True s = Ok (?pte, s1)" "?pte \<noteq> 0" and k: "k \<le> 2"
    and s1: "vm_inv s1 (drop k ps) R own" "same_leaves R (pmem s) (pmem s1)"
      "vm_private R s ps s1 (drop k ps)" and l: "leaf_slot s1 R r (upper 2 va) (PX 0 va) t"
  have old: "pte_at (pmem s1) r (vpath va) = load64 (pmem s1) ?pte"
    using leaf_slotD(8) [OF l] by (simp add: vpath_upper)
  have "\<not> bit (load64 (pmem s1) ?pte) 0"
    using free same_leavesD [OF s1(2) r(1) lpath_vpath] old by simp
  with w have m: "mappages r va PGSIZE pa perm s = Ok (0, ?s')"
    by (simp add: mappages_one_eq [OF r(2), simplified])
  note st = vm_store [OF s1(1) l r(4) [unfolded vpath_upper]
      storable_mono [OF v s1(2,3) r(1) lpath_vpath, unfolded vpath_upper], folded vpath_upper, unfolded old]
  have own: "moved (load64 (pmem s1) ?pte) ?v own = (\<lambda>f. own f - maps ?v f)"
    using \<open>\<not> bit (load64 (pmem s1) ?pte) 0\<close> by (simp add: fun_eq_iff)
  show thesis
    using mapped [OF m k st(1) [unfolded own]] leaf_upd_same(1) [OF s1(2) st(2)]
      vm_private_trans [OF s1(3) st(3)] by blast
qed

section \<open>uvmunmap\<close>

lemma upath_vpath:
  assumes "pg_aligned a" "a < TRAPFRAME"
  shows "upath (vpath a)" "a < MAXVA"
proof -
  show m: "a < MAXVA" using assms(2) by (simp add: word_less_nat_alt)
  have "pg_aligned TRAPFRAME" "pg_aligned TRAMPOLINE" by (simp_all add: pg_aligned_unat)
  moreover have "TRAPFRAME < MAXVA" "TRAMPOLINE < MAXVA" "a \<noteq> TRAPFRAME" "a \<noteq> TRAMPOLINE"
    using assms(2) by (auto simp: word_less_nat_alt)
  ultimately show "upath (vpath a)" using assms(1) m vpath_inject by (simp add: upath_def del: TRAPFRAME_def TRAMPOLINE_def)
qed

definition page_paths :: "u64 \<Rightarrow> u64 \<Rightarrow> u64 list set" where
  "page_paths a b = vpath ` {x. pg_aligned x \<and> a \<le> x \<and> x < b}"

lemma page_step:
  assumes "pg_aligned a" "pg_aligned b" "a < b"
  shows "pg_aligned (a + PGSIZE)" "a + PGSIZE \<le> b" "unat (b - (a + PGSIZE)) = unat (b - a) - 4096"
    "page_paths a b = insert (vpath a) (page_paths (a + PGSIZE) b)"
proof -
  obtain k l where kl: "unat a = 4096 * k" "unat b = 4096 * l" using assms(1,2) by (metis pg_alignedE)
  have "4096 * k < 4096 * l" using assms(3) kl by (simp add: word_less_nat_alt)
  then have le: "4096 * k + 4096 \<le> 4096 * l" by simp
  have u: "unat (a + PGSIZE) = 4096 * k + 4096"
    using kl le unat_u64_less [of b] by (subst unat_plus_no_wrap) auto
  show "pg_aligned (a + PGSIZE)" using u by (simp add: pg_aligned_unat)
  show le': "a + PGSIZE \<le> b" using u kl le by (simp add: word_le_nat_alt)
  show "unat (b - (a + PGSIZE)) = unat (b - a) - 4096"
    using le' assms(3) u kl by (simp add: unat_sub less_imp_le)
  have "x = a \<or> a + PGSIZE \<le> x" if x: "pg_aligned x" "a \<le> x" for x
  proof -
    obtain j where j: "unat x = 4096 * j" using x(1) by (rule pg_alignedE)
    then have "k \<le> j" using x(2) kl by (simp add: word_le_nat_alt)
    then consider "k = j" | "4096 * k + 4096 \<le> 4096 * j" by linarith
    then show ?thesis using j kl u by cases (auto simp: word_le_nat_alt word_unat_eq_iff)
  qed
  moreover have "a \<le> x" if "a + PGSIZE \<le> x" for x
    using that u kl by (simp add: word_le_nat_alt)
  ultimately have "{x. pg_aligned x \<and> a \<le> x \<and> x < b} = insert a {x. pg_aligned x \<and> a + PGSIZE \<le> x \<and> x < b}"
    using assms(1,3) by auto
  then show "page_paths a b = insert (vpath a) (page_paths (a + PGSIZE) b)" by (simp add: page_paths_def)
qed

lemma page_paths_empty: "\<not> a < b \<Longrightarrow> page_paths a b = {}"
  by (auto simp: page_paths_def)

definition cleared :: "u64 set \<Rightarrow> u64 \<Rightarrow> u64 list set \<Rightarrow> mem \<Rightarrow> mem \<Rightarrow> bool" where
  "cleared R r P m m' \<longleftrightarrow> (\<forall>r'\<in>R. \<forall>p. lpath p \<longrightarrow>
     pte_at m' r' p = (if r' = r \<and> p \<in> P \<and> bit (pte_at m r' p) 0 then 0 else pte_at m r' p))"

lemma cleared_empty: "cleared R r {} m m"
  by (simp add: cleared_def)

lemma cleared_trans: "cleared R r P m m' \<Longrightarrow> cleared R r Q m' m'' \<Longrightarrow> cleared R r (P \<union> Q) m m''"
  by (auto simp: cleared_def)

lemma cleared_skip: "\<not> bit (pte_at m r p) 0 \<Longrightarrow> cleared R r {p} m m"
  by (auto simp: cleared_def)

lemma cleared_upd: "leaf_upd R r p 0 m m' \<Longrightarrow> bit (pte_at m r p) 0 \<Longrightarrow> cleared R r {p} m m'"
  by (auto simp: cleared_def leaf_upd_def)

text \<open>Freeing user pages: the free list grows, the trees keep their table pages, and no page that
  stays in use is written.\<close>

definition vm_shrunk :: "u64 set \<Rightarrow> 'a kmem_scheme \<Rightarrow> u64 list \<Rightarrow> 'a kmem_scheme \<Rightarrow> u64 list \<Rightarrow> bool" where
  "vm_shrunk R s ps s' ps' \<longleftrightarrow> kend s' = kend s \<and> kmem.more s' = kmem.more s \<and>
     tables s' R = tables s R \<and> set ps \<subseteq> set ps' \<and>
     (\<forall>x. PGROUNDDOWN x \<notin> kpages s' ps' R \<longrightarrow> pmem s' x = pmem s x)"

lemma vm_shrunk_refl [simp]: "vm_shrunk R s ps s ps"
  by (simp add: vm_shrunk_def)

lemma vm_shrunk_trans:
  assumes "vm_shrunk R s ps s' ps'" "vm_shrunk R s' ps' s'' ps''"
  shows "vm_shrunk R s ps s'' ps''"
proof -
  have "kpages s' ps' R \<subseteq> kpages s'' ps'' R" using assms(2) by (auto simp: vm_shrunk_def kpages_def)
  then have "pmem s'' x = pmem s x" if "PGROUNDDOWN x \<notin> kpages s'' ps'' R" for x
    using that assms unfolding vm_shrunk_def by (metis subset_iff)
  with assms show ?thesis by (auto simp: vm_shrunk_def)
qed

lemma uvmunmap_loop_step:
  assumes inv: "vm_inv s ps R own" and own: "\<And>f. 0 \<le> own f" and r: "r \<in> R"
    and a: "pg_aligned a" "a < b" "b \<le> TRAPFRAME"
  shows "\<exists>s1 ps1. uvmunmap_loop (Suc fuel) r a b True s = uvmunmap_loop fuel r (a + PGSIZE) b True s1 \<and>
    vm_inv s1 ps1 R own \<and> vm_shrunk R s ps s1 ps1 \<and> cleared R r {vpath a} (pmem s) (pmem s1)"
proof -
  have va: "upath (vpath a)" "a < MAXVA"
    using upath_vpath [OF a(1) less_le_trans [OF a(2,3)]] by auto
  show ?thesis
  proof (rule walk_find [OF va(2), of r s])
    assume "walk r a False s = Ok (0, s)" "pte_at (pmem s) r (vpath a) = 0"
    with a(2) inv show ?thesis by (intro exI [of _ s] exI [of _ ps]) (simp add: cleared_skip)
  next
    fix t assume w: "walk r a False s = Ok (slot t (PX 0 a), s)" "tab (pmem s) r (upper 2 a) = Some t"
      "pte_at (pmem s) r (vpath a) = load64 (pmem s) (slot t (PX 0 a))"
    let ?e = "load64 (pmem s) (slot t (PX 0 a))"
    note nz = slot_walk_nonzero [OF vm_pt [OF inv] r w(2)] and l = leaf_slot_walk [OF r w(2)]
    show ?thesis
    proof (cases "bit ?e 0")
      case False
      with a(2) inv w nz show ?thesis
        by (intro exI [of _ s] exI [of _ ps]) (simp add: cleared_skip pte_simps)
    next
      case True
      obtain s1 ps1 s0 where k: "kfree (PTE2PA ?e) s = Ok s0" "s1 = install s0 t (PX 0 a) 0"
        "vm_inv s1 ps1 R (\<lambda>f. own f - maps 0 f)" "leaf_upd R r (vpath a) 0 (pmem s) (pmem s1)"
        "tables s1 R = tables s R" "kend s1 = kend s" "kmem.more s1 = kmem.more s"
        "ps1 = ps \<and> 1 < refcnt s (pfn (PTE2PA ?e)) \<or> ps1 = PTE2PA ?e # ps \<and> refcnt s (pfn (PTE2PA ?e)) = 1"
        "\<forall>x. PGROUNDDOWN x \<notin> tables s R \<longrightarrow> PGROUNDDOWN x \<noteq> PTE2PA ?e \<or> ps1 = ps \<longrightarrow> pmem s1 x = pmem s x"
        by (rule vm_replace [OF inv l va(1) [unfolded vpath_upper], folded vpath_upper, of ?e 0])
          (use w True own in \<open>auto simp: storable_invalid\<close>)
      moreover from k(5-9) have "vm_shrunk R s ps s1 ps1" by (auto simp: vm_shrunk_def kpages_def)
      moreover have "cleared R r {vpath a} (pmem s) (pmem s1)" using cleared_upd [OF k(4)] True w(3) by simp
      ultimately show ?thesis
        using a(2) True w(1) nz by (intro exI [of _ s1] exI [of _ ps1]) (simp add: pte_simps)
    qed
  qed
qed

lemma uvmunmap_loop_free:
  assumes "vm_inv s ps R own" "\<And>f. 0 \<le> own f" "r \<in> R" "pg_aligned a" "pg_aligned b" "b \<le> TRAPFRAME"
    and "unat (b - a) \<le> 4096 * fuel \<or> \<not> a < b"
  shows "\<exists>s' ps'. uvmunmap_loop fuel r a b True s = Ok s' \<and> vm_inv s' ps' R own \<and>
    vm_shrunk R s ps s' ps' \<and> cleared R r (page_paths a b) (pmem s) (pmem s')"
  using assms
proof (induction fuel arbitrary: a s ps)
  case 0
  then have "\<not> a < b" by (auto simp: word_less_nat_alt unat_eq_0)
  with 0 show ?case by (intro exI [of _ s] exI [of _ ps]) (simp add: page_paths_empty cleared_empty)
next
  case (Suc fuel)
  show ?case
  proof (cases "a < b")
    case False
    with Suc show ?thesis by (intro exI [of _ s] exI [of _ ps]) (simp add: page_paths_empty cleared_empty)
  next
    case True
    note step = page_step [OF Suc.prems(4,5) True]
    have fuel: "unat (b - (a + PGSIZE)) \<le> 4096 * fuel \<or> \<not> a + PGSIZE < b"
      using step(3) Suc.prems(7) True by auto
    obtain s1 ps1 where s1: "uvmunmap_loop (Suc fuel) r a b True s = uvmunmap_loop fuel r (a + PGSIZE) b True s1"
      "vm_inv s1 ps1 R own" "vm_shrunk R s ps s1 ps1" "cleared R r {vpath a} (pmem s) (pmem s1)"
      using uvmunmap_loop_step [OF Suc.prems(1-4) True Suc.prems(6)] by blast
    obtain s' ps' where s': "uvmunmap_loop fuel r (a + PGSIZE) b True s1 = Ok s'" "vm_inv s' ps' R own"
      "vm_shrunk R s1 ps1 s' ps'" "cleared R r (page_paths (a + PGSIZE) b) (pmem s1) (pmem s')"
      using Suc.IH [OF s1(2) Suc.prems(2,3) step(1) Suc.prems(5,6) fuel] by blast
    have "cleared R r (page_paths a b) (pmem s) (pmem s')"
      using cleared_trans [OF s1(4) s'(4)] unfolding step(4) by simp
    with s1(1) s' vm_shrunk_trans [OF s1(3) s'(3)] show ?thesis by auto
  qed
qed

lemma uvmunmap_free:
  assumes "vm_inv s ps R own" "\<And>f. 0 \<le> own f" "r \<in> R" "pg_aligned va"
    and "unat va + 4096 * unat npages \<le> unat TRAPFRAME"
  shows "\<exists>s' ps'. uvmunmap r va npages True s = Ok s' \<and> vm_inv s' ps' R own \<and>
    vm_shrunk R s ps s' ps' \<and> cleared R r (page_paths va (va + npages * PGSIZE)) (pmem s) (pmem s')"
proof -
  have n: "unat (npages * PGSIZE) = 4096 * unat npages"
    using assms(5) by (simp add: unat_word_ariths)
  then have b: "unat (va + npages * PGSIZE) = unat va + 4096 * unat npages"
    using assms(5) by (subst unat_plus_no_wrap) simp_all
  have "va + npages * PGSIZE \<le> TRAPFRAME" using b assms(5) by (simp add: word_le_nat_alt)
  moreover have "pg_aligned (va + npages * PGSIZE)"
    using b assms(4) by (auto simp: pg_aligned_unat)
  ultimately show ?thesis
    using uvmunmap_loop_free [OF assms(1-4), of "va + npages * PGSIZE" "unat npages"] n assms(4)
    by (simp add: uvmunmap_def pg_aligned_def)
qed

end
