(* ===== verification/Cow.thy ===== *)
theory Cow
  imports Uvm
begin

text \<open>
  What a process sees.  \<open>ubyte s r va\<close> is the byte at address \<open>va\<close> of the address space
  with page table \<open>r\<close>, where a page that is not there yet reads as zeros (it will be
  filled with zeros when it is first touched).  In these terms lazy allocation and
  copy-on-write are invisible: \<open>vmfault\<close> changes no byte of any address space,
  \<open>uvmcopy\<close> gives the child the bytes of the parent, and \<open>copyout\<close> changes the bytes it
  is told to, in one address space only.
\<close>

section \<open>Views\<close>

definition ubyte :: "'a kmem_scheme \<Rightarrow> u64 \<Rightarrow> u64 \<Rightarrow> u8" where
  "ubyte s r va =
     (let e = pte_at (pmem s) r (vpath va) in
      if bit e 0 then pmem s (PTE2PA e + (va - PGROUNDDOWN va)) else 0)"

definition same_view :: "u64 set \<Rightarrow> 'a kmem_scheme \<Rightarrow> 'a kmem_scheme \<Rightarrow> bool" where
  "same_view R s s' \<longleftrightarrow> (\<forall>r\<in>R. \<forall>va<TRAPFRAME. ubyte s' r va = ubyte s r va)"

lemma same_view_refl [simp]: "same_view R s s"
  by (simp add: same_view_def)

lemma same_view_trans: "same_view R s s' \<Longrightarrow> same_view R s' s'' \<Longrightarrow> same_view R s s''"
  by (simp add: same_view_def)

lemma bit_PGROUNDDOWN: "bit (PGROUNDDOWN a) n \<longleftrightarrow> 12 \<le> n \<and> bit a n"
proof -
  have "PGROUNDDOWN a = a AND NOT (mask 12)" by (simp add: PGROUNDDOWN_def mask_eq_exp_minus_1)
  then show ?thesis using bit_imp_le_length [of a n] by (auto simp: bit_simps)
qed

lemma PX_PGROUNDDOWN: "PX l (PGROUNDDOWN va) = PX l va"
  by (rule bit_word_eqI) (simp add: bit_PX bit_PGROUNDDOWN)

lemma vpath_PGROUNDDOWN [simp]: "vpath (PGROUNDDOWN va) = vpath va"
  by (simp add: vpath_def PX_PGROUNDDOWN)

lemma TRAPFRAME_page: "va < TRAPFRAME \<Longrightarrow> PGROUNDDOWN va < TRAPFRAME"
  using PGROUNDDOWN_le [of va] by (rule le_less_trans)

lemma upath_user: "va < TRAPFRAME \<Longrightarrow> upath (vpath va)"
  using upath_vpath(1) [OF PGROUNDDOWN_aligned TRAPFRAME_page] by simp

lemma page_of_frame: "pg_aligned f \<Longrightarrow> PGROUNDDOWN (f + (va - PGROUNDDOWN va)) = f"
  by (simp add: PGROUNDDOWN_off page_off_lt)

text \<open>No page that a user leaf maps is written.\<close>

definition keeps :: "u64 set \<Rightarrow> 'a kmem_scheme \<Rightarrow> 'a kmem_scheme \<Rightarrow> bool" where
  "keeps R s s' \<longleftrightarrow> (\<forall>r\<in>R. \<forall>p x. upath p \<longrightarrow> bit (pte_at (pmem s) r p) 0 \<longrightarrow>
     PGROUNDDOWN x = PTE2PA (pte_at (pmem s) r p) \<longrightarrow> pmem s' x = pmem s x)"

lemma keepsI:
  assumes "\<And>r p x. r \<in> R \<Longrightarrow> upath p \<Longrightarrow> bit (pte_at (pmem s) r p) 0 \<Longrightarrow>
    PGROUNDDOWN x = PTE2PA (pte_at (pmem s) r p) \<Longrightarrow> pmem s' x = pmem s x"
  shows "keeps R s s'"
  using assms by (auto simp: keeps_def)

lemma keepsD:
  assumes "keeps R s s'" "r \<in> R" "va < TRAPFRAME" "bit (pte_at (pmem s) r (vpath va)) 0"
  shows "pmem s' (PTE2PA (pte_at (pmem s) r (vpath va)) + (va - PGROUNDDOWN va)) =
    pmem s (PTE2PA (pte_at (pmem s) r (vpath va)) + (va - PGROUNDDOWN va))"
  using assms upath_user [OF assms(3)] page_of_frame [OF PTE2PA_aligned] unfolding keeps_def by blast

lemma keeps_trans: "keeps R s s' \<Longrightarrow> same_leaves R (pmem s) (pmem s') \<Longrightarrow> keeps R s' s'' \<Longrightarrow> keeps R s s''"
  unfolding keeps_def by (simp add: same_leavesD upathD)

lemma keeps_view: "keeps R s s' \<Longrightarrow> same_leaves R (pmem s) (pmem s') \<Longrightarrow> same_view R s s'"
  by (simp add: same_view_def ubyte_def Let_def same_leavesD keepsD)

lemma keeps_private:
  assumes "vm_inv s ps R own" "vm_private R s ps s' ps'"
  shows "keeps R s s'"
  by (rule keepsI) (use assms vm_leaf(2,3) [OF assms(1)] in \<open>auto simp: vm_private_def kpages_def\<close>)

lemma keeps_page:
  assumes "\<And>r p. r \<in> R \<Longrightarrow> lpath p \<Longrightarrow> tab (pmem s) r p \<noteq> Some n"
    and "\<And>x. PGROUNDDOWN x \<noteq> n \<Longrightarrow> pmem s' x = pmem s x"
  shows "keeps R s s'"
proof (rule keepsI, rule assms(2))
  fix r p x assume "r \<in> R" "upath p" "bit (pte_at (pmem s) r p) 0" "PGROUNDDOWN x = PTE2PA (pte_at (pmem s) r p)"
  with assms(1) [of r p] tab_lpath [of p "pmem s" r] show "PGROUNDDOWN x \<noteq> n" by (auto simp: upath_def)
qed

text \<open>Replacing the page behind one leaf by a copy changes no view.\<close>

lemma view_copy:
  assumes upd: "leaf_upd R r p v (pmem s) (pmem s')" and r: "r \<in> R"
    and keep: "\<And>r' p' x. r' \<in> R \<Longrightarrow> upath p' \<Longrightarrow> (r', p') \<noteq> (r, p) \<Longrightarrow> bit (pte_at (pmem s) r' p') 0 \<Longrightarrow>
      PGROUNDDOWN x = PTE2PA (pte_at (pmem s) r' p') \<Longrightarrow> pmem s' x = pmem s x"
    and v: "bit v 0" "\<And>va. va < TRAPFRAME \<Longrightarrow> vpath va = p \<Longrightarrow>
      pmem s' (PTE2PA v + (va - PGROUNDDOWN va)) = ubyte s r va"
  shows "same_view R s s'"
  unfolding same_view_def
proof (intro ballI allI impI)
  fix r' va assume r': "r' \<in> R" and va: "va < TRAPFRAME"
  note pte = leaf_updD [OF upd r' lpath_vpath, of va]
  show "ubyte s' r' va = ubyte s r' va"
  proof (cases "r' = r \<and> vpath va = p")
    case True
    with pte v va show ?thesis by (simp add: ubyte_def Let_def)
  next
    case False
    have "pmem s' (PTE2PA (pte_at (pmem s) r' (vpath va)) + (va - PGROUNDDOWN va)) =
      pmem s (PTE2PA (pte_at (pmem s) r' (vpath va)) + (va - PGROUNDDOWN va))"
      if "bit (pte_at (pmem s) r' (vpath va)) 0"
      using False that page_of_frame [OF PTE2PA_aligned]
      by (intro keep [OF r' upath_user [OF va]]) auto
    with pte False show ?thesis by (auto simp: ubyte_def Let_def)
  qed
qed

section \<open>Page faults\<close>

text \<open>A page the kernel has just allocated, known to nobody else.\<close>

definition fresh_page :: "'a kmem_scheme \<Rightarrow> u64 list \<Rightarrow> u64 set \<Rightarrow> (u64 \<Rightarrow> int) \<Rightarrow> u64 \<Rightarrow> bool" where
  "fresh_page s ps R own n \<longleftrightarrow> page_ok s n \<and> n \<noteq> 0 \<and> n \<notin> kpages s ps R \<and> own n = 1 \<and>
     (\<forall>r\<in>R. \<forall>p. lpath p \<longrightarrow> tab (pmem s) r p \<noteq> Some n)"

lemma fresh_pageD:
  assumes "fresh_page s ps R own n"
  shows "page_ok s n" "n \<noteq> 0" "n \<notin> kpages s ps R" "own n = 1"
    "\<And>r p. r \<in> R \<Longrightarrow> lpath p \<Longrightarrow> tab (pmem s) r p \<noteq> Some n" "pg_aligned n" "n < 0x100000000000000"
    "refs (pmem s) R n = {}"
proof -
  show *: "page_ok s n" "n \<noteq> 0" "n \<notin> kpages s ps R" "own n = 1"
    "\<And>r p. r \<in> R \<Longrightarrow> lpath p \<Longrightarrow> tab (pmem s) r p \<noteq> Some n"
    using assms by (auto simp: fresh_page_def)
  show "pg_aligned n" "n < 0x100000000000000" using *(1) page_ok_bound by (auto simp: page_ok_def)
  show "refs (pmem s) R n = {}" using *(5) refs_tab by fastforce
qed

lemma storable_fresh:
  assumes "fresh_page s ps R own n" "PTE2PA v = n" "r \<in> R" "lpath p"
  shows "storable s ps R own r p v"
proof -
  note f = fresh_pageD [OF assms(1)]
  have "maps (pte_at (pmem s) r p) n = 0"
    using f(5) [OF assms(3,4)] tab_lpath [OF assms(4), of "pmem s" r] by (auto simp: maps_def)
  with f assms(2) show ?thesis by (simp add: storable_def)
qed

lemma droppable_fresh: "fresh_page s ps R own n \<Longrightarrow> droppable s R own n"
  using fresh_pageD [of s ps R own n] by (auto simp: droppable_def kpages_def)

lemma fresh_page_mono:
  assumes "fresh_page s ps R own n" "same_leaves R (pmem s) (pmem s')" "vm_private R s ps s' ps'"
  shows "fresh_page s' ps' R own n"
  using fresh_pageD [OF assms(1)] assms(3) same_leaves_tab [OF assms(2)]
  by (auto simp: fresh_page_def vm_private_def page_ok_def)

lemma fresh_kalloc:
  assumes inv: "vm_inv s (n # ps) R own"
  shows "fresh_page (snd (kalloc s)) ps R (own(n := 1)) n"
    "fresh_page (zeroed n (snd (kalloc s))) ps R (own(n := 1)) n"
proof -
  note a = vm_kalloc [OF inv] and free = vm_free [OF inv, of n, simplified]
  show "fresh_page (snd (kalloc s)) ps R (own(n := 1)) n"
    using a(2,3,4,10) free(6) same_leaves_tab [OF a(8)] by (simp add: fresh_page_def page_ok_def)
  show "fresh_page (zeroed n (snd (kalloc s))) ps R (own(n := 1)) n"
    using vm_kalloc_zero(8,10,11) [OF inv] a(2) by (simp add: fresh_page_def)
qed

abbreviation vm_base :: "'a kmem_scheme \<Rightarrow> 'a kmem_scheme \<Rightarrow> bool" where
  "vm_base s s' \<equiv> kend s' = kend s \<and> kmem.more s' = kmem.more s"

lemma user_perm: "PTE_W OR PTE_U OR PTE_R < (0x400 :: u64)"
  by (simp add: PTE_W_def PTE_U_def PTE_R_def)

lemma ismapped_eq:
  assumes "va < MAXVA" "pt_inv s ps R" "r \<in> R"
  shows "ismapped r va s = Ok (bit (pte_at (pmem s) r (vpath va)) 0)"
  by (rule walk_find [OF assms(1), of r s])
    (use slot_walk_nonzero [OF assms(2,3), of va] in \<open>auto simp: ismapped_def pte_simps\<close>)

text \<open>The common part of \<open>uvmalloc\<close> and \<open>vmfault\<close>: map a new zeroed page, or give it back.\<close>

lemma map_zero_page:
  fixes s :: "'a kmem_scheme"
  assumes inv: "vm_inv s (n # ps) R own" and r: "r \<in> R" and va: "pg_aligned va" "va < TRAPFRAME"
    and e: "\<not> bit (pte_at (pmem s) r (vpath va)) 0" and perm: "perm < 0x400"
  obtains (full) s1 s' ps' where "mappages r va PGSIZE n perm (zeroed n (snd (kalloc s))) = Ok (- 1, s1)"
      "kfree n s1 = Ok s'" "vm_inv s' ps' R own" "same_leaves R (pmem s) (pmem s')" "keeps R s s'"
      "vm_base s s'" "length ps < 2"
  | (mapped) k s' where "mappages r va PGSIZE n perm (zeroed n (snd (kalloc s))) = Ok (0, s')"
      "vm_inv s' (drop k ps) R own" "k \<le> 2" "leaf_upd R r (vpath va) (leaf_entry n perm) (pmem s) (pmem s')"
      "same_view R s s'" "vm_base s s'"
proof -
  let ?s1 = "zeroed n (snd (kalloc s))" and ?v = "leaf_entry n perm"
  note z = vm_kalloc_zero [OF inv] and fr = fresh_kalloc(2) [OF inv] and up = upath_vpath [OF va]
  have keep1: "keeps R s ?s1" by (rule keeps_page [of R s n, OF vm_free(6) [OF inv]]) (use z(6) in auto)
  have own: "own n = 0" using vm_free(5) [OF inv, of n] by auto
  then have own': "own(n := 1, n := (own(n := 1)) n - 1) = own" by auto
  note le = leaf_entry_simps [OF fresh_pageD(6,7) [OF fr] perm]
  have unm: "\<not> bit (pte_at (pmem ?s1) r (vpath va)) 0" using e same_leavesD [OF z(5) r lpath_vpath] by simp
  show thesis
  proof (rule mappages_one [OF z(3) r va(1) up(2,1) unm storable_fresh [OF fr le(1) r lpath_vpath]])
    fix s2 :: "'a kmem_scheme" assume m: "mappages r va PGSIZE n perm ?s1 = Ok (- 1, s2)"
      "vm_inv s2 [] R (own(n := 1))" "same_leaves R (pmem ?s1) (pmem s2)" "vm_private R ?s1 ps s2 []" "length ps < 2"
    note fr2 = fresh_page_mono [OF fr m(3,4)]
    obtain s' ps' where k: "kfree n s2 = Ok s'" "vm_inv s' ps' R own" "same_leaves R (pmem s2) (pmem s')"
      "vm_base s2 s'" "\<forall>x. PGROUNDDOWN x \<noteq> n \<or> ps' = [] \<longrightarrow> pmem s' x = pmem s2 x"
      by (rule vm_kfree [OF m(2) droppable_fresh [OF fr2], unfolded own']) blast
    have sl: "same_leaves R (pmem s) (pmem s2)" using same_leaves_trans [OF z(5) m(3)] .
    have "keeps R s s2" using keeps_trans [OF keep1 z(5) keeps_private [OF z(3) m(4)]] .
    moreover have "keeps R s2 s'" by (rule keeps_page [OF fresh_pageD(5) [OF fr2]]) (use k(5) in auto)
    ultimately show thesis
      using full [OF m(1) k(1,2) same_leaves_trans [OF sl k(3)]] keeps_trans [OF _ sl] k(4) z(1,2) m(4,5)
      by (auto simp: vm_private_def)
  next
    fix k and s2 :: "'a kmem_scheme"
    assume m: "mappages r va PGSIZE n perm ?s1 = Ok (0, s2)" "k \<le> 2"
      "vm_inv s2 (drop k ps) R (\<lambda>f. (own(n := 1)) f - maps ?v f)"
      "leaf_upd R r (vpath va) ?v (pmem ?s1) (pmem s2)" "vm_private R ?s1 ps s2 (drop k ps)"
    have "(\<lambda>f. (own(n := 1)) f - maps ?v f) = own"
      using own le(1,3) by (auto simp: fun_eq_iff maps_def)
    with m(3) have inv2: "vm_inv s2 (drop k ps) R own" by simp
    note upd = leaf_upd_same(1) [OF z(5) m(4)] and keep2 = keeps_private [OF z(3) m(5)]
    have "same_view R s s2"
    proof (rule view_copy [OF upd r])
      show "pmem s2 x = pmem s x" if "r' \<in> R" "upath p'" "bit (pte_at (pmem s) r' p') 0"
        "PGROUNDDOWN x = PTE2PA (pte_at (pmem s) r' p')" for r' p' x
        using keeps_trans [OF keep1 z(5) keep2] that by (auto simp: keeps_def)
      show "pmem s2 (PTE2PA ?v + (vb - PGROUNDDOWN vb)) = ubyte s r vb" if "vpath vb = vpath va" for vb
        using m(5) fresh_pageD(3,6) [OF fr] z(7) page_of_frame [of n vb] e that
        by (simp add: le(1) vm_private_def ubyte_def)
    qed (use le in simp)
    then show thesis using mapped [OF m(1) inv2 m(2) upd] z(1,2) m(5) by (auto simp: vm_private_def)
  qed
qed

lemma vmfault_lazy:
  fixes s :: "'a kmem_scheme"
  assumes inv: "vm_inv s ps R own" and r: "r \<in> R" and va: "va < psz" "psz \<le> TRAPFRAME"
    and e: "\<not> bit (pte_at (pmem s) r (vpath va)) 0"
  obtains (nomem) s' ps' where "vmfault psz r va rd s = Ok (0, s')" "vm_inv s' ps' R own"
      "same_leaves R (pmem s) (pmem s')" "keeps R s s'" "vm_base s s'" "length ps < 3"
  | (mapped) n s' ps' where "vmfault psz r va rd s = Ok (n, s')" "n \<noteq> 0" "page_ok s n"
      "vm_inv s' ps' R own" "leaf_upd R r (vpath va) (leaf_entry n (PTE_W OR PTE_U OR PTE_R)) (pmem s) (pmem s')"
      "same_view R s s'" "vm_base s s'"
proof -
  let ?va = "PGROUNDDOWN va" and ?perm = "PTE_W OR PTE_U OR PTE_R"
  note tf = TRAPFRAME_page [OF less_le_trans [OF va]]
  have im: "ismapped r ?va s = Ok False"
    using ismapped_eq [OF upath_vpath(2) [OF PGROUNDDOWN_aligned tf] vm_pt [OF inv] r] e by simp
  show thesis
  proof (cases ps)
    case Nil
    then have "kalloc s = (0, s)" using vm_kalloc_Nil inv by blast
    with im va have "vmfault psz r va rd s = Ok (0, s)" by (simp add: vmfault_def not_le)
    with inv Nil show ?thesis by (intro nomem [of s ps]) (auto simp: keeps_def)
  next
    case (Cons n ps1)
    note inv = inv [unfolded Cons]
    note a = vm_kalloc(1-3) [OF inv]
    have step: "vmfault psz r va rd s =
        andThen (mappages r ?va PGSIZE n ?perm (zeroed n (snd (kalloc s)))) (\<lambda>(x, s).
          if x \<noteq> 0 then andThen (kfree n s) (\<lambda>s. Ok (0, s)) else Ok (n, s))"
      using im va(1) [unfolded not_le [symmetric]] a(1,2) by (cases "kalloc s") (simp add: vmfault_def Let_def)
    from e have e': "\<not> bit (pte_at (pmem s) r (vpath ?va)) 0" by simp
    show ?thesis
    proof (rule map_zero_page [OF inv r PGROUNDDOWN_aligned tf e' user_perm])
    qed (use step Cons a(2,3) in \<open>auto intro: nomem mapped\<close>)
  qed
qed

lemma vm_shared:
  assumes inv: "vm_inv s ps R own" and own: "0 \<le> own f"
    and two: "(r, p) \<in> refs (pmem s) R f" "(r', p') \<in> refs (pmem s) R f" "(r, p) \<noteq> (r', p')"
  shows "1 < refcnt s (pfn f)"
proof -
  have ok: "page_ok s f" "f \<notin> tables s R" using vm_leaf(1,3) [OF inv, of r p] two(1) by (auto simp: refs_def)
  have fin: "finite (refs (pmem s) R f)" by (rule finite_refs [OF pt_finite [OF vm_pt [OF inv]]])
  have "card {(r, p), (r', p')} \<le> card (refs (pmem s) R f)"
    by (rule card_mono [OF fin]) (use two in auto)
  then have "2 \<le> card (refs (pmem s) R f)" using two(3) by simp
  with vm_count [OF inv ok(1)] ok(2) own show ?thesis by simp
qed

text \<open>The entry that replaces a copy-on-write entry \<open>e\<close>.\<close>

abbreviation cow_entry :: "u64 \<Rightarrow> u64 \<Rightarrow> u64" where
  "cow_entry n e \<equiv> PA2PTE n OR ((PTE_FLAGS e AND NOT PTE_COW) OR PTE_W)"

lemma cow_entry_simps:
  assumes "pg_aligned n" "n < 0x100000000000000"
  shows "PTE2PA (cow_entry n e) = n" "bit (cow_entry n e) 2" "\<not> bit (cow_entry n e) 8"
    "k < 10 \<Longrightarrow> k \<noteq> 2 \<Longrightarrow> k \<noteq> 8 \<Longrightarrow> bit (cow_entry n e) k = bit e k"
proof -
  let ?f = "(PTE_FLAGS e AND NOT PTE_COW) OR PTE_W"
  have fl: "bit ?f k \<longleftrightarrow> k < 10 \<and> (bit e k \<and> k \<noteq> 8 \<or> k = 2)" for k
    using bit_imp_le_length [of e k] by (auto simp: PTE_FLAGS_take_bit bit_simps pte_simps)
  have "?f = take_bit 10 ?f" by (rule bit_word_eqI) (unfold bit_take_bit_iff fl, blast)
  moreover have "unat (take_bit 10 ?f) < 2 ^ 10"
    by (subst unsigned_take_bit_eq) (rule take_bit_nat_less_exp)
  ultimately have lt: "?f < 0x400" by (simp add: word_less_nat_alt)
  show "PTE2PA (cow_entry n e) = n" by (rule PTE2PA_PA2PTE [OF assms lt])
  have "bit (cow_entry n e) k = bit ?f k" if "k < 10" for k
    using that unfolding bit_or_iff [of "PA2PTE n"] bit_PA2PTE by simp
  note b = this [unfolded fl]
  show "bit (cow_entry n e) 2" "\<not> bit (cow_entry n e) 8"
    "k < 10 \<Longrightarrow> k \<noteq> 2 \<Longrightarrow> k \<noteq> 8 \<Longrightarrow> bit (cow_entry n e) k = bit e k"
    using b [of 2] b [of 8] b [of k] by simp_all
qed

text \<open>Copying the page behind leaf \<open>(r, p)\<close>: what \<open>vmfault\<close> does once it has the memory.\<close>

abbreviation copied_page :: "u64 \<Rightarrow> u64 \<Rightarrow> 'a kmem_scheme \<Rightarrow> 'a kmem_scheme" where
  "copied_page n f s \<equiv> s\<lparr>pmem := memmove (pmem s) n f (ucast PGSIZE)\<rparr>"

lemma cow_copy:
  fixes s :: "'a kmem_scheme"
  assumes inv: "vm_inv s (n # ps) R own" and own: "\<And>f. 0 \<le> own f" and l: "leaf_slot s R r q i t"
    and p: "upath (q @ [i])" and e: "e = pte_at (pmem s) r (q @ [i])" "bit e 0"
  obtains s' ps' where
    "kfree (PTE2PA e) (install (copied_page n (PTE2PA e) (snd (kalloc s))) t i (cow_entry n e)) = Ok s'"
    "vm_inv s' ps' R own" "leaf_upd R r (q @ [i]) (cow_entry n e) (pmem s) (pmem s')"
    "same_view R s s'" "vm_base s s'" "leaf_slot s' R r q i t"
proof -
  let ?f = "PTE2PA e" and ?s1 = "snd (kalloc s)" and ?v = "cow_entry n e"
  let ?s2 = "copied_page n ?f ?s1"
  note D = leaf_slotD [OF l] and a = vm_kalloc [OF inv] and fr = fresh_kalloc(1) [OF inv]
  note leaf = vm_leaf [OF inv D(1) p, folded e(1), OF e(2)] and pt = vm_pt [OF inv]
  have nf: "n \<noteq> ?f" using leaf(2) by auto
  note al = fresh_pageD(6,7) [OF fr]
  note ce = cow_entry_simps [OF al, where e = e]
  have m2: "pmem ?s2 = mem_copy (pmem ?s1) n ?f 4096"
    using memmove_page [OF al(2) page_ok_bound [OF leaf(1)]] by simp
  have w: "pmem ?s2 x = pmem ?s1 x" if "PGROUNDDOWN x \<noteq> n" for x using that al(1) unfolding m2 by (simp add: copy_page)
  have "pmem ?s2 x = pmem ?s1 x" if "PGROUNDDOWN x \<in> kpages ?s1 ps R" for x using that a(10) by (intro w) auto
  note wr = vm_write [OF a(6) this]
  have inv2: "vm_inv ?s2 ps R (own(n := 1))" using wr(1) by simp
  have same: "pmem ?s2 x = pmem s x" if "PGROUNDDOWN x \<noteq> n" for x using that w a(9) by simp
  have sl: "same_leaves R (pmem s) (pmem ?s2)" using same_leaves_trans [OF a(8) wr(3)] by simp
  have T: "tables ?s2 R = tables s R" using wr(2) a(7) by simp
  have fr2: "fresh_page ?s2 ps R (own(n := 1)) n"
    using fresh_pageD [OF fr] wr(2) same_leaves_tab [OF wr(3)] by (auto simp: fresh_page_def page_ok_def kpages_def)
  have l2: "leaf_slot ?s2 R r q i t"
    by (rule leaf_slot_frame [OF pt l same]) (use vm_free(4) [OF inv, of n] in auto)
  have e2: "e = pte_at (pmem ?s2) r (q @ [i])" using same_leavesD [OF sl D(1) D(7)] e(1) by simp
  obtain s' ps' where k: "kfree ?f (install ?s2 t i ?v) = Ok s'"
    "vm_inv s' ps' R (\<lambda>f. (own(n := 1)) f - maps ?v f)" "leaf_upd R r (q @ [i]) ?v (pmem ?s2) (pmem s')"
    "leaf_slot s' R r q i t" "vm_base ?s2 s'" "ps' = ps \<or> refcnt ?s2 (pfn ?f) = 1"
    "\<forall>x. PGROUNDDOWN x \<notin> tables ?s2 R \<longrightarrow> PGROUNDDOWN x \<noteq> ?f \<or> ps' = ps \<longrightarrow> pmem s' x = pmem ?s2 x"
    by (rule vm_replace [OF inv2 l2 p e2 e(2) _ _ storable_fresh [OF fr2 ce(1) D(1,7)]])
      (use own ce(1) nf in auto)
  have "(\<lambda>f. (own(n := 1)) f - maps ?v f) = own"
    using vm_free(5) [OF inv, of n] ce(1,4) e(2) by (auto simp: fun_eq_iff maps_def)
  with k(2) have inv': "vm_inv s' ps' R own" by simp
  note upd = leaf_upd_same(1) [OF sl k(3)]
  have "same_view R s s'"
  proof (rule view_copy [OF upd D(1)])
    fix r' p' x assume rp: "r' \<in> R" "upath p'" "(r', p') \<noteq> (r, q @ [i])" "bit (pte_at (pmem s) r' p') 0"
      "PGROUNDDOWN x = PTE2PA (pte_at (pmem s) r' p')"
    note g = vm_leaf(2,3) [OF inv rp(1,2,4)]
    have "ps' = ps" if f: "PGROUNDDOWN x = ?f"
    proof -
      have "pte_at (pmem ?s2) r' p' = pte_at (pmem s) r' p'" using same_leavesD [OF sl rp(1) upathD [OF rp(2)]] .
      then have "(r', p') \<in> refs (pmem ?s2) R ?f" "(r, q @ [i]) \<in> refs (pmem ?s2) R ?f"
        using rp f D(1) p e(2) e2 by (auto simp: refs_def)
      from vm_shared [OF inv2 _ this] have "1 < refcnt ?s2 (pfn ?f)" using own nf rp(3) by auto
      with k(6) show ?thesis by auto
    qed
    with k(7) g rp(5) T same show "pmem s' x = pmem s x" by auto
  next
    fix va assume "vpath va = q @ [i]"
    note off = page_of_frame [OF al(1), of va] page_of_frame [OF PTE2PA_aligned, of e va]
    have "pmem s' (n + (va - PGROUNDDOWN va)) = pmem ?s2 (n + (va - PGROUNDDOWN va))"
      using k(7) nf off(1) fresh_pageD(3) [OF fr2] by (simp add: kpages_def)
    also have "\<dots> = pmem ?s1 (?f + (va - PGROUNDDOWN va))" using al(1) off(1) unfolding m2 by (simp add: copy_page)
    also have "\<dots> = ubyte s r va"
      using a(9) off(2) nf e \<open>vpath va = q @ [i]\<close> by (simp add: ubyte_def Let_def)
    finally show "pmem s' (PTE2PA ?v + (va - PGROUNDDOWN va)) = ubyte s r va" by (simp add: ce(1))
  qed (use ce(4) [of 0] e(2) in simp)
  then show thesis using that [OF k(1) inv' upd] k(4,5) a(4,5) by auto
qed

lemma vmfault_cow:
  fixes s :: "'a kmem_scheme"
  assumes inv: "vm_inv s ps R own" and own: "\<And>f. 0 \<le> own f" and r: "r \<in> R"
    and va: "va < psz" "psz \<le> TRAPFRAME"
    and e: "e = pte_at (pmem s) r (vpath va)" "bit e 0"
  obtains (idle) "vmfault psz r va rd s = Ok (0, s)" "rd \<or> \<not> bit e 8 \<or> ps = []"
  | (copied) n s' ps' where "vmfault psz r va rd s = Ok (n, s')" "n \<noteq> 0" "page_ok s n"
      "vm_inv s' ps' R own" "leaf_upd R r (vpath va) (cow_entry n e) (pmem s) (pmem s')"
      "same_view R s s'" "vm_base s s'" "tab (pmem s') r (upper 2 va) = tab (pmem s) r (upper 2 va)"
proof -
  let ?va = "PGROUNDDOWN va"
  note tf = TRAPFRAME_page [OF less_le_trans [OF va]] and pt = vm_pt [OF inv]
  note up = upath_vpath [OF PGROUNDDOWN_aligned tf]
  have im: "ismapped r ?va s = Ok True" using ismapped_eq [OF up(2) pt r] e by simp
  show thesis
  proof (rule walk_find [OF up(2), of r s])
    assume "pte_at (pmem s) r (vpath ?va) = 0"
    with e show thesis by simp
  next
    fix t assume w: "walk r ?va False s = Ok (slot t (PX 0 ?va), s)" "tab (pmem s) r (upper 2 ?va) = Some t"
      "pte_at (pmem s) r (vpath ?va) = load64 (pmem s) (slot t (PX 0 ?va))"
    have e': "load64 (pmem s) (slot t (PX 0 ?va)) = e" using w(3) e(1) by simp
    note unf = vmfault_def Let_def im w(1) e' pte_simps va(1) [unfolded not_le [symmetric]]
    show thesis
    proof (cases "\<not> rd \<and> bit e 8")
      case False
      then have "vmfault psz r va rd s = Ok (0, s)" by (auto simp: unf)
      with False idle show thesis by blast
    next
      case True
      show thesis
      proof (cases ps)
        case Nil
        then have "kalloc s = (0, s)" using vm_kalloc_Nil inv by blast
        with True have "vmfault psz r va rd s = Ok (0, s)" by (simp add: unf)
        with Nil idle show thesis by blast
      next
        case (Cons n ps1)
        note inv = inv [unfolded Cons]
        note l = leaf_slot_walk [OF r w(2)] and a = vm_kalloc(1-3) [OF inv]
        obtain s' ps' where c: "kfree (PTE2PA e) (install (copied_page n (PTE2PA e) (snd (kalloc s)))
              t (PX 0 ?va) (cow_entry n e)) = Ok s'" "vm_inv s' ps' R own"
          "leaf_upd R r (vpath ?va) (cow_entry n e) (pmem s) (pmem s')" "same_view R s s'" "vm_base s s'"
          "leaf_slot s' R r (upper 2 ?va) (PX 0 ?va) t"
          by (rule cow_copy [OF inv own l up(1) [unfolded vpath_upper], folded vpath_upper, of e])
            (use e in auto)
        have "vmfault psz r va rd s = Ok (n, s')"
          using True a(1,2) c(1) by (cases "kalloc s") (simp add: unf)
        moreover have "tab (pmem s') r (upper 2 va) = tab (pmem s) r (upper 2 va)"
          using leaf_slotD(3) [OF c(6)] w(2) by (simp add: upper_2 PX_PGROUNDDOWN)
        ultimately show thesis using copied c a(2,3) by simp
      qed
    qed
  qed
qed

lemma vmfault_spec:
  fixes s :: "'a kmem_scheme"
  assumes inv: "vm_inv s ps R own" and own: "\<And>f. 0 \<le> own f" and r: "r \<in> R" and psz: "psz \<le> TRAPFRAME"
  obtains (fail) s' ps' where "vmfault psz r va rd s = Ok (0, s')" "vm_inv s' ps' R own"
      "same_leaves R (pmem s) (pmem s')" "same_view R s s'" "vm_base s s'"
  | (ok) n v s' ps' where "vmfault psz r va rd s = Ok (n, s')" "n \<noteq> 0" "va < psz" "vm_inv s' ps' R own"
      "leaf_upd R r (vpath va) v (pmem s) (pmem s')" "PTE2PA v = n" "bit v 0" "bit v 2" "\<not> bit v 8"
      "same_view R s s'" "vm_base s s'"
      "bit (pte_at (pmem s) r (vpath va)) 0 \<Longrightarrow> tab (pmem s') r (upper 2 va) = tab (pmem s) r (upper 2 va)"
proof (cases "va < psz")
  case False
  then have "vmfault psz r va rd s = Ok (0, s)" by (simp add: vmfault_def not_less)
  with fail inv show thesis by simp
next
  case va: True
  show thesis
  proof (cases "bit (pte_at (pmem s) r (vpath va)) 0")
    case False
    show thesis
    proof (rule vmfault_lazy [OF inv r va psz False, of rd])
      fix s' ps' assume *: "vmfault psz r va rd s = Ok (0, s')" "vm_inv s' ps' R own"
        "same_leaves R (pmem s) (pmem s')" "keeps R s s'" "vm_base s s'"
      from fail [OF *(1-3) keeps_view [OF *(4,3)] *(5)] show thesis .
    next
      fix n s' ps' assume *: "vmfault psz r va rd s = Ok (n, s')" "n \<noteq> 0" "page_ok s n" "vm_inv s' ps' R own"
        "leaf_upd R r (vpath va) (leaf_entry n (PTE_W OR PTE_U OR PTE_R)) (pmem s) (pmem s')"
        "same_view R s s'" "vm_base s s'"
      note le = leaf_entry_simps [OF page_ok_aligned [OF *(3)] page_ok_bound [OF *(3)] user_perm]
      show thesis
        by (rule ok [OF *(1,2) va *(4,5) le(1,3) _ _ *(6,7)])
          (use False in \<open>simp_all only: le(4)\<close>, simp_all add: bit_or_iff pte_simps)
    qed
  next
    case True
    show thesis
    proof (rule vmfault_cow [OF inv own r va psz refl True, of rd])
      assume "vmfault psz r va rd s = Ok (0, s)"
      with fail inv show thesis by simp
    next
      fix n s' ps' assume *: "vmfault psz r va rd s = Ok (n, s')" "n \<noteq> 0" "page_ok s n" "vm_inv s' ps' R own"
        "leaf_upd R r (vpath va) (cow_entry n (pte_at (pmem s) r (vpath va))) (pmem s) (pmem s')"
        "same_view R s s'" "vm_base s s'" "tab (pmem s') r (upper 2 va) = tab (pmem s) r (upper 2 va)"
      note ce = cow_entry_simps [OF page_ok_aligned [OF *(3)] page_ok_bound [OF *(3)]]
      show thesis
        by (rule ok [OF *(1,2) va *(4,5) ce(1) _ ce(2,3) *(6,7,8)]) (subst ce(4); simp add: True)
    qed
  qed
qed

end
