(* ===== verification/Usercopy.thy ===== *)
theory Usercopy
  imports Cow
begin

text \<open>
  \<open>copyout\<close>, \<open>copyin\<close> and \<open>copyinstr\<close> in terms of the bytes a process sees:
  \<open>copyout\<close> changes exactly the bytes it writes, in one address space; \<open>copyin\<close> and
  \<open>copyinstr\<close> return the bytes the process sees and change none.
\<close>

section \<open>Finding the frame\<close>

lemma walkaddr_eq:
  assumes "va < MAXVA" "pt_inv s ps R" "r \<in> R"
  shows "walkaddr r va s = Ok (let e = pte_at (pmem s) r (vpath va) in
    if bit e 0 \<and> bit e 4 then PTE2PA e else 0)"
  using assms(1)
  by (rule walk_find [of _ r s])
    (use assms(1) slot_walk_nonzero [OF assms(2,3), of va] in \<open>auto simp: walkaddr_def pte_simps not_le\<close>)

text \<open>Only pages below the trapframe are accessible to the user.\<close>

lemma user_leaf:
  assumes inv: "vm_inv s ps R own" and r: "r \<in> R" and va: "pg_aligned va" "va < MAXVA"
    and e: "bit (pte_at (pmem s) r (vpath va)) 0" "bit (pte_at (pmem s) r (vpath va)) 4"
  shows "va < TRAPFRAME"
proof (rule ccontr)
  assume high: "\<not> va < TRAPFRAME"
  obtain k where k: "unat va = 4096 * k" using va(1) by (rule pg_alignedE)
  have "unat TRAPFRAME \<le> 4096 * k" "4096 * k < unat MAXVA"
    using high va(2) k by (simp_all add: word_less_nat_alt)
  then have "k = 0x3FFFFFE \<or> k = 0x3FFFFFF" by simp linarith
  with k have "va = TRAPFRAME \<or> va = TRAMPOLINE" by (auto simp: word_unat_eq_iff)
  then have "\<not> upath (vpath va)" by (auto simp: upath_def)
  with vm_leaf_ok [OF inv r lpath_vpath, of va] e show False by (simp add: leaf_ok_def Let_def)
qed

lemma mapped_frame_nonzero:
  assumes inv: "vm_inv s ps R own" and "r \<in> R" "va < TRAPFRAME" "bit (pte_at (pmem s) r (vpath va)) 0"
  shows "PTE2PA (pte_at (pmem s) r (vpath va)) \<noteq> 0"
proof -
  have "KERNBASE \<le> kend s" using pt_kmem [OF vm_pt [OF inv]] by (simp add: kmem_inv_def)
  then show ?thesis using page_ok_nonzero vm_leaf(1) [OF inv assms(2) upath_user [OF assms(3)] assms(4)] by blast
qed

lemma page_split: "unat x = unat (PGROUNDDOWN x) + unat (x - PGROUNDDOWN x)"
  using unat_page_off [OF PGROUNDDOWN_aligned page_off_lt, of x x] by simp

text \<open>A fault may install or replace leaves of \<open>r\<close> below \<open>psz\<close>, and no others.\<close>

definition within :: "u64 set \<Rightarrow> u64 \<Rightarrow> u64 \<Rightarrow> 'a kmem_scheme \<Rightarrow> 'a kmem_scheme \<Rightarrow> bool" where
  "within R r psz s s' \<longleftrightarrow> vm_base s s' \<and>
     (\<forall>r'\<in>R. \<forall>p. lpath p \<longrightarrow> \<not> (r' = r \<and> p \<in> page_paths 0 psz) \<longrightarrow> pte_at (pmem s') r' p = pte_at (pmem s) r' p)"

lemma within_refl [simp]: "within R r psz s s"
  by (simp add: within_def)

lemma within_trans: "within R r psz s s' \<Longrightarrow> within R r psz s' s'' \<Longrightarrow> within R r psz s s''"
  by (simp add: within_def)

lemma within_same: "same_leaves R (pmem s) (pmem s') \<Longrightarrow> vm_base s s' \<Longrightarrow> within R r psz s s'"
  by (simp add: within_def same_leavesD)

lemma within_fault:
  assumes "leaf_upd R r (vpath va) v (pmem s) (pmem s')" "va < psz" "vm_base s s'"
  shows "within R r psz s s'"
proof -
  have "PGROUNDDOWN va \<le> va" by (simp add: word_le_nat_alt page_split [of va])
  then have "vpath va \<in> page_paths 0 psz"
    unfolding page_paths_def using assms(2) by (intro image_eqI [of _ _ "PGROUNDDOWN va"]) auto
  with leaf_updD [OF assms(1)] assms(3) show ?thesis by (auto simp: within_def)
qed

lemma copyout_frame_spec:
  fixes s :: "'a kmem_scheme"
  assumes inv: "vm_inv s ps R own" and own: "\<And>f. 0 \<le> own f" and r: "r \<in> R" and psz: "psz \<le> TRAPFRAME"
    and va: "pg_aligned va"
  obtains (fail) s' ps' where "copyout_frame psz r va s = Ok (0, s')" "vm_inv s' ps' R own"
      "same_view R s s'" "within R r psz s s'"
  | (ok) s' ps' v where "copyout_frame psz r va s = Ok (PTE2PA v, s')" "PTE2PA v \<noteq> 0" "va < TRAPFRAME"
      "vm_inv s' ps' R own" "pte_at (pmem s') r (vpath va) = v" "bit v 0" "bit v 2"
      "same_view R s s'" "within R r psz s s'"
proof (cases "va < MAXVA")
  case False
  then have "copyout_frame psz r va s = Ok (0, s)" by (simp add: copyout_frame_def not_less)
  with fail inv show thesis by simp
next
  case max: True
  let ?e = "pte_at (pmem s) r (vpath va)"
  note w0 = walkaddr_eq [OF max vm_pt [OF inv] r]
  have unf: "copyout_frame psz r va s = andThen (walkaddr r va s) (\<lambda>pa0.
        andThen (if pa0 = 0 then vmfault psz r va False s else Ok (pa0, s)) (\<lambda>(pa0, s).
          if pa0 = 0 then Ok (0, s)
          else andThen (walk r va False s) (\<lambda>(pte, s).
            andThen (if bit (load64 (pmem s) pte) 8 then vmfault psz r va False s else Ok (pa0, s)) (\<lambda>(pa0, s).
              if pa0 = 0 then Ok (0, s)
              else if \<not> bit (load64 (pmem s) pte) 2 then Ok (0, s) else Ok (pa0, s)))))"
    using max [folded not_le] unfolding copyout_frame_def pte_flag_tests not_not by (simp only: if_False)
  show thesis
  proof (cases "bit ?e 0 \<and> bit ?e 4")
    case True
    then have tf: "va < TRAPFRAME" using user_leaf [OF inv r va max] by blast
    have nz: "PTE2PA ?e \<noteq> 0" using mapped_frame_nonzero [OF inv r tf] True by blast
    show thesis
    proof (rule walk_find [OF max, of r s])
      assume "?e = 0" with True show thesis by simp
    next
      fix t assume w: "walk r va False s = Ok (slot t (PX 0 va), s)" "tab (pmem s) r (upper 2 va) = Some t"
        "?e = load64 (pmem s) (slot t (PX 0 va))"
      show thesis
      proof (cases "bit ?e 8")
        case False
        show thesis
        proof (cases "bit ?e 2")
          case False': False
          with True False nz w w0 have "copyout_frame psz r va s = Ok (0, s)" by (simp add: unf)
          with fail inv show thesis by simp
        next
          case True': True
          with True False nz w w0 have "copyout_frame psz r va s = Ok (PTE2PA ?e, s)" by (simp add: unf)
          from ok [OF this nz tf inv refl] True True' show thesis by simp
        qed
      next
        case cow: True
        have step: "copyout_frame psz r va s = andThen (vmfault psz r va False s) (\<lambda>(pa0, s).
              if pa0 = 0 then Ok (0, s)
              else if \<not> bit (load64 (pmem s) (slot t (PX 0 va))) 2 then Ok (0, s) else Ok (pa0, s))"
          using True cow nz w w0 by (simp add: unf)
        show thesis
        proof (rule vmfault_spec [OF inv own r psz, of va False])
          fix s' ps' assume f: "vmfault psz r va False s = Ok (0, s')" "vm_inv s' ps' R own"
            "same_leaves R (pmem s) (pmem s')" "same_view R s s'" "vm_base s s'"
          then show thesis using fail [OF _ f(2,4) within_same [OF f(3,5)]] step by simp
        next
          fix n v s' ps' assume lt: "va < psz" and f: "vmfault psz r va False s = Ok (n, s')" "n \<noteq> 0" "vm_inv s' ps' R own"
            "leaf_upd R r (vpath va) v (pmem s) (pmem s')" "PTE2PA v = n" "bit v 0" "bit v 2"
            "same_view R s s'" "vm_base s s'"
            "bit ?e 0 \<Longrightarrow> tab (pmem s') r (upper 2 va) = tab (pmem s) r (upper 2 va)"
          have v: "pte_at (pmem s') r (vpath va) = v" using leaf_updD [OF f(4) r lpath_vpath] by simp
          then have "load64 (pmem s') (slot t (PX 0 va)) = v"
            using f(10) True w(2) unfolding vpath_upper by (simp add: pte_at_snoc)
          then have "copyout_frame psz r va s = Ok (PTE2PA v, s')" using step f by simp
          from ok [OF this _ tf f(3) v f(6,7,8) within_fault [OF f(4) lt f(9)]] f(2,5) show thesis by simp
        qed
      qed
    qed
  next
    case False
    then have w0: "walkaddr r va s = Ok 0" using w0 by (auto simp: Let_def)
    show thesis
    proof (rule vmfault_spec [OF inv own r psz, of va False])
      fix s' ps' assume f: "vmfault psz r va False s = Ok (0, s')" "vm_inv s' ps' R own"
        "same_leaves R (pmem s) (pmem s')" "same_view R s s'" "vm_base s s'"
      then show thesis using fail [OF _ f(2,4) within_same [OF f(3,5)]] w0 by (simp add: unf)
    next
      fix n v s' ps' assume f: "vmfault psz r va False s = Ok (n, s')" "n \<noteq> 0" "va < psz" "vm_inv s' ps' R own"
        "leaf_upd R r (vpath va) v (pmem s) (pmem s')" "PTE2PA v = n" "bit v 0" "bit v 2" "\<not> bit v 8"
        "same_view R s s'" "vm_base s s'"
      have v: "pte_at (pmem s') r (vpath va) = v" using leaf_updD [OF f(5) r lpath_vpath] by simp
      show thesis
      proof (rule walk_find [OF max, of r s'])
        assume "pte_at (pmem s') r (vpath va) = 0" with v f(7) show thesis by simp
      next
        fix t assume "walk r va False s' = Ok (slot t (PX 0 va), s')"
          "pte_at (pmem s') r (vpath va) = load64 (pmem s') (slot t (PX 0 va))"
        with w0 f v have "copyout_frame psz r va s = Ok (PTE2PA v, s')" by (simp add: unf)
        from ok [OF this _ less_le_trans [OF f(3) psz] f(4) v f(7,8,10) within_fault [OF f(5,3,11)]] f(2,6) show thesis by simp
      qed
    qed
  qed
qed

section \<open>Writing\<close>

text \<open>From \<open>s\<close> to \<open>s'\<close>, the bytes \<open>bs\<close> were stored at address \<open>va\<close> of address space \<open>r\<close>,
  and no process sees any other change.\<close>

definition written :: "u64 set \<Rightarrow> u64 \<Rightarrow> u64 \<Rightarrow> u8 list \<Rightarrow> 'a kmem_scheme \<Rightarrow> 'a kmem_scheme \<Rightarrow> bool" where
  "written R r va bs s s' \<longleftrightarrow> (\<forall>r'\<in>R. \<forall>x<TRAPFRAME. ubyte s' r' x =
     (if r' = r \<and> unat va \<le> unat x \<and> unat x < unat va + length bs
      then bs ! (unat x - unat va) else ubyte s r' x))"

lemma written_Nil: "written R r va [] s s' \<longleftrightarrow> same_view R s s'"
  by (auto simp: written_def same_view_def)

lemma written_after: "same_view R s s1 \<Longrightarrow> written R r va bs s1 s' \<Longrightarrow> written R r va bs s s'"
  by (simp add: written_def same_view_def)

lemma written_then: "written R r va bs s s1 \<Longrightarrow> same_view R s1 s' \<Longrightarrow> written R r va bs s s'"
  by (simp add: written_def same_view_def)

lemma written_append:
  "written R r va bs s s1 \<Longrightarrow> written R r vb cs s1 s' \<Longrightarrow> unat vb = unat va + length bs \<Longrightarrow>
   written R r va (bs @ cs) s s'"
  by (auto simp: written_def nth_append)

lemma vpath_page:
  assumes "x < TRAPFRAME" "y < TRAPFRAME"
  shows "vpath x = vpath y \<longleftrightarrow> PGROUNDDOWN x = PGROUNDDOWN y"
  using vpath_inject [OF PGROUNDDOWN_aligned PGROUNDDOWN_aligned upath_vpath(2) upath_vpath(2), of x y]
    TRAPFRAME_page assms by simp

lemma page_below:
  assumes "PGROUNDDOWN va < b" "pg_aligned b"
  shows "va < b"
proof -
  obtain k where k: "unat b = 4096 * k" using assms(2) by (rule pg_alignedE)
  have "unat va div 4096 < k" using assms(1) k by (simp add: word_less_nat_alt unat_PGROUNDDOWN)
  then have "unat va < 4096 * k" by (simp add: div_less_iff_less_mult)
  with k show ?thesis by (simp add: word_less_nat_alt)
qed

lemma TRAPFRAME_aligned: "pg_aligned TRAPFRAME"
  by (simp add: pg_aligned_unat)

lemma view_put:
  assumes inv: "vm_inv s ps R own" and r: "r \<in> R" and va: "va < TRAPFRAME"
    and v: "pte_at (pmem s) r (vpath va) = v" "bit v 0" "bit v 2"
    and bs: "unat va mod 4096 + length bs \<le> 4096"
  defines "s' \<equiv> s\<lparr>pmem := put_bytes (pmem s) (PTE2PA v + (va - PGROUNDDOWN va)) bs\<rparr>"
  shows "vm_inv s' ps R own" "written R r va bs s s'" "within R r psz s s'"
proof -
  let ?f = "PTE2PA v" and ?o = "va - PGROUNDDOWN va"
  note leaf = vm_leaf [OF inv r upath_user [OF va], unfolded v(1), OF v(2)]
  have o: "unat ?o = unat va mod 4096" by (rule page_off_of)
  have other: "pmem s' x = pmem s x" if "PGROUNDDOWN x \<noteq> ?f" for x
  proof -
    have "\<not> unat (x - (?f + ?o)) < length bs"
    proof
      assume lt: "unat (x - (?f + ?o)) < length bs"
      have "x - ?f = ?o + (x - (?f + ?o))" by simp
      also have "unat \<dots> = unat ?o + unat (x - (?f + ?o))"
        using lt bs o by (intro unat_plus_no_wrap) simp
      finally have "unat (x - ?f) < 4096" using lt bs o by simp
      with that show False by (simp add: page_diff_iff)
    qed
    then show ?thesis by (simp add: s'_def put_bytes_def)
  qed
  have "pmem s' x = pmem s x" if "PGROUNDDOWN x \<in> kpages s ps R" for x
    using that leaf(2,3) by (intro other) (auto simp: kpages_def)
  note w = vm_write [OF inv this]
  show "vm_inv s' ps R own" using w(1) by (simp add: s'_def)
  have "same_leaves R (pmem s) (pmem s')" using w(3) by (simp add: s'_def)
  then show "within R r psz s s'" by (rule within_same) (simp add: s'_def)
  show "written R r va bs s s'"
    unfolding written_def
  proof (intro ballI allI impI)
    fix r' x assume r': "r' \<in> R" and x: "x < TRAPFRAME"
    let ?e = "pte_at (pmem s) r' (vpath x)" and ?ox = "x - PGROUNDDOWN x"
    have e: "pte_at (pmem s') r' (vpath x) = ?e" by (rule same_leavesD [OF w(3) r' lpath_vpath])
    show "ubyte s' r' x = (if r' = r \<and> unat va \<le> unat x \<and> unat x < unat va + length bs
        then bs ! (unat x - unat va) else ubyte s r' x)"
    proof (cases "r' = r \<and> vpath x = vpath va")
      case True
      then have pg: "PGROUNDDOWN x = PGROUNDDOWN va" using vpath_page [OF x va] by blast
      then have d: "?f + ?ox - (?f + ?o) = x - va" by simp
      have "unat (x - va) < length bs \<longleftrightarrow> unat va \<le> unat x \<and> unat x < unat va + length bs"
        using word_diff_less_iff [of va "length bs" x] va bs by (simp add: word_less_nat_alt word_le_nat_alt)
      moreover have "unat va \<le> unat x \<Longrightarrow> unat (x - va) = unat x - unat va"
        by (simp add: unat_sub word_le_nat_alt)
      moreover have "pmem s' (?f + ?ox) =
          (if unat (x - va) < length bs then bs ! unat (x - va) else pmem s (?f + ?ox))"
        unfolding d [symmetric] by (simp add: s'_def put_bytes_def)
      ultimately show ?thesis using True v e by (simp add: ubyte_def)
    next
      case False
      have no: "\<not> (r' = r \<and> unat va \<le> unat x \<and> unat x < unat va + length bs)"
      proof
        assume *: "r' = r \<and> unat va \<le> unat x \<and> unat x < unat va + length bs"
        have "unat x < unat (PGROUNDDOWN va) + 4096" using * bs o page_split [of va] by linarith
        moreover have "unat (PGROUNDDOWN va) \<le> unat x" using * page_split [of va] by linarith
        ultimately have "unat (x - PGROUNDDOWN va) < 4096" by (simp add: unat_sub word_le_nat_alt)
        then have "PGROUNDDOWN x = PGROUNDDOWN va" by (simp add: page_diff_iff)
        with False * vpath_page [OF x va] show False by blast
      qed
      have "PTE2PA ?e \<noteq> ?f" if "bit ?e 0"
      proof
        assume "PTE2PA ?e = ?f"
        then have "(r', vpath x) \<in> refs (pmem s) R ?f" using r' upath_user [OF x] that by (auto simp: refs_def)
        with leaf(4) [OF v(3)] False show False by auto
      qed
      then have "bit ?e 0 \<Longrightarrow> pmem s' (PTE2PA ?e + ?ox) = pmem s (PTE2PA ?e + ?ox)"
        by (intro other) (simp add: page_of_frame)
      then have "ubyte s' r' x = ubyte s r' x" using e by (simp add: ubyte_def Let_def)
      with no show ?thesis by (simp only: if_False)
    qed
  qed
qed

lemma chunk_eq: "chunk va len = min (4096 - unat va mod 4096) len"
proof -
  have "va - PGROUNDDOWN va \<le> PGSIZE" using page_off_lt [of va] by (simp add: word_le_nat_alt)
  then have "unat (PGSIZE - (va - PGROUNDDOWN va)) = 4096 - unat va mod 4096"
    by (simp add: unat_sub page_off_of)
  then show ?thesis by (simp add: chunk_def)
qed

lemma next_page:
  assumes "va < TRAPFRAME" "chunk va len < len"
  shows "unat (PGROUNDDOWN va + PGSIZE) = unat va + chunk va len"
proof -
  have "unat (PGROUNDDOWN va) \<le> unat va" using PGROUNDDOWN_le [of va] by (simp add: word_le_nat_alt)
  then have "unat (PGROUNDDOWN va + PGSIZE) = unat (PGROUNDDOWN va) + 4096"
    using assms(1) by (subst unat_plus_no_wrap) (simp_all add: word_less_nat_alt)
  moreover have "chunk va len = 4096 - unat va mod 4096" using assms(2) by (simp add: chunk_eq)
  moreover have "unat va mod 4096 < 4096" by simp
  ultimately show ?thesis using page_split [of va] page_off_of [of va] by linarith
qed

lemma copyout_spec:
  fixes s :: "'a kmem_scheme"
  assumes "vm_inv s ps R own" "\<And>f. 0 \<le> own f" "r \<in> R" "psz \<le> TRAPFRAME"
  shows "\<exists>x s' ps' k. copyout psz r va src s = Ok (x, s') \<and> vm_inv s' ps' R own \<and> within R r psz s s' \<and>
    (x = 0 \<and> k = length src \<or> x = - 1 \<and> k < length src) \<and> written R r va (take k src) s s'"
  using assms
proof (induction psz r va src s arbitrary: ps rule: copyout.induct)
  case (1 psz r va src s)
  note own = "1.prems"(2) and r = "1.prems"(3) and psz = "1.prems"(4)
  show ?case
  proof (cases "src = []")
    case True
    with "1.prems"(1) show ?thesis
      by (intro exI [of _ 0] exI [of _ s] exI [of _ ps]) (simp add: copyout.simps written_Nil)
  next
    case ne: False
    show ?thesis
    proof (rule copyout_frame_spec [OF "1.prems" PGROUNDDOWN_aligned [of va]])
      fix s' ps' assume "copyout_frame psz r (PGROUNDDOWN va) s = Ok (0, s')" "vm_inv s' ps' R own"
        "same_view R s s'" "within R r psz s s'"
      then show ?thesis using ne
        by (intro exI [of _ "- 1"] exI [of _ s'] exI [of _ ps'] exI [of _ 0])
          (simp add: copyout.simps [of psz r va] written_Nil)
    next
      fix s1 ps1 v
      assume f: "copyout_frame psz r (PGROUNDDOWN va) s = Ok (PTE2PA v, s1)" "PTE2PA v \<noteq> 0"
        "PGROUNDDOWN va < TRAPFRAME" "vm_inv s1 ps1 R own" "pte_at (pmem s1) r (vpath (PGROUNDDOWN va)) = v"
        "bit v 0" "bit v 2" "same_view R s s1" "within R r psz s s1"
      have tf: "va < TRAPFRAME"
        using page_below [OF f(3) TRAPFRAME_aligned] .
      let ?n = "chunk va (length src)" and ?vb = "PGROUNDDOWN va + PGSIZE"
      let ?s2 = "s1\<lparr>pmem := put_bytes (pmem s1) (PTE2PA v + (va - PGROUNDDOWN va)) (take ?n src)\<rparr>"
      have n: "?n \<le> length src" "unat va mod 4096 + ?n \<le> 4096" by (simp_all add: chunk_eq)
      note w = view_put [OF f(4) r tf f(5) [simplified] f(6,7), of "take ?n src", simplified]
      have inv2: "vm_inv ?s2 ps1 R own" and wr: "written R r va (take ?n src) s ?s2"
        using w(1,2) n f(8) by (auto intro: written_after)
      have wi: "within R r psz s ?s2" by (rule within_trans [OF f(9) w(3)]) (use n in simp)
      have step: "copyout psz r va src s = copyout psz r ?vb (drop ?n src) ?s2"
        using ne f(1,2) by (simp add: copyout.simps [of psz r va] Let_def)
      obtain x s' ps' k where c: "copyout psz r ?vb (drop ?n src) ?s2 = Ok (x, s')" "vm_inv s' ps' R own"
        "within R r psz ?s2 s'" "x = 0 \<and> k = length (drop ?n src) \<or> x = - 1 \<and> k < length (drop ?n src)"
        "written R r ?vb (take k (drop ?n src)) ?s2 s'"
        using "1.IH" [OF ne refl f(1) refl _ refl refl inv2 own r psz] f(2) by blast
      have "written R r va (take (?n + k) src) s s'"
      proof (cases "?n = length src")
        case True
        then have "same_view R ?s2 s'" using c(5) by (simp add: written_Nil)
        from written_then [OF wr this] True show ?thesis by simp
      next
        case False
        then have "unat ?vb = unat va + length (take ?n src)" using next_page [OF tf, of "length src"] n by simp
        from written_append [OF wr c(5) this] show ?thesis by (simp add: take_add)
      qed
      moreover have "x = 0 \<and> ?n + k = length src \<or> x = - 1 \<and> ?n + k < length src" using c(4) n by auto
      ultimately show ?thesis using step c(1,2) within_trans [OF wi c(3)]
        by (intro exI [of _ x] exI [of _ s'] exI [of _ ps'] exI [of _ "?n + k"]) simp
    qed
  qed
qed

section \<open>Reading\<close>

lemma copyin_frame_spec:
  fixes s :: "'a kmem_scheme"
  assumes inv: "vm_inv s ps R own" and own: "\<And>f. 0 \<le> own f" and r: "r \<in> R" and psz: "psz \<le> TRAPFRAME"
    and va: "pg_aligned va"
  obtains (fail) s' ps' where "copyin_frame psz r va s = Ok (0, s')" "vm_inv s' ps' R own"
      "same_view R s s'" "within R r psz s s'"
  | (ok) s' ps' v where "copyin_frame psz r va s = Ok (PTE2PA v, s')" "PTE2PA v \<noteq> 0" "va < TRAPFRAME"
      "vm_inv s' ps' R own" "pte_at (pmem s') r (vpath va) = v" "bit v 0" "same_view R s s'" "within R r psz s s'"
proof (cases "va < MAXVA \<and> bit (pte_at (pmem s) r (vpath va)) 0 \<and> bit (pte_at (pmem s) r (vpath va)) 4")
  case True
  then have tf: "va < TRAPFRAME" using user_leaf [OF inv r va] by blast
  have nz: "PTE2PA (pte_at (pmem s) r (vpath va)) \<noteq> 0" using mapped_frame_nonzero [OF inv r tf] True by blast
  have "copyin_frame psz r va s = Ok (PTE2PA (pte_at (pmem s) r (vpath va)), s)"
    using True nz walkaddr_eq [OF _ vm_pt [OF inv] r] by (simp add: copyin_frame_def)
  from ok [OF this nz tf inv refl] True show thesis by simp
next
  case False
  have "walkaddr r va s = Ok 0"
  proof (cases "va < MAXVA")
    case True
    with False walkaddr_eq [OF True vm_pt [OF inv] r] show ?thesis by (auto simp: Let_def)
  qed (simp add: walkaddr_def not_less)
  then have eq: "copyin_frame psz r va s = vmfault psz r va False s" by (simp add: copyin_frame_def)
  show thesis
  proof (rule vmfault_spec [OF inv own r psz, of va False])
    fix s' ps' assume f: "vmfault psz r va False s = Ok (0, s')" "vm_inv s' ps' R own"
      "same_leaves R (pmem s) (pmem s')" "same_view R s s'" "vm_base s s'"
    then show thesis using fail [OF _ f(2,4) within_same [OF f(3,5)]] eq by simp
  next
    fix n v s' ps' assume f: "vmfault psz r va False s = Ok (n, s')" "n \<noteq> 0" "va < psz" "vm_inv s' ps' R own"
      "leaf_upd R r (vpath va) v (pmem s) (pmem s')" "PTE2PA v = n" "bit v 0" "same_view R s s'" "vm_base s s'"
    have "pte_at (pmem s') r (vpath va) = v" using leaf_updD [OF f(5) r lpath_vpath] by simp
    from ok [OF _ _ less_le_trans [OF f(3) psz] f(4) this f(7,8) within_fault [OF f(5,3,9)]] f(1,2,6) eq show thesis by simp
  qed
qed

text \<open>\<open>bs\<close> is what process \<open>r\<close> sees at \<open>va\<close>.\<close>

definition seen :: "'a kmem_scheme \<Rightarrow> u64 \<Rightarrow> u64 \<Rightarrow> u8 list \<Rightarrow> bool" where
  "seen s r va bs \<longleftrightarrow> (\<forall>i<length bs. bs ! i = ubyte s r (va + of_nat i))"

lemma seen_append: "seen s r va bs \<Longrightarrow> seen s r (va + of_nat (length bs)) cs \<Longrightarrow> seen s r va (bs @ cs)"
  by (auto simp: seen_def nth_append add.assoc of_nat_diff)

lemma page_add:
  assumes "i < chunk va len"
  shows "PGROUNDDOWN (va + of_nat i) = PGROUNDDOWN va"
    "va + of_nat i - PGROUNDDOWN va = va - PGROUNDDOWN va + of_nat i"
proof -
  have i: "unat va mod 4096 + i < 4096" using assms by (simp add: chunk_eq less_diff_conv add.commute)
  then have ui: "unat (of_nat i :: u64) = i" by (intro unat_of_nat_small) simp
  have "unat (va - PGROUNDDOWN va + of_nat i) = unat (va - PGROUNDDOWN va) + i"
    using ui i by (subst unat_plus_no_wrap) (simp_all add: page_off_of)
  then have "unat (va + of_nat i - PGROUNDDOWN va) < 4096" using i by (simp add: page_off_of algebra_simps)
  then show "PGROUNDDOWN (va + of_nat i) = PGROUNDDOWN va" by (simp add: page_diff_iff)
qed simp

lemma ubyte_page:
  assumes "pte_at (pmem s) r (vpath va) = v" "bit v 0" "i < chunk va len"
  shows "ubyte s r (va + of_nat i) = pmem s (PTE2PA v + (va - PGROUNDDOWN va) + of_nat i)"
proof -
  have "vpath (va + of_nat i) = vpath va" using page_add(1) [OF assms(3)] vpath_PGROUNDDOWN by metis
  then show ?thesis using assms(1,2) page_add(1) [OF assms(3)] by (simp add: ubyte_def algebra_simps)
qed

lemma seen_page:
  assumes "pte_at (pmem s) r (vpath va) = v" "bit v 0" "n \<le> chunk va len"
  shows "seen s r va (get_bytes (pmem s) (PTE2PA v + (va - PGROUNDDOWN va)) n)"
  unfolding seen_def using ubyte_page [OF assms(1,2), where len = len] assms(3) by (auto simp: get_bytes_def)

lemma seen_view:
  assumes "same_view R s s'" "r \<in> R" "unat va + length bs \<le> unat TRAPFRAME"
  shows "seen s' r va bs = seen s r va bs"
proof -
  have "ubyte s' r (va + of_nat i) = ubyte s r (va + of_nat i)" if "i < length bs" for i
  proof -
    have "unat (of_nat i :: u64) = i" using that assms(3) by (intro unat_of_nat_small) simp
    then have "unat (va + of_nat i) = unat va + i" using that assms(3) by (subst unat_plus_no_wrap) simp_all
    then have "va + of_nat i < TRAPFRAME" using that assms(3) by (simp add: word_less_nat_alt)
    with assms(1,2) show ?thesis by (simp add: same_view_def)
  qed
  then show ?thesis by (simp add: seen_def)
qed

lemma page_room:
  assumes "PGROUNDDOWN va < TRAPFRAME"
  shows "unat va + chunk va len \<le> unat TRAPFRAME"
proof -
  obtain k where k: "unat TRAPFRAME = 4096 * k" using TRAPFRAME_aligned by (rule pg_alignedE)
  have "unat va div 4096 < k" using assms k by (simp only: word_less_nat_alt unat_PGROUNDDOWN)
  then have "4096 * (unat va div 4096) + 4096 \<le> 4096 * k" by simp
  moreover have "chunk va len \<le> 4096 - unat va mod 4096" by (simp add: chunk_eq)
  moreover have "unat va mod 4096 < 4096" by simp
  ultimately show ?thesis using mult_div_mod_eq [of 4096 "unat va"] k by linarith
qed

lemma copyin_spec:
  fixes s :: "'a kmem_scheme"
  assumes "vm_inv s ps R own" "\<And>f. 0 \<le> own f" "r \<in> R" "psz \<le> TRAPFRAME"
  shows "\<exists>x bs s' ps'. copyin psz r va len s = Ok (x, bs, s') \<and> vm_inv s' ps' R own \<and> within R r psz s s' \<and>
    same_view R s s' \<and> (x = 0 \<and> length bs = len \<or> x = - 1 \<and> length bs \<le> len) \<and> seen s r va bs \<and>
    (bs \<noteq> [] \<longrightarrow> unat va + length bs \<le> unat TRAPFRAME)"
  using assms
proof (induction psz r va len s arbitrary: ps rule: copyin.induct)
  case (1 psz r va len s)
  note own = "1.prems"(2) and r = "1.prems"(3) and psz = "1.prems"(4)
  show ?case
  proof (cases "len = 0")
    case True
    with "1.prems"(1) show ?thesis by (simp add: copyin.simps seen_def) blast
  next
    case ne: False
    show ?thesis
    proof (rule copyin_frame_spec [OF "1.prems" PGROUNDDOWN_aligned [of va]])
      fix s' ps' assume "copyin_frame psz r (PGROUNDDOWN va) s = Ok (0, s')" "vm_inv s' ps' R own"
        "same_view R s s'" "within R r psz s s'"
      then show ?thesis using ne
        by (intro exI [of _ "- 1"] exI [of _ "[]"] exI [of _ s'] exI [of _ ps'])
          (simp add: copyin.simps [of psz r va] seen_def)
    next
      fix s1 ps1 v
      assume f: "copyin_frame psz r (PGROUNDDOWN va) s = Ok (PTE2PA v, s1)" "PTE2PA v \<noteq> 0"
        "PGROUNDDOWN va < TRAPFRAME" "vm_inv s1 ps1 R own" "pte_at (pmem s1) r (vpath (PGROUNDDOWN va)) = v"
        "bit v 0" "same_view R s s1" "within R r psz s s1"
      let ?n = "chunk va len" and ?vb = "PGROUNDDOWN va + PGSIZE"
      let ?bs = "get_bytes (pmem s1) (PTE2PA v + (va - PGROUNDDOWN va)) (chunk va len)"
      have tf: "va < TRAPFRAME" using page_below [OF f(3) TRAPFRAME_aligned] .
      note room = page_room [OF f(3), of len]
      have "seen s1 r va ?bs" using seen_page [OF _ f(6), of s1 r va ?n len] f(5) by simp
      then have head: "seen s r va ?bs" using seen_view [OF f(7) r, of va ?bs] room by simp
      obtain x bs s' ps' where c: "copyin psz r ?vb (len - ?n) s1 = Ok (x, bs, s')" "vm_inv s' ps' R own"
        "within R r psz s1 s'" "same_view R s1 s'" "x = 0 \<and> length bs = len - ?n \<or> x = - 1 \<and> length bs \<le> len - ?n"
        "seen s1 r ?vb bs" "bs \<noteq> [] \<longrightarrow> unat ?vb + length bs \<le> unat TRAPFRAME"
        using "1.IH" [OF ne refl f(1) refl _ refl refl f(4) own r psz] f(2) by blast
      have le: "?n \<le> len" by (simp add: chunk_eq)
      have tail: "seen s r va (?bs @ bs) \<and> unat va + length (?bs @ bs) \<le> unat TRAPFRAME"
      proof (cases "bs = []")
        case False
        then have "?n < len" using c(5) le by (cases "?n = len") auto
        then have vb: "unat ?vb = unat va + ?n" by (rule next_page [OF tf])
        then have "?vb = va + of_nat (length ?bs)"
          using room by (simp add: word_unat_eq_iff unat_of_nat_small unat_plus_no_wrap)
        moreover have "seen s r ?vb bs" using seen_view [OF f(7) r] c(6,7) False by blast
        ultimately show ?thesis using seen_append [OF head] c(7) False vb by simp
      qed (use head room in simp)
      have "copyin psz r va len s = Ok (x, ?bs @ bs, s')"
        using ne f(1,2) c(1) by (simp add: copyin.simps [of psz r va] Let_def)
      with c(2,4,5) tail le within_trans [OF f(8) c(3)] same_view_trans [OF f(7) c(4)] show ?thesis
        by (intro exI [of _ x] exI [of _ "?bs @ bs"] exI [of _ s'] exI [of _ ps']) auto
    qed
  qed
qed

lemma copyinstr_page_spec:
  assumes "copyinstr_page n m p = (got_null, bs)"
  shows "bs = get_bytes m p (length bs)" "length bs \<le> n"
    "if got_null then \<exists>str. bs = str @ [0] \<and> 0 \<notin> set str else length bs = n \<and> 0 \<notin> set bs"
  using assms
proof (induction n arbitrary: p bs)
  case (Suc n)
  {
    case 1
    with Suc.IH(1) [of "p + 1"] show ?case by (auto simp: get_bytes_Suc split: if_splits prod.splits)
  next
    case 2
    with Suc.IH(2) [of "p + 1"] show ?case by (auto split: if_splits prod.splits)
  next
    case 3
    show ?case
    proof (cases "m p = 0")
      case False
      obtain b cs where r: "copyinstr_page n m (p + 1) = (b, cs)" by fastforce
      with 3 False have bs: "bs = m p # cs" "got_null = b" by auto
      from Suc.IH(3) [of "p + 1" cs] r bs(2)
      have "if got_null then \<exists>str. cs = str @ [0] \<and> 0 \<notin> set str else length cs = n \<and> 0 \<notin> set cs" by simp
      with False bs show ?thesis by (cases got_null) (auto intro: exI [of _ "m p # _"])
    qed (use 3 in auto)
  }
qed auto

lemma copyinstr_spec:
  assumes inv: "vm_inv s ps R own" and "r \<in> R"
  shows "\<exists>x bs. copyinstr r va mx s = Ok (x, bs) \<and> length bs \<le> mx \<and> seen s r va bs \<and>
    (bs \<noteq> [] \<longrightarrow> unat va + length bs \<le> unat TRAPFRAME) \<and>
    (x = 0 \<and> (\<exists>str. bs = str @ [0] \<and> 0 \<notin> set str) \<or> x = - 1 \<and> 0 \<notin> set bs)"
  using assms
proof (induction r va mx s rule: copyinstr.induct)
  case (1 r va mx s)
  let ?va0 = "PGROUNDDOWN va" and ?n = "chunk va mx" and ?e = "pte_at (pmem s) r (vpath va)"
  show ?case
  proof (cases "mx = 0 \<or> walkaddr r ?va0 s = Ok 0")
    case True
    then have "copyinstr r va mx s = Ok (- 1, [])" by (auto simp: copyinstr.simps [of r va])
    then show ?thesis by (simp add: seen_def)
  next
    case False
    have max: "?va0 < MAXVA"
    proof (rule ccontr)
      assume "\<not> ?va0 < MAXVA"
      then have "walkaddr r ?va0 s = Ok 0" by (simp add: walkaddr_def not_less)
      with False show False by blast
    qed
    note w = walkaddr_eq [OF max vm_pt [OF "1.prems"(1)] "1.prems"(2)]
    then have e: "bit ?e 0" "bit ?e 4" "walkaddr r ?va0 s = Ok (PTE2PA ?e)" "PTE2PA ?e \<noteq> 0"
      using False by (auto simp: Let_def split: if_splits)
    have tf0: "?va0 < TRAPFRAME"
      using user_leaf [OF "1.prems" PGROUNDDOWN_aligned max] e by simp
    have tf: "va < TRAPFRAME" using page_below [OF tf0 TRAPFRAME_aligned] .
    obtain b bs where p: "copyinstr_page ?n (pmem s) (PTE2PA ?e + (va - ?va0)) = (b, bs)" by fastforce
    note ps = copyinstr_page_spec [OF p]
    have head: "seen s r va bs"
      by (subst ps(1), rule seen_page [OF refl e(1)]) (use ps(2) in simp)
    have room: "unat va + length bs \<le> unat TRAPFRAME" using page_room [OF tf0, of mx] ps(2) by simp
    have le: "?n \<le> mx" by (simp add: chunk_eq)
    show ?thesis
    proof (cases b)
      case True
      then have "copyinstr r va mx s = Ok (0, bs)" using False e p by (simp add: copyinstr.simps [of r va] Let_def)
      with True head ps room le show ?thesis by auto
    next
      case nb: False
      let ?vb = "?va0 + PGSIZE"
      have mx0: "mx \<noteq> 0" using False by simp
      obtain x cs where c: "copyinstr r ?vb (mx - ?n) s = Ok (x, cs)" "length cs \<le> mx - ?n" "seen s r ?vb cs"
        "cs \<noteq> [] \<longrightarrow> unat ?vb + length cs \<le> unat TRAPFRAME"
        "x = 0 \<and> (\<exists>str. cs = str @ [0] \<and> 0 \<notin> set str) \<or> x = - 1 \<and> 0 \<notin> set cs"
        using "1.IH" [OF mx0 refl e(3,4) refl p [symmetric] refl nb "1.prems"] by (elim exE conjE) (rule that)
      have len: "length bs = ?n" "0 \<notin> set bs" using ps(3) nb by auto
      have tail: "seen s r va (bs @ cs) \<and> unat va + length (bs @ cs) \<le> unat TRAPFRAME"
      proof (cases "cs = []")
        case False
        then have "?n < mx" using c(2) le by (cases "?n = mx") auto
        then have vb: "unat ?vb = unat va + ?n" by (rule next_page [OF tf])
        then have "?vb = va + of_nat (length bs)"
          using room len by (simp add: word_unat_eq_iff unat_of_nat_small unat_plus_no_wrap)
        then show ?thesis using seen_append [OF head] c(3,4) False vb len by simp
      qed (use head room in simp)
      have "copyinstr r va mx s = Ok (x, bs @ cs)"
        using False e p nb c(1) by (simp add: copyinstr.simps [of r va] Let_def)
      moreover have "x = 0 \<and> (\<exists>str. bs @ cs = str @ [0] \<and> 0 \<notin> set str) \<or> x = - 1 \<and> 0 \<notin> set (bs @ cs)"
        using c(5) len by (auto intro: exI [of _ "bs @ _"])
      ultimately show ?thesis using tail c(2) len le by auto
    qed
  qed
qed

end
