(* ===== verification/Uvmlife.thy ===== *)
theory Uvmlife
  imports Usercopy
begin

text \<open>
  The life of an address space: \<open>uvmcreate\<close>, growing and shrinking it with \<open>uvmalloc\<close> and
  \<open>uvmdealloc\<close>, and giving its pages back with \<open>uvmunmap\<close>.  The theory ends with a
  booted machine on which the theorems about address spaces are instantiated.
\<close>

section \<open>uvmcreate\<close>

definition zero_page :: "mem \<Rightarrow> u64 \<Rightarrow> bool" where
  "zero_page m n \<longleftrightarrow> pg_aligned n \<and> (\<forall>x. PGROUNDDOWN x = n \<longrightarrow> m x = 0)"

lemma zero_page_load: "zero_page m n \<Longrightarrow> i < 512 \<Longrightarrow> load64 m (slot n i) = 0"
  by (rule tab_zero_page) (auto simp: zero_page_def)

lemma tab_empty_root:
  assumes "zero_page m n" "tpath p \<or> lpath p"
  shows "tab m n p = (if p = [] then Some n else None)"
proof (cases p)
  case (Cons i q)
  then have "i < 512" using assms(2) by (auto simp: tpath_def lpath_def)
  with zero_page_load [OF assms(1)] Cons show ?thesis by simp
qed simp

lemma pte_at_empty_root:
  assumes "zero_page m n" "tpath p" "i < 512"
  shows "pte_at m n (p @ [i]) = 0"
  using tab_empty_root [OF assms(1), of p] zero_page_load [OF assms(1,3)] assms(2)
  unfolding pte_at_snoc by (cases "p = []") simp_all

lemma vm_new_root:
  assumes inv: "vm_inv s ps R own" and fr: "fresh_page s ps R own n"
    and z: "zero_page (pmem s) n"
  shows "vm_inv s ps (insert n R) (own(n := 0))" "tables s (insert n R) = insert n (tables s R)"
    "\<And>p. lpath p \<Longrightarrow> pte_at (pmem s) n p = 0" "n \<notin> R"
proof -
  note f = fresh_pageD [OF fr] and pt = vm_pt [OF inv]
  note tab = tab_empty_root [OF z] and pte = pte_at_empty_root [OF z]
  show lpte: "pte_at (pmem s) n p = 0" if "lpath p" for p using that pte by (auto simp: lpath_snoc)
  have nt: "n \<notin> tables s R" using f(3) by (simp add: kpages_def)
  show nR: "n \<notin> R" using nt tablesI [of n R "[]" s n] by (auto simp: tpath_def)
  show T: "tables s (insert n R) = insert n (tables s R)"
    using tab by (auto simp: tables_def split: if_splits intro: exI [of _ "[]"] simp: tpath_def)
  have refs: "refs (pmem s) (insert n R) f = refs (pmem s) R f" for f
    using lpte by (auto simp: refs_def upathD)
  have one: "refcnt s (pfn n) = 1" using vm_count [OF inv f(1)] nt f(4,8) by simp
  show "vm_inv s ps (insert n R) (own(n := 0))"
  proof (rule vm_invI)
    show "pt_inv s ps (insert n R)"
    proof (rule pt_invI)
      fix t assume "t \<in> tables s (insert n R)"
      then show "page_ok s t" "refcnt s (pfn t) = 1" using T pt_table(1,2) [OF pt] f(1) one by auto
    next
      fix r p i assume *: "r \<in> insert n R" "tpath (p @ [i])" "bit (pte_at (pmem s) r (p @ [i])) 0"
      then have "r \<in> R" using pte [of p i] tpath_prefix_t [of p i "[]"] by auto
      with * pt_flags [OF pt] show "PTE_FLAGS (pte_at (pmem s) r (p @ [i])) = PTE_V" by blast
    next
      fix r r' p p' t
      assume *: "r \<in> insert n R" "r' \<in> insert n R" "tpath p" "tpath p' \<or> lpath p'"
        "tab (pmem s) r p = Some t" "tab (pmem s) r' p' = Some t"
      have "r = n \<longrightarrow> p = [] \<and> t = n" "r' = n \<longrightarrow> p' = [] \<and> t = n"
        using * tab [of p] tab [of p'] by (auto split: if_splits)
      moreover have "r \<in> R \<longrightarrow> t \<noteq> n" "r' \<in> R \<longrightarrow> t \<noteq> n"
        using * nt f(5) tablesI [of r R p s t] tablesI [of r' R p' s t] by auto
      ultimately show "r = r' \<and> p = p'" using * pt_inj [OF pt _ _ *(3-6)] by auto
    next
      fix r p g assume *: "r \<in> insert n R" "lpath p" "tab (pmem s) r p = Some g"
      then have "r \<in> R" using tab [of p] by (cases p) (auto simp: lpath_def)
      with * pt_leaf [OF pt] show "g \<notin> set ps" by blast
    qed (use pt_kmem [OF pt] pt_finite [OF pt] in auto)
  next
    fix g assume "page_ok s g"
    then show "refcnt s (pfn g) = int (card (refs (pmem s) (insert n R) g)) +
        (if g \<in> tables s (insert n R) then 1 else 0) + (own(n := 0)) g"
      using vm_count [OF inv] one nt f(8) by (auto simp: refs T)
  next
    fix r p assume rp: "r \<in> insert n R" "lpath p"
    show "leaf_ok s (insert n R) (own(n := 0)) r p"
    proof (cases "bit (pte_at (pmem s) r p) 0")
      case True
      then have "r \<in> R" "PTE2PA (pte_at (pmem s) r p) \<noteq> n"
        using rp lpte [of p] f(5) [of r p] tab_lpath [OF rp(2) True] by auto
      with vm_leaf_ok [OF inv _ rp(2), of r] show ?thesis by (auto simp: leaf_ok_def Let_def refs)
    qed (simp add: leaf_ok_def)
  qed
qed

lemma ubyte_unmapped: "\<not> bit (pte_at (pmem s) r (vpath va)) 0 \<Longrightarrow> ubyte s r va = 0"
  by (simp add: ubyte_def)

lemma uvmcreate_spec:
  assumes inv: "vm_inv s ps R own"
  obtains (nomem) "uvmcreate s = (0, s)" "ps = []"
  | (ok) n ps' s' where "uvmcreate s = (n, s')" "n \<noteq> 0" "n \<notin> R" "ps = n # ps'"
      "vm_inv s' ps' (insert n R) own" "same_view R s s'" "same_leaves R (pmem s) (pmem s')"
      "\<forall>p. lpath p \<longrightarrow> pte_at (pmem s') n p = 0" "vm_base s s'"
proof (cases ps)
  case Nil
  then have "kalloc s = (0, s)" using vm_kalloc_Nil inv by blast
  then show ?thesis using nomem Nil by (simp add: uvmcreate_def)
next
  case (Cons n ps')
  note inv = inv [unfolded Cons]
  let ?s = "zeroed n (snd (kalloc s))"
  note a = vm_kalloc(1,2) [OF inv] and z = vm_kalloc_zero [OF inv] and free = vm_free [OF inv, of n, simplified]
  have "zero_page (pmem ?s) n" using z(7,10) by (simp add: zero_page_def page_ok_def)
  note root = vm_new_root [OF z(3) fresh_kalloc(2) [OF inv] this]
  have own: "own(n := 1, n := 0) = own" using free(5) by auto
  have "keeps R s ?s" by (rule keeps_page [of R s n, OF free(6)]) (use z(6) in auto)
  note view = keeps_view [OF this z(5)]
  have "uvmcreate s = (n, ?s)" using a by (cases "kalloc s") (simp add: uvmcreate_def)
  moreover have "\<forall>p. lpath p \<longrightarrow> pte_at (pmem ?s) n p = 0" "vm_base s ?s" using root(3) z(1,2) by blast+
  ultimately show ?thesis using ok [OF _ a(2) root(4) Cons root(1) [unfolded own] view z(5)] by blast
qed

section \<open>uvmdealloc and uvmalloc\<close>

text \<open>Removing leaves of address space \<open>r\<close> changes what is seen only there, where the page now
  reads as unmapped.\<close>

lemma shrunk_view:
  assumes inv: "vm_inv s' ps' R own" and sh: "vm_shrunk R s ps s' ps'" and cl: "cleared R r P (pmem s) (pmem s')"
    and "r' \<in> R" "x < TRAPFRAME"
  shows "ubyte s' r' x = (if r' = r \<and> vpath x \<in> P then 0 else ubyte s r' x)"
proof -
  let ?e = "pte_at (pmem s) r' (vpath x)"
  have e': "pte_at (pmem s') r' (vpath x) = (if r' = r \<and> vpath x \<in> P \<and> bit ?e 0 then 0 else ?e)"
    using cl assms(4) by (simp add: cleared_def)
  have "pmem s' (PTE2PA ?e + (x - PGROUNDDOWN x)) = pmem s (PTE2PA ?e + (x - PGROUNDDOWN x))"
    if "bit ?e 0" "\<not> (r' = r \<and> vpath x \<in> P)"
  proof -
    have "pte_at (pmem s') r' (vpath x) = ?e" using e' that(2) by auto
    then have "PTE2PA ?e \<notin> kpages s' ps' R"
      using vm_leaf(2,3) [OF inv assms(4) upath_user [OF assms(5)]] that(1) by (simp add: kpages_def)
    with sh page_of_frame [OF PTE2PA_aligned] show ?thesis by (simp add: vm_shrunk_def)
  qed
  with e' show ?thesis by (auto simp: ubyte_def Let_def)
qed

lemma PGROUNDUP_le: "PGROUNDUP a \<le> TRAPFRAME" "unat (PGROUNDUP a) = (unat a + 4095) div 4096 * 4096"
  if "a \<le> TRAPFRAME"
proof -
  have a: "unat a \<le> unat TRAPFRAME" using that by (simp only: word_le_nat_alt)
  show up: "unat (PGROUNDUP a) = (unat a + 4095) div 4096 * 4096"
    using a by (intro unat_PGROUNDUP) simp
  obtain k where k: "unat TRAPFRAME = 4096 * k" using TRAPFRAME_aligned by (rule pg_alignedE)
  have "(unat a + 4095) div 4096 \<le> (4096 * k + 4095) div 4096" using a k by (intro div_le_mono) simp
  also have "\<dots> = k" by simp
  finally have "(unat a + 4095) div 4096 * 4096 \<le> 4096 * k" by simp
  with up k show "PGROUNDUP a \<le> TRAPFRAME" by (simp only: word_le_nat_alt)
qed

lemma PGROUNDUP_ge: "a \<le> TRAPFRAME \<Longrightarrow> a \<le> PGROUNDUP a"
proof -
  assume "a \<le> TRAPFRAME"
  note up = PGROUNDUP_le(2) [OF this]
  have "unat a + 4095 = (unat a + 4095) div 4096 * 4096 + (unat a + 4095) mod 4096"
    by (rule div_mult_mod_eq [symmetric])
  moreover have "(unat a + 4095) mod 4096 \<le> 4095" using mod_less_divisor [of 4096 "unat a + 4095"] by linarith
  ultimately have "unat a \<le> unat (PGROUNDUP a)" using up by linarith
  then show ?thesis by (simp add: word_le_nat_alt)
qed

text \<open>The page count of \<open>uvmdealloc\<close> fits its \<^verbatim>\<open>int\<close>.\<close>

lemma int_pages:
  assumes "unat n < 2 ^ 31"
  shows "(scast (ucast (n :: u64) :: u32) :: u64) = n"
proof -
  have n: "n = take_bit 31 n"
    using assms by (simp add: word_unat_eq_iff unsigned_take_bit_eq take_bit_nat_eq_self)
  have "\<not> bit n k" if "31 \<le> k" for k
    using that by (subst n) (simp add: bit_take_bit_iff)
  then have "bit (scast (ucast n :: u32) :: u64) k = bit n k" if "k < 64" for k
    using that by (cases "31 \<le> k") (auto simp: bit_simps min_def)
  then show ?thesis by (intro bit_word_eqI) simp
qed

lemma PGROUNDUP_id: "pg_aligned a \<Longrightarrow> a \<le> TRAPFRAME \<Longrightarrow> PGROUNDUP a = a"
  by (elim pg_alignedE) (simp add: word_unat_eq_iff PGROUNDUP_le(2))

lemma unat_pages: "4096 * unat n < 2 ^ 64 \<Longrightarrow> unat (n * PGSIZE) = 4096 * unat n" for n :: u64
  by (simp add: unat_word_ariths)

lemma uvmdealloc_spec:
  assumes inv: "vm_inv s ps R own" and own: "\<And>f. 0 \<le> own f" and r: "r \<in> R"
    and sz: "newsz < oldsz" "oldsz \<le> TRAPFRAME"
  shows "\<exists>s' ps'. uvmdealloc r oldsz newsz s = Ok (newsz, s') \<and> vm_inv s' ps' R own \<and>
    vm_shrunk R s ps s' ps' \<and> cleared R r (page_paths (PGROUNDUP newsz) (PGROUNDUP oldsz)) (pmem s) (pmem s')"
proof (cases "PGROUNDUP newsz < PGROUNDUP oldsz")
  case False
  with sz(1) [folded not_le] inv show ?thesis
    by (intro exI [of _ s] exI [of _ ps]) (simp add: uvmdealloc_def page_paths_empty cleared_empty)
next
  case True
  let ?a = "PGROUNDUP newsz" and ?b = "PGROUNDUP oldsz"
  let ?n = "(?b - ?a) div PGSIZE"
  have b: "?b \<le> TRAPFRAME" by (rule PGROUNDUP_le [OF sz(2)])
  obtain k l where kl: "unat ?a = 4096 * k" "unat ?b = 4096 * l"
    using PGROUNDUP_aligned [of newsz] PGROUNDUP_aligned [of oldsz] by (metis pg_alignedE)
  have d: "unat (?b - ?a) = 4096 * l - 4096 * k" using True kl by (simp add: unat_sub less_imp_le)
  have lt: "k < l" using True kl by (simp add: word_less_nat_alt)
  have n: "unat ?n = l - k" using d by (simp add: unat_div)
  have "4096 * l \<le> unat TRAPFRAME" using b kl by (simp only: word_le_nat_alt)
  then have small: "l < 2 ^ 31" by simp
  have "unat (?n * PGSIZE) = 4096 * (l - k)" using unat_pages [of ?n] n small by simp
  then have "unat (?a + ?n * PGSIZE) = 4096 * k + 4096 * (l - k)"
    using kl small lt by (subst unat_plus_no_wrap) simp_all
  also have "\<dots> = 4096 * l" using lt by simp
  finally have "unat (?a + ?n * PGSIZE) = 4096 * l" .
  then have eq: "?a + ?n * PGSIZE = ?b" using kl by (simp add: word_unat_eq_iff)
  have "\<exists>s' ps'. uvmunmap r ?a ?n True s = Ok s' \<and> vm_inv s' ps' R own \<and> vm_shrunk R s ps s' ps' \<and>
      cleared R r (page_paths ?a ?b) (pmem s) (pmem s')"
    using uvmunmap_free [OF inv own r PGROUNDUP_aligned, of newsz ?n] unfolding eq
    using n kl lt \<open>4096 * l \<le> unat TRAPFRAME\<close> by (simp add: algebra_simps)
  moreover have "(scast (ucast ?n :: u32) :: u64) = ?n" using n small by (intro int_pages) simp
  ultimately show ?thesis using True sz(1) by (auto simp: uvmdealloc_def not_le)
qed

text \<open>The leaves \<open>P\<close> of \<open>r\<close> were given fresh pages with flags \<open>fl\<close>.\<close>

definition grown :: "u64 set \<Rightarrow> u64 \<Rightarrow> u64 list set \<Rightarrow> u64 \<Rightarrow> mem \<Rightarrow> mem \<Rightarrow> bool" where
  "grown R r P fl m m' \<longleftrightarrow> (\<forall>r'\<in>R. \<forall>p. lpath p \<longrightarrow>
     (r' = r \<and> p \<in> P \<longrightarrow> bit (pte_at m' r' p) 0 \<and> PTE_FLAGS (pte_at m' r' p) = fl) \<and>
     (\<not> (r' = r \<and> p \<in> P) \<longrightarrow> pte_at m' r' p = pte_at m r' p))"

lemma grown_step:
  assumes "leaf_upd R r p v m m'" "PTE_FLAGS v = fl" "bit v 0" "grown R r P fl m' m''"
  shows "grown R r (insert p P) fl m m''"
  using assms leaf_updD [OF assms(1)] unfolding grown_def by (cases "p \<in> P") auto

text \<open>The leaves \<open>P\<close> of \<open>r\<close> are gone, and nothing else changed.\<close>

definition dropped :: "u64 set \<Rightarrow> u64 \<Rightarrow> u64 list set \<Rightarrow> 'a kmem_scheme \<Rightarrow> 'a kmem_scheme \<Rightarrow> bool" where
  "dropped R r P s s' \<longleftrightarrow>
     (\<forall>r'\<in>R. \<forall>p. lpath p \<longrightarrow>
        (r' = r \<and> p \<in> P \<longrightarrow> \<not> bit (pte_at (pmem s') r' p) 0) \<and>
        (\<not> (r' = r \<and> p \<in> P) \<longrightarrow> pte_at (pmem s') r' p = pte_at (pmem s) r' p)) \<and>
     (\<forall>r'\<in>R. \<forall>x<TRAPFRAME. ubyte s' r' x = (if r' = r \<and> vpath x \<in> P then 0 else ubyte s r' x))"

lemma dropped_cleared:
  assumes inv: "vm_inv s' ps' R own" and "vm_shrunk R s ps s' ps'" "cleared R r P (pmem s) (pmem s')"
  shows "dropped R r P s s'"
  unfolding dropped_def using shrunk_view [OF assms] assms(3) by (auto simp: cleared_def)

lemma dropped_keeps:
  assumes "same_leaves R (pmem s) (pmem s')" "same_view R s s'" "\<And>p. p \<in> P \<Longrightarrow> \<not> bit (pte_at (pmem s) r p) 0"
  shows "dropped R r P s s'"
  unfolding dropped_def using assms same_leavesD [OF assms(1)]
  by (auto simp: same_view_def ubyte_unmapped)

lemma dropped_extend:
  assumes "dropped R r P s s'" "\<And>p. p \<in> Q \<Longrightarrow> \<not> bit (pte_at (pmem s) r p) 0" "r \<in> R"
  shows "dropped R r (P \<union> Q) s s'"
  using assms unfolding dropped_def by (auto simp: ubyte_unmapped) (metis ubyte_unmapped)

text \<open>Dropping a leaf that was only just mapped to a zeroed page undoes the mapping.\<close>

lemma dropped_undo:
  assumes "dropped R r P s1 s'" "leaf_upd R r p v (pmem s) (pmem s1)" "same_view R s s1" "p \<in> P"
  shows "dropped R r P s s'"
  using assms(1,4) leaf_updD [OF assms(2)] assms(3) unfolding dropped_def same_view_def by auto

lemma dropped_same:
  "same_leaves R (pmem s) (pmem s1) \<Longrightarrow> same_view R s s1 \<Longrightarrow> dropped R r P s1 s' \<Longrightarrow> dropped R r P s s'"
  unfolding dropped_def same_view_def by (simp add: same_leavesD)

lemma uvmdealloc_drop:
  assumes inv: "vm_inv s ps R own" and own: "\<And>f. 0 \<le> own f" and r: "r \<in> R"
    and a: "pg_aligned c" "pg_aligned a" "c \<le> a" "a \<le> TRAPFRAME"
  shows "\<exists>y s' ps'. uvmdealloc r a c s = Ok (y, s') \<and> vm_inv s' ps' R own \<and> vm_base s s' \<and>
    dropped R r (page_paths c a) s s'"
proof (cases "c < a")
  case False
  then have "a = c" using a(3) by simp
  with inv show ?thesis
    by (intro exI [of _ a] exI [of _ s] exI [of _ ps]) (auto simp: uvmdealloc_def page_paths_empty intro: dropped_keeps)
next
  case True
  have up: "PGROUNDUP a = a" "PGROUNDUP c = c" using a PGROUNDUP_id order_trans by blast+
  obtain s' ps' where "uvmdealloc r a c s = Ok (c, s')" "vm_inv s' ps' R own" "vm_shrunk R s ps s' ps'"
    "cleared R r (page_paths c a) (pmem s) (pmem s')"
    using uvmdealloc_spec [OF inv own r True a(4)] unfolding up by (elim exE conjE) (rule that)
  moreover from this(3) have "vm_base s s'" by (simp add: vm_shrunk_def)
  moreover note dropped_cleared [OF calculation(2,3,4)]
  ultimately show ?thesis by (intro exI [of _ c] exI [of _ s'] exI [of _ ps']) simp
qed

lemma aligned_less_up:
  assumes "pg_aligned a" "n \<le> TRAPFRAME"
  shows "a < PGROUNDUP n \<longleftrightarrow> a < n"
proof -
  obtain k where k: "unat a = 4096 * k" using assms(1) by (rule pg_alignedE)
  have "a < PGROUNDUP n \<longleftrightarrow> 4096 * k < (unat n + 4095) div 4096 * 4096"
    by (simp add: word_less_nat_alt k PGROUNDUP_le(2) [OF assms(2)])
  also have "\<dots> \<longleftrightarrow> k < (unat n + 4095) div 4096" by auto
  also have "\<dots> \<longleftrightarrow> Suc k \<le> (unat n + 4095) div 4096" by auto
  also have "\<dots> \<longleftrightarrow> Suc k * 4096 \<le> unat n + 4095" by (simp add: less_eq_div_iff_mult_less_eq)
  also have "\<dots> \<longleftrightarrow> a < n" by (simp add: word_less_nat_alt k) arith
  finally show ?thesis .
qed

lemma page_paths_up: "n \<le> TRAPFRAME \<Longrightarrow> page_paths a (PGROUNDUP n) = page_paths a n"
  unfolding page_paths_def using aligned_less_up by (intro arg_cong [of _ _ "image vpath"]) auto

lemma page_paths_split:
  assumes "c \<le> a" "a \<le> b"
  shows "page_paths c b = page_paths c a \<union> page_paths a b"
proof -
  have "{x. pg_aligned x \<and> c \<le> x \<and> x < b} = {x. pg_aligned x \<and> c \<le> x \<and> x < a} \<union> {x. pg_aligned x \<and> a \<le> x \<and> x < b}"
    using assms by (auto simp: not_less dest: order_trans less_le_trans)
  then show ?thesis by (simp add: page_paths_def image_Un)
qed

definition unmapped :: "'a kmem_scheme \<Rightarrow> u64 \<Rightarrow> u64 \<Rightarrow> u64 \<Rightarrow> bool" where
  "unmapped s r a b \<longleftrightarrow> (\<forall>x. pg_aligned x \<longrightarrow> a \<le> x \<longrightarrow> x < b \<longrightarrow> \<not> bit (pte_at (pmem s) r (vpath x)) 0)"

lemma unmapped_paths: "unmapped s r a b \<Longrightarrow> p \<in> page_paths a b \<Longrightarrow> \<not> bit (pte_at (pmem s) r p) 0"
  by (auto simp: unmapped_def page_paths_def)

lemma vpath_next:
  assumes a: "pg_aligned a" "a < b" "b \<le> TRAPFRAME" and x: "pg_aligned x" "a + PGSIZE \<le> x" "x < b"
  shows "vpath x \<noteq> vpath a" "a \<le> x"
proof -
  have "unat (a + PGSIZE) = unat a + 4096"
    using a(2,3) by (subst unat_plus_no_wrap) (simp_all add: word_less_nat_alt word_le_nat_alt)
  with x(2) have lt: "unat a < unat x" by (simp add: word_le_nat_alt)
  then show "vpath x \<noteq> vpath a"
    using vpath_page [of x a] less_le_trans [OF x(3) a(3)] less_le_trans [OF a(2,3)] x(1) a(1)
    by (auto simp: PGROUNDDOWN_id)
  show "a \<le> x" using lt by (simp add: word_le_nat_alt)
qed

lemma unmapped_step:
  assumes "unmapped s r a b" and a: "pg_aligned a" "a < b" "b \<le> TRAPFRAME"
    and "\<And>p. lpath p \<Longrightarrow> p \<noteq> vpath a \<Longrightarrow> pte_at (pmem s') r p = pte_at (pmem s) r p"
  shows "unmapped s' r (a + PGSIZE) b"
  using assms(1,5) vpath_next [OF a] by (simp add: unmapped_def)

lemma page_step_le:
  assumes "pg_aligned a" "pg_aligned b" "a < b"
  shows "a \<le> a + PGSIZE"
proof -
  have "unat b - unat (a + PGSIZE) = unat b - unat a - 4096"
    using page_step(2,3) [OF assms] assms(3) by (simp add: unat_sub less_imp_le)
  moreover have "unat (a + PGSIZE) \<le> unat b" using page_step(2) [OF assms] by (simp add: word_le_nat_alt)
  moreover have "unat a < unat b" using assms(3) by (simp add: word_less_nat_alt)
  ultimately show ?thesis by (simp add: word_le_nat_alt)
qed

lemma uvmalloc_loop_spec:
  fixes s :: "'a kmem_scheme"
  assumes "vm_inv s ps R own" "\<And>f. 0 \<le> own f" "r \<in> R" "pg_aligned c" "pg_aligned a" "c \<le> a"
    and "a \<le> PGROUNDUP n" "n \<le> TRAPFRAME" "PTE_R OR PTE_U OR xperm < 0x400" "unmapped s r a (PGROUNDUP n)"
    and "unat (PGROUNDUP n - a) \<le> 4096 * fuel"
  shows "\<exists>x s' ps'. uvmalloc_loop fuel r c a n xperm s = Ok (x, s') \<and> vm_inv s' ps' R own \<and> vm_base s s' \<and>
    (x = n \<and> same_view R s s' \<and> grown R r (page_paths a n) ((PTE_R OR PTE_U OR xperm) OR PTE_V) (pmem s) (pmem s') \<or>
     x = 0 \<and> dropped R r (page_paths c n) s s')"
  using assms
proof (induction fuel arbitrary: a s ps)
  case 0
  then have "a = PGROUNDUP n" by (auto simp: unat_eq_0)
  then have "\<not> a < n" using aligned_less_up [OF 0(5,8)] by simp
  with 0 show ?case
    by (intro exI [of _ n] exI [of _ s] exI [of _ ps]) (simp add: page_paths_empty grown_def)
next
  case (Suc fuel)
  note inv = Suc.prems(1) and own = Suc.prems(2) and r = Suc.prems(3)
  note up = PGROUNDUP_le(1) [OF Suc.prems(8)] and less = aligned_less_up [OF Suc.prems(5,8)]
  show ?case
  proof (cases "a < n")
    case False
    with inv show ?thesis
      by (intro exI [of _ n] exI [of _ s] exI [of _ ps]) (simp add: page_paths_empty grown_def)
  next
    case True
    then have ab: "a < PGROUNDUP n" using less by simp
    note step = page_step [OF Suc.prems(5) PGROUNDUP_aligned ab]
    have undo: "\<exists>y s' ps'. uvmdealloc r a c s1 = Ok (y, s') \<and> vm_inv s' ps' R own \<and> vm_base s s' \<and>
        dropped R r (page_paths c n) s s'"
      if h: "vm_inv s1 ps1 R own" "vm_base s s1" "same_leaves R (pmem s) (pmem s1)" "same_view R s s1" for s1 ps1
    proof -
      obtain y s' ps' where d: "uvmdealloc r a c s1 = Ok (y, s')" "vm_inv s' ps' R own" "vm_base s1 s'"
        "dropped R r (page_paths c a) s1 s'"
        using uvmdealloc_drop [OF h(1) own r Suc.prems(4,5,6) order_trans [OF Suc.prems(7) up]] by blast
      have "dropped R r (page_paths c a \<union> page_paths a (PGROUNDUP n)) s s'"
        by (rule dropped_extend [OF dropped_same [OF h(3,4) d(4)] _ r])
          (rule unmapped_paths [OF Suc.prems(10)])
      with page_paths_split [OF Suc.prems(6,7)] page_paths_up [OF Suc.prems(8)] d h(2) show ?thesis by auto
    qed
    show ?thesis
    proof (cases ps)
      case Nil
      then have "kalloc s = (0, s)" using vm_kalloc_Nil inv by blast
      moreover obtain y s' ps' where "uvmdealloc r a c s = Ok (y, s')" "vm_inv s' ps' R own" "vm_base s s'"
        "dropped R r (page_paths c n) s s'" using undo [OF inv] by auto
      ultimately show ?thesis using True by (intro exI [of _ 0] exI [of _ s'] exI [of _ ps']) simp
    next
      case (Cons m ps1)
      note inv = inv [unfolded Cons] and a = vm_kalloc(1-3) [OF inv [unfolded Cons]]
      have tf: "a < TRAPFRAME" using less_le_trans [OF True Suc.prems(8)] .
      have unm: "\<not> bit (pte_at (pmem s) r (vpath a)) 0"
        using Suc.prems(5,10) ab by (simp add: unmapped_def)
      let ?perm = "PTE_R OR PTE_U OR xperm"
      have loop: "uvmalloc_loop (Suc fuel) r c a n xperm s =
          andThen (mappages r a PGSIZE m ?perm (zeroed m (snd (kalloc s)))) (\<lambda>(x, s).
            if x \<noteq> 0 then andThen (kfree m s) (\<lambda>s. andThen (uvmdealloc r a c s) (\<lambda>(_, s). Ok (0, s)))
            else uvmalloc_loop fuel r c (a + PGSIZE) n xperm s)"
        using True a(1,2) by (cases "kalloc s") (simp add: Let_def)
      show ?thesis
      proof (rule map_zero_page [OF inv r Suc.prems(5) tf unm Suc.prems(9)])
        fix s1 s2 ps2 assume m: "mappages r a PGSIZE m ?perm (zeroed m (snd (kalloc s))) = Ok (- 1, s1)"
          "kfree m s1 = Ok s2" "vm_inv s2 ps2 R own" "same_leaves R (pmem s) (pmem s2)" "keeps R s s2" "vm_base s s2"
        obtain y s' ps' where "uvmdealloc r a c s2 = Ok (y, s')" "vm_inv s' ps' R own" "vm_base s s'"
          "dropped R r (page_paths c n) s s'" using undo [OF m(3,6,4) keeps_view [OF m(5,4)]] by blast
        then show ?thesis using m(1,2) by (intro exI [of _ 0] exI [of _ s'] exI [of _ ps']) (simp add: loop del: uvmalloc_loop.simps)
      next
        fix k s1 assume m: "mappages r a PGSIZE m ?perm (zeroed m (snd (kalloc s))) = Ok (0, s1)"
          "vm_inv s1 (drop k ps1) R own" "leaf_upd R r (vpath a) (leaf_entry m ?perm) (pmem s) (pmem s1)"
          "same_view R s s1" "vm_base s s1"
        note le = leaf_entry_simps [OF page_ok_aligned [OF a(3)] page_ok_bound [OF a(3)] Suc.prems(9)]
        have c: "c \<le> a + PGSIZE" using order_trans [OF Suc.prems(6) page_step_le [OF Suc.prems(5) PGROUNDUP_aligned ab]] .
        have fuel: "unat (PGROUNDUP n - (a + PGSIZE)) \<le> 4096 * fuel" using step(3) Suc.prems(11) by simp
        have unm': "unmapped s1 r (a + PGSIZE) (PGROUNDUP n)"
          by (rule unmapped_step [OF Suc.prems(10,5) ab up]) (use leaf_updD [OF m(3) r] in simp)
        obtain x s' ps' where i: "uvmalloc_loop fuel r c (a + PGSIZE) n xperm s1 = Ok (x, s')" "vm_inv s' ps' R own"
          "vm_base s1 s'" "x = n \<and> same_view R s1 s' \<and>
            grown R r (page_paths (a + PGSIZE) n) (?perm OR PTE_V) (pmem s1) (pmem s') \<or>
            x = 0 \<and> dropped R r (page_paths c n) s1 s'"
          using Suc.IH [OF m(2) own r Suc.prems(4) step(1) c step(2) Suc.prems(8,9) unm' fuel] by blast
        have paths: "page_paths a n = insert (vpath a) (page_paths (a + PGSIZE) n)"
          using step(4) unfolding page_paths_up [OF Suc.prems(8)] .
        have in_c: "vpath a \<in> page_paths c n" using Suc.prems(5,6) True by (auto simp: page_paths_def)
        have "x = n \<and> same_view R s s' \<and> grown R r (page_paths a n) (?perm OR PTE_V) (pmem s) (pmem s') \<or>
            x = 0 \<and> dropped R r (page_paths c n) s s'"
          using i(4) same_view_trans [OF m(4)] grown_step [OF m(3) le(2,3)] dropped_undo [OF _ m(3,4) in_c]
          unfolding paths by blast
        with i(1-3) m(1,5) show ?thesis by (intro exI [of _ x] exI [of _ s'] exI [of _ ps']) (simp add: loop del: uvmalloc_loop.simps)
      qed
    qed
  qed
qed

lemma PGROUNDUP_mono:
  assumes "a \<le> b" "b \<le> TRAPFRAME"
  shows "PGROUNDUP a \<le> PGROUNDUP b"
  using div_le_mono [of "unat a + 4095" "unat b + 4095" 4096] assms
  by (simp add: word_le_nat_alt PGROUNDUP_le(2) [OF assms(2)] PGROUNDUP_le(2) [OF order_trans [OF assms]])

text \<open>Growing changes nothing anyone sees: the new pages read as zero, as the unmapped ones did.
  When memory runs out the pages mapped so far are unmapped again.\<close>

lemma uvmalloc_spec:
  fixes s :: "'a kmem_scheme"
  assumes inv: "vm_inv s ps R own" and own: "\<And>f. 0 \<le> own f" and r: "r \<in> R"
    and sz: "oldsz \<le> newsz" "newsz \<le> TRAPFRAME" and perm: "PTE_R OR PTE_U OR xperm < 0x400"
    and free: "unmapped s r (PGROUNDUP oldsz) (PGROUNDUP newsz)"
  shows "\<exists>x s' ps'. uvmalloc r oldsz newsz xperm s = Ok (x, s') \<and> vm_inv s' ps' R own \<and> vm_base s s' \<and>
    same_view R s s' \<and>
    (x = newsz \<and> grown R r (page_paths (PGROUNDUP oldsz) newsz) ((PTE_R OR PTE_U OR xperm) OR PTE_V) (pmem s) (pmem s') \<or>
     x = 0 \<and> dropped R r (page_paths (PGROUNDUP oldsz) newsz) s s')"
proof -
  let ?a = "PGROUNDUP oldsz" and ?b = "PGROUNDUP newsz"
  have ab: "?a \<le> ?b" by (rule PGROUNDUP_mono [OF sz])
  have "(unat newsz + 4095) div 4096 \<le> unat newsz div 4096 + 1"
    using div_le_mono [of "unat newsz + 4095" "unat newsz + 4096" 4096] by simp
  then have up: "(unat newsz + 4095) div 4096 * 4096 \<le> (unat newsz div 4096 + 1) * 4096" by (rule mult_le_mono1)
  have "unat (?b - ?a) \<le> unat ?b" using ab by (simp add: unat_sub)
  also have "\<dots> \<le> 4096 * (unat (newsz div PGSIZE) + 1)"
    using up by (simp add: PGROUNDUP_le(2) [OF sz(2)] unat_div)
  finally have fuel: "unat (?b - ?a) \<le> 4096 * (unat (newsz div PGSIZE) + 1)" .
  have eq: "uvmalloc r oldsz newsz xperm s = uvmalloc_loop (unat (newsz div PGSIZE) + 1) r ?a ?a newsz xperm s"
    using sz(1) [folded not_less] by (simp add: uvmalloc_def Let_def del: uvmalloc_loop.simps)
  obtain x s' ps' where loop: "uvmalloc r oldsz newsz xperm s = Ok (x, s')" "vm_inv s' ps' R own" "vm_base s s'"
    and or: "x = newsz \<and> same_view R s s' \<and>
      grown R r (page_paths ?a newsz) ((PTE_R OR PTE_U OR xperm) OR PTE_V) (pmem s) (pmem s') \<or>
     x = 0 \<and> dropped R r (page_paths ?a newsz) s s'"
    using uvmalloc_loop_spec [OF inv own r PGROUNDUP_aligned PGROUNDUP_aligned order_refl ab sz(2) perm free fuel]
    unfolding eq [symmetric] by (elim exE conjE) (rule that; (intro conjI)?; assumption)
  have "same_view R s s'" if "dropped R r (page_paths ?a newsz) s s'"
  proof -
    have "ubyte s r x = 0" if "vpath x \<in> page_paths ?a newsz" for x
      using unmapped_paths [OF free] that ubyte_unmapped unfolding page_paths_up [OF sz(2)] by blast
    with that show ?thesis by (auto simp: dropped_def same_view_def)
  qed
  with loop or show ?thesis by blast
qed

end
