(* ===== verification/Uvmfree.thy ===== *)
theory Uvmfree
  imports Uvmlife
begin

text \<open>
  \<open>freewalk\<close> and \<open>uvmfree\<close>.  Once its leaves are gone, the tree of an address space
  is cut off from the others: its table pages become pages that only the kernel refers to.
  \<open>freewalk\<close> then gives every one of them back to the allocator, bottom up.
\<close>

section \<open>Subtrees\<close>

text \<open>The table pages of the tree of depth \<open>l\<close> below \<open>t\<close>, and what \<open>freewalk\<close> needs of
  it: no leaves, no sharing.\<close>

primrec twig :: "nat \<Rightarrow> mem \<Rightarrow> u64 \<Rightarrow> u64 set" where
  "twig 0 m t = {t}"
| "twig (Suc l) m t = insert t (\<Union>i\<in>{i. i < 512 \<and> bit (load64 m (slot t i)) 0}.
     twig l m (PTE2PA (load64 m (slot t i))))"

primrec bare :: "nat \<Rightarrow> mem \<Rightarrow> u64 \<Rightarrow> bool" where
  "bare 0 m t \<longleftrightarrow> (\<forall>i<512. \<not> bit (load64 m (slot t i)) 0)"
| "bare (Suc l) m t \<longleftrightarrow>
     (\<forall>i<512. let e = load64 m (slot t i) in bit e 0 \<longrightarrow>
        e AND (PTE_R OR PTE_W OR PTE_X) = 0 \<and> bare l m (PTE2PA e) \<and> t \<notin> twig l m (PTE2PA e) \<and>
        (\<forall>j<512. bit (load64 m (slot t j)) 0 \<longrightarrow> i \<noteq> j \<longrightarrow>
           twig l m (PTE2PA e) \<inter> twig l m (PTE2PA (load64 m (slot t j))) = {}))"

lemma twig_self: "t \<in> twig l m t"
  by (cases l) auto

lemma twig_child: "i < 512 \<Longrightarrow> bit (load64 m (slot t i)) 0 \<Longrightarrow>
    twig l m (PTE2PA (load64 m (slot t i))) \<subseteq> twig (Suc l) m t"
  by auto

lemma load_slot_cong:
  assumes "pg_aligned t" "i < 512" "\<And>x. PGROUNDDOWN x = t \<Longrightarrow> m' x = m x"
  shows "load64 m' (slot t i) = load64 m (slot t i)"
  by (rule load64_page_cong) (use assms in auto)

lemma twig_cong:
  assumes "pg_aligned t" "\<And>x. PGROUNDDOWN x \<in> twig l m t \<Longrightarrow> m' x = m x"
  shows "twig l m' t = twig l m t \<and> (bare l m' t \<longleftrightarrow> bare l m t)"
  using assms
proof (induction l arbitrary: t)
  case 0
  then show ?case using load_slot_cong [of t _ m' m] by simp
next
  case (Suc l)
  have e: "load64 m' (slot t i) = load64 m (slot t i)" if "i < 512" for i
    by (rule load_slot_cong [OF Suc.prems(1) that]) (use Suc.prems(2) twig_self in auto)
  have c: "twig l m' (PTE2PA (load64 m (slot t i))) = twig l m (PTE2PA (load64 m (slot t i))) \<and>
      (bare l m' (PTE2PA (load64 m (slot t i))) \<longleftrightarrow> bare l m (PTE2PA (load64 m (slot t i))))"
    if "i < 512" "bit (load64 m (slot t i)) 0" for i
    by (rule Suc.IH [OF _ Suc.prems(2)]) (use subsetD [OF twig_child [OF that, of l]] in auto)
  show ?case using e c by (auto simp: Let_def)
qed

section \<open>Giving pages back\<close>

text \<open>Pages that belong to the kernel alone, and what it means to give the pages \<open>T\<close> back while
  writing only to the pages \<open>W\<close>.\<close>

definition owned :: "'a kmem_scheme \<Rightarrow> u64 list \<Rightarrow> u64 set \<Rightarrow> (u64 \<Rightarrow> int) \<Rightarrow> u64 set \<Rightarrow> bool" where
  "owned s ps R own T \<longleftrightarrow> (\<forall>t\<in>T. page_ok s t \<and> own t = 1 \<and> t \<notin> kpages s ps R \<and>
     (\<forall>r\<in>R. \<forall>p. lpath p \<longrightarrow> tab (pmem s) r p \<noteq> Some t))"

definition reclaims :: "u64 set \<Rightarrow> (u64 \<Rightarrow> int) \<Rightarrow> u64 set \<Rightarrow> u64 set \<Rightarrow>
    'a kmem_scheme \<Rightarrow> u64 list \<Rightarrow> 'a kmem_scheme \<Rightarrow> u64 list \<Rightarrow> bool" where
  "reclaims R own T W s ps s' ps' \<longleftrightarrow>
     vm_inv s' ps' R (\<lambda>f. if f \<in> T then 0 else own f) \<and> vm_base s s' \<and>
     tables s' R = tables s R \<and> kpages s' ps' R = kpages s ps R \<union> T \<and> same_leaves R (pmem s) (pmem s') \<and>
     (\<forall>x. PGROUNDDOWN x \<notin> W \<longrightarrow> pmem s' x = pmem s x)"

lemma ownedD:
  assumes "owned s ps R own T" "t \<in> T"
  shows "page_ok s t" "own t = 1" "t \<notin> kpages s ps R" "pg_aligned t"
    "\<And>r p. r \<in> R \<Longrightarrow> lpath p \<Longrightarrow> tab (pmem s) r p \<noteq> Some t"
  using assms by (auto simp: owned_def page_ok_def)

lemma owned_mono: "owned s ps R own T \<Longrightarrow> T' \<subseteq> T \<Longrightarrow> owned s ps R own T'"
  by (auto simp: owned_def)

lemma owned_after:
  assumes "owned s ps R own T'" "reclaims R own T W s ps s' ps'" "T \<inter> T' = {}"
  shows "owned s' ps' R (\<lambda>f. if f \<in> T then 0 else own f) T'"
  using assms unfolding owned_def reclaims_def
  by (auto simp: page_ok_def same_leaves_tab)

lemma reclaims_none: "vm_inv s ps R own \<Longrightarrow> reclaims R own {} W s ps s ps"
  by (simp add: reclaims_def)

lemma reclaims_trans:
  assumes a: "reclaims R own T W s ps s1 ps1" and b: "reclaims R (\<lambda>f. if f \<in> T then 0 else own f) T' W' s1 ps1 s2 ps2"
    and "W \<union> W' \<subseteq> W''"
  shows "reclaims R own (T \<union> T') W'' s ps s2 ps2"
proof -
  have "(\<lambda>f. if f \<in> T' then 0 else if f \<in> T then 0 else own f) = (\<lambda>f. if f \<in> T \<union> T' then 0 else own f)" by auto
  moreover have "pmem s2 x = pmem s x" if "PGROUNDDOWN x \<notin> W''" for x
    using that a b assms(3) unfolding reclaims_def by (metis UnCI subsetD)
  ultimately show ?thesis using a b same_leaves_trans unfolding reclaims_def by auto
qed

lemma reclaims_kfree:
  assumes inv: "vm_inv s ps R own" and o: "owned s ps R own T" "t \<in> T"
  shows "\<exists>s' ps'. kfree t s = Ok s' \<and> reclaims R own {t} {t} s ps s' ps'"
proof -
  note t = ownedD [OF o]
  have none: "refs (pmem s) R t = {}" using t(5) refs_tab by (metis subsetI subset_empty surj_pair)
  have nt: "t \<notin> tables s R" using t(3) by (simp add: kpages_def)
  have "droppable s R own t" using t none nt by (simp add: droppable_def)
  moreover have "refcnt s (pfn t) = 1" using vm_count [OF inv t(1)] none nt t(2) by simp
  ultimately obtain s' ps' where k: "kfree t s = Ok s'" "vm_inv s' ps' R (own(t := own t - 1))"
    "same_leaves R (pmem s) (pmem s')" "tables s' R = tables s R" "vm_base s s'" "ps' = t # ps"
    "\<forall>x. PGROUNDDOWN x \<noteq> t \<or> ps' = ps \<longrightarrow> pmem s' x = pmem s x"
    using vm_kfree [OF inv, of t] by (metis less_irrefl)
  moreover have "own(t := own t - 1) = (\<lambda>f. if f \<in> {t} then 0 else own f)" using t(2) by auto
  ultimately show ?thesis by (intro exI [of _ s'] exI [of _ ps']) (auto simp: reclaims_def kpages_def)
qed

lemma reclaims_install:
  assumes inv: "vm_inv s ps R own" and o: "owned s ps R own T" "t \<in> T" and i: "i < 512"
  shows "reclaims R own {} {t} s ps (install s t i v) ps"
proof -
  note t = ownedD [OF o]
  have mem: "store64 (pmem s) (slot t i) v x = pmem s x" if "PGROUNDDOWN x \<noteq> t" for x
    using that t(4) i by (simp add: mem_simps)
  have "store64 (pmem s) (slot t i) v x = pmem s x" if "PGROUNDDOWN x \<in> kpages s ps R" for x
    by (rule mem) (use that t(3) in auto)
  from vm_write [OF inv, of "store64 (pmem s) (slot t i) v", OF this] mem
  show ?thesis by (simp add: reclaims_def kpages_def)
qed

section \<open>freewalk\<close>

text \<open>The pages below the entries from index \<open>512 - k\<close> on.\<close>

definition boughs :: "nat \<Rightarrow> nat \<Rightarrow> mem \<Rightarrow> u64 \<Rightarrow> u64 set" where
  "boughs l k m t = (\<Union>i\<in>{i. i < 512 \<and> 512 - k \<le> unat i \<and> bit (load64 m (slot t i)) 0}.
     twig l m (PTE2PA (load64 m (slot t i))))"

lemma boughs_0 [simp]: "boughs l 0 m t = {}"
  by (auto simp: boughs_def word_less_nat_alt)

lemma boughs_all: "insert t (boughs l 512 m t) = twig (Suc l) m t"
  by (simp add: boughs_def)

lemma entry_index:
  assumes "k < 512" "i = (of_nat (511 - k) :: u64)"
  shows "unat i = 511 - k" "i < 512"
  using assms by (simp_all add: unat_of_nat_small word_less_nat_alt del: of_nat_diff)

lemma boughs_Suc:
  assumes "k < 512" "i = of_nat (511 - k)"
  shows "boughs l (Suc k) m t = boughs l k m t \<union>
    (if bit (load64 m (slot t i)) 0 then twig l m (PTE2PA (load64 m (slot t i))) else {})"
proof -
  note i = entry_index [OF assms]
  have "j < 512 \<and> 512 - Suc k \<le> unat j \<longleftrightarrow> j < 512 \<and> 512 - k \<le> unat j \<or> j = i" for j
    using assms(1) i by (auto simp: word_less_nat_alt word_unat_eq_iff)
  then have "{j. j < 512 \<and> 512 - Suc k \<le> unat j \<and> bit (load64 m (slot t j)) 0} =
      {j. j < 512 \<and> 512 - k \<le> unat j \<and> bit (load64 m (slot t j)) 0} \<union>
      {j. j = i \<and> bit (load64 m (slot t j)) 0}" by blast
  then show ?thesis by (auto simp: boughs_def)
qed

definition limbs :: "nat \<Rightarrow> nat \<Rightarrow> mem \<Rightarrow> u64 \<Rightarrow> bool" where
  "limbs l k m t \<longleftrightarrow>
     (\<forall>i<512. let e = load64 m (slot t i) in 512 - k \<le> unat i \<longrightarrow> bit e 0 \<longrightarrow>
        e AND (PTE_R OR PTE_W OR PTE_X) = 0 \<and> bare l m (PTE2PA e) \<and> t \<notin> twig l m (PTE2PA e) \<and>
        (\<forall>j<512. 512 - k \<le> unat j \<longrightarrow> bit (load64 m (slot t j)) 0 \<longrightarrow> i \<noteq> j \<longrightarrow>
           twig l m (PTE2PA e) \<inter> twig l m (PTE2PA (load64 m (slot t j))) = {}))"

lemma limbs_all: "limbs l 512 m t \<longleftrightarrow> bare (Suc l) m t"
  by (simp add: limbs_def)

lemma limbsD:
  assumes "limbs l k m t" "i < 512" "512 - k \<le> unat i" "bit (load64 m (slot t i)) 0"
  shows "load64 m (slot t i) AND (PTE_R OR PTE_W OR PTE_X) = 0"
    "bare l m (PTE2PA (load64 m (slot t i)))" "t \<notin> twig l m (PTE2PA (load64 m (slot t i)))"
    "\<And>j. j < 512 \<Longrightarrow> 512 - k \<le> unat j \<Longrightarrow> bit (load64 m (slot t j)) 0 \<Longrightarrow> i \<noteq> j \<Longrightarrow>
       twig l m (PTE2PA (load64 m (slot t i))) \<inter> twig l m (PTE2PA (load64 m (slot t j))) = {}"
  using assms by (simp_all add: limbs_def Let_def)

text \<open>Freeing one child and clearing its entry leaves the remaining children as they were.\<close>

lemma limbs_step:
  assumes l: "limbs l (Suc k) m t" and i: "i < 512" "unat i = 511 - k" "k < 512"
    and T: "T = (if bit (load64 m (slot t i)) 0 then twig l m (PTE2PA (load64 m (slot t i))) else {})"
    and mem: "\<And>x. PGROUNDDOWN x \<notin> insert t T \<Longrightarrow> m' x = m x"
    and slots: "\<And>j. j < 512 \<Longrightarrow> j \<noteq> i \<Longrightarrow> load64 m' (slot t j) = load64 m (slot t j)"
  shows "boughs l k m' t = boughs l k m t" "limbs l k m' t" "T \<inter> insert t (boughs l k m t) = {}"
proof -
  have j: "load64 m' (slot t j) = load64 m (slot t j)" "512 - Suc k \<le> unat j" "j \<noteq> i"
    if "j < 512" "512 - k \<le> unat j" for j
    using that i slots by (cases "j = i"; auto)+
  have off: "twig l m (PTE2PA (load64 m (slot t j))) \<inter> insert t T = {}"
    if "j < 512" "512 - k \<le> unat j" "bit (load64 m (slot t j)) 0" for j
    using limbsD(3,4) [OF l that(1) j(2) [OF that(1,2)] that(3)] i j(3) [OF that(1,2)] by (auto simp: T)
  have c: "twig l m' (PTE2PA (load64 m (slot t j))) = twig l m (PTE2PA (load64 m (slot t j)))"
    "bare l m' (PTE2PA (load64 m (slot t j))) \<longleftrightarrow> bare l m (PTE2PA (load64 m (slot t j)))"
    if "j < 512" "512 - k \<le> unat j" "bit (load64 m (slot t j)) 0" for j
  proof -
    have "m' x = m x" if "PGROUNDDOWN x \<in> twig l m (PTE2PA (load64 m (slot t j)))" for x
      by (rule mem) (use that off [OF \<open>j < 512\<close> \<open>512 - k \<le> unat j\<close> \<open>bit (load64 m (slot t j)) 0\<close>] in blast)
    from twig_cong [OF _ this] show "twig l m' (PTE2PA (load64 m (slot t j))) = twig l m (PTE2PA (load64 m (slot t j)))"
      "bare l m' (PTE2PA (load64 m (slot t j))) \<longleftrightarrow> bare l m (PTE2PA (load64 m (slot t j)))" by simp_all
  qed
  show "boughs l k m' t = boughs l k m t" using j(1) c(1) by (auto simp: boughs_def)
  show "limbs l k m' t"
    unfolding limbs_def Let_def
  proof (intro allI impI)
    fix a assume a: "a < 512" "512 - k \<le> unat a" "bit (load64 m' (slot t a)) 0"
    note a' = a(1) j(2) [OF a(1,2)] a(3) [unfolded j(1) [OF a(1,2)]]
    note ca = c [OF a(1,2) a'(3)]
    have "twig l m (PTE2PA (load64 m (slot t a))) \<inter> twig l m' (PTE2PA (load64 m' (slot t b))) = {}"
      if b: "b < 512" "512 - k \<le> unat b" "bit (load64 m' (slot t b)) 0" "a \<noteq> b" for b
      using limbsD(4) [OF l a' b(1) j(2) [OF b(1,2)] _ b(4)] b(3) c(1) [OF b(1,2)] unfolding j(1) [OF b(1,2)] by simp
    with limbsD(1-3) [OF l a'] ca
    show "load64 m' (slot t a) AND (PTE_R OR PTE_W OR PTE_X) = 0 \<and> bare l m' (PTE2PA (load64 m' (slot t a))) \<and>
      t \<notin> twig l m' (PTE2PA (load64 m' (slot t a))) \<and>
      (\<forall>b<512. 512 - k \<le> unat b \<longrightarrow> bit (load64 m' (slot t b)) 0 \<longrightarrow> a \<noteq> b \<longrightarrow>
        twig l m' (PTE2PA (load64 m' (slot t a))) \<inter> twig l m' (PTE2PA (load64 m' (slot t b))) = {})"
      unfolding j(1) [OF a(1,2)] by simp
  qed
  have "t \<notin> T" using limbsD(3) [OF l i(1)] i(2,3) by (auto simp: T)
  then show "T \<inter> insert t (boughs l k m t) = {}" using off by (auto simp: boughs_def)
qed

lemma freewalk_loop_Suc:
  assumes "i = of_nat (511 - k)" "e = load64 (pmem s) (slot t i)"
  shows "freewalk_loop d (Suc k) t s =
    (if bit e 0 \<and> e AND (PTE_R OR PTE_W OR PTE_X) = 0
     then andThen (freewalk_f d (PTE2PA e) s) (\<lambda>s. freewalk_loop d k t (install s t i 0))
     else if bit e 0 then Panic ''freewalk: leaf'' else freewalk_loop d k t s)"
  by (simp only: freewalk_loop.simps assms Let_def pte_simps not_not)

lemma freewalk_loop_none:
  assumes "\<forall>i<512. \<not> bit (load64 (pmem s) (slot t i)) 0" "k \<le> 512"
  shows "freewalk_loop d k t s = Ok s"
  using assms(2)
proof (induction k)
  case (Suc k)
  then show ?case using entry_index [of k, OF _ refl] assms(1) by (subst freewalk_loop_Suc [OF refl refl]) simp
qed simp

lemma freewalk_loop_spec:
  assumes sub: "\<And>t (s :: 'a kmem_scheme) ps own. vm_inv s ps R own \<Longrightarrow> owned s ps R own (twig l (pmem s) t) \<Longrightarrow>
      bare l (pmem s) t \<Longrightarrow>
      \<exists>s' ps'. freewalk_f d t s = Ok s' \<and> reclaims R own (twig l (pmem s) t) (twig l (pmem s) t) s ps s' ps'"
  assumes "vm_inv (s :: 'a kmem_scheme) ps R own" "owned s ps R own (insert t (boughs l k (pmem s) t))"
    and "limbs l k (pmem s) t" "k \<le> 512"
  shows "\<exists>s' ps'. freewalk_loop d k t s = Ok s' \<and>
    reclaims R own (boughs l k (pmem s) t) (insert t (boughs l k (pmem s) t)) s ps s' ps'"
  using assms(2-)
proof (induction k arbitrary: s ps own)
  case 0
  then show ?case using reclaims_none by fastforce
next
  case (Suc k)
  define i :: u64 where "i = of_nat (511 - k)"
  define e where "e = load64 (pmem s) (slot t i)"
  define T where "T = (if bit e 0 then twig l (pmem s) (PTE2PA e) else {})"
  have k: "k < 512" using Suc.prems(4) by simp
  note i = entry_index [OF k i_def] and b = boughs_Suc [OF k i_def, of l "pmem s" t, folded e_def, folded T_def]
  note step = limbs_step [OF Suc.prems(3) i(2,1) k T_def [unfolded e_def]]
  note loop = freewalk_loop_Suc [OF i_def e_def, of d]
  have i': "512 - Suc k \<le> unat i" using i k by simp
  have t: "pg_aligned t" using ownedD(4) [OF Suc.prems(2)] by simp
  show ?case
  proof (cases "bit e 0")
    case False
    then have "T = {}" by (simp add: T_def)
    with Suc.IH [of s ps own] Suc.prems step(2) [of "pmem s"] b k False show ?thesis
      unfolding loop by simp
  next
    case True
    note lim = limbsD [OF Suc.prems(3) i(2) i' True [unfolded e_def], folded e_def]
    have T: "T = twig l (pmem s) (PTE2PA e)" using True by (simp add: T_def)
    obtain s1 ps1 where f: "freewalk_f d (PTE2PA e) s = Ok s1" "reclaims R own T T s ps s1 ps1"
      using sub [OF Suc.prems(1) owned_mono [OF Suc.prems(2)] lim(2)] b T by auto
    let ?own = "\<lambda>f. if f \<in> T then 0 else own f" and ?s = "install s1 t i 0"
    have inv1: "vm_inv s1 ps1 R ?own" using f(2) by (simp add: reclaims_def)
    have m1: "pmem s1 x = pmem s x" if "PGROUNDDOWN x \<notin> T" for x using f(2) that by (simp add: reclaims_def)
    have m2: "pmem ?s x = pmem s x" if "PGROUNDDOWN x \<notin> insert t T" for x
      using that m1 t i(2) by (simp add: mem_simps)
    have sl: "load64 (pmem ?s) (slot t j) = load64 (pmem s) (slot t j)" if "j < 512" "j \<noteq> i" for j
    proof -
      have "load64 (pmem ?s) (slot t j) = load64 (pmem s1) (slot t j)"
        using that t i(2) by (simp add: mem_simps slot_inject)
      also have "\<dots> = load64 (pmem s) (slot t j)"
        by (rule load_slot_cong [OF t that(1)]) (use m1 lim(3) T in auto)
      finally show ?thesis .
    qed
    note st = step [OF m2 sl]
    have st1: "boughs l k (pmem ?s) t = boughs l k (pmem s) t" by (rule st(1))
    have o1: "owned s1 ps1 R ?own (insert t (boughs l k (pmem s) t))"
      by (rule owned_after [OF owned_mono [OF Suc.prems(2)] f(2) st(3)]) (auto simp: b)
    note ins = reclaims_install [OF inv1 o1 insertI1 i(2), of 0]
    have inv2: "vm_inv ?s ps1 R ?own" using ins by (simp add: reclaims_def)
    have o2: "owned ?s ps1 R ?own (insert t (boughs l k (pmem ?s) t))"
      using owned_after [OF o1 ins] by (simp only: st1) simp
    obtain s' ps' where r: "freewalk_loop d k t ?s = Ok s'"
      "reclaims R ?own (boughs l k (pmem s) t) (insert t (boughs l k (pmem s) t)) ?s ps1 s' ps'"
      using Suc.IH [OF inv2 o2 st(2)] k unfolding st1 by auto
    have "reclaims R ?own ({} \<union> boughs l k (pmem s) t) (insert t (boughs l k (pmem s) t)) s1 ps1 s' ps'"
      by (rule reclaims_trans [OF ins, of _ "insert t (boughs l k (pmem s) t)"]) (use r(2) in auto)
    from reclaims_trans [OF f(2) this] have "reclaims R own (boughs l (Suc k) (pmem s) t)
        (insert t (boughs l (Suc k) (pmem s) t)) s ps s' ps'" unfolding b by (simp add: Un_commute) auto
    moreover have "freewalk_loop d (Suc k) t s = Ok s'" using f(1) r(1) True lim(1) unfolding loop by simp
    ultimately show ?thesis by blast
  qed
qed

lemma freewalk_f_spec:
  assumes "vm_inv s ps R own" "owned s ps R own (twig l (pmem s) t)" "bare l (pmem s) t" "l < d"
  shows "\<exists>s' ps'. freewalk_f d t s = Ok s' \<and>
    reclaims R own (twig l (pmem s) t) (twig l (pmem s) t) s ps s' ps'"
  using assms
proof (induction l arbitrary: d t s ps own)
  case 0
  then obtain d' where d: "d = Suc d'" by (cases d) auto
  have "freewalk_f d t s = kfree t s" using freewalk_loop_none [of s t 512 d'] 0(3) by (simp add: d)
  with reclaims_kfree [OF 0(1,2)] show ?case by simp
next
  case (Suc l)
  then obtain d' where d: "d = Suc d'" "l < d'" by (cases d) auto
  let ?B = "boughs l 512 (pmem s) t"
  have twig: "twig (Suc l) (pmem s) t = insert t ?B" by (simp only: boughs_all)
  obtain s1 ps1 where l: "freewalk_loop d' 512 t s = Ok s1" "reclaims R own ?B (insert t ?B) s ps s1 ps1"
    using freewalk_loop_spec [OF Suc.IH [OF _ _ _ d(2)] Suc.prems(1) Suc.prems(2) [unfolded twig]
        Suc.prems(3) [folded limbs_all] order_refl] by blast
  have nt: "?B \<inter> {t} = {}"
    using Suc.prems(3) [folded limbs_all] limbsD(3) by (fastforce simp: boughs_def)
  have inv1: "vm_inv s1 ps1 R (\<lambda>f. if f \<in> ?B then 0 else own f)" using l(2) by (simp add: reclaims_def)
  have o1: "owned s1 ps1 R (\<lambda>f. if f \<in> ?B then 0 else own f) {t}"
    by (rule owned_after [OF owned_mono [OF Suc.prems(2)] l(2) nt]) (simp add: twig)
  obtain s' ps' where k: "kfree t s1 = Ok s'"
    "reclaims R (\<lambda>f. if f \<in> ?B then 0 else own f) {t} {t} s1 ps1 s' ps'"
    using reclaims_kfree [OF inv1 o1] by auto
  from reclaims_trans [OF l(2) k(2), of "insert t ?B"] l(1) k(1) show ?case
    unfolding twig d(1) by (intro exI [of _ s'] exI [of _ ps']) simp
qed

section \<open>Cutting off an address space\<close>

text \<open>An address space with no leaves left: its table pages become pages of the kernel.\<close>

definition leafless :: "mem \<Rightarrow> u64 \<Rightarrow> bool" where
  "leafless m r \<longleftrightarrow> (\<forall>p. lpath p \<longrightarrow> \<not> bit (pte_at m r p) 0)"

lemma twig_tab: "u \<in> twig l m t \<longleftrightarrow> (\<exists>p. length p \<le> l \<and> (\<forall>i\<in>set p. i < 512) \<and> tab m t p = Some u)"
proof (induction l arbitrary: t)
  case (Suc l)
  show ?case (is "_ \<longleftrightarrow> ?R")
  proof
    assume "u \<in> twig (Suc l) m t"
    then consider "u = t" | i where "i < 512" "bit (load64 m (slot t i)) 0" "u \<in> twig l m (PTE2PA (load64 m (slot t i)))"
      by auto
    then show ?R
    proof cases
      case 2
      then obtain p where "length p \<le> l" "\<forall>i\<in>set p. i < 512" "tab m (PTE2PA (load64 m (slot t i))) p = Some u"
        using Suc.IH by blast
      with 2 show ?thesis by (intro exI [of _ "i # p"]) simp
    qed (intro exI [of _ "[]"], simp)
  next
    assume ?R
    then obtain p where p: "length p \<le> Suc l" "\<forall>i\<in>set p. i < 512" "tab m t p = Some u" by blast
    show "u \<in> twig (Suc l) m t"
    proof (cases p)
      case (Cons i q)
      with p Suc.IH [of "PTE2PA (load64 m (slot t i))"] show ?thesis by (auto split: if_splits)
    qed (use p in simp)
  qed
qed auto

lemma tables_twig: "tables s {r} = twig 2 (pmem s) r"
  by (auto simp: tables_def twig_tab tpath_def)

lemma tables_root: "r \<in> R \<Longrightarrow> tables s R = tables s {r} \<union> tables s (R - {r})"
  by (auto simp: tables_def)

lemma pt_inv_subset:
  assumes inv: "pt_inv s ps R" and "R' \<subseteq> R"
  shows "pt_inv s ps R'"
proof (rule pt_invI)
  have "tables s R' \<subseteq> tables s R" using assms(2) by (auto simp: tables_def)
  then show "page_ok s t" "refcnt s (pfn t) = 1" if "t \<in> tables s R'" for t using pt_table [OF inv] that by blast+
  show "finite R'" using pt_finite [OF inv] assms(2) by (rule rev_finite_subset)
  fix r r' p p' t
  assume "r \<in> R'" "r' \<in> R'" "tpath p" "tpath p' \<or> lpath p'" "tab (pmem s) r p = Some t" "tab (pmem s) r' p' = Some t"
  with pt_inj [OF inv] assms(2) show "r = r' \<and> p = p'" by blast
qed (use assms(2) pt_kmem [OF inv] pt_flags [OF inv] pt_leaf [OF inv] in auto)

lemma table_entry_flags: "PTE_FLAGS e = PTE_V \<Longrightarrow> e AND (PTE_R OR PTE_W OR PTE_X) = 0"
proof -
  assume f: "PTE_FLAGS e = PTE_V"
  have "bit e n \<longleftrightarrow> n = 0" if "n < 10" for n
    using that arg_cong [OF f, of "\<lambda>x. bit x n"] by (simp add: PTE_FLAGS_take_bit bit_take_bit_iff pte_simps)
  from this [of 1] this [of 2] this [of 3] have "e AND PTE_R = 0" "e AND PTE_W = 0" "e AND PTE_X = 0"
    by (simp_all add: pte_flag_tests)
  then show ?thesis by (simp add: bit.conj_disj_distrib)
qed

lemma bare_tab:
  assumes inv: "pt_inv s ps R" and r: "r \<in> R" and leafless: "leafless (pmem s) r"
  shows "tpath q \<Longrightarrow> length q + l = 2 \<Longrightarrow> tab (pmem s) r q = Some t \<Longrightarrow> bare l (pmem s) t"
proof (induction l arbitrary: q t)
  case 0
  then have "lpath (q @ [i])" if "i < 512" for i using that by (auto simp: tpath_def lpath_def)
  with leafless 0 show ?case by (force simp: leafless_def pte_at_snoc)
next
  case (Suc l)
  have path: "tpath (q @ i # p)" if "i < 512" "length p \<le> l" "\<forall>j\<in>set p. j < 512" for i p
    using that Suc.prems(1,2) by (auto simp: tpath_def)
  have tab: "tab (pmem s) r (q @ i # p) = Some u"
    if "bit (load64 (pmem s) (slot t i)) 0" "tab (pmem s) (PTE2PA (load64 (pmem s) (slot t i))) p = Some u" for i p u
    using that Suc.prems(3) by (simp add: tab_append)
  have inj: "i = j \<and> p = p'" if "i < 512" "length p \<le> l" "\<forall>j\<in>set p. j < 512"
      "bit (load64 (pmem s) (slot t i)) 0" "tab (pmem s) (PTE2PA (load64 (pmem s) (slot t i))) p = Some u"
      "j < 512" "length p' \<le> l" "\<forall>j\<in>set p'. j < 512"
      "bit (load64 (pmem s) (slot t j)) 0" "tab (pmem s) (PTE2PA (load64 (pmem s) (slot t j))) p' = Some u" for i j p p' u
    using pt_inj [OF inv r r path [OF that(1-3)] _ tab [OF that(4,5)] tab [OF that(9,10)]] path [OF that(6-8)] by simp
  show ?case
    unfolding bare.simps Let_def
  proof (intro allI impI conjI)
    fix i assume i: "i < 512" "bit (load64 (pmem s) (slot t i)) 0"
    have e: "pte_at (pmem s) r (q @ [i]) = load64 (pmem s) (slot t i)" using Suc.prems(3) by (simp add: pte_at_snoc)
    have c: "tpath (q @ [i])" using path [OF i(1), of "[]"] by simp
    show "load64 (pmem s) (slot t i) AND (PTE_R OR PTE_W OR PTE_X) = 0"
      using pt_flags [OF inv r c] e i(2) table_entry_flags by simp
    show "bare l (pmem s) (PTE2PA (load64 (pmem s) (slot t i)))"
      by (rule Suc.IH [OF c]) (use Suc.prems i(2) in \<open>auto simp: tab_snoc\<close>)
    show "t \<notin> twig l (pmem s) (PTE2PA (load64 (pmem s) (slot t i)))"
    proof
      assume "t \<in> twig l (pmem s) (PTE2PA (load64 (pmem s) (slot t i)))"
      then obtain p where p: "length p \<le> l" "\<forall>i\<in>set p. i < 512"
        "tab (pmem s) (PTE2PA (load64 (pmem s) (slot t i))) p = Some t" by (auto simp: twig_tab)
      from pt_inj [OF inv r r Suc.prems(1) _ Suc.prems(3) tab [OF i(2) p(3)]] path [OF i(1) p(1,2)] show False by simp
    qed
    fix j assume "j < 512" "bit (load64 (pmem s) (slot t j)) 0" "i \<noteq> j"
    with inj [OF i(1) _ _ i(2)] show "twig l (pmem s) (PTE2PA (load64 (pmem s) (slot t i))) \<inter>
        twig l (pmem s) (PTE2PA (load64 (pmem s) (slot t j))) = {}" by (auto simp: twig_tab)
  qed
qed

lemma refs_leafless:
  assumes "leafless m r"
  shows "refs m (R - {r}) f = refs m R f"
  using assms unfolding refs_def leafless_def by (auto dest: upathD)

lemma vm_cut:
  assumes inv: "vm_inv s ps R own" and own: "\<And>f. 0 \<le> own f" and r: "r \<in> R" and ll: "leafless (pmem s) r"
  defines "own' \<equiv> \<lambda>f. own f + (if f \<in> tables s {r} then 1 else 0)"
  shows "vm_inv s ps (R - {r}) own'" "owned s ps (R - {r}) own' (tables s {r})" "bare 2 (pmem s) r"
proof -
  note pt = vm_pt [OF inv] and refs = refs_leafless [OF ll]
  have sub: "pt_inv s ps (R - {r})" by (rule pt_inv_subset [OF pt]) auto
  have dis: "tables s {r} \<inter> tables s (R - {r}) = {}" using pt_inj [OF pt] r by (fastforce simp: tables_def)
  note T = tables_root [OF r, of s]
  show "bare 2 (pmem s) r" by (rule bare_tab [OF pt r ll, of "[]"]) (auto simp: tpath_def)
  show "vm_inv s ps (R - {r}) own'"
  proof (rule vm_invI [OF sub])
    fix f assume "page_ok s f"
    from vm_count [OF inv this] dis show "refcnt s (pfn f) = int (card (refs (pmem s) (R - {r}) f)) +
        (if f \<in> tables s (R - {r}) then 1 else 0) + own' f" by (auto simp: refs T own'_def)
  next
    fix r' p assume *: "r' \<in> R - {r}" "lpath p"
    have "PTE2PA (pte_at (pmem s) r' p) \<notin> tables s {r}" if "bit (pte_at (pmem s) r' p) 0"
      using pt_leaf_table [OF pt _ *(2) tab_lpath [OF *(2) that]] * T by blast
    with vm_leaf_ok [OF inv _ *(2), of r'] * show "leaf_ok s (R - {r}) own' r' p"
      by (auto simp: leaf_ok_def Let_def refs own'_def)
  qed
  show "owned s ps (R - {r}) own' (tables s {r})"
    unfolding owned_def
  proof (intro ballI conjI allI impI)
    fix t assume t: "t \<in> tables s {r}"
    then have t': "t \<in> tables s R" using T by blast
    note tab = pt_table [OF pt t']
    have "own t \<le> 0" using vm_count [OF inv tab(1)] tab(2) t' by simp
    with own [of t] t show "own' t = 1" by (simp add: own'_def)
    show "page_ok s t" "t \<notin> kpages s ps (R - {r})" using tab t dis by (auto simp: kpages_def)
    show "tab (pmem s) r' p \<noteq> Some t" if "r' \<in> R - {r}" "lpath p" for r' p
      using pt_leaf_table [OF pt _ that(2)] that t' by blast
  qed
qed

text \<open>Freeing the table pages of a leafless address space: the others keep their memory, and
  every table page is free.\<close>

lemma freewalk_spec:
  assumes inv: "vm_inv s ps R own" and own: "\<And>f. 0 \<le> own f" and r: "r \<in> R" and ll: "leafless (pmem s) r"
  shows "\<exists>s' ps'. freewalk r s = Ok s' \<and> vm_inv s' ps' (R - {r}) own \<and> vm_base s s' \<and>
    same_view (R - {r}) s s' \<and> same_leaves (R - {r}) (pmem s) (pmem s') \<and> tables s {r} \<subseteq> set ps'"
proof -
  let ?T = "tables s {r}" and ?own = "\<lambda>f. own f + (if f \<in> tables s {r} then 1 else 0)"
  note cut = vm_cut [OF inv own r ll]
  obtain s' ps' where f: "freewalk r s = Ok s'" "reclaims (R - {r}) ?own ?T ?T s ps s' ps'"
    using freewalk_f_spec [OF cut(1) [unfolded tables_twig] cut(2) [unfolded tables_twig] cut(3), of 4, folded tables_twig]
    unfolding freewalk_def tables_twig [symmetric] by auto
  have "(\<lambda>f. if f \<in> ?T then 0 else ?own f) = own"
  proof
    fix f
    have "own f = 0" if "f \<in> ?T" using ownedD(2) [OF cut(2) that] that by simp
    then show "(if f \<in> ?T then 0 else ?own f) = own f" by simp
  qed
  with f(2) have f': "vm_inv s' ps' (R - {r}) own" "vm_base s s'" "kpages s' ps' (R - {r}) = kpages s ps (R - {r}) \<union> ?T"
    "same_leaves (R - {r}) (pmem s) (pmem s')" "\<And>x. PGROUNDDOWN x \<notin> ?T \<Longrightarrow> pmem s' x = pmem s x"
    by (simp_all add: reclaims_def)
  have "keeps (R - {r}) s s'"
  proof (rule keepsI)
    fix r' p x assume "r' \<in> R - {r}" "upath p" "bit (pte_at (pmem s) r' p) 0" "PGROUNDDOWN x = PTE2PA (pte_at (pmem s) r' p)"
    with ownedD(5) [OF cut(2), of "PGROUNDDOWN x" r' p] show "pmem s' x = pmem s x"
      using f'(5) [of x] tab_lpath [of p "pmem s" r'] upathD [of p] by auto
  qed
  note view = keeps_view [OF this f'(4)]
  have "tables s' (R - {r}) = tables s (R - {r})" using f(2) by (simp add: reclaims_def)
  then have "?T \<subseteq> set ps'" using f'(3) ownedD(3) [OF cut(2)] by (auto simp: kpages_def)
  with f(1) f'(1,2,4) view show ?thesis by blast
qed

text \<open>The whole teardown: an address space whose leaves all lie below \<open>sz\<close> disappears, and
  nobody else notices.\<close>

lemma uvmfree_spec:
  assumes inv: "vm_inv s ps R own" and own: "\<And>f. 0 \<le> own f" and r: "r \<in> R" and sz: "sz \<le> TRAPFRAME"
    and leaves: "\<And>p. lpath p \<Longrightarrow> bit (pte_at (pmem s) r p) 0 \<Longrightarrow> p \<in> page_paths 0 sz"
  shows "\<exists>s' ps'. uvmfree r sz s = Ok s' \<and> vm_inv s' ps' (R - {r}) own \<and> vm_base s s' \<and>
    same_view (R - {r}) s s' \<and> same_leaves (R - {r}) (pmem s) (pmem s')"
proof -
  let ?n = "PGROUNDUP sz div PGSIZE"
  have up: "PGROUNDUP sz \<le> TRAPFRAME" by (rule PGROUNDUP_le [OF sz])
  obtain k where k: "unat (PGROUNDUP sz) = 4096 * k" using PGROUNDUP_aligned [of sz] by (rule pg_alignedE)
  have small: "4096 * k \<le> unat TRAPFRAME" using up k by (simp only: word_le_nat_alt)
  have n: "unat ?n = k" using k by (simp add: unat_div)
  then have "unat (?n * PGSIZE) = 4096 * k" using unat_pages [of ?n] small by simp
  then have span: "0 + ?n * PGSIZE = PGROUNDUP sz" using k by (simp add: word_unat_eq_iff)
  have fits: "unat 0 + 4096 * unat ?n \<le> unat TRAPFRAME" using small n by simp
  obtain s1 ps1 where u: "(if sz > 0 then uvmunmap r 0 ?n True s else Ok s) = Ok s1" "vm_inv s1 ps1 R own"
    "vm_shrunk R s ps s1 ps1" "cleared R r (page_paths 0 sz) (pmem s) (pmem s1)"
  proof (cases "sz > 0")
    case True
    obtain s1 ps1 where "uvmunmap r 0 ?n True s = Ok s1" "vm_inv s1 ps1 R own" "vm_shrunk R s ps s1 ps1"
      "cleared R r (page_paths 0 sz) (pmem s) (pmem s1)"
      using uvmunmap_free [OF inv own r _ fits] unfolding span page_paths_up [OF sz]
      by (auto simp: pg_aligned_def)
    then show ?thesis using that True by simp
  next
    case False
    then have "page_paths 0 sz = {}" by (simp add: page_paths_empty)
    with False inv cleared_empty show ?thesis by (intro that [of s ps]) simp_all
  qed
  have ll: "leafless (pmem s1) r"
    unfolding leafless_def using u(4) r leaves by (auto simp: cleared_def)
  obtain s' ps' where f: "freewalk r s1 = Ok s'" "vm_inv s' ps' (R - {r}) own" "vm_base s1 s'"
    "same_view (R - {r}) s1 s'" "same_leaves (R - {r}) (pmem s1) (pmem s')" "tables s1 {r} \<subseteq> set ps'"
    using freewalk_spec [OF u(2) own r ll] by blast
  have "same_view (R - {r}) s s1" using shrunk_view [OF u(2-4)] by (simp add: same_view_def)
  from same_view_trans [OF this f(4)] have v: "same_view (R - {r}) s s'" .
  have "same_leaves (R - {r}) (pmem s) (pmem s1)" using u(4) by (auto simp: cleared_def same_leaves_def)
  from same_leaves_trans [OF this f(5)] have l: "same_leaves (R - {r}) (pmem s) (pmem s')" .
  have "vm_base s s1" using u(3) by (simp add: vm_shrunk_def)
  then show ?thesis using u(1) f v l by (intro exI [of _ s'] exI [of _ ps']) (simp add: uvmfree_def)
qed

end
