(* ===== verification/Forkcopy.thy ===== *)
theory Forkcopy
  imports Uvmfree
begin

text \<open>
  \<open>uvmcopy\<close>, the copy-on-write fork.  The pages of the parent are mapped into the child
  with the same flags, after every writable leaf of the parent has been made read-only and
  marked \<open>PTE_COW\<close>.  The specification is about what the two address spaces see: the
  child sees the parent's memory, and nobody's memory changes.
\<close>

section \<open>Sharing one page\<close>

definition cowpte :: "u64 \<Rightarrow> u64" where
  "cowpte e = (if e AND PTE_W \<noteq> 0 then (e AND NOT PTE_W) OR PTE_COW else e)"

lemma cowpte_simps [simp]:
  "PTE2PA (cowpte e) = PTE2PA e" "\<not> bit (cowpte e) 2" "bit (cowpte e) 0 = bit e 0" "bit (cowpte e) 4 = bit e 4"
  "bit (cowpte e) 8 \<longleftrightarrow> bit e 2 \<or> bit e 8"
proof -
  show "PTE2PA (cowpte e) = PTE2PA e"
    by (rule bit_word_eqI) (auto simp: cowpte_def bit_PTE2PA bit_simps pte_simps)
qed (auto simp: cowpte_def bit_simps pte_simps)

lemma vm_no_writer:
  assumes inv: "vm_inv s ps R own" and "(r, p) \<in> refs (pmem s) R f" "\<not> bit (pte_at (pmem s) r p) 2"
    and q: "(r', q) \<in> refs (pmem s) R f"
  shows "\<not> bit (pte_at (pmem s) r' q) 2"
proof
  assume w: "bit (pte_at (pmem s) r' q) 2"
  have *: "r' \<in> R" "upath q" "bit (pte_at (pmem s) r' q) 0" "PTE2PA (pte_at (pmem s) r' q) = f"
    using q by (auto simp: refs_def)
  from vm_leaf(4) [OF inv *(1-3) w] *(4) assms(2,3) w show False by auto
qed

text \<open>A read-only page may be mapped once more.\<close>

lemma storable_share:
  assumes inv: "vm_inv s ps R own" and r: "r \<in> R" "upath p" and e: "e = pte_at (pmem s) r p" "bit e 0" "\<not> bit e 2"
    and v: "PTE2PA v = PTE2PA e" "\<not> bit v 2"
  shows "storable s ps R own r' p' v"
proof -
  have rp: "(r, p) \<in> refs (pmem s) R (PTE2PA e)" using r e by (simp add: refs_def)
  note leaf = vm_leaf(1-3) [OF inv r e(2) [unfolded e(1)], folded e(1)]
  have "\<not> bit (pte_at (pmem s) a b) 2" if "(a, b) \<in> refs (pmem s) R (PTE2PA e)" for a b
    using vm_no_writer [OF inv rp _ that] e(1,3) by simp
  with leaf vm_leaf_uncounted [OF inv rp] v show ?thesis
    by (auto simp: storable_def kpages_def)
qed

text \<open>Making a leaf copy-on-write leaves its page, and so every view, alone.\<close>

lemma storable_cow:
  assumes inv: "vm_inv s ps R own" and r: "r \<in> R" "upath p" and e: "e = pte_at (pmem s) r p" "bit e 0"
  shows "storable s ps R own r p (cowpte e)"
proof (cases "bit e 2")
  case False
  then show ?thesis by (intro storable_share [OF inv r e False]) simp_all
next
  case True
  have rp: "(r, p) \<in> refs (pmem s) R (PTE2PA e)" using r e by (simp add: refs_def)
  note leaf = vm_leaf [OF inv r e(2) [unfolded e(1)], folded e(1)]
  from leaf(1-3) leaf(4) [OF True] vm_leaf_uncounted [OF inv rp] show ?thesis
    by (auto simp: storable_def kpages_def)
qed

lemma share_parent:
  fixes s :: "'a kmem_scheme"
  assumes inv: "vm_inv s ps R own" and l: "leaf_slot s R r q i t" and p: "upath (q @ [i])"
    and e: "e = pte_at (pmem s) r (q @ [i])" "bit e 0"
  defines "s' \<equiv> install s t i (cowpte e)"
  shows "vm_inv s' ps R own" "leaf_upd R r (q @ [i]) (cowpte e) (pmem s) (pmem s')" "same_view R s s'"
    "vm_base s s'"
proof -
  note r = leaf_slotD(1) [OF l]
  note st = vm_store [OF inv l p storable_cow [OF inv r p e]]
  have "moved (pte_at (pmem s) r (q @ [i])) (cowpte e) own = own" using e by (auto simp: maps_def)
  with st(1) show "vm_inv s' ps R own" by (simp add: s'_def)
  show upd: "leaf_upd R r (q @ [i]) (cowpte e) (pmem s) (pmem s')" using st(2) by (simp add: s'_def)
  show "vm_base s s'" by (simp add: s'_def)
  have k: "keeps R s s'" using keeps_private [OF inv st(3)] by (simp add: s'_def)
  show "same_view R s s'"
  proof (rule view_copy [OF upd r])
    fix r' p' x assume "r' \<in> R" "upath p'" "bit (pte_at (pmem s) r' p') 0" "PGROUNDDOWN x = PTE2PA (pte_at (pmem s) r' p')"
    then show "pmem s' x = pmem s x" using k by (simp add: keeps_def)
  next
    fix va assume va: "va < TRAPFRAME" "vpath va = q @ [i]"
    with e keepsD [OF k r va(1)] show "pmem s' (PTE2PA (cowpte e) + (va - PGROUNDDOWN va)) = ubyte s r va"
      by (simp add: ubyte_def)
  qed (use e in simp)
qed

lemma vm_inc_refcnt:
  assumes inv: "vm_inv s ps R own" and rp: "(r, p) \<in> refs (pmem s) R f" "\<not> bit (pte_at (pmem s) r p) 2"
    and f: "page_ok s f"
  shows "vm_inv (inc_refcnt f s) ps R (own(f := own f + 1))"
proof -
  note pt = vm_pt [OF inv]
  have *: "r \<in> R" "lpath p" "tab (pmem s) r p = Some f" using refs_tab [OF rp(1)] by blast+
  have nt: "f \<notin> tables s R" "f \<notin> set ps" using pt_leaf_table [OF pt *] pt_leaf [OF pt *] by blast+
  have pos: "0 < refcnt s (pfn f)"
    using pt_kmem [OF pt] f nt by (auto simp: kmem_inv_def le_less)
  have k: "kmem_inv (inc_refcnt f s) [] ps" by (rule inc_refcnt_rep [OF pt_kmem [OF pt] f pos])
  have same: "pmem (inc_refcnt f s) = pmem s" "kend (inc_refcnt f s) = kend s" by (simp_all add: inc_refcnt_def)
  have cnt: "refcnt (inc_refcnt f s) (pfn g) = refcnt s (pfn g) + (if g = f then 1 else 0)" if "page_ok s g" for g
    using that f by (simp add: inc_refcnt_def pfn_inject page_ok_def)
  have T: "tables (inc_refcnt f s) R = tables s R" by (simp add: tables_def same)
  have ok: "page_ok (inc_refcnt f s) = page_ok s" by (simp add: page_ok_def same fun_eq_iff)
  show ?thesis
  proof (rule vm_invI)
    show "pt_inv (inc_refcnt f s) ps R"
      by (rule pt_inv_frame(1) [OF pt k same(2)])
        (use same cnt nt pt_table [OF pt] pt_leaf [OF pt] in auto)
  next
    fix g assume "page_ok (inc_refcnt f s) g"
    then show "refcnt (inc_refcnt f s) (pfn g) = int (card (refs (pmem (inc_refcnt f s)) R g)) +
        (if g \<in> tables (inc_refcnt f s) R then 1 else 0) + (own(f := own f + 1)) g"
      using vm_count [OF inv] cnt by (simp add: ok same T)
  next
    fix r' q assume rq: "r' \<in> R" "lpath q"
    have "\<not> bit (pte_at (pmem s) r' q) 2" if "upath q" "bit (pte_at (pmem s) r' q) 0" "PTE2PA (pte_at (pmem s) r' q) = f"
      using vm_no_writer [OF inv rp] rq(1) that by (simp add: refs_def)
    with vm_leaf_ok [OF inv rq] show "leaf_ok (inc_refcnt f s) R (own(f := own f + 1)) r' q"
      by (auto simp: leaf_ok_def Let_def ok same)
  qed
qed

lemma view_upd:
  assumes "keeps R s s'" "leaf_upd R r p v (pmem s) (pmem s')" "r' \<in> R" "va < TRAPFRAME" "(r', vpath va) \<noteq> (r, p)"
  shows "ubyte s' r' va = ubyte s r' va"
proof -
  have "pte_at (pmem s') r' (vpath va) = pte_at (pmem s) r' (vpath va)"
    using leaf_updD [OF assms(2,3), of "vpath va"] assms(5) by auto
  with keepsD [OF assms(1,3,4)] show ?thesis by (simp add: ubyte_def Let_def)
qed

section \<open>Forked address spaces\<close>

text \<open>The pages at \<open>P\<close> of \<open>old\<close> are shared with \<open>new\<close>: both map them read-only, \<open>new\<close>
  sees there what \<open>old\<close> sees, and otherwise nothing changed.\<close>

definition forked :: "u64 set \<Rightarrow> u64 \<Rightarrow> u64 \<Rightarrow> u64 list set \<Rightarrow> 'a kmem_scheme \<Rightarrow> 'a kmem_scheme \<Rightarrow> bool" where
  "forked R old new P s s' \<longleftrightarrow>
     (\<forall>r\<in>R. r \<noteq> new \<longrightarrow> (\<forall>va<TRAPFRAME. ubyte s' r va = ubyte s r va)) \<and>
     (\<forall>va<TRAPFRAME. ubyte s' new va = (if vpath va \<in> P then ubyte s old va else ubyte s new va)) \<and>
     (\<forall>p. lpath p \<longrightarrow>
        (let e = pte_at (pmem s) old p; f = pte_at (pmem s') new p in
         if p \<in> P \<and> bit e 0
         then pte_at (pmem s') old p = cowpte e \<and> bit f 0 \<and> PTE2PA f = PTE2PA e \<and> PTE_FLAGS f = PTE_FLAGS (cowpte e)
         else pte_at (pmem s') old p = e \<and> f = pte_at (pmem s) new p)) \<and>
     (\<forall>r\<in>R - {old, new}. \<forall>p. lpath p \<longrightarrow> pte_at (pmem s') r p = pte_at (pmem s) r p)"

lemma forkedD:
  assumes "forked R old new P s s'"
  shows "\<And>r va. r \<in> R \<Longrightarrow> r \<noteq> new \<Longrightarrow> va < TRAPFRAME \<Longrightarrow> ubyte s' r va = ubyte s r va"
    "\<And>va. va < TRAPFRAME \<Longrightarrow> ubyte s' new va = (if vpath va \<in> P then ubyte s old va else ubyte s new va)"
    "\<And>p. lpath p \<Longrightarrow> p \<in> P \<Longrightarrow> bit (pte_at (pmem s) old p) 0 \<Longrightarrow>
       pte_at (pmem s') old p = cowpte (pte_at (pmem s) old p) \<and> bit (pte_at (pmem s') new p) 0 \<and>
       PTE2PA (pte_at (pmem s') new p) = PTE2PA (pte_at (pmem s) old p) \<and>
       PTE_FLAGS (pte_at (pmem s') new p) = PTE_FLAGS (cowpte (pte_at (pmem s) old p))"
    "\<And>p. lpath p \<Longrightarrow> \<not> (p \<in> P \<and> bit (pte_at (pmem s) old p) 0) \<Longrightarrow>
       pte_at (pmem s') old p = pte_at (pmem s) old p \<and> pte_at (pmem s') new p = pte_at (pmem s) new p"
    "\<And>r p. r \<in> R \<Longrightarrow> r \<noteq> old \<Longrightarrow> r \<noteq> new \<Longrightarrow> lpath p \<Longrightarrow> pte_at (pmem s') r p = pte_at (pmem s) r p"
  using assms unfolding forked_def Let_def by (simp_all split: if_splits)

lemma forkedI:
  assumes "\<And>r va. r \<in> R \<Longrightarrow> r \<noteq> new \<Longrightarrow> va < TRAPFRAME \<Longrightarrow> ubyte s' r va = ubyte s r va"
    "\<And>va. va < TRAPFRAME \<Longrightarrow> ubyte s' new va = (if vpath va \<in> P then ubyte s old va else ubyte s new va)"
    "\<And>p. lpath p \<Longrightarrow> p \<in> P \<Longrightarrow> bit (pte_at (pmem s) old p) 0 \<Longrightarrow>
       pte_at (pmem s') old p = cowpte (pte_at (pmem s) old p) \<and> bit (pte_at (pmem s') new p) 0 \<and>
       PTE2PA (pte_at (pmem s') new p) = PTE2PA (pte_at (pmem s) old p) \<and>
       PTE_FLAGS (pte_at (pmem s') new p) = PTE_FLAGS (cowpte (pte_at (pmem s) old p))"
    "\<And>p. lpath p \<Longrightarrow> \<not> (p \<in> P \<and> bit (pte_at (pmem s) old p) 0) \<Longrightarrow>
       pte_at (pmem s') old p = pte_at (pmem s) old p \<and> pte_at (pmem s') new p = pte_at (pmem s) new p"
    "\<And>r p. r \<in> R \<Longrightarrow> r \<noteq> old \<Longrightarrow> r \<noteq> new \<Longrightarrow> lpath p \<Longrightarrow> pte_at (pmem s') r p = pte_at (pmem s) r p"
  shows "forked R old new P s s'"
  using assms unfolding forked_def Let_def by (simp split: if_split)

lemma forked_empty: "forked R old new {} s s"
  by (rule forkedI) auto

lemma forked_skip:
  assumes "\<not> bit (pte_at (pmem s) old p) 0" "\<not> bit (pte_at (pmem s) new p) 0"
  shows "forked R old new {p} s s"
proof (rule forkedI)
  fix va
  show "ubyte s new va = (if vpath va \<in> {p} then ubyte s old va else ubyte s new va)"
    using assms ubyte_unmapped [of s old va] ubyte_unmapped [of s new va] by auto
qed (use assms in auto)

lemma forked_trans:
  assumes a: "forked R old new P s s1" and b: "forked R old new Q s1 s2" and "old \<in> R" "old \<noteq> new" "P \<inter> Q = {}"
  shows "forked R old new (P \<union> Q) s s2"
proof (rule forkedI)
  fix va assume "va < TRAPFRAME"
  with forkedD(1) [OF a assms(3,4)] forkedD(2) [OF a] forkedD(2) [OF b]
  show "ubyte s2 new va = (if vpath va \<in> P \<union> Q then ubyte s old va else ubyte s new va)" by auto
next
  fix p assume p: "lpath p" "\<not> (p \<in> P \<union> Q \<and> bit (pte_at (pmem s) old p) 0)"
  from p(2) forkedD(4) [OF a p(1)] have "pte_at (pmem s1) old p = pte_at (pmem s) old p \<and> pte_at (pmem s1) new p = pte_at (pmem s) new p"
    by blast
  with p forkedD(4) [OF b p(1)]
  show "pte_at (pmem s2) old p = pte_at (pmem s) old p \<and> pte_at (pmem s2) new p = pte_at (pmem s) new p" by auto
next
  fix p assume p: "lpath p" "p \<in> P \<union> Q" "bit (pte_at (pmem s) old p) 0"
  show "pte_at (pmem s2) old p = cowpte (pte_at (pmem s) old p) \<and> bit (pte_at (pmem s2) new p) 0 \<and>
     PTE2PA (pte_at (pmem s2) new p) = PTE2PA (pte_at (pmem s) old p) \<and>
     PTE_FLAGS (pte_at (pmem s2) new p) = PTE_FLAGS (cowpte (pte_at (pmem s) old p))"
  proof (cases "p \<in> P")
    case True
    then have "p \<notin> Q" using assms(5) by blast
    with forkedD(3) [OF a p(1) True p(3)] forkedD(4) [OF b p(1)] show ?thesis by auto
  next
    case False
    with p(2) have "p \<in> Q" by blast
    with False forkedD(4) [OF a p(1)] forkedD(3) [OF b p(1)] p(3) show ?thesis by auto
  qed
qed (use forkedD(1,5) [OF a] forkedD(1,5) [OF b] in auto)

section \<open>uvmcopy\<close>

lemma PTE_FLAGS_less: "PTE_FLAGS e < 0x400"
proof -
  have "unat (PTE_FLAGS e) < 2 ^ 10"
    unfolding PTE_FLAGS_take_bit unsigned_take_bit_eq by (rule take_bit_nat_less_exp)
  then show ?thesis by (simp add: word_less_nat_alt)
qed

lemma bit_PTE_FLAGS: "n < 10 \<Longrightarrow> bit (PTE_FLAGS e) n = bit e n"
  by (simp add: PTE_FLAGS_take_bit bit_take_bit_iff)

lemma PTE_FLAGS_V: "bit e 0 \<Longrightarrow> PTE_FLAGS e OR PTE_V = PTE_FLAGS e"
  by (rule bit_word_eqI) (auto simp: bit_or_iff PTE_FLAGS_take_bit bit_take_bit_iff pte_simps)

text \<open>One page of the loop: the parent's leaf becomes copy-on-write, the child gets the same.\<close>

lemma share_page:
  fixes s :: "'a kmem_scheme"
  assumes inv: "vm_inv s ps R own" and on: "old \<in> R" "new \<in> R" "old \<noteq> new"
    and i: "pg_aligned i" "i < TRAPFRAME" and e: "e = pte_at (pmem s) old (vpath i)" "bit e 0"
    and free: "\<not> bit (pte_at (pmem s) new (vpath i)) 0"
    and t: "tab (pmem s) old (upper 2 i) = Some t"
  defines "s1 \<equiv> (if e AND PTE_W \<noteq> 0 then install s t (PX 0 i) (cowpte e) else s)"
  obtains (full) s2 where "mappages new i PGSIZE (PTE2PA e) (PTE_FLAGS (cowpte e)) s1 = Ok (- 1, s2)"
      "vm_inv s2 [] R own" "vm_base s s2" "same_view R s s2" "leaf_upd R old (vpath i) (cowpte e) (pmem s) (pmem s2)"
  | (mapped) s2 ps2 where "mappages new i PGSIZE (PTE2PA e) (PTE_FLAGS (cowpte e)) s1 = Ok (0, s2)"
      "vm_inv (inc_refcnt (PTE2PA e) s2) ps2 R own" "vm_base s s2"
      "forked R old new {vpath i} s (inc_refcnt (PTE2PA e) s2)"
proof -
  let ?p = "vpath i" and ?f = "PTE2PA e" and ?v = "leaf_entry (PTE2PA e) (PTE_FLAGS (cowpte e))"
  note up = upath_vpath [OF i] and slot = leaf_slot_walk [OF on(1) t]
  note leaf = vm_leaf(1) [OF inv on(1) up(1) e(2) [unfolded e(1)], folded e(1)]
  note ent = leaf_entry_simps [OF page_ok_aligned [OF leaf] page_ok_bound [OF leaf] PTE_FLAGS_less [of "cowpte e"]]
  have p: "?p = upper 2 i @ [PX 0 i]" by (rule vpath_upper)
  have s1: "vm_inv s1 ps R own" "leaf_upd R old ?p (cowpte e) (pmem s) (pmem s1)" "same_view R s s1" "vm_base s s1"
  proof -
    note sh = share_parent [OF inv slot, folded p, OF up(1) e]
    have "leaf_upd R old ?p (cowpte e) (pmem s) (pmem s)" if "e AND PTE_W = 0"
      using that e(1) by (auto simp: leaf_upd_def cowpte_def)
    then show "vm_inv s1 ps R own" "leaf_upd R old ?p (cowpte e) (pmem s) (pmem s1)" "same_view R s s1" "vm_base s s1"
      using sh inv unfolding s1_def by (auto split: if_split)
  qed
  have e1: "pte_at (pmem s1) old ?p = cowpte e" "pte_at (pmem s1) new ?p = pte_at (pmem s) new ?p"
    using leaf_updD [OF s1(2)] on by auto
  have st: "storable s1 ps R own new ?p ?v"
    by (rule storable_share [OF s1(1) on(1) up(1) e1(1) [symmetric]]) (use ent e(2) in \<open>auto simp: bit_PTE_FLAGS\<close>)
  show thesis
  proof (rule mappages_one [OF s1(1) on(2) i(1) up(2,1) _ st])
    show "\<not> bit (pte_at (pmem s1) new ?p) 0" using free e1 by simp
  next
    fix s2 assume m: "mappages new i PGSIZE ?f (PTE_FLAGS (cowpte e)) s1 = Ok (- 1, s2)" "vm_inv s2 [] R own"
      "same_leaves R (pmem s1) (pmem s2)" "vm_private R s1 ps s2 []"
    have "vm_base s s2" using m(4) s1(4) by (simp add: vm_private_def)
    with full [OF m(1,2) _ same_view_trans [OF s1(3) keeps_view [OF keeps_private [OF s1(1) m(4)] m(3)]]
        leaf_upd_same(2) [OF s1(2) m(3)]] show thesis by simp
  next
    fix k s2 assume m: "mappages new i PGSIZE ?f (PTE_FLAGS (cowpte e)) s1 = Ok (0, s2)"
      "vm_inv s2 (drop k ps) R (\<lambda>f. own f - maps ?v f)" "leaf_upd R new ?p ?v (pmem s1) (pmem s2)"
      "vm_private R s1 ps s2 (drop k ps)"
    have base: "vm_base s s2" using m(4) s1(4) by (simp add: vm_private_def)
    have leaves: "pte_at (pmem s2) r q = (if r = new \<and> q = ?p then ?v else if r = old \<and> q = ?p then cowpte e
        else pte_at (pmem s) r q)" if "r \<in> R" "lpath q" for r q
      unfolding leaf_updD [OF m(3) that] leaf_updD [OF s1(2) that] by simp
    have "(old, ?p) \<in> refs (pmem s2) R ?f" "\<not> bit (pte_at (pmem s2) old ?p) 2"
      using leaves [OF on(1), of ?p] on up(1) e(2) by (simp_all add: refs_def)
    moreover have "page_ok s2 ?f" using leaf base by (simp add: page_ok_def)
    moreover have "(\<lambda>f. own f - maps ?v f)(?f := own ?f - maps ?v ?f + 1) = own"
      using ent by (auto simp: maps_def)
    ultimately have inv': "vm_inv (inc_refcnt ?f s2) (drop k ps) R own"
      using vm_inc_refcnt [OF m(2), of old ?p ?f] by simp
    note k = keeps_private [OF s1(1) m(4)]
    have bytes: "ubyte (inc_refcnt ?f s2) r va = ubyte s2 r va" for r va
      by (simp add: ubyte_def inc_refcnt_def Let_def)
    have pm: "pmem (inc_refcnt ?f s2) = pmem s2" by (simp add: inc_refcnt_def)
    have shared: "ubyte s2 new va = ubyte s old va" if va: "va < TRAPFRAME" "vpath va = ?p" for va
    proof -
      have "ubyte s2 new va = pmem s2 (?f + (va - PGROUNDDOWN va))"
        using va leaves [OF on(2), of ?p] ent by (simp add: ubyte_def)
      also have "\<dots> = ubyte s1 old va" using keepsD [OF k on(1) va(1)] va e1(1) e(2) by (simp add: ubyte_def)
      finally show ?thesis using s1(3) on(1) va(1) by (simp add: same_view_def)
    qed
    have other: "ubyte s2 r va = ubyte s r va" if "r \<in> R" "va < TRAPFRAME" "(r, vpath va) \<noteq> (new, ?p)" for r va
      using view_upd [OF k m(3) that] s1(3) that by (simp add: same_view_def)
    have "forked R old new {?p} s (inc_refcnt ?f s2)"
    proof (rule forkedI)
      fix q assume "lpath q" "q \<in> {?p}" "bit (pte_at (pmem s) old q) 0"
      then show "pte_at (pmem (inc_refcnt ?f s2)) old q = cowpte (pte_at (pmem s) old q) \<and>
          bit (pte_at (pmem (inc_refcnt ?f s2)) new q) 0 \<and>
          PTE2PA (pte_at (pmem (inc_refcnt ?f s2)) new q) = PTE2PA (pte_at (pmem s) old q) \<and>
          PTE_FLAGS (pte_at (pmem (inc_refcnt ?f s2)) new q) = PTE_FLAGS (cowpte (pte_at (pmem s) old q))"
        using leaves [OF on(1), of q] leaves [OF on(2), of q] on(3) e ent PTE_FLAGS_V [of "cowpte e"]
        by (simp add: inc_refcnt_def)
    next
      fix va assume "va < TRAPFRAME"
      then show "ubyte (inc_refcnt ?f s2) new va = (if vpath va \<in> {?p} then ubyte s old va else ubyte s new va)"
        using shared [of va] other [OF on(2), of va] by (auto simp: bytes)
    qed (use other leaves on e(2) [unfolded e(1)] in \<open>auto simp: bytes pm\<close>)
    with mapped [OF m(1) inv' base] show thesis .
  qed
qed

text \<open>When the child runs out of memory, the pages it got are unmapped again; the parent's leaves
  may stay copy-on-write, which no one can see.\<close>

definition unforked :: "u64 set \<Rightarrow> u64 \<Rightarrow> u64 list set \<Rightarrow> 'a kmem_scheme \<Rightarrow> 'a kmem_scheme \<Rightarrow> bool" where
  "unforked R new P s s' \<longleftrightarrow>
     (\<forall>r\<in>R. r \<noteq> new \<longrightarrow> (\<forall>va<TRAPFRAME. ubyte s' r va = ubyte s r va)) \<and>
     (\<forall>r\<in>R. \<forall>p. r \<noteq> new \<longrightarrow> lpath p \<longrightarrow> bit (pte_at (pmem s') r p) 0 = bit (pte_at (pmem s) r p) 0) \<and>
     (\<forall>p. lpath p \<longrightarrow> (if p \<in> P then \<not> bit (pte_at (pmem s') new p) 0
                        else pte_at (pmem s') new p = pte_at (pmem s) new p)) \<and>
     (\<forall>va<TRAPFRAME. vpath va \<notin> P \<longrightarrow> ubyte s' new va = ubyte s new va)"

lemma unforked_after:
  assumes a: "forked R old new {p} s s1" and b: "unforked R new P s1 s'" and "p \<in> P"
  shows "unforked R new P s s'"
  unfolding unforked_def
proof (intro conjI ballI allI impI)
  fix q assume q: "lpath q"
  have "pte_at (pmem s1) new q = pte_at (pmem s) new q" if "q \<noteq> p" using forkedD(4) [OF a q] that by simp
  with b q assms(3) show "if q \<in> P then \<not> bit (pte_at (pmem s') new q) 0
      else pte_at (pmem s') new q = pte_at (pmem s) new q" by (auto simp: unforked_def split: if_splits)
next
  fix va assume "va < TRAPFRAME" "vpath va \<notin> P"
  with b assms(3) forkedD(2) [OF a, of va] show "ubyte s' new va = ubyte s new va" by (auto simp: unforked_def)
next
  fix r q assume r: "r \<in> R" "r \<noteq> new" "lpath q"
  have "bit (pte_at (pmem s1) r q) 0 = bit (pte_at (pmem s) r q) 0"
    using forkedD(3,4) [OF a r(3)] forkedD(5) [OF a r(1) _ r(2,3)]
    by (cases "r = old"; cases "q = p \<and> bit (pte_at (pmem s) old p) 0") auto
  with b r show "bit (pte_at (pmem s') r q) 0 = bit (pte_at (pmem s) r q) 0" by (simp add: unforked_def)
qed (use b forkedD(1) [OF a] in \<open>auto simp: unforked_def\<close>)

lemma uvmcopy_undo:
  assumes inv: "vm_inv s2 ps2 R own" and own: "\<And>f. 0 \<le> own f" and on: "old \<in> R" "new \<in> R" "old \<noteq> new"
    and i: "pg_aligned i" "i < TRAPFRAME" "i \<le> b"
    and s2: "same_view R s s2" "leaf_upd R old (vpath i) v (pmem s) (pmem s2)" "vm_base s s2"
    and free: "unmapped s new i b" and v: "bit v 0 = bit (pte_at (pmem s) old (vpath i)) 0"
  shows "\<exists>s' ps'. uvmunmap new 0 (i div PGSIZE) True s2 = Ok s' \<and> vm_inv s' ps' R own \<and> vm_base s s' \<and>
    unforked R new (page_paths 0 b) s s'"
proof -
  obtain k where k: "unat i = 4096 * k" using i(1) by (rule pg_alignedE)
  have small: "4096 * k < unat TRAPFRAME" using i(2) k by (simp only: word_less_nat_alt)
  have n: "unat (i div PGSIZE) = k" using k by (simp add: unat_div)
  then have "unat (i div PGSIZE * PGSIZE) = 4096 * k" using unat_pages [of "i div PGSIZE"] small by simp
  then have span: "0 + i div PGSIZE * PGSIZE = i" using k by (simp add: word_unat_eq_iff)
  have fits: "unat 0 + 4096 * unat (i div PGSIZE) \<le> unat TRAPFRAME" using small n by simp
  obtain s' ps' where u: "uvmunmap new 0 (i div PGSIZE) True s2 = Ok s'" "vm_inv s' ps' R own"
    "vm_shrunk R s2 ps2 s' ps'" "cleared R new (page_paths 0 i) (pmem s2) (pmem s')"
    using uvmunmap_free [OF inv own on(2) _ fits] unfolding span by (auto simp: pg_aligned_def)
  have leaf: "pte_at (pmem s2) new p = pte_at (pmem s) new p" if "lpath p" for p
    using leaf_updD [OF s2(2) on(2) that] on(3) by simp
  note P = page_paths_split [OF word_zero_le i(3)]
  have "unforked R new (page_paths 0 b) s s'"
    unfolding unforked_def
  proof (intro conjI ballI allI impI)
    fix r va assume "r \<in> R" "r \<noteq> new" "va < TRAPFRAME"
    with shrunk_view [OF u(2-4), of r va] s2(1) show "ubyte s' r va = ubyte s r va" by (simp add: same_view_def)
  next
    fix r p assume r: "r \<in> R" "r \<noteq> new" "lpath p"
    with u(4) have "pte_at (pmem s') r p = pte_at (pmem s2) r p" by (simp add: cleared_def)
    with leaf_updD [OF s2(2) r(1,3)] v show "bit (pte_at (pmem s') r p) 0 = bit (pte_at (pmem s) r p) 0" by auto
  next
    fix p assume p: "lpath p"
    have "pte_at (pmem s') new p = (if p \<in> page_paths 0 i \<and> bit (pte_at (pmem s) new p) 0 then 0 else pte_at (pmem s) new p)"
      using u(4) p on(2) leaf [OF p] by (simp add: cleared_def)
    with unmapped_paths [OF free, of p] show "if p \<in> page_paths 0 b then \<not> bit (pte_at (pmem s') new p) 0
        else pte_at (pmem s') new p = pte_at (pmem s) new p" by (auto simp: P)
  next
    fix va assume "va < TRAPFRAME" "vpath va \<notin> page_paths 0 b"
    with shrunk_view [OF u(2-4) on(2), of va] s2(1) on(2) show "ubyte s' new va = ubyte s new va"
      by (simp add: same_view_def P)
  qed
  moreover have "vm_base s s'" using u(3) s2(3) by (simp add: vm_shrunk_def)
  ultimately show ?thesis using u(1,2) by blast
qed

lemma uvmcopy_step:
  assumes "va < MAXVA" "walk old va False s = Ok (pte, s)" "i = va" "i < sz"
  shows "uvmcopy_loop (Suc fuel) old new i sz s =
    (if pte = 0 \<or> \<not> bit (load64 (pmem s) pte) 0 then uvmcopy_loop fuel old new (i + PGSIZE) sz s
     else let e = load64 (pmem s) pte;
              s = (if e AND PTE_W \<noteq> 0 then s\<lparr>pmem := store64 (pmem s) pte (cowpte e)\<rparr> else s) in
       andThen (mappages new i PGSIZE (PTE2PA e) (PTE_FLAGS (cowpte e)) s) (\<lambda>(r, s).
         if r \<noteq> 0 then andThen (uvmunmap new 0 (i div PGSIZE) True s) (\<lambda>s. Ok (- 1, s))
         else uvmcopy_loop fuel old new (i + PGSIZE) sz (inc_refcnt (PTE2PA e) s)))"
  using assms by (auto simp: Let_def cowpte_def pte_flag_tests mem_simps)

lemma uvmcopy_loop_spec:
  fixes s :: "'a kmem_scheme"
  assumes "vm_inv s ps R own" "\<And>f. 0 \<le> own f" "old \<in> R" "new \<in> R" "old \<noteq> new" "pg_aligned i"
    and "i \<le> PGROUNDUP sz" "sz \<le> TRAPFRAME" "unmapped s new i (PGROUNDUP sz)"
    and "unat (PGROUNDUP sz - i) \<le> 4096 * fuel"
  shows "\<exists>x s' ps'. uvmcopy_loop fuel old new i sz s = Ok (x, s') \<and> vm_inv s' ps' R own \<and> vm_base s s' \<and>
    (x = 0 \<and> forked R old new (page_paths i sz) s s' \<or> x = - 1 \<and> unforked R new (page_paths 0 sz) s s')"
  using assms
proof (induction fuel arbitrary: i s ps)
  case 0
  then have "i = PGROUNDUP sz" by (auto simp: unat_eq_0)
  then have "\<not> i < sz" using aligned_less_up [OF 0(6,8)] by simp
  with 0 show ?case
    by (intro exI [of _ 0] exI [of _ s] exI [of _ ps]) (simp add: page_paths_empty forked_empty)
next
  case (Suc fuel)
  note inv = Suc.prems(1) and own = Suc.prems(2) and on = Suc.prems(3-5)
  note up = PGROUNDUP_le(1) [OF Suc.prems(8)] and less = aligned_less_up [OF Suc.prems(6,8)]
  note P = page_paths_up [OF Suc.prems(8)]
  show ?case
  proof (cases "i < sz")
    case False
    with inv show ?thesis
      by (intro exI [of _ 0] exI [of _ s] exI [of _ ps]) (simp add: page_paths_empty forked_empty)
  next
    case True
    then have ib: "i < PGROUNDUP sz" using less by simp
    note step = page_step [OF Suc.prems(6) PGROUNDUP_aligned ib]
    have tf: "i < TRAPFRAME" using less_le_trans [OF True Suc.prems(8)] .
    have mx: "i < MAXVA" using upath_vpath(2) [OF Suc.prems(6) tf] .
    have free: "\<not> bit (pte_at (pmem s) new (vpath i)) 0" using Suc.prems(6,9) ib by (simp add: unmapped_def)
    have fuel: "unat (PGROUNDUP sz - (i + PGSIZE)) \<le> 4096 * fuel" using step(3) Suc.prems(10) by simp
    have paths: "page_paths i sz = {vpath i} \<union> page_paths (i + PGSIZE) sz" using step(4) unfolding P by simp
    have in_P: "vpath i \<in> page_paths 0 sz" using Suc.prems(6) True by (auto simp: page_paths_def)
    have fresh: "vpath i \<notin> page_paths (i + PGSIZE) sz"
      using vpath_next(1) [OF Suc.prems(6) True Suc.prems(8)] by (fastforce simp: page_paths_def)
    have go: "\<exists>x s' ps'. uvmcopy_loop fuel old new (i + PGSIZE) sz s1 = Ok (x, s') \<and> vm_inv s' ps' R own \<and> vm_base s s' \<and>
        (x = 0 \<and> forked R old new (page_paths i sz) s s' \<or> x = - 1 \<and> unforked R new (page_paths 0 sz) s s')"
      if h: "vm_inv s1 ps1 R own" "vm_base s s1" "forked R old new {vpath i} s s1" for s1 ps1
    proof -
      have "unmapped s1 new (i + PGSIZE) (PGROUNDUP sz)"
        by (rule unmapped_step [OF Suc.prems(9,6) ib up]) (use forkedD(4) [OF h(3)] in simp)
      then obtain x s' ps' where r: "uvmcopy_loop fuel old new (i + PGSIZE) sz s1 = Ok (x, s')" "vm_inv s' ps' R own"
        "vm_base s1 s'" "x = 0 \<and> forked R old new (page_paths (i + PGSIZE) sz) s1 s' \<or>
          x = - 1 \<and> unforked R new (page_paths 0 sz) s1 s'"
        using Suc.IH [OF h(1) own on step(1,2) Suc.prems(8) _ fuel] by blast
      moreover have "forked R old new (page_paths i sz) s s'" if "forked R old new (page_paths (i + PGSIZE) sz) s1 s'"
        using forked_trans [OF h(3) that on(1,3)] fresh unfolding paths by simp
      ultimately show ?thesis using h(2) unforked_after [OF h(3) _ in_P] by (intro exI [of _ x] exI [of _ s'] exI [of _ ps']) auto
    qed
    from mx show ?thesis
    proof (rule walk_find)
      assume w: "walk old i False s = Ok (0, s)" "pte_at (pmem s) old (vpath i) = 0"
      with go [OF inv _ forked_skip] free show ?thesis by (simp add: uvmcopy_step [OF mx w(1) refl True] del: uvmcopy_loop.simps)
    next
      fix t assume w: "walk old i False s = Ok (slot t (PX 0 i), s)" "tab (pmem s) old (upper 2 i) = Some t"
        "pte_at (pmem s) old (vpath i) = load64 (pmem s) (slot t (PX 0 i))"
      note nz = slot_walk_nonzero [OF vm_pt [OF inv] on(1) w(2)]
      note loop = uvmcopy_step [OF mx w(1) refl True, folded w(3)]
      let ?e = "pte_at (pmem s) old (vpath i)"
      show ?thesis
      proof (cases "bit ?e 0")
        case False
        with go [OF inv _ forked_skip [OF False free]] show ?thesis by (simp add: loop del: uvmcopy_loop.simps)
      next
        case True
        show ?thesis
        proof (rule share_page [OF inv on Suc.prems(6) tf refl True free w(2)])
          let ?s1 = "if ?e AND PTE_W \<noteq> 0 then install s t (PX 0 i) (cowpte ?e) else s"
          fix s2 assume m: "mappages new i PGSIZE (PTE2PA ?e) (PTE_FLAGS (cowpte ?e)) ?s1 = Ok (- 1, s2)"
            "vm_inv s2 [] R own" "vm_base s s2" "same_view R s s2" "leaf_upd R old (vpath i) (cowpte ?e) (pmem s) (pmem s2)"
          obtain s' ps' where u: "uvmunmap new 0 (i div PGSIZE) True s2 = Ok s'" "vm_inv s' ps' R own" "vm_base s s'"
            "unforked R new (page_paths 0 sz) s s'"
            using uvmcopy_undo [OF m(2) own on Suc.prems(6) tf Suc.prems(7) m(4,5,3) Suc.prems(9)] unfolding P by auto
          have "uvmcopy_loop (Suc fuel) old new i sz s = Ok (- 1, s')"
            unfolding loop Let_def using nz True m(1) u(1) by simp
          with u(2-) show ?thesis by blast
        next
          let ?s1 = "if ?e AND PTE_W \<noteq> 0 then install s t (PX 0 i) (cowpte ?e) else s"
          fix s2 ps2 assume m: "mappages new i PGSIZE (PTE2PA ?e) (PTE_FLAGS (cowpte ?e)) ?s1 = Ok (0, s2)"
            "vm_inv (inc_refcnt (PTE2PA ?e) s2) ps2 R own" "vm_base s s2"
            "forked R old new {vpath i} s (inc_refcnt (PTE2PA ?e) s2)"
          have "uvmcopy_loop (Suc fuel) old new i sz s =
              uvmcopy_loop fuel old new (i + PGSIZE) sz (inc_refcnt (PTE2PA ?e) s2)"
            unfolding loop Let_def using nz True m(1) by simp
          with go [OF m(2) _ m(4)] m(3) show ?thesis by (simp add: inc_refcnt_def)
        qed
      qed
    qed
  qed
qed

text \<open>What \<open>fork\<close> relies on: the child starts without user memory.\<close>

lemma uvmcopy_spec:
  fixes s :: "'a kmem_scheme"
  assumes inv: "vm_inv s ps R own" and own: "\<And>f. 0 \<le> own f" and on: "old \<in> R" "new \<in> R" "old \<noteq> new"
    and sz: "sz \<le> TRAPFRAME" and free: "unmapped s new 0 (PGROUNDUP sz)"
  shows "\<exists>x s' ps'. uvmcopy old new sz s = Ok (x, s') \<and> vm_inv s' ps' R own \<and> vm_base s s' \<and>
    (x = 0 \<and> forked R old new (page_paths 0 sz) s s' \<or> x = - 1 \<and> unforked R new (page_paths 0 sz) s s')"
proof -
  have "(unat sz + 4095) div 4096 \<le> unat sz div 4096 + 1"
    using div_le_mono [of "unat sz + 4095" "unat sz + 4096" 4096] by simp
  then have "(unat sz + 4095) div 4096 * 4096 \<le> (unat sz div 4096 + 1) * 4096" by (rule mult_le_mono1)
  then have "unat (PGROUNDUP sz - 0) \<le> 4096 * (unat (sz div PGSIZE) + 1)"
    by (simp add: PGROUNDUP_le(2) [OF sz] unat_div)
  from uvmcopy_loop_spec [OF inv own on _ word_zero_le sz free this] show ?thesis
    unfolding uvmcopy_def by (simp add: pg_aligned_def del: uvmcopy_loop.simps)
qed

end
