(* ===== verification/Vmachine.thy ===== *)
theory Vmachine
  imports Forkcopy
begin

text \<open>
  The address spaces as a machine.  A state holds the memory and, for every live page table,
  the size of its process; a step is one call of an operation of \<open>vm.c\<close> with the arguments
  its callers pass (\<open>uvmcreate\<close>, \<open>uvmalloc\<close>, \<open>uvmdealloc\<close>, the size change of the
  lazy \<open>sbrk\<close>, \<open>vmfault\<close>, \<open>copyout\<close>, \<open>copyin\<close>, \<open>uvmcopy\<close>,
  \<open>uvmfree\<close>).  Above it stands the machine the callers believe in, where every process
  has a memory of its own and fork copies it; the copy-on-write machine refines it.
\<close>

section \<open>The machine of vm.c\<close>

type_synonym machine = "kmem \<times> (u64 \<rightharpoonup> u64)"

datatype vm_op =
    Create u64                    \<comment> \<open>the new page table, 0 when out of memory\<close>
  | Grow u64 u64 u64 u64          \<comment> \<open>page table, new size, permissions, result\<close>
  | Lazy u64 u64                  \<comment> \<open>page table, new size\<close>
  | Shrink u64 u64                \<comment> \<open>page table, new size\<close>
  | Fault u64 u64 bool u64        \<comment> \<open>page table, address, read?, result\<close>
  | Copyout u64 u64 "u8 list" int \<comment> \<open>page table, address, bytes, result\<close>
  | Copyin u64 u64 "u8 list" int  \<comment> \<open>page table, address, bytes read, result\<close>
  | Fork u64 u64 int              \<comment> \<open>parent, child, result\<close>
  | Free u64                      \<comment> \<open>page table\<close>

inductive vm_step :: "vm_op \<Rightarrow> machine \<Rightarrow> machine \<Rightarrow> bool" where
  vm_create: "uvmcreate s = (n, s') \<Longrightarrow> n \<noteq> 0 \<Longrightarrow> vm_step (Create n) (s, sz) (s', sz(n \<mapsto> 0))"
| vm_nomem: "uvmcreate s = (0, s') \<Longrightarrow> vm_step (Create 0) (s, sz) (s', sz)"
| vm_grow: "sz r = Some old \<Longrightarrow> old \<le> n \<Longrightarrow> n \<le> TRAPFRAME \<Longrightarrow> PTE_R OR PTE_U OR xperm < 0x400 \<Longrightarrow>
    uvmalloc r old n xperm s = Ok (x, s') \<Longrightarrow>
    vm_step (Grow r n xperm x) (s, sz) (s', if x = 0 then sz else sz(r \<mapsto> x))"
| vm_lazy: "sz r = Some old \<Longrightarrow> old \<le> n \<Longrightarrow> n \<le> TRAPFRAME \<Longrightarrow> vm_step (Lazy r n) (s, sz) (s, sz(r \<mapsto> n))"
| vm_shrink: "sz r = Some old \<Longrightarrow> n \<le> old \<Longrightarrow> uvmdealloc r old n s = Ok (x, s') \<Longrightarrow>
    vm_step (Shrink r n) (s, sz) (s', sz(r \<mapsto> x))"
| vm_fault: "sz r = Some old \<Longrightarrow> vmfault old r va rd s = Ok (x, s') \<Longrightarrow>
    vm_step (Fault r va rd x) (s, sz) (s', sz)"
| vm_copyout: "sz r = Some old \<Longrightarrow> copyout old r va bs s = Ok (x, s') \<Longrightarrow>
    vm_step (Copyout r va bs x) (s, sz) (s', sz)"
| vm_copyin: "sz r = Some old \<Longrightarrow> copyin old r va len s = Ok (x, bs, s') \<Longrightarrow>
    vm_step (Copyin r va bs x) (s, sz) (s', sz)"
| vm_fork: "sz old = Some n \<Longrightarrow> sz new = Some 0 \<Longrightarrow> old \<noteq> new \<Longrightarrow> uvmcopy old new n s = Ok (x, s') \<Longrightarrow>
    vm_step (Fork old new x) (s, sz) (s', if x = 0 then sz(new \<mapsto> n) else sz)"
| vm_free: "sz r = Some n \<Longrightarrow> uvmfree r n s = Ok s' \<Longrightarrow> vm_step (Free r) (s, sz) (s', sz(r := None))"

text \<open>The user mappings of a process lie below its size.\<close>

definition fits :: "kmem \<Rightarrow> u64 \<Rightarrow> u64 \<Rightarrow> bool" where
  "fits s r n \<longleftrightarrow> (\<forall>p. lpath p \<longrightarrow> bit (pte_at (pmem s) r p) 0 \<longrightarrow> p \<in> page_paths 0 n)"

definition mach_inv :: "machine \<Rightarrow> bool" where
  "mach_inv = (\<lambda>(s, sz). (\<exists>ps. vm_inv s ps (dom sz) (\<lambda>_. 0)) \<and>
     (\<forall>r n. sz r = Some n \<longrightarrow> n \<le> TRAPFRAME \<and> fits s r n))"

section \<open>The machine the callers believe in\<close>

type_synonym amem = "u64 \<rightharpoonup> u64 \<Rightarrow> u8"

definition view :: "machine \<Rightarrow> amem" where
  "view = (\<lambda>(s, sz) r. map_option (\<lambda>_ va. if va < TRAPFRAME then ubyte s r va else 0) (sz r))"

inductive as_step :: "vm_op \<Rightarrow> amem \<Rightarrow> amem \<Rightarrow> bool" where
  as_create: "n \<noteq> 0 \<Longrightarrow> A n = None \<Longrightarrow> as_step (Create n) A (A(n \<mapsto> \<lambda>_. 0))"
| as_nomem: "as_step (Create 0) A A"
| as_grow: "as_step (Grow r n xperm x) A A"
| as_lazy: "as_step (Lazy r n) A A"
| as_shrink: "A r = Some f \<Longrightarrow> as_step (Shrink r n) A (A(r \<mapsto> \<lambda>y. if y < PGROUNDUP n then f y else 0))"
| as_fault: "as_step (Fault r va rd x) A A"
| as_copyout: "A r = Some f \<Longrightarrow> x = 0 \<and> k = length bs \<or> x = - 1 \<and> k \<le> length bs \<Longrightarrow>
    as_step (Copyout r va bs x) A (A(r \<mapsto> \<lambda>y. if y < TRAPFRAME \<and> unat va \<le> unat y \<and> unat y < unat va + k
      then bs ! (unat y - unat va) else f y))"
| as_copyin: "A r = Some f \<Longrightarrow> \<forall>i<length bs. bs ! i = f (va + of_nat i) \<Longrightarrow> as_step (Copyin r va bs x) A A"
| as_fork: "A old = Some f \<Longrightarrow> as_step (Fork old new 0) A (A(new \<mapsto> f))"
| as_nofork: "x \<noteq> 0 \<Longrightarrow> as_step (Fork old new x) A A"
| as_free: "as_step (Free r) A (A(r := None))"

lemma view_Some: "view (s, sz) r = Some f \<longleftrightarrow>
    (\<exists>n. sz r = Some n) \<and> f = (\<lambda>va. if va < TRAPFRAME then ubyte s r va else 0)"
  by (auto simp: view_def)

lemma view_eqI:
  assumes "dom sz' = dom sz" "same_view (dom sz) s s'"
  shows "view (s', sz') = view (s, sz)"
proof
  fix r
  have "sz r = None \<longleftrightarrow> sz' r = None" using assms(1) by auto
  with assms(2) show "view (s', sz') r = view (s, sz) r"
    by (cases "sz r"; cases "sz' r") (auto simp: view_def same_view_def fun_eq_iff)
qed

lemma view_updI:
  assumes "dom sz' = insert r (dom sz)" "\<And>r'. r' \<in> dom sz \<Longrightarrow> r' \<noteq> r \<Longrightarrow> \<forall>va<TRAPFRAME. ubyte s' r' va = ubyte s r' va"
    and "\<And>va. f va = (if va < TRAPFRAME then ubyte s' r va else 0)"
  shows "view (s', sz') = (view (s, sz))(r \<mapsto> f)"
proof
  fix r'
  show "view (s', sz') r' = ((view (s, sz))(r \<mapsto> f)) r'"
  proof (cases "r' = r")
    case True
    with assms(1,3) show ?thesis by (cases "sz' r") (auto simp: view_def fun_eq_iff)
  next
    case False
    then have "sz r' = None \<longleftrightarrow> sz' r' = None" using assms(1) by auto
    with False assms(2) show ?thesis by (cases "sz r'"; cases "sz' r'") (auto simp: view_def fun_eq_iff)
  qed
qed

section \<open>Every step keeps the invariant and is a step above\<close>

lemma fits_unmapped:
  assumes "fits s r n" "n \<le> TRAPFRAME" "b \<le> TRAPFRAME"
  shows "unmapped s r (PGROUNDUP n) b"
  unfolding unmapped_def
proof (intro allI impI notI)
  fix x assume x: "pg_aligned x" "PGROUNDUP n \<le> x" "x < b" "bit (pte_at (pmem s) r (vpath x)) 0"
  then have "vpath x \<in> page_paths 0 n" using assms(1) by (simp add: fits_def)
  then obtain y where y: "vpath x = vpath y" "pg_aligned y" "y < n" by (auto simp: page_paths_def)
  have "x < TRAPFRAME" "y < TRAPFRAME" using x(3) y(3) assms(2,3) by auto
  then have "x = y" using vpath_page [of x y] x(1) y by (simp add: PGROUNDDOWN_id)
  with y(3) x(2) aligned_less_up [OF y(2) assms(2)] show False by auto
qed

lemma fits_view:
  assumes "fits s r n" "vpath va \<notin> page_paths 0 n"
  shows "ubyte s r va = 0"
  using assms by (intro ubyte_unmapped) (auto simp: fits_def)

lemma page_paths_mono: "a \<le> b \<Longrightarrow> page_paths 0 a \<subseteq> page_paths 0 b"
  by (auto simp: page_paths_def)

lemma fits_mono: "fits s r a \<Longrightarrow> a \<le> b \<Longrightarrow> fits s r b"
  using page_paths_mono by (auto simp: fits_def)

lemma mach_sizes:
  assumes "mach_inv (s, sz)" "sz r = Some n"
  shows "n \<le> TRAPFRAME" "fits s r n"
  using assms by (auto simp: mach_inv_def)

lemma mach_invI:
  assumes "vm_inv s ps (dom sz) (\<lambda>_. 0)" "\<And>r n. sz r = Some n \<Longrightarrow> n \<le> TRAPFRAME \<and> fits s r n"
  shows "mach_inv (s, sz)"
  using assms by (auto simp: mach_inv_def)

text \<open>An operation that leaves the leaves of the other address spaces alone keeps their sizes
  right.\<close>

lemma fits_cong:
  assumes "\<And>p. lpath p \<Longrightarrow> bit (pte_at (pmem s') r p) 0 \<Longrightarrow> bit (pte_at (pmem s) r p) 0" "fits s r n"
  shows "fits s' r n"
  using assms by (simp add: fits_def)

lemma withinD: "within R r n s s' \<Longrightarrow> r' \<in> R \<Longrightarrow> lpath p \<Longrightarrow> r' \<noteq> r \<or> p \<notin> page_paths 0 n \<Longrightarrow>
    pte_at (pmem s') r' p = pte_at (pmem s) r' p"
  by (auto simp: within_def)

lemma grownD: "grown R r P fl (pmem s) (pmem s') \<Longrightarrow> r' \<in> R \<Longrightarrow> lpath p \<Longrightarrow> r' \<noteq> r \<or> p \<notin> P \<Longrightarrow>
    pte_at (pmem s') r' p = pte_at (pmem s) r' p"
  by (auto simp: grown_def)

lemma droppedD:
  assumes "dropped R r P s s'" "r' \<in> R"
  shows "lpath p \<Longrightarrow> r' \<noteq> r \<or> p \<notin> P \<Longrightarrow> pte_at (pmem s') r' p = pte_at (pmem s) r' p"
    "lpath p \<Longrightarrow> r' = r \<Longrightarrow> p \<in> P \<Longrightarrow> \<not> bit (pte_at (pmem s') r p) 0"
    "va < TRAPFRAME \<Longrightarrow> ubyte s' r' va = (if r' = r \<and> vpath va \<in> P then 0 else ubyte s r' va)"
  using assms unfolding dropped_def by blast+

lemma within_inv:
  assumes m: "mach_inv (s, sz)" and r: "sz r = Some n" and "vm_inv s' ps' (dom sz) (\<lambda>_. 0)" "within (dom sz) r n s s'"
  shows "mach_inv (s', sz)"
proof -
  obtain ps where inv: "vm_inv s ps (dom sz) (\<lambda>_. 0)" using m by (auto simp: mach_inv_def)
  note size = mach_sizes [OF m]
  have "fits s' r' k" if k: "sz r' = Some k" for r' k
  proof (cases "r' = r")
    case True
    with r k have eq: "k = n" by simp
    have "p \<in> page_paths 0 n" if "lpath p" "bit (pte_at (pmem s') r p) 0" for p
    proof (rule ccontr)
      assume "p \<notin> page_paths 0 n"
      with withinD [OF assms(4) domI [of sz, OF r] that(1)] that have "bit (pte_at (pmem s) r p) 0" by auto
      with size(2) [OF r] that \<open>p \<notin> page_paths 0 n\<close> show False by (simp add: fits_def)
    qed
    then show ?thesis by (simp add: fits_def True eq)
  next
    case False
    have "bit (pte_at (pmem s') r' p) 0 \<Longrightarrow> bit (pte_at (pmem s) r' p) 0" if "lpath p" for p
      using withinD [OF assms(4) domI [of sz, OF k] that] False by simp
    then show ?thesis by (rule fits_cong [OF _ size(2) [OF k]])
  qed
  with size(1) show ?thesis by (intro mach_invI [OF assms(3)]) auto
qed

lemma create_ok:
  assumes "mach_inv (s, sz)"
  shows "\<exists>n s'. uvmcreate s = (n, s') \<and> (if n = 0 then mach_inv (s', sz) \<and> view (s', sz) = view (s, sz)
    else mach_inv (s', sz(n \<mapsto> 0)) \<and> sz n = None \<and> view (s', sz(n \<mapsto> 0)) = (view (s, sz))(n \<mapsto> \<lambda>_. 0))"
proof -
  obtain ps where inv: "vm_inv s ps (dom sz) (\<lambda>_. 0)" using assms by (auto simp: mach_inv_def)
  note size = mach_sizes [OF assms]
  show ?thesis
  proof (rule uvmcreate_spec [OF inv])
    fix n ps' s' assume u: "uvmcreate s = (n, s')" "n \<noteq> 0" "n \<notin> dom sz" "vm_inv s' ps' (insert n (dom sz)) (\<lambda>_. 0)"
      "same_view (dom sz) s s'" "same_leaves (dom sz) (pmem s) (pmem s')" "\<forall>p. lpath p \<longrightarrow> pte_at (pmem s') n p = 0"
    have "mach_inv (s', sz(n \<mapsto> 0))"
    proof (rule mach_invI)
      show "vm_inv s' ps' (dom (sz(n \<mapsto> 0))) (\<lambda>_. 0)" using u(4) by simp
      fix r k assume k: "(sz(n \<mapsto> 0)) r = Some k"
      show "k \<le> TRAPFRAME \<and> fits s' r k"
      proof (cases "r = n")
        case True
        with u(7) k show ?thesis by (auto simp: fits_def)
      next
        case False
        with k have k': "sz r = Some k" by simp
        have "pte_at (pmem s') r p = pte_at (pmem s) r p" if "lpath p" for p
          using same_leavesD [OF u(6) domI [of sz, OF k'] that] .
        then show ?thesis using size [OF k'] by (simp add: fits_def)
      qed
    qed
    moreover have "view (s', sz(n \<mapsto> 0)) = (view (s, sz))(n \<mapsto> \<lambda>_. 0)"
      by (rule view_updI) (use u(5,7) ubyte_unmapped [of s' n] in \<open>auto simp: same_view_def\<close>)
    ultimately show ?thesis using u(1-3) by (intro exI [of _ n] exI [of _ s']) auto
  qed (use assms in simp)
qed

lemma grow_ok:
  assumes m: "mach_inv (s, sz)" and r: "sz r = Some old" and n: "old \<le> n" "n \<le> TRAPFRAME"
    and perm: "PTE_R OR PTE_U OR xperm < 0x400"
  shows "\<exists>x s'. uvmalloc r old n xperm s = Ok (x, s') \<and> mach_inv (s', if x = 0 then sz else sz(r \<mapsto> x)) \<and>
    view (s', if x = 0 then sz else sz(r \<mapsto> x)) = view (s, sz) \<and> (x = n \<or> x = 0)"
proof -
  obtain ps where inv: "vm_inv s ps (dom sz) (\<lambda>_. 0)" using m by (auto simp: mach_inv_def)
  note size = mach_sizes [OF m]
  have rd: "r \<in> dom sz" using r by auto
  let ?P = "page_paths (PGROUNDUP old) n"
  obtain x s' ps' where u: "uvmalloc r old n xperm s = Ok (x, s')" "vm_inv s' ps' (dom sz) (\<lambda>_. 0)"
    "same_view (dom sz) s s'"
    "x = n \<and> grown (dom sz) r ?P ((PTE_R OR PTE_U OR xperm) OR PTE_V) (pmem s) (pmem s') \<or>
     x = 0 \<and> dropped (dom sz) r ?P s s'"
    using uvmalloc_spec [OF inv _ rd n perm fits_unmapped [OF size(2,1) [OF r] PGROUNDUP_le(1) [OF n(2)]]] by auto
  let ?sz = "if x = 0 then sz else sz(r \<mapsto> x)"
  have d: "dom ?sz = dom sz" using rd by auto
  have leaf: "bit (pte_at (pmem s') r' p) 0 \<Longrightarrow> bit (pte_at (pmem s) r' p) 0 \<or> r' = r \<and> p \<in> ?P \<and> x = n"
    if "r' \<in> dom sz" "lpath p" for r' p
    using u(4) grownD [of "dom sz" r ?P _ s s', OF _ that] droppedD(1,2) [of "dom sz" r ?P s s' r' p, OF _ that(1) that(2)]
    by metis
  have P: "?P \<subseteq> page_paths 0 n" by (auto simp: page_paths_def)
  have "mach_inv (s', ?sz)"
  proof (rule mach_invI)
    show "vm_inv s' ps' (dom ?sz) (\<lambda>_. 0)" using u(2) d by simp
    fix r' k assume k: "?sz r' = Some k"
    then have r': "r' \<in> dom sz" using d by blast
    then obtain k0 where k0: "sz r' = Some k0" by auto
    have "k0 \<le> k \<and> (r' = r \<longrightarrow> x = n \<longrightarrow> k = n \<or> n = 0)"
      using k k0 r n u(4) by (auto split: if_splits)
    then have "fits s' r' k"
      using fits_mono [OF size(2) [OF k0], of k] leaf [OF r'] P by (fastforce simp: fits_def page_paths_def)
    moreover have "k \<le> TRAPFRAME" using k size(1) n u(4) by (auto split: if_splits)
    ultimately show "k \<le> TRAPFRAME \<and> fits s' r' k" by simp
  qed
  with u(1,4) view_eqI [OF d u(3)] show ?thesis by blast
qed

lemma PGROUNDUP_page:
  assumes "n \<le> TRAPFRAME"
  shows "va < PGROUNDUP n \<longleftrightarrow> PGROUNDDOWN va < PGROUNDUP n"
proof
  assume "va < PGROUNDUP n"
  moreover have "PGROUNDDOWN va \<le> va" by (simp add: word_le_nat_alt page_split [of va])
  ultimately show "PGROUNDDOWN va < PGROUNDUP n" by simp
qed (rule page_below, assumption, rule PGROUNDUP_aligned)

lemma shrink_ok:
  assumes m: "mach_inv (s, sz)" and r: "sz r = Some old" and n: "n \<le> old"
  shows "\<exists>s'. uvmdealloc r old n s = Ok (n, s') \<and> mach_inv (s', sz(r \<mapsto> n)) \<and>
    view (s', sz(r \<mapsto> n)) = (view (s, sz))(r \<mapsto> \<lambda>y. if y < PGROUNDUP n \<and> y < TRAPFRAME then ubyte s r y else 0)"
proof -
  obtain ps where inv: "vm_inv s ps (dom sz) (\<lambda>_. 0)" using m by (auto simp: mach_inv_def)
  note size = mach_sizes [OF m] and rd = domI [of sz, OF r]
  have tf: "n \<le> TRAPFRAME" using n size(1) [OF r] by simp
  let ?P = "page_paths (PGROUNDUP n) (PGROUNDUP old)"
  obtain s' ps' where u: "uvmdealloc r old n s = Ok (n, s')" "vm_inv s' ps' (dom sz) (\<lambda>_. 0)" "dropped (dom sz) r ?P s s'"
  proof (cases "n < old")
    case True
    obtain s' ps' where "uvmdealloc r old n s = Ok (n, s')" "vm_inv s' ps' (dom sz) (\<lambda>_. 0)"
      "vm_shrunk (dom sz) s ps s' ps'" "cleared (dom sz) r ?P (pmem s) (pmem s')"
      using uvmdealloc_spec [OF inv _ rd True size(1) [OF r]] by auto
    with dropped_cleared that show ?thesis by blast
  next
    case False
    with n have "old = n" by simp
    with inv show ?thesis
      by (intro that [of s ps]) (auto simp: uvmdealloc_def page_paths_empty intro: dropped_keeps)
  qed
  have P: "page_paths 0 old \<subseteq> page_paths 0 n \<union> ?P"
    using page_paths_split [OF word_zero_le PGROUNDUP_mono [OF n size(1) [OF r]]]
    unfolding page_paths_up [OF size(1) [OF r]] page_paths_up [OF tf] by simp
  have fit: "fits s' r n"
    unfolding fits_def
  proof (intro allI impI)
    fix p assume p: "lpath p" "bit (pte_at (pmem s') r p) 0"
    then have "p \<notin> ?P" "bit (pte_at (pmem s) r p) 0" using droppedD(1,2) [OF u(3) rd] by metis+
    with size(2) [OF r] p(1) P show "p \<in> page_paths 0 n" by (auto simp: fits_def)
  qed
  have "mach_inv (s', sz(r \<mapsto> n))"
  proof (rule mach_invI)
    show "vm_inv s' ps' (dom (sz(r \<mapsto> n))) (\<lambda>_. 0)" using u(2) rd by (simp add: insert_absorb)
    fix r' k assume k: "(sz(r \<mapsto> n)) r' = Some k"
    show "k \<le> TRAPFRAME \<and> fits s' r' k"
    proof (cases "r' = r")
      case False
      with k have k': "sz r' = Some k" by simp
      with False droppedD(1) [OF u(3) domI [of sz, OF k']] size [OF k'] show ?thesis by (simp add: fits_def)
    qed (use k fit tf in auto)
  qed
  moreover have "ubyte s' r va = (if va < PGROUNDUP n then ubyte s r va else 0)" if va: "va < TRAPFRAME" for va
  proof (cases "va < PGROUNDUP n")
    case True
    have "vpath va \<notin> ?P"
    proof
      assume "vpath va \<in> ?P"
      then obtain x where x: "vpath va = vpath x" "pg_aligned x" "PGROUNDUP n \<le> x" "x < PGROUNDUP old"
        by (auto simp: page_paths_def)
      have "x < TRAPFRAME" using x(4) PGROUNDUP_le(1) [OF size(1) [OF r]] by simp
      then have "PGROUNDDOWN va = x" using vpath_page [OF va, of x] x(1,2) by (simp add: PGROUNDDOWN_id)
      with x(3) True PGROUNDUP_page [OF tf, of va] show False by simp
    qed
    with droppedD(3) [OF u(3) rd va] True show ?thesis by simp
  next
    case False
    have "vpath va \<notin> page_paths 0 n"
    proof
      assume "vpath va \<in> page_paths 0 n"
      then obtain x where x: "vpath va = vpath x" "pg_aligned x" "x < n" by (auto simp: page_paths_def)
      have "x < TRAPFRAME" using x(3) tf by simp
      then have "PGROUNDDOWN va = x" using vpath_page [OF va, of x] x(1,2) by (simp add: PGROUNDDOWN_id)
      with x(2,3) aligned_less_up [OF x(2) tf] False PGROUNDUP_page [OF tf, of va] show False by simp
    qed
    with False fits_view [OF fit] show ?thesis by simp
  qed
  then have "view (s', sz(r \<mapsto> n)) = (view (s, sz))(r \<mapsto> \<lambda>y. if y < PGROUNDUP n \<and> y < TRAPFRAME then ubyte s r y else 0)"
    using droppedD(3) [OF u(3)] by (intro view_updI) auto
  ultimately show ?thesis using u(1) by blast
qed

lemma fault_ok:
  assumes m: "mach_inv (s, sz)" and r: "sz r = Some n"
  shows "\<exists>x s'. vmfault n r va rd s = Ok (x, s') \<and> mach_inv (s', sz) \<and> view (s', sz) = view (s, sz)"
proof -
  obtain ps where inv: "vm_inv s ps (dom sz) (\<lambda>_. 0)" using m by (auto simp: mach_inv_def)
  note size = mach_sizes [OF m r] and rd = domI [of sz, OF r]
  show ?thesis
  proof (rule vmfault_spec [OF inv _ rd size(1), of va rd])
    fix s' ps' assume f: "vmfault n r va rd s = Ok (0, s')" "vm_inv s' ps' (dom sz) (\<lambda>_. 0)"
      "same_leaves (dom sz) (pmem s) (pmem s')" "same_view (dom sz) s s'" "vm_base s s'"
    from within_inv [OF m r f(2) within_same [OF f(3,5)]] view_eqI [OF refl f(4)] f(1) show ?thesis by blast
  next
    fix k v s' ps' assume f: "vmfault n r va rd s = Ok (k, s')" "va < n" "vm_inv s' ps' (dom sz) (\<lambda>_. 0)"
      "leaf_upd (dom sz) r (vpath va) v (pmem s) (pmem s')" "same_view (dom sz) s s'" "vm_base s s'"
    from within_inv [OF m r f(3) within_fault [OF f(4,2,6)]] view_eqI [OF refl f(5)] f(1) show ?thesis by blast
  qed simp
qed

lemma copyout_ok:
  assumes m: "mach_inv (s, sz)" and r: "sz r = Some n"
  shows "\<exists>x s' k. copyout n r va bs s = Ok (x, s') \<and> mach_inv (s', sz) \<and>
    (x = 0 \<and> k = length bs \<or> x = - 1 \<and> k \<le> length bs) \<and> written (dom sz) r va (take k bs) s s'"
proof -
  obtain ps where inv: "vm_inv s ps (dom sz) (\<lambda>_. 0)" using m by (auto simp: mach_inv_def)
  obtain x s' ps' k where c: "copyout n r va bs s = Ok (x, s')" "vm_inv s' ps' (dom sz) (\<lambda>_. 0)"
    "within (dom sz) r n s s'" "x = 0 \<and> k = length bs \<or> x = - 1 \<and> k < length bs"
    "written (dom sz) r va (take k bs) s s'"
    using copyout_spec [OF inv _ domI [of sz, OF r] mach_sizes(1) [OF m r], of va bs] by auto
  moreover from c(4) have "x = 0 \<and> k = length bs \<or> x = - 1 \<and> k \<le> length bs" by auto
  ultimately show ?thesis using within_inv [OF m r c(2,3)] by blast
qed

lemma written_view:
  assumes r: "sz r = Some n" and w: "written (dom sz) r va (take k bs) s s'" "k \<le> length bs"
  shows "view (s', sz) = (view (s, sz))(r \<mapsto> \<lambda>y. if y < TRAPFRAME \<and> unat va \<le> unat y \<and> unat y < unat va + k
      then bs ! (unat y - unat va) else if y < TRAPFRAME then ubyte s r y else 0)"
proof (rule view_updI)
  show "dom sz = insert r (dom sz)" using r by auto
  show "\<forall>va<TRAPFRAME. ubyte s' r' va = ubyte s r' va" if "r' \<in> dom sz" "r' \<noteq> r" for r'
    using w(1) that by (simp add: written_def)
  fix y
  have "y < TRAPFRAME \<Longrightarrow> ubyte s' r y = (if unat va \<le> unat y \<and> unat y < unat va + k
      then bs ! (unat y - unat va) else ubyte s r y)"
    using w domI [of sz, OF r] by (auto simp: written_def)
  then show "(if y < TRAPFRAME \<and> unat va \<le> unat y \<and> unat y < unat va + k
      then bs ! (unat y - unat va) else if y < TRAPFRAME then ubyte s r y else 0) =
    (if y < TRAPFRAME then ubyte s' r y else 0)" by simp
qed

lemma copyin_ok:
  assumes m: "mach_inv (s, sz)" and r: "sz r = Some n"
  shows "\<exists>x bs s'. copyin n r va len s = Ok (x, bs, s') \<and> mach_inv (s', sz) \<and> view (s', sz) = view (s, sz) \<and>
    (x = 0 \<and> length bs = len \<or> x = - 1 \<and> length bs \<le> len) \<and>
    (\<forall>i<length bs. va + of_nat i < TRAPFRAME \<and> bs ! i = ubyte s r (va + of_nat i))"
proof -
  obtain ps where inv: "vm_inv s ps (dom sz) (\<lambda>_. 0)" using m by (auto simp: mach_inv_def)
  obtain x bs s' ps' where c: "copyin n r va len s = Ok (x, bs, s')" "vm_inv s' ps' (dom sz) (\<lambda>_. 0)"
    "within (dom sz) r n s s'" "same_view (dom sz) s s'" "x = 0 \<and> length bs = len \<or> x = - 1 \<and> length bs \<le> len"
    "seen s r va bs" "bs \<noteq> [] \<longrightarrow> unat va + length bs \<le> unat TRAPFRAME"
    using copyin_spec [OF inv _ domI [of sz, OF r] mach_sizes(1) [OF m r], of va len] by auto
  have "va + of_nat i < TRAPFRAME" if "i < length bs" for i
  proof -
    have room: "unat va + length bs \<le> unat TRAPFRAME" using c(7) that by auto
    then have "unat (va + of_nat i) = unat va + i"
      using that by (simp add: unat_plus_no_wrap unat_of_nat_small)
    with room that show ?thesis unfolding word_less_nat_alt by simp
  qed
  with c within_inv [OF m r c(2,3)] view_eqI [OF refl c(4)] show ?thesis
    by (intro exI [of _ x] exI [of _ bs] exI [of _ s']) (simp add: seen_def)
qed

lemma fork_ok:
  assumes m: "mach_inv (s, sz)" and on: "sz old = Some n" "sz new = Some 0" "old \<noteq> new"
  shows "\<exists>x s'. uvmcopy old new n s = Ok (x, s') \<and>
    (x = 0 \<and> mach_inv (s', sz(new \<mapsto> n)) \<and>
       view (s', sz(new \<mapsto> n)) = (view (s, sz))(new \<mapsto> \<lambda>va. if va < TRAPFRAME then ubyte s old va else 0) \<or>
     x = - 1 \<and> mach_inv (s', sz) \<and> view (s', sz) = view (s, sz))"
proof -
  obtain ps where inv: "vm_inv s ps (dom sz) (\<lambda>_. 0)" using m by (auto simp: mach_inv_def)
  note size = mach_sizes [OF m] and od = domI [of sz, OF on(1)] and nd = domI [of sz, OF on(2)]
  have empty: "\<not> bit (pte_at (pmem s) new p) 0" if "lpath p" for p
    using size(2) [OF on(2)] that by (auto simp: fits_def page_paths_empty)
  then have un: "unmapped s new 0 (PGROUNDUP n)" by (simp add: unmapped_def)
  let ?P = "page_paths 0 n"
  obtain x s' ps' where u: "uvmcopy old new n s = Ok (x, s')" "vm_inv s' ps' (dom sz) (\<lambda>_. 0)"
    "x = 0 \<and> forked (dom sz) old new ?P s s' \<or> x = - 1 \<and> unforked (dom sz) new ?P s s'"
    using uvmcopy_spec [OF inv _ od nd on(3) size(1) [OF on(1)] un] by auto
  from u(3) show ?thesis
  proof
    assume f: "x = 0 \<and> forked (dom sz) old new ?P s s'"
    note D = forkedD [OF conjunct2 [OF f]]
    have leaf: "bit (pte_at (pmem s') r p) 0 \<Longrightarrow> bit (pte_at (pmem s) (if r = new then old else r) p) 0"
      if "r \<in> dom sz" "lpath p" for r p
      using D(3,4) [OF that(2)] D(5) [OF that(1) _ _ that(2)] empty [OF that(2)]
      by (cases "p \<in> ?P \<and> bit (pte_at (pmem s) old p) 0"; cases "r = old"; cases "r = new") auto
    have "mach_inv (s', sz(new \<mapsto> n))"
    proof (rule mach_invI)
      show "vm_inv s' ps' (dom (sz(new \<mapsto> n))) (\<lambda>_. 0)" using u(2) nd by (simp add: insert_absorb)
      fix r k assume k: "(sz(new \<mapsto> n)) r = Some k"
      then have rd: "r \<in> dom sz" using nd by (auto split: if_splits)
      have "sz (if r = new then old else r) = Some k" using k on(1) by (auto split: if_splits)
      from size [OF this] leaf [OF rd] show "k \<le> TRAPFRAME \<and> fits s' r k" by (simp add: fits_def)
    qed
    moreover have "ubyte s' new va = ubyte s old va" if "va < TRAPFRAME" for va
      using D(2) [OF that] fits_view [OF size(2) [OF on(1)], of va] empty [OF lpath_vpath, of va] ubyte_unmapped by auto
    then have "view (s', sz(new \<mapsto> n)) = (view (s, sz))(new \<mapsto> \<lambda>va. if va < TRAPFRAME then ubyte s old va else 0)"
      using D(1) by (intro view_updI) auto
    ultimately show ?thesis using u(1) f by blast
  next
    assume f: "x = - 1 \<and> unforked (dom sz) new ?P s s'"
    then have U: "\<And>r va. r \<in> dom sz \<Longrightarrow> r \<noteq> new \<Longrightarrow> va < TRAPFRAME \<Longrightarrow> ubyte s' r va = ubyte s r va"
      "\<And>r p. r \<in> dom sz \<Longrightarrow> r \<noteq> new \<Longrightarrow> lpath p \<Longrightarrow> bit (pte_at (pmem s') r p) 0 = bit (pte_at (pmem s) r p) 0"
      "\<And>p. lpath p \<Longrightarrow> p \<in> ?P \<Longrightarrow> \<not> bit (pte_at (pmem s') new p) 0"
      "\<And>p. lpath p \<Longrightarrow> p \<notin> ?P \<Longrightarrow> pte_at (pmem s') new p = pte_at (pmem s) new p"
      unfolding unforked_def by (simp_all split: if_splits)
    have none: "\<not> bit (pte_at (pmem s') new p) 0" if "lpath p" for p
      using U(3,4) [OF that] empty [OF that] by (cases "p \<in> ?P") auto
    have "mach_inv (s', sz)"
    proof (rule mach_invI [OF u(2)])
      fix r k assume k: "sz r = Some k"
      show "k \<le> TRAPFRAME \<and> fits s' r k"
        using size [OF k] none U(2) [OF domI [of sz, OF k]] by (cases "r = new") (auto simp: fits_def)
    qed
    moreover have "same_view (dom sz) s s'"
      unfolding same_view_def
    proof (intro ballI allI impI)
      fix r va assume "r \<in> dom sz" "va < TRAPFRAME"
      then show "ubyte s' r va = ubyte s r va"
        using U(1) ubyte_unmapped [OF none [OF lpath_vpath], of va] ubyte_unmapped [OF empty [OF lpath_vpath], of va]
        by (cases "r = new") auto
    qed
    ultimately show ?thesis using u(1) f view_eqI [OF refl, of sz s s'] by blast
  qed
qed

lemma release_ok:
  assumes m: "mach_inv (s, sz)" and r: "sz r = Some n"
  shows "\<exists>s'. uvmfree r n s = Ok s' \<and> mach_inv (s', sz(r := None)) \<and> view (s', sz(r := None)) = (view (s, sz))(r := None)"
proof -
  obtain ps where inv: "vm_inv s ps (dom sz) (\<lambda>_. 0)" using m by (auto simp: mach_inv_def)
  note size = mach_sizes [OF m] and rd = domI [of sz, OF r]
  obtain s' ps' where f: "uvmfree r n s = Ok s'" "vm_inv s' ps' (dom sz - {r}) (\<lambda>_. 0)"
    "same_view (dom sz - {r}) s s'" "same_leaves (dom sz - {r}) (pmem s) (pmem s')"
    using uvmfree_spec [OF inv _ rd size(1) [OF r]] size(2) [OF r] by (auto simp: fits_def)
  have "mach_inv (s', sz(r := None))"
  proof (rule mach_invI)
    show "vm_inv s' ps' (dom (sz(r := None))) (\<lambda>_. 0)" using f(2) by simp
    fix r' k assume "(sz(r := None)) r' = Some k"
    then have k: "sz r' = Some k" "r' \<in> dom sz - {r}" by (auto split: if_splits)
    with size [OF k(1)] same_leavesD [OF f(4) k(2)] show "k \<le> TRAPFRAME \<and> fits s' r' k" by (simp add: fits_def)
  qed
  moreover have "view (s', sz(r := None)) = (view (s, sz))(r := None)"
  proof
    fix r'
    have "va < TRAPFRAME \<Longrightarrow> ubyte s' r' va = ubyte s r' va" if "r' \<noteq> r" "sz r' = Some k" for k va
      using f(3) that domI [of sz, OF that(2)] by (simp add: same_view_def)
    then show "view (s', sz(r := None)) r' = ((view (s, sz))(r := None)) r'"
      by (cases "sz r'") (auto simp: view_def fun_eq_iff)
  qed
  ultimately show ?thesis using f(1) by blast
qed

section \<open>The simulation\<close>

lemma vm_step_sim:
  assumes "vm_step op c c'" "mach_inv c"
  shows "mach_inv c' \<and> as_step op (view c) (view c')"
  using assms
proof (induction rule: vm_step.induct)
  case (vm_create s n s' sz)
  with create_ok [of s sz] have "mach_inv (s', sz(n \<mapsto> 0)) \<and> view (s, sz) n = None \<and>
      view (s', sz(n \<mapsto> 0)) = (view (s, sz))(n \<mapsto> \<lambda>_. 0)" by (auto simp: view_def)
  then have v: "view (s', sz(n \<mapsto> 0)) = (view (s, sz))(n \<mapsto> \<lambda>_. 0)" "view (s, sz) n = None"
    "mach_inv (s', sz(n \<mapsto> 0))" by blast+
  from v(3) as_create [of n "view (s, sz)", OF vm_create(2) v(2)] show ?case unfolding v(1) by blast
next
  case (vm_nomem s s' sz)
  with create_ok [of s sz] as_nomem show ?case by auto
next
  case (vm_grow sz r old n xperm s x s')
  with grow_ok [OF vm_grow(6,1-4)] as_grow show ?case by (auto split: if_splits)
next
  case (vm_lazy sz r old n s)
  obtain ps where inv: "vm_inv s ps (dom sz) (\<lambda>_. 0)" using vm_lazy(4) by (auto simp: mach_inv_def)
  have d: "dom (sz(r \<mapsto> n)) = dom sz" using vm_lazy(1) by auto
  have "mach_inv (s, sz(r \<mapsto> n))"
    by (rule mach_invI [of s ps])
      (use inv d vm_lazy(2,3) mach_sizes [OF vm_lazy(4)] fits_mono [OF mach_sizes(2) [OF vm_lazy(4,1)] vm_lazy(2)]
        in \<open>auto split: if_splits\<close>)
  with view_eqI [OF d, of s s] as_lazy show ?case by simp
next
  case (vm_shrink sz r old n s x s')
  let ?f = "\<lambda>va. if va < TRAPFRAME then ubyte s r va else 0"
  have f: "view (s, sz) r = Some ?f" using vm_shrink(1) by (simp add: view_def)
  have "x = n \<and> mach_inv (s', sz(r \<mapsto> n)) \<and> view (s', sz(r \<mapsto> n)) = (view (s, sz))(r \<mapsto>
      \<lambda>y. if y < PGROUNDUP n \<and> y < TRAPFRAME then ubyte s r y else 0)"
    using shrink_ok [OF vm_shrink(4,1,2)] vm_shrink(3) by auto
  moreover have "(\<lambda>y. if y < PGROUNDUP n \<and> y < TRAPFRAME then ubyte s r y else 0) =
      (\<lambda>y. if y < PGROUNDUP n then ?f y else 0)" by auto
  ultimately have v: "x = n" "mach_inv (s', sz(r \<mapsto> n))" "view (s', sz(r \<mapsto> n)) = (view (s, sz))(r \<mapsto>
      \<lambda>y. if y < PGROUNDUP n then ?f y else 0)" by simp_all
  from v(2) as_shrink [of "view (s, sz)" r ?f n, OF f] show ?case unfolding v(1,3) by blast
next
  case (vm_fault sz r old va rd s x s')
  with fault_ok [OF vm_fault(3,1), of va rd] as_fault show ?case by auto
next
  case (vm_copyout sz r old va bs s x s')
  let ?f = "\<lambda>va. if va < TRAPFRAME then ubyte s r va else 0"
  have f: "view (s, sz) r = Some ?f" using vm_copyout(1) by (simp add: view_def)
  obtain k where k: "mach_inv (s', sz)" "x = 0 \<and> k = length bs \<or> x = - 1 \<and> k \<le> length bs"
    "written (dom sz) r va (take k bs) s s'"
    using copyout_ok [OF vm_copyout(3,1), of va bs] vm_copyout(2) by auto
  have le: "k \<le> length bs" using k(2) by auto
  note v = written_view [of sz r, OF vm_copyout(1) k(3) le]
  from as_copyout [of "view (s, sz)" r ?f x k bs va, OF f k(2)] k(1) show ?case unfolding v by blast
next
  case (vm_copyin sz r old va len s x bs s')
  let ?f = "\<lambda>va. if va < TRAPFRAME then ubyte s r va else 0"
  have f: "view (s, sz) r = Some ?f" using vm_copyin(1) by (simp add: view_def)
  have "mach_inv (s', sz) \<and> view (s', sz) = view (s, sz) \<and> (\<forall>i<length bs. bs ! i = ?f (va + of_nat i))"
    using copyin_ok [OF vm_copyin(3,1), of va len] vm_copyin(2) by auto
  then have v: "mach_inv (s', sz)" "view (s', sz) = view (s, sz)" "\<forall>i<length bs. bs ! i = ?f (va + of_nat i)" by blast+
  from v(1) as_copyin [of "view (s, sz)" r ?f bs va x, OF f v(3)] show ?case unfolding v(2) by blast
next
  case (vm_fork sz old n new s x s')
  let ?f = "\<lambda>va. if va < TRAPFRAME then ubyte s old va else 0"
  have f: "view (s, sz) old = Some ?f" using vm_fork(1) by (simp add: view_def)
  obtain y s1 where k: "uvmcopy old new n s = Ok (y, s1)"
    "y = 0 \<and> mach_inv (s1, sz(new \<mapsto> n)) \<and> view (s1, sz(new \<mapsto> n)) = (view (s, sz))(new \<mapsto> ?f) \<or>
     y = - 1 \<and> mach_inv (s1, sz) \<and> view (s1, sz) = view (s, sz)"
    using fork_ok [of s sz old n new, OF vm_fork(5,1-3)] by blast
  have eq: "y = x" "s1 = s'" using k(1) vm_fork(4) by simp_all
  show ?case
  proof (cases "x = 0")
    case True
    then have v: "view (s', sz(new \<mapsto> n)) = (view (s, sz))(new \<mapsto> ?f)" and m: "mach_inv (s', sz(new \<mapsto> n))"
      using k(2) eq by auto
    show ?thesis unfolding True if_P [OF refl] v using m as_fork [of "view (s, sz)" old ?f new, OF f] by blast
  next
    case False
    with k(2) eq as_nofork [OF False] show ?thesis by auto
  qed
next
  case (vm_free sz r n s s')
  then have v: "view (s', sz(r := None)) = (view (s, sz))(r := None)" and m: "mach_inv (s', sz(r := None))"
    using release_ok [of s sz r n, OF vm_free(3,1)] by simp_all
  show ?case unfolding v using m as_free [of r "view (s, sz)"] by blast
qed

lemma vm_step_fork_ne: "vm_step (Fork old new x) c c' \<Longrightarrow> old \<noteq> new"
  by (auto elim: vm_step.cases)

text \<open>Runs, with the operations they perform.\<close>

inductive vm_run :: "machine \<Rightarrow> vm_op list \<Rightarrow> machine \<Rightarrow> bool" for c :: machine where
  vm_run_Nil: "vm_run c [] c"
| vm_run_snoc: "vm_run c ops c1 \<Longrightarrow> vm_step op c1 c2 \<Longrightarrow> vm_run c (ops @ [op]) c2"

inductive as_run :: "amem \<Rightarrow> vm_op list \<Rightarrow> amem \<Rightarrow> bool" for A :: amem where
  as_run_Nil: "as_run A [] A"
| as_run_snoc: "as_run A ops A1 \<Longrightarrow> as_step op A1 A2 \<Longrightarrow> as_run A (ops @ [op]) A2"

text \<open>The machine after \<open>kinit\<close>: all memory is free and there are no address spaces.\<close>

definition booted :: "machine \<Rightarrow> bool" where
  "booted = (\<lambda>(s, sz). sz = Map.empty \<and>
     (\<exists>k. KERNBASE \<le> kend k \<and> kend k \<le> PHYSTOP \<and> freelist k = 0 \<and> kinit k = Ok s))"

lemma booted_inv:
  assumes "booted c"
  shows "mach_inv c \<and> view c = Map.empty"
proof -
  obtain s k where c: "c = (s, Map.empty)" "KERNBASE \<le> kend k" "kend k \<le> PHYSTOP" "freelist k = 0" "kinit k = Ok s"
    using assms by (auto simp: booted_def)
  obtain ps where "kmem_inv s [] ps" "set ps = {p. page_ok k p}" "kend s = kend k"
    using kinit_rep [OF c(2-4)] c(5) by auto
  then have "vm_inv s ps {} (\<lambda>_. 0)"
    by (auto simp: vm_inv_def pt_inv_def tables_def refs_def kmem_inv_def page_ok_def)
  then show ?thesis by (auto simp: c mach_inv_def view_def)
qed

lemma run_sim:
  assumes "vm_run c ops c'" "mach_inv c"
  shows "mach_inv c' \<and> as_run (view c) ops (view c')"
  using assms
proof (induction rule: vm_run.induct)
  case (vm_run_snoc ops c1 op c2)
  with vm_step_sim [OF vm_run_snoc(2)] show ?case by (auto intro: as_run_snoc)
qed (simp add: as_run_Nil)

lemma booted_run: "booted c \<Longrightarrow> vm_run c ops c' \<Longrightarrow> mach_inv c'"
  using booted_inv run_sim by blast

section \<open>An example run\<close>

text \<open>A machine with seven free pages boots, creates two address spaces and grows the first
  lazily to one page.\<close>

definition ex_ram :: kmem where
  "ex_ram = \<lparr>pmem = (\<lambda>_. 0), kend = 0x87FF8800, freelist = 0, refcnt = (\<lambda>_. 0)\<rparr>"

lemma ex_ram_pages:
  assumes "set ps = {p. page_ok ex_ram p}"
  shows "7 \<le> length ps"
proof -
  let ?xs = "[0x87FF9000, 0x87FFA000, 0x87FFB000, 0x87FFC000, 0x87FFD000, 0x87FFE000, 0x87FFF000] :: u64 list"
  have "set ?xs \<subseteq> set ps" unfolding assms by (simp add: page_ok_def ex_ram_def pg_aligned_def)
  then have "card (set ?xs) \<le> card (set ps)" by (intro card_mono) simp_all
  also have "card (set ?xs) = 7" by simp
  finally show ?thesis using card_length [of ps] by simp
qed

lemma zero_less_PGSIZE: "(0 :: u64) < PGSIZE"
  by simp

lemma ex_run:
  obtains c ops s ps r1 r2 where "booted c" "vm_run c ops (s, [r1 \<mapsto> PGSIZE, r2 \<mapsto> 0])" "r1 \<noteq> r2"
    "vm_inv s ps {r1, r2} (\<lambda>_. 0)" "3 \<le> length ps" "\<forall>p. lpath p \<longrightarrow> pte_at (pmem s) r1 p = 0"
    "3 \<le> length ops"
proof -
  have k: "KERNBASE \<le> kend ex_ram" "kend ex_ram \<le> PHYSTOP" "freelist ex_ram = 0" by (simp_all add: ex_ram_def)
  obtain s0 ps0 where b: "kinit ex_ram = Ok s0" "kmem_inv s0 [] ps0" "set ps0 = {p. page_ok ex_ram p}" "kend s0 = kend ex_ram"
    using kinit_rep [OF k] by blast
  have boot: "booted (s0, Map.empty)" using b(1) k by (auto simp: booted_def)
  have inv0: "vm_inv s0 ps0 {} (\<lambda>_. 0)"
    using b(2-4) by (auto simp: vm_inv_def pt_inv_def tables_def refs_def kmem_inv_def page_ok_def)
  show thesis
  proof (rule uvmcreate_spec [OF inv0])
    assume "ps0 = []" with ex_ram_pages [OF b(3)] show thesis by simp
  next
    fix r1 ps1 s1 assume u1: "uvmcreate s0 = (r1, s1)" "r1 \<noteq> 0" "ps0 = r1 # ps1" "vm_inv s1 ps1 (insert r1 {}) (\<lambda>_. 0)"
      "\<forall>p. lpath p \<longrightarrow> pte_at (pmem s1) r1 p = 0"
    show thesis
    proof (rule uvmcreate_spec [OF u1(4)])
      assume "ps1 = []" with ex_ram_pages [OF b(3)] u1(3) show thesis by simp
    next
      fix r2 ps2 s2 assume u2: "uvmcreate s1 = (r2, s2)" "r2 \<noteq> 0" "r2 \<notin> insert r1 {}" "ps1 = r2 # ps2"
        "vm_inv s2 ps2 (insert r2 (insert r1 {})) (\<lambda>_. 0)" "same_leaves (insert r1 {}) (pmem s1) (pmem s2)"
      have c1: "vm_step (Create r1) (s0, Map.empty) (s1, [r1 \<mapsto> 0])" by (rule vm_create [OF u1(1,2)])
      have c2: "vm_step (Create r2) (s1, [r1 \<mapsto> 0]) (s2, [r1 \<mapsto> 0, r2 \<mapsto> 0])" by (rule vm_create [OF u2(1,2)])
      have "vm_step (Lazy r1 PGSIZE) (s2, [r1 \<mapsto> 0, r2 \<mapsto> 0]) (s2, [r1 \<mapsto> 0, r2 \<mapsto> 0](r1 \<mapsto> PGSIZE))"
        by (rule vm_lazy) (use u2(3) in auto)
      moreover have "[r1 \<mapsto> 0, r2 \<mapsto> 0](r1 \<mapsto> PGSIZE) = [r1 \<mapsto> PGSIZE, r2 \<mapsto> 0]" using u2(3) by auto
      ultimately have c3: "vm_step (Lazy r1 PGSIZE) (s2, [r1 \<mapsto> 0, r2 \<mapsto> 0]) (s2, [r1 \<mapsto> PGSIZE, r2 \<mapsto> 0])" by simp
      have run: "vm_run (s0, Map.empty) ((([] @ [Create r1]) @ [Create r2]) @ [Lazy r1 PGSIZE]) (s2, [r1 \<mapsto> PGSIZE, r2 \<mapsto> 0])"
        by (rule vm_run_snoc [OF vm_run_snoc [OF vm_run_snoc [OF vm_run_Nil c1] c2] c3])
      have len: "3 \<le> length ps2" using ex_ram_pages [OF b(3)] u1(3) u2(4) by simp
      have z: "\<forall>p. lpath p \<longrightarrow> pte_at (pmem s2) r1 p = 0" using u1(5) same_leavesD [OF u2(6), of r1] by simp
      have inv2: "vm_inv s2 ps2 {r1, r2} (\<lambda>_. 0)" using u2(5) by (simp add: insert_commute)
      from that [OF boot run _ inv2 len z] u2(3) show thesis by simp
    qed
  qed
qed

section \<open>What a booted kernel guarantees\<close>







text \<open>C5. A page that some process can write is mapped exactly once, so a store by one process
  never reaches the memory of another.\<close>

theorem writable_exclusive:
  assumes "booted c" "vm_run c ops (s, sz)" "r \<in> dom sz" "upath p"
    and "bit (pte_at (pmem s) r p) 0" "bit (pte_at (pmem s) r p) 2"
  shows "refs (pmem s) (dom sz) (PTE2PA (pte_at (pmem s) r p)) = {(r, p)}"
proof -
  obtain ps where "vm_inv s ps (dom sz) (\<lambda>_. 0)" using booted_run [OF assms(1,2)] by (auto simp: mach_inv_def)
  from vm_leaf(4) [OF this assms(3-6)] show ?thesis .
qed

theorem writable_exclusive_witness:
  "\<exists>c ops s r1 r2 f. booted c \<and> vm_run c ops (s, [r1 \<mapsto> PGSIZE, r2 \<mapsto> 0]) \<and>
    refs (pmem s) {r1, r2} f = {(r1, vpath 0)}"
proof -
  obtain c ops s ps r1 r2 where e: "booted c" "vm_run c ops (s, [r1 \<mapsto> PGSIZE, r2 \<mapsto> 0])" "r1 \<noteq> r2"
    "vm_inv s ps {r1, r2} (\<lambda>_. 0)" "3 \<le> length ps" "\<forall>p. lpath p \<longrightarrow> pte_at (pmem s) r1 p = 0" by (rule ex_run)
  have r: "[r1 \<mapsto> PGSIZE, r2 \<mapsto> 0] r1 = Some PGSIZE" using e(3) by auto
  have d: "dom [r1 \<mapsto> PGSIZE, r2 \<mapsto> 0] = {r1, r2}" by auto
  show ?thesis
  proof (rule vmfault_lazy [OF e(4), of r1 0 PGSIZE False])
    fix n s' ps' assume f: "vmfault PGSIZE r1 0 False s = Ok (n, s')" "page_ok s n"
      "leaf_upd {r1, r2} r1 (vpath 0) (leaf_entry n (PTE_W OR PTE_U OR PTE_R)) (pmem s) (pmem s')"
    note run = vm_run_snoc [OF e(2) vm_fault [of "[r1 \<mapsto> PGSIZE, r2 \<mapsto> 0]" r1, OF r f(1)]]
    note le = leaf_entry_simps [OF page_ok_aligned [OF f(2)] page_ok_bound [OF f(2)] user_perm]
    have v: "pte_at (pmem s') r1 (vpath 0) = leaf_entry n (PTE_W OR PTE_U OR PTE_R)"
      using leaf_updD [OF f(3), of r1 "vpath 0"] by simp
    have bits: "bit (pte_at (pmem s') r1 (vpath 0)) 0" "bit (pte_at (pmem s') r1 (vpath 0)) 2"
      unfolding v using le(3,4) by (simp_all add: bit_or_iff pte_simps)
    have "refs (pmem s') {r1, r2} (PTE2PA (pte_at (pmem s') r1 (vpath 0))) = {(r1, vpath 0)}"
      using writable_exclusive [OF e(1) run _ upath_user bits] unfolding d by simp
    with e(1) run show ?thesis by blast
  qed (use e(5) e(6) lpath_vpath [of 0] in simp_all)
qed

text \<open>C2. After a fork, what the parent writes does not show in the child.\<close>

theorem fork_isolates:
  assumes "booted c" "vm_run c ops c1" "vm_step (Fork old new 0) c1 c2" "vm_step (Copyout old va bs x) c2 c3"
  shows "view c3 new = view c1 old"
proof -
  note m = booted_run [OF assms(1,2)]
  note f = vm_step_sim [OF assms(3) m] and ne = vm_step_fork_ne [OF assms(3)]
  have "view c2 new = view c1 old" using f by (auto elim: as_step.cases)
  moreover have "view c3 new = view c2 new"
    using vm_step_sim [OF assms(4) conjunct1 [OF f]] ne by (auto elim: as_step.cases)
  ultimately show ?thesis by simp
qed

theorem fork_isolates_witness:
  "\<exists>c ops c1 c2 c3 r1 r2 x. booted c \<and> vm_run c ops c1 \<and> vm_step (Fork r1 r2 0) c1 c2 \<and>
    vm_step (Copyout r1 0 [65] x) c2 c3 \<and> view c3 r2 = view c1 r1 \<and> view c1 r1 \<noteq> None"
proof -
  obtain c ops s ps r1 r2 where e: "booted c" "vm_run c ops (s, [r1 \<mapsto> PGSIZE, r2 \<mapsto> 0])" "r1 \<noteq> r2"
    "vm_inv s ps {r1, r2} (\<lambda>_. 0)" "3 \<le> length ps" "\<forall>p. lpath p \<longrightarrow> pte_at (pmem s) r1 p = 0" by (rule ex_run)
  let ?sz = "[r1 \<mapsto> PGSIZE, r2 \<mapsto> 0]"
  have r: "?sz r1 = Some PGSIZE" "?sz r2 = Some 0" using e(3) by auto
  have mx: "(0 :: u64) < MAXVA" by simp
  have "uvmcopy_loop (Suc 1) r1 r2 0 PGSIZE s = Ok (0, s)"
    using mx
  proof (rule walk_find)
    assume w: "walk r1 0 False s = Ok (0, s)"
    show ?thesis unfolding uvmcopy_step [OF mx w refl zero_less_PGSIZE] by simp
  next
    fix t assume w: "walk r1 0 False s = Ok (slot t (PX 0 0), s)"
      "pte_at (pmem s) r1 (vpath 0) = load64 (pmem s) (slot t (PX 0 0))"
    then show ?thesis unfolding uvmcopy_step [OF mx w(1) refl zero_less_PGSIZE]
      using e(6) lpath_vpath [of 0] by simp
  qed
  then have u: "uvmcopy r1 r2 PGSIZE s = Ok (0, s)" by (simp add: uvmcopy_def)
  let ?c2 = "(s, if (0 :: int) = 0 then ?sz(r2 \<mapsto> PGSIZE) else ?sz)"
  have f: "vm_step (Fork r1 r2 0) (s, ?sz) ?c2" by (rule vm_fork [OF r e(3) u])
  have m2: "mach_inv ?c2" using vm_step_sim [OF f booted_run [OF e(1,2)]] by blast
  have "(if (0 :: int) = 0 then ?sz(r2 \<mapsto> PGSIZE) else ?sz) r1 = Some PGSIZE" using e(3) by simp
  from copyout_ok [of s "if (0 :: int) = 0 then ?sz(r2 \<mapsto> PGSIZE) else ?sz" r1, OF m2 this, of 0 "[65]"]
    vm_copyout [of "if (0 :: int) = 0 then ?sz(r2 \<mapsto> PGSIZE) else ?sz" r1, OF this]
  obtain x s' where "vm_step (Copyout r1 0 [65] x) ?c2 (s', if (0 :: int) = 0 then ?sz(r2 \<mapsto> PGSIZE) else ?sz)" by blast
  note w = this fork_isolates [OF e(1,2) f this]
  have "view (s, ?sz) r1 \<noteq> None" using r(1) by (simp add: view_def)
  with e(1,2) f w show ?thesis by (intro exI conjI)
qed



end
