(* ===== verification/Spinlock.thy ===== *)
theory Spinlock
  imports Prelude
begin

text \<open>
  Spin locks (\<^verbatim>\<open>kernel/spinlock.c\<close>, \<^verbatim>\<open>kernel/spinlock.h\<close>) and the
  interrupt nesting of \<^verbatim>\<open>push_off\<close> and \<^verbatim>\<open>pop_off\<close>.  A function takes the
  number of the hart that executes it.  \<open>acquire\<close> and \<open>release\<close> are cut into the
  steps another hart can observe, and the protocol of any number of harts that contend for one
  lock is a step relation over them.  The other theories treat a critical section as one
  step; the theorem of this theory is what entitles them to.
\<close>

section \<open>Data\<close>

record spinlock =
  locked :: bool
  lk_name :: string
  lk_cpu :: "nat option"

record cpu =
  c_proc :: "nat option"
  noff :: int
  intena :: bool

text \<open>One lock, the per-cpu data, and the interrupt-enable bit of every hart.\<close>

record lockst =
  lk :: spinlock
  cpus :: "nat \<Rightarrow> cpu"
  sie :: "nat \<Rightarrow> bool"

section \<open>Operations\<close>

definition initlock :: "string \<Rightarrow> spinlock" where
  "initlock name = \<lparr>locked = False, lk_name = name, lk_cpu = None\<rparr>"

definition holding :: "nat \<Rightarrow> lockst \<Rightarrow> bool" where
  "holding h s \<longleftrightarrow> locked (lk s) \<and> lk_cpu (lk s) = Some h"

definition push_off :: "nat \<Rightarrow> lockst \<Rightarrow> lockst" where
  "push_off h s =
     (let old = sie s h;
          s = s\<lparr>sie := (sie s)(h := False)\<rparr>;
          c = cpus s h;
          c = (if noff c = 0 then c\<lparr>intena := old\<rparr> else c)
      in s\<lparr>cpus := (cpus s)(h := c\<lparr>noff := noff c + 1\<rparr>)\<rparr>)"

definition pop_off :: "nat \<Rightarrow> lockst \<Rightarrow> lockst kres" where
  "pop_off h s =
     (let c = cpus s h in
      if sie s h then Panic ''pop_off - interruptible''
      else if noff c < 1 then Panic ''pop_off''
      else let c = c\<lparr>noff := noff c - 1\<rparr>; s = s\<lparr>cpus := (cpus s)(h := c)\<rparr>
           in Ok (if noff c = 0 \<and> intena c then s\<lparr>sie := (sie s)(h := True)\<rparr> else s))"

text \<open>The parts of \<open>acquire\<close>: up to the spin loop, one atomic swap, and after the loop.\<close>

definition acquire_enter :: "nat \<Rightarrow> lockst \<Rightarrow> lockst kres" where
  "acquire_enter h s = (let s = push_off h s in if holding h s then Panic ''acquire'' else Ok s)"

definition test_and_set :: "lockst \<Rightarrow> bool \<times> lockst" where
  "test_and_set s = (locked (lk s), s\<lparr>lk := (lk s)\<lparr>locked := True\<rparr>\<rparr>)"

definition acquire_done :: "nat \<Rightarrow> lockst \<Rightarrow> lockst" where
  "acquire_done h s = s\<lparr>lk := (lk s)\<lparr>lk_cpu := Some h\<rparr>\<rparr>"

text \<open>The parts of \<open>release\<close>: up to the store that frees the lock, and the store.\<close>

definition release_enter :: "nat \<Rightarrow> lockst \<Rightarrow> lockst kres" where
  "release_enter h s =
     (if \<not> holding h s then Panic ''release'' else Ok (s\<lparr>lk := (lk s)\<lparr>lk_cpu := None\<rparr>\<rparr>))"

definition lock_release :: "lockst \<Rightarrow> lockst" where
  "lock_release s = s\<lparr>lk := (lk s)\<lparr>locked := False\<rparr>\<rparr>"

text \<open>The whole functions, for a hart that runs alone: then the loop of \<open>acquire\<close> either ends
  at its first swap or never.\<close>

definition acquire :: "nat \<Rightarrow> lockst \<Rightarrow> lockst kres" where
  "acquire h s =
     andThen (acquire_enter h s) (\<lambda>s.
       let (old, s) = test_and_set s in if old then Spin else Ok (acquire_done h s))"

definition release :: "nat \<Rightarrow> lockst \<Rightarrow> lockst kres" where
  "release h s = andThen (release_enter h s) (\<lambda>s. pop_off h (lock_release s))"

section \<open>The protocol\<close>

datatype pc = Out | Want | Got | In | Cleared | Freed

type_synonym lockproto = "(nat \<Rightarrow> pc) \<times> lockst"

inductive lock_step :: "lockproto \<Rightarrow> lockproto \<Rightarrow> bool" where
  step_enter: "at h = Out \<Longrightarrow> acquire_enter h s = Ok s' \<Longrightarrow> lock_step (at, s) (at(h := Want), s')"
| step_retry: "at h = Want \<Longrightarrow> test_and_set s = (True, s') \<Longrightarrow> lock_step (at, s) (at, s')"
| step_win: "at h = Want \<Longrightarrow> test_and_set s = (False, s') \<Longrightarrow> lock_step (at, s) (at(h := Got), s')"
| step_mark: "at h = Got \<Longrightarrow> lock_step (at, s) (at(h := In), acquire_done h s)"
| step_clear: "at h = In \<Longrightarrow> release_enter h s = Ok s' \<Longrightarrow> lock_step (at, s) (at(h := Cleared), s')"
| step_free: "at h = Cleared \<Longrightarrow> lock_step (at, s) (at(h := Freed), lock_release s)"
| step_pop: "at h = Freed \<Longrightarrow> pop_off h s = Ok s' \<Longrightarrow> lock_step (at, s) (at(h := Out), s')"

definition lock_init :: "lockproto \<Rightarrow> bool" where
  "lock_init = (\<lambda>(at, s). (\<forall>h. at h = Out \<and> 0 \<le> noff (cpus s h) \<and> (0 < noff (cpus s h) \<longrightarrow> \<not> sie s h)) \<and>
     (\<exists>name. lk s = initlock name))"

abbreviation owns :: "pc \<Rightarrow> bool" where
  "owns p \<equiv> p \<in> {Got, In, Cleared}"

text \<open>The invariant names the owner of the lock.\<close>

definition owner_ok :: "nat option \<Rightarrow> lockproto \<Rightarrow> bool" where
  "owner_ok ow = (\<lambda>(at, s).
     (\<forall>h. owns (at h) \<longleftrightarrow> ow = Some h) \<and> locked (lk s) = (ow \<noteq> None) \<and>
     lk_cpu (lk s) = (case ow of Some h \<Rightarrow> if at h = In then Some h else None | None \<Rightarrow> None))"

definition harts_ok :: "lockproto \<Rightarrow> bool" where
  "harts_ok = (\<lambda>(at, s). \<forall>h. 0 \<le> noff (cpus s h) \<and> (0 < noff (cpus s h) \<longrightarrow> \<not> sie s h) \<and>
     (at h \<noteq> Out \<longrightarrow> 0 < noff (cpus s h)))"

definition lock_inv :: "lockproto \<Rightarrow> bool" where
  "lock_inv x \<longleftrightarrow> (\<exists>ow. owner_ok ow x) \<and> harts_ok x"

lemmas lock_defs = acquire_enter_def test_and_set_def acquire_done_def release_enter_def lock_release_def
  holding_def

lemma push_off_simps [simp]:
  "lk (push_off h s) = lk s" "sie (push_off h s) = (sie s)(h := False)"
  "noff (cpus (push_off h s) h') = noff (cpus s h') + (if h' = h then 1 else 0)"
  by (simp_all add: push_off_def Let_def)

lemma pop_off_ok:
  assumes "pop_off h s = Ok s'"
  shows "lk s' = lk s" "noff (cpus s' h') = noff (cpus s h') - (if h' = h then 1 else 0)"
    "0 < noff (cpus s h)" "h' \<noteq> h \<or> 0 < noff (cpus s' h') \<Longrightarrow> sie s' h' = sie s h'"
  using assms by (auto simp: pop_off_def Let_def split: if_splits)

lemma lock_init_inv: "lock_init x \<Longrightarrow> lock_inv x"
  by (auto simp: lock_init_def lock_inv_def owner_ok_def harts_ok_def initlock_def intro!: exI [of _ None])

lemma owner_same:
  assumes "owner_ok ow (at, s)" "lk s' = lk s" "owns p = owns (at h)" "p = In \<longleftrightarrow> at h = In"
  shows "owner_ok ow (at(h := p), s')"
  using assms by (auto simp: owner_ok_def split: option.splits)

lemma harts_same:
  assumes "harts_ok (at, s)" "cpus s' = cpus s" "sie s' = sie s" "at h \<noteq> Out"
  shows "harts_ok (at(h := p), s')"
  using assms by (simp add: harts_ok_def)

lemma lock_step_owner:
  assumes "lock_step x y" "owner_ok ow x"
  shows "\<exists>ow'. owner_ok ow' y"
  using assms
proof (induction rule: lock_step.induct)
  case (step_enter "at" h s s')
  then have "lk s' = lk s" by (auto simp: lock_defs Let_def split: if_splits)
  from owner_same [OF step_enter(3) this, of Want h] step_enter(1) show ?case by auto
next
  case (step_retry "at" h s s')
  then have "lk s' = lk s" by (auto simp: lock_defs)
  from owner_same [OF step_retry(3) this, of "at h" h] show ?case by auto
next
  case (step_win "at" h s s')
  then have "ow = None" by (auto simp: owner_ok_def lock_defs)
  with step_win have "owner_ok (Some h) (at(h := Got), s')" by (auto simp: owner_ok_def lock_defs)
  then show ?case by blast
next
  case (step_mark "at" h s)
  then have "ow = Some h" by (auto simp: owner_ok_def)
  with step_mark have "owner_ok (Some h) (at(h := In), acquire_done h s)" by (auto simp: owner_ok_def lock_defs)
  then show ?case by blast
next
  case (step_clear "at" h s s')
  then have "ow = Some h" by (auto simp: owner_ok_def)
  with step_clear have "owner_ok (Some h) (at(h := Cleared), s')" by (auto simp: owner_ok_def lock_defs split: if_splits)
  then show ?case by blast
next
  case (step_free "at" h s)
  then have "ow = Some h" by (auto simp: owner_ok_def)
  with step_free have "owner_ok None (at(h := Freed), lock_release s)" by (auto simp: owner_ok_def lock_defs)
  then show ?case by blast
next
  case (step_pop "at" h s s')
  from owner_same [OF step_pop(3) pop_off_ok(1) [OF step_pop(2)], of Out h] step_pop(1) show ?case by auto
qed

lemma lock_step_harts:
  assumes "lock_step x y" "harts_ok x"
  shows "harts_ok y"
  using assms
proof (induction rule: lock_step.induct)
  case (step_enter "at" h s s')
  then have "s' = push_off h s" by (auto simp: acquire_enter_def Let_def split: if_splits)
  moreover have "0 \<le> noff (cpus s h)" using step_enter(3) by (simp add: harts_ok_def)
  ultimately show ?case using step_enter(3) by (auto simp: harts_ok_def)
next
  case (step_pop "at" h s s')
  have "0 \<le> noff (cpus s' k) \<and> (0 < noff (cpus s' k) \<longrightarrow> \<not> sie s' k) \<and> ((at(h := Out)) k \<noteq> Out \<longrightarrow> 0 < noff (cpus s' k))" for k
    using step_pop(3) pop_off_ok(2,4) [OF step_pop(2), where h' = k] pop_off_ok(3) [OF step_pop(2)]
    by (cases "k = h") (auto simp: harts_ok_def)
  then show ?case by (simp add: harts_ok_def)
qed (auto simp: harts_ok_def lock_defs split: if_splits)

lemma lock_step_inv: "lock_step x y \<Longrightarrow> lock_inv x \<Longrightarrow> lock_inv y"
  unfolding lock_inv_def using lock_step_owner lock_step_harts by blast

interpretation lock_sys: transition_system lock_init lock_step lock_inv
  by unfold_locales (rule lock_init_inv, assumption, rule lock_step_inv)

text \<open>C9. Mutual exclusion: in every interleaving at most one hart is between the swap that took
  the lock and the store that frees it; it has interrupts off there, and \<^verbatim>\<open>holding\<close> answers
  yes to a hart exactly while that hart is inside.\<close>

theorem spinlock_mutex:
  assumes "lock_init x" "lock_step\<^sup>*\<^sup>* x (at, s)"
  shows "(\<forall>h h'. owns (at h) \<longrightarrow> owns (at h') \<longrightarrow> h = h') \<and> (\<forall>h. owns (at h) \<longrightarrow> \<not> sie s h) \<and>
    (\<forall>h. holding h s \<longleftrightarrow> at h = In)"
proof -
  have inv: "lock_inv (at, s)" using lock_sys.reach_inv [OF assms] .
  then obtain ow where ow: "\<And>h. owns (at h) \<longleftrightarrow> ow = Some h" "locked (lk s) = (ow \<noteq> None)"
    "lk_cpu (lk s) = (case ow of Some h \<Rightarrow> if at h = In then Some h else None | None \<Rightarrow> None)"
    by (auto simp: lock_inv_def owner_ok_def)
  have "\<not> sie s h" if "at h \<noteq> Out" for h using inv that by (auto simp: lock_inv_def harts_ok_def)
  moreover have "holding h s \<longleftrightarrow> at h = In" for h
    using ow(1) [of h] ow(2,3) by (auto simp: holding_def split: option.splits if_splits)
  moreover have "\<not> sie s h" if "owns (at h)" for h using calculation(1) [of h] that by auto
  moreover have "h = h'" if "owns (at h)" "owns (at h')" for h h' using that unfolding ow(1) by simp
  ultimately show ?thesis by blast
qed

definition ex_lock :: lockproto where
  "ex_lock = (\<lambda>_. Out, \<lparr>lk = initlock ''kmem'', cpus = (\<lambda>_. \<lparr>c_proc = None, noff = 0, intena = False\<rparr>), sie = (\<lambda>_. True)\<rparr>)"

theorem spinlock_mutex_witness:
  "\<exists>at s. lock_step\<^sup>*\<^sup>* ex_lock (at, s) \<and> at 0 = In \<and> at 1 = Want \<and> holding 0 s \<and> \<not> holding 1 s \<and> \<not> sie s 0"
proof -
  have init: "lock_init ex_lock" by (auto simp: lock_init_def ex_lock_def)
  let ?a0 = "\<lambda>_ :: nat. Out" and ?s0 = "snd ex_lock"
  let ?s1 = "push_off 0 ?s0" let ?s2 = "push_off 1 ?s1"
  let ?s3 = "snd (test_and_set ?s2)" let ?s4 = "acquire_done 0 ?s3"
  have lk: "lk ?s2 = initlock ''kmem''" by (simp add: ex_lock_def)
  have "lock_step (?a0, ?s0) (?a0(0 := Want), ?s1)"
    by (rule step_enter) (simp_all add: acquire_enter_def holding_def ex_lock_def initlock_def)
  moreover have "lock_step (?a0(0 := Want), ?s1) (?a0(0 := Want, 1 := Want), ?s2)"
    by (rule step_enter) (simp_all add: acquire_enter_def holding_def ex_lock_def initlock_def)
  moreover have "lock_step (?a0(0 := Want, 1 := Want), ?s2) (?a0(0 := Want, 1 := Want, 0 := Got), ?s3)"
    by (rule step_win) (use lk in \<open>simp_all add: test_and_set_def initlock_def\<close>)
  moreover have "lock_step (?a0(0 := Want, 1 := Want, 0 := Got), ?s3) (?a0(0 := Want, 1 := Want, 0 := Got, 0 := In), ?s4)"
    by (rule step_mark) simp
  ultimately have run: "lock_step\<^sup>*\<^sup>* ex_lock (?a0(0 := Want, 1 := Want, 0 := Got, 0 := In), ?s4)"
    by (simp add: ex_lock_def)
  from spinlock_mutex [OF init run] have "holding 0 ?s4" "\<not> holding 1 ?s4" "\<not> sie ?s4 0" by auto
  with run show ?thesis
    by (intro exI [of _ "?a0(0 := Want, 1 := Want, 0 := Got, 0 := In)"] exI [of _ ?s4]) simp
qed

section \<open>Nesting\<close>

fun push_offs :: "nat \<Rightarrow> nat \<Rightarrow> lockst \<Rightarrow> lockst" where
  "push_offs 0 h s = s"
| "push_offs (Suc n) h s = push_offs n h (push_off h s)"

fun pop_offs :: "nat \<Rightarrow> nat \<Rightarrow> lockst \<Rightarrow> lockst kres" where
  "pop_offs 0 h s = Ok s"
| "pop_offs (Suc n) h s = andThen (pop_off h s) (\<lambda>s. pop_offs n h s)"

lemma push_offs_fields:
  "lk (push_offs n h s) = lk s" "sie (push_offs n h s) = (if n = 0 then sie s else (sie s)(h := False))"
  "noff (cpus (push_offs n h s) h) = noff (cpus s h) + int n"
  "0 \<le> noff (cpus s h) \<Longrightarrow>
     intena (cpus (push_offs n h s) h) = (if noff (cpus s h) = 0 \<and> 0 < n then sie s h else intena (cpus s h))"
  by (induction n arbitrary: s) (auto simp: push_off_def Let_def)

lemma pop_offs_last:
  assumes "noff (cpus s h) = int (Suc n)" "\<not> sie s h"
  shows "\<exists>s'. pop_offs (Suc n) h s = Ok s' \<and> noff (cpus s' h) = 0 \<and> lk s' = lk s \<and>
    sie s' = (sie s)(h := intena (cpus s h))"
  using assms
proof (induction n arbitrary: s)
  case 0
  then show ?case by (auto simp: pop_off_def Let_def)
next
  case (Suc n)
  let ?s = "s\<lparr>cpus := (cpus s)(h := (cpus s h)\<lparr>noff := noff (cpus s h) - 1\<rparr>)\<rparr>"
  have "pop_off h s = Ok ?s" using Suc.prems by (simp add: pop_off_def Let_def)
  moreover obtain s' where "pop_offs (Suc n) h ?s = Ok s'" "noff (cpus s' h) = 0" "lk s' = lk ?s"
    "sie s' = (sie s)(h := intena (cpus s h))"
    using Suc.IH [of ?s] Suc.prems by (auto simp del: pop_offs.simps fun_upd_apply simp: fun_upd_same)
  ultimately show ?case by (simp add: fun_eq_iff)
qed

text \<open>C10. \<^verbatim>\<open>push_off\<close> and \<^verbatim>\<open>pop_off\<close> nest: interrupts are off until the last of as many
  \<^verbatim>\<open>pop_off\<close>s as there were \<^verbatim>\<open>push_off\<close>s, which puts them back as they were.\<close>

theorem push_pop_balanced:
  assumes "noff (cpus s h) = 0"
  shows "\<exists>s'. pop_offs (Suc n) h (push_offs (Suc n) h s) = Ok s' \<and> sie s' = sie s \<and> noff (cpus s' h) = 0 \<and>
    \<not> sie (push_offs (Suc n) h s) h"
proof -
  let ?s = "push_offs (Suc n) h s"
  note f = push_offs_fields [where n = "Suc n" and h = h and s = s]
  have "noff (cpus ?s h) = int (Suc n)" "\<not> sie ?s h" "intena (cpus ?s h) = sie s h"
    using f(2-4) assms by simp_all
  from pop_offs_last [OF this(1,2)] this(3) f(2) show ?thesis
    by (auto simp del: push_offs.simps pop_offs.simps)
qed

theorem push_pop_balanced_witness:
  "\<exists>s'. pop_offs 3 0 (push_offs 3 0 (snd ex_lock)) = Ok s' \<and> sie s' 0"
proof -
  have "noff (cpus (snd ex_lock) 0) = 0" "sie (snd ex_lock) 0" by (simp_all add: ex_lock_def)
  with push_pop_balanced [of "snd ex_lock" 0 2] show ?thesis by (auto simp: numeral_3_eq_3)
qed

end
