(* ===== verification/Kstate.thy ===== *)
theory Kstate
  imports Kalloc
begin

text \<open>
  The process structures of \<^verbatim>\<open>kernel/proc.h\<close> and the sleeping locks of
  \<^verbatim>\<open>kernel/sleeplock.c\<close>.  The kernel state extends the memory of \<open>Kalloc\<close> by the
  process table and the process the calling hart runs.  What is waited for on a channel is
  named by a constructor instead of an address.  The spin locks of \<^verbatim>\<open>kernel/spinlock.c\<close>
  are the subject of \<open>Spinlock\<close>: here and in the theories above it a critical section is
  one step.
\<close>

section \<open>Processes (proc.h)\<close>

datatype procstate = UNUSED | USED | SLEEPING | RUNNABLE | RUNNING | ZOMBIE

text \<open>The objects whose addresses serve as sleep channels.\<close>

datatype chan =
    ChNone
  | ChProc nat
  | ChTicks
  | ChLog
  | ChBuf nat
  | ChInode nat
  | ChPipeR nat
  | ChPipeW nat
  | ChCons
  | ChUart
  | ChDisk nat
  | ChDiskFree

record ctx =
  c_ra :: u64
  c_sp :: u64
  c_s0 :: u64
  c_s1 :: u64
  c_s2 :: u64
  c_s3 :: u64
  c_s4 :: u64
  c_s5 :: u64
  c_s6 :: u64
  c_s7 :: u64
  c_s8 :: u64
  c_s9 :: u64
  c_s10 :: u64
  c_s11 :: u64

definition zero_ctx :: ctx where
  "zero_ctx = \<lparr>c_ra = 0, c_sp = 0, c_s0 = 0, c_s1 = 0, c_s2 = 0, c_s3 = 0, c_s4 = 0,
     c_s5 = 0, c_s6 = 0, c_s7 = 0, c_s8 = 0, c_s9 = 0, c_s10 = 0, c_s11 = 0\<rparr>"

record proc =
  p_state :: procstate
  p_chan :: chan
  p_killed :: int
  p_xstate :: int
  p_pid :: int
  p_parent :: "nat option"
  p_kstack :: u64
  p_sz :: u64
  p_pagetable :: u64
  p_trapframe :: u64
  p_context :: ctx
  p_ofile :: "nat option list"
  p_cwd :: "nat option"
  p_name :: "u8 list"

text \<open>\<open>cur\<close> is the index of \<^verbatim>\<open>myproc()\<close>.\<close>

record kst = kmem +
  procs :: "proc list"
  cur :: nat

definition myproc :: "'a kst_scheme \<Rightarrow> proc" where
  "myproc s = procs s ! cur s"

definition mypid :: "'a kst_scheme \<Rightarrow> int" where
  "mypid s = p_pid (myproc s)"

definition set_myproc :: "proc \<Rightarrow> 'a kst_scheme \<Rightarrow> 'a kst_scheme" where
  "set_myproc p s = s\<lparr>procs := (procs s)[cur s := p]\<rparr>"

section \<open>wakeup\<close>

text \<open>\<^verbatim>\<open>wakeup\<close> of \<^verbatim>\<open>kernel/proc.c\<close>, which every component that sleeps uses: all
  processes but the caller that sleep on the channel become runnable.\<close>

definition wakeup_proc :: "chan \<Rightarrow> nat \<Rightarrow> nat \<Rightarrow> proc \<Rightarrow> proc" where
  "wakeup_proc ch me i p =
     (if i \<noteq> me \<and> p_state p = SLEEPING \<and> p_chan p = ch then p\<lparr>p_state := RUNNABLE\<rparr> else p)"

definition wakeup :: "chan \<Rightarrow> 'a kst_scheme \<Rightarrow> 'a kst_scheme" where
  "wakeup ch s = s\<lparr>procs := map2 (wakeup_proc ch (cur s)) [0..<length (procs s)] (procs s)\<rparr>"

section \<open>Sleeping locks\<close>

record sleeplock =
  sl_locked :: bool
  sl_name :: string
  sl_pid :: int

definition initsleeplock :: "string \<Rightarrow> sleeplock" where
  "initsleeplock name = \<lparr>sl_locked = False, sl_name = name, sl_pid = 0\<rparr>"

text \<open>A caller that finds the lock taken sleeps until its holder releases it: run alone it does
  not return.\<close>

definition acquiresleep :: "int \<Rightarrow> sleeplock \<Rightarrow> sleeplock kres" where
  "acquiresleep pid lk =
     (if sl_locked lk then Spin else Ok (lk\<lparr>sl_locked := True, sl_pid := pid\<rparr>))"

definition releasesleep :: "chan \<Rightarrow> sleeplock \<Rightarrow> 'a kst_scheme \<Rightarrow> sleeplock \<times> 'a kst_scheme" where
  "releasesleep ch lk s = (lk\<lparr>sl_locked := False, sl_pid := 0\<rparr>, wakeup ch s)"

definition holdingsleep :: "int \<Rightarrow> sleeplock \<Rightarrow> bool" where
  "holdingsleep pid lk \<longleftrightarrow> sl_locked lk \<and> sl_pid lk = pid"

lemma wakeup_frame [frame_simps]:
  "pmem (wakeup ch s) = pmem s" "kend (wakeup ch s) = kend s" "freelist (wakeup ch s) = freelist s"
  "refcnt (wakeup ch s) = refcnt s" "cur (wakeup ch s) = cur s" "length (procs (wakeup ch s)) = length (procs s)"
  "kst.more (wakeup ch s) = kst.more s"
  by (simp_all add: wakeup_def)

lemma wakeup_nth:
  assumes "i < length (procs s)"
  shows "procs (wakeup ch s) ! i = wakeup_proc ch (cur s) i (procs s ! i)"
  using assms by (simp add: wakeup_def)

lemma wakeup_myproc [simp]: "cur s < length (procs s) \<Longrightarrow> myproc (wakeup ch s) = myproc s"
  by (simp add: myproc_def wakeup_nth wakeup_proc_def frame_simps)

lemma sleeplock_exclusive:
  assumes "acquiresleep pid lk = Ok lk'"
  shows "holdingsleep pid lk'" "acquiresleep pid' lk' = Spin"
  using assms by (auto simp: acquiresleep_def holdingsleep_def split: if_splits)

end
