(* ===== verification/Bio.thy ===== *)
theory Bio
  imports Kstate
begin

text \<open>
  The buffer cache (\<^verbatim>\<open>kernel/bio.c\<close>, \<^verbatim>\<open>kernel/buf.h\<close>).  The doubly linked list
  through \<^verbatim>\<open>prev\<close> and \<^verbatim>\<open>next\<close> is the list \<open>lru\<close> of buffer numbers, from
  \<^verbatim>\<open>head.next\<close> (most recently used) to \<^verbatim>\<open>head.prev\<close>.  The disk is the block
  function \<open>dsk\<close>; \<open>wtrace\<close> records the block writes in the order the disk performs
  them, which is what a crash can cut.  What \<open>bread\<close> returns is described by
  \<open>blk\<close>, the contents of a block as the file system sees it.
\<close>

type_synonym block = "u8 list"

abbreviation BSIZE :: nat where
  "BSIZE \<equiv> 1024"

abbreviation NBUF :: nat where
  "NBUF \<equiv> 30"

record buf =
  b_valid :: bool
  b_dev :: u32
  b_blockno :: u32
  b_lock :: sleeplock
  b_refcnt :: u32
  b_data :: block

record bio = kst +
  bufs :: "buf list"
  lru :: "nat list"
  dsk :: "u32 \<Rightarrow> block"
  wtrace :: "(u32 \<times> block) list"

definition set_buf :: "nat \<Rightarrow> buf \<Rightarrow> 'a bio_scheme \<Rightarrow> 'a bio_scheme" where
  "set_buf i b s = s\<lparr>bufs := (bufs s)[i := b]\<rparr>"

section \<open>Operations\<close>

text \<open>The completed transfer of \<^verbatim>\<open>virtio_disk_rw\<close>: the buffer is filled from the disk or
  written to it.\<close>

definition disk_rw :: "nat \<Rightarrow> bool \<Rightarrow> 'a bio_scheme \<Rightarrow> 'a bio_scheme" where
  "disk_rw i write s =
     (let b = bufs s ! i in
      if write
      then s\<lparr>dsk := (dsk s)(b_blockno b := b_data b), wtrace := wtrace s @ [(b_blockno b, b_data b)]\<rparr>
      else set_buf i (b\<lparr>b_data := dsk s (b_blockno b)\<rparr>) s)"

definition binit_buf :: "'a bio_scheme \<Rightarrow> nat \<Rightarrow> 'a bio_scheme" where
  "binit_buf s b = (set_buf b ((bufs s ! b)\<lparr>b_lock := initsleeplock ''buffer''\<rparr>) s)\<lparr>lru := b # lru s\<rparr>"

definition binit :: "'a bio_scheme \<Rightarrow> 'a bio_scheme" where
  "binit s = foldl binit_buf (s\<lparr>lru := []\<rparr>) [0..<NBUF]"

definition lock_buf :: "nat \<Rightarrow> 'a bio_scheme \<Rightarrow> (nat \<times> 'a bio_scheme) kres" where
  "lock_buf i s =
     andThen (acquiresleep (mypid s) (b_lock (bufs s ! i))) (\<lambda>lk.
       Ok (i, set_buf i ((bufs s ! i)\<lparr>b_lock := lk\<rparr>) s))"

abbreviation holds_block :: "u32 \<Rightarrow> u32 \<Rightarrow> 'a bio_scheme \<Rightarrow> nat \<Rightarrow> bool" where
  "holds_block dev blockno s i \<equiv> b_dev (bufs s ! i) = dev \<and> b_blockno (bufs s ! i) = blockno"

definition bget :: "u32 \<Rightarrow> u32 \<Rightarrow> 'a bio_scheme \<Rightarrow> (nat \<times> 'a bio_scheme) kres" where
  "bget dev blockno s =
     (case find (holds_block dev blockno s) (lru s) of
        Some i \<Rightarrow> lock_buf i (set_buf i ((bufs s ! i)\<lparr>b_refcnt := b_refcnt (bufs s ! i) + 1\<rparr>) s)
      | None \<Rightarrow>
         (case find (\<lambda>i. b_refcnt (bufs s ! i) = 0) (rev (lru s)) of
            Some i \<Rightarrow> lock_buf i (set_buf i
              ((bufs s ! i)\<lparr>b_dev := dev, b_blockno := blockno, b_valid := False, b_refcnt := 1\<rparr>) s)
          | None \<Rightarrow> Panic ''bget: no buffers''))"

definition bread :: "u32 \<Rightarrow> u32 \<Rightarrow> 'a bio_scheme \<Rightarrow> (nat \<times> 'a bio_scheme) kres" where
  "bread dev blockno s =
     andThen (bget dev blockno s) (\<lambda>(i, s).
       if \<not> b_valid (bufs s ! i)
       then let s = disk_rw i False s in Ok (i, set_buf i ((bufs s ! i)\<lparr>b_valid := True\<rparr>) s)
       else Ok (i, s))"

definition bwrite :: "nat \<Rightarrow> 'a bio_scheme \<Rightarrow> 'a bio_scheme kres" where
  "bwrite i s =
     (if \<not> holdingsleep (mypid s) (b_lock (bufs s ! i)) then Panic ''bwrite''
      else Ok (disk_rw i True s))"

definition brelse :: "nat \<Rightarrow> 'a bio_scheme \<Rightarrow> 'a bio_scheme kres" where
  "brelse i s =
     (if \<not> holdingsleep (mypid s) (b_lock (bufs s ! i)) then Panic ''brelse''
      else let (lk, s) = releasesleep (ChBuf i) (b_lock (bufs s ! i)) s;
               b = (bufs s ! i)\<lparr>b_lock := lk, b_refcnt := b_refcnt (bufs s ! i) - 1\<rparr>;
               s = set_buf i b s
           in Ok (if b_refcnt b = 0 then s\<lparr>lru := i # removeAll i (lru s)\<rparr> else s))"

definition bpin :: "nat \<Rightarrow> 'a bio_scheme \<Rightarrow> 'a bio_scheme" where
  "bpin i s = set_buf i ((bufs s ! i)\<lparr>b_refcnt := b_refcnt (bufs s ! i) + 1\<rparr>) s"

definition bunpin :: "nat \<Rightarrow> 'a bio_scheme \<Rightarrow> 'a bio_scheme" where
  "bunpin i s = set_buf i ((bufs s ! i)\<lparr>b_refcnt := b_refcnt (bufs s ! i) - 1\<rparr>) s"

section \<open>The cache invariant\<close>

text \<open>Every buffer is on the list once, no block of device \<open>d\<close> is cached twice, and a
  buffer nobody refers to is unlocked and, if valid, equal to the disk.\<close>

definition bio_inv :: "u32 \<Rightarrow> 'a bio_scheme \<Rightarrow> bool" where
  "bio_inv d s \<longleftrightarrow>
     length (bufs s) = NBUF \<and> distinct (lru s) \<and> set (lru s) = {..<NBUF} \<and> cur s < length (procs s) \<and>
     (\<forall>i<NBUF. \<forall>j<NBUF. b_dev (bufs s ! i) = d \<longrightarrow> b_dev (bufs s ! j) = d \<longrightarrow>
        b_blockno (bufs s ! i) = b_blockno (bufs s ! j) \<longrightarrow> i = j) \<and>
     (\<forall>i<NBUF. b_refcnt (bufs s ! i) = 0 \<longrightarrow> \<not> sl_locked (b_lock (bufs s ! i)) \<and>
        (b_dev (bufs s ! i) = d \<longrightarrow> b_valid (bufs s ! i) \<longrightarrow> b_data (bufs s ! i) = dsk s (b_blockno (bufs s ! i))))"

text \<open>The contents of a block as seen through the cache.\<close>

definition blk :: "u32 \<Rightarrow> 'a bio_scheme \<Rightarrow> u32 \<Rightarrow> block" where
  "blk d s n =
     (case find (holds_block d n s) (lru s) of
        Some i \<Rightarrow> if b_valid (bufs s ! i) then b_data (bufs s ! i) else dsk s n
      | None \<Rightarrow> dsk s n)"

lemma find_split:
  obtains (none) "find P xs = None" "\<And>x. x \<in> set xs \<Longrightarrow> \<not> P x"
  | (some) x where "find P xs = Some x" "P x" "x \<in> set xs"
  by (cases "find P xs") (auto simp: find_None_iff find_Some_iff)

lemma bio_invD:
  assumes "bio_inv d s"
  shows "length (bufs s) = NBUF" "distinct (lru s)" "set (lru s) = {..<NBUF}" "cur s < length (procs s)"
    "\<And>i j. i < NBUF \<Longrightarrow> j < NBUF \<Longrightarrow> b_dev (bufs s ! i) = d \<Longrightarrow> b_dev (bufs s ! j) = d \<Longrightarrow>
       b_blockno (bufs s ! i) = b_blockno (bufs s ! j) \<Longrightarrow> i = j"
    "\<And>i. i < NBUF \<Longrightarrow> b_refcnt (bufs s ! i) = 0 \<Longrightarrow> \<not> sl_locked (b_lock (bufs s ! i))"
    "\<And>i. i < NBUF \<Longrightarrow> b_refcnt (bufs s ! i) = 0 \<Longrightarrow> b_dev (bufs s ! i) = d \<Longrightarrow> b_valid (bufs s ! i) \<Longrightarrow>
       b_data (bufs s ! i) = dsk s (b_blockno (bufs s ! i))"
  using assms unfolding bio_inv_def by auto

text \<open>With the invariant \<open>blk\<close> is a matter of membership, not of the order of the list.\<close>

lemma blk_cached:
  assumes inv: "bio_inv d s" and i: "i < NBUF" "holds_block d n s i"
  shows "blk d s n = (if b_valid (bufs s ! i) then b_data (bufs s ! i) else dsk s n)"
    "find (holds_block d n s) (lru s) = Some i"
proof -
  show f: "find (holds_block d n s) (lru s) = Some i"
  proof (cases rule: find_split [of "holds_block d n s" "lru s"])
    case none
    with i bio_invD(3) [OF inv] show ?thesis by auto
  next
    case (some j)
    then have "j = i" using bio_invD(3,5) [OF inv] i by auto
    with some show ?thesis by simp
  qed
  show "blk d s n = (if b_valid (bufs s ! i) then b_data (bufs s ! i) else dsk s n)" by (simp add: blk_def f)
qed

lemma blk_uncached:
  assumes "bio_inv d s" "\<And>i. i < NBUF \<Longrightarrow> \<not> holds_block d n s i"
  shows "blk d s n = dsk s n" "find (holds_block d n s) (lru s) = None"
proof -
  show f: "find (holds_block d n s) (lru s) = None"
    using assms bio_invD(3) [OF assms(1)] by (auto simp: find_None_iff)
  show "blk d s n = dsk s n" by (simp add: blk_def f)
qed

lemma set_buf_simps [simp]:
  "bufs (set_buf i b s) = (bufs s)[i := b]" "lru (set_buf i b s) = lru s" "dsk (set_buf i b s) = dsk s"
  "wtrace (set_buf i b s) = wtrace s" "procs (set_buf i b s) = procs s" "cur (set_buf i b s) = cur s"
  "mypid (set_buf i b s) = mypid s" "bio.more (set_buf i b s) = bio.more s"
  by (simp_all add: set_buf_def mypid_def myproc_def)

lemma set_buf_set_buf [simp]: "set_buf i b (set_buf i c s) = set_buf i b s"
  by (simp add: set_buf_def)

section \<open>What the operations do\<close>

text \<open>Replacing a buffer: the one that holds the block already, or an idle one.\<close>

definition usable :: "u32 \<Rightarrow> u32 \<Rightarrow> 'a bio_scheme \<Rightarrow> nat \<Rightarrow> bool" where
  "usable d n s i \<longleftrightarrow> i < NBUF \<and>
     (holds_block d n s i \<or> b_refcnt (bufs s ! i) = 0 \<and> (\<forall>j<NBUF. \<not> holds_block d n s j))"

lemma set_buf_cache:
  assumes inv: "bio_inv d s" and u: "usable d n s i" and b: "b_dev b = d" "b_blockno b = n"
    and clean: "b_refcnt b = 0 \<Longrightarrow> \<not> sl_locked (b_lock b) \<and> (b_valid b \<longrightarrow> b_data b = dsk s n)"
  shows "bio_inv d (set_buf i b s)"
    and "blk d (set_buf i b s) = (blk d s)(n := if b_valid b then b_data b else dsk s n)"
proof -
  note D = bio_invD [OF inv]
  have i: "i < NBUF" using u by (simp add: usable_def)
  have other: "\<not> holds_block d n s j" if "j < NBUF" "j \<noteq> i" for j
    using u that D(5) [of i j] by (auto simp: usable_def)
  have nth: "bufs (set_buf i b s) ! j = (if j = i then b else bufs s ! j)" if "j < NBUF" for j
    using that D(1) i by simp
  have "j = k" if "j < NBUF" "k < NBUF" "b_dev (bufs (set_buf i b s) ! j) = d" "b_dev (bufs (set_buf i b s) ! k) = d"
      "b_blockno (bufs (set_buf i b s) ! j) = b_blockno (bufs (set_buf i b s) ! k)" for j k
  proof -
    note e = that(3-5) [unfolded nth [OF that(1)] nth [OF that(2)]]
    show "j = k"
      using e b other [OF that(1)] other [OF that(2)] D(5) [OF that(1,2)] by (cases "j = i"; cases "k = i") simp_all
  qed
  moreover have "\<not> sl_locked (b_lock (bufs (set_buf i b s) ! j)) \<and>
      (b_dev (bufs (set_buf i b s) ! j) = d \<longrightarrow> b_valid (bufs (set_buf i b s) ! j) \<longrightarrow>
       b_data (bufs (set_buf i b s) ! j) = dsk s (b_blockno (bufs (set_buf i b s) ! j)))"
    if "j < NBUF" "b_refcnt (bufs (set_buf i b s) ! j) = 0" for j
    using that(2) D(6,7) [OF that(1)] clean b unfolding nth [OF that(1)] by (cases "j = i") simp_all
  ultimately show inv': "bio_inv d (set_buf i b s)"
    unfolding bio_inv_def using D(1-4) by simp
  show "blk d (set_buf i b s) = (blk d s)(n := if b_valid b then b_data b else dsk s n)"
  proof
    fix m
    show "blk d (set_buf i b s) m = ((blk d s)(n := if b_valid b then b_data b else dsk s n)) m"
    proof (cases "m = n")
      case True
      with blk_cached(1) [OF inv' i, of n] nth [OF i] b show ?thesis by simp
    next
      case ne: False
      show ?thesis
      proof (cases "\<exists>j<NBUF. j \<noteq> i \<and> holds_block d m s j")
        case True
        then obtain j where j: "j < NBUF" "j \<noteq> i" "holds_block d m s j" by blast
        with blk_cached(1) [OF inv' j(1), of m] blk_cached(1) [OF inv j(1,3)] nth [OF j(1)] ne show ?thesis by simp
      next
        case False
        have "\<not> holds_block d m (set_buf i b s) j" if "j < NBUF" for j
          using False that nth [OF that] ne b by (cases "j = i") auto
        note new = blk_uncached(1) [OF inv' this]
        have "blk d s m = dsk s m"
        proof (cases "holds_block d m s i")
          case True
          with u ne have "b_refcnt (bufs s ! i) = 0" by (auto simp: usable_def)
          with True blk_cached(1) [OF inv i True] D(7) [OF i] show ?thesis by auto
        next
          case False
          with \<open>\<not> (\<exists>j<NBUF. j \<noteq> i \<and> holds_block d m s j)\<close> blk_uncached(1) [OF inv, of m] show ?thesis by metis
        qed
        with new ne show ?thesis by simp
      qed
    qed
  qed
qed

lemma bread_spec:
  fixes s :: "'a bio_scheme"
  assumes inv: "bio_inv d s"
    and free: "\<And>i. i < NBUF \<Longrightarrow> holds_block d n s i \<Longrightarrow> \<not> sl_locked (b_lock (bufs s ! i)) \<and> b_refcnt (bufs s ! i) + 1 \<noteq> 0"
    and room: "\<exists>i<NBUF. holds_block d n s i \<or> b_refcnt (bufs s ! i) = 0"
  obtains i b where "bread d n s = Ok (i, set_buf i b s)" "usable d n s i" "b_dev b = d" "b_blockno b = n" "b_valid b"
    "b_data b = blk d s n" "holdingsleep (mypid s) (b_lock b)" "b_refcnt b \<noteq> 0"
    "b_refcnt b = (if holds_block d n s i then b_refcnt (bufs s ! i) + 1 else 1)"
    "bio_inv d (set_buf i b s)" "blk d (set_buf i b s) = blk d s"
proof -
  note D = bio_invD [OF inv] and found = that
  have core: thesis if i: "i < NBUF" and u: "usable d n s i" and g: "bget d n s = lock_buf i (set_buf i b0 s)"
      and b0: "b_dev b0 = d" "b_blockno b0 = n" "b_refcnt b0 \<noteq> 0" "\<not> sl_locked (b_lock b0)"
        "(if b_valid b0 then b_data b0 else dsk s n) = blk d s n"
        "b_refcnt b0 = (if holds_block d n s i then b_refcnt (bufs s ! i) + 1 else 1)" for i b0
  proof -
    let ?lk = "(b_lock b0)\<lparr>sl_locked := True, sl_pid := mypid s\<rparr>"
    let ?b = "b0\<lparr>b_lock := ?lk, b_data := blk d s n, b_valid := True\<rparr>"
    have "acquiresleep (mypid s) (b_lock b0) = Ok ?lk" using b0(4) by (simp add: acquiresleep_def)
    then have get: "bget d n s = Ok (i, set_buf i (b0\<lparr>b_lock := ?lk\<rparr>) s)"
      using D(1) i by (simp add: g lock_buf_def)
    have "bread d n s = Ok (i, set_buf i ?b s)"
    proof (cases "b_valid b0")
      case True
      then have "b0\<lparr>b_lock := ?lk\<rparr> = ?b" using b0(5) by (cases b0) simp
      with get True D(1) i show ?thesis by (simp add: bread_def)
    next
      case False
      with get D(1) i b0(2,5) show ?thesis by (simp add: bread_def disk_rw_def Let_def)
    qed
    moreover have "bio_inv d (set_buf i ?b s)" "blk d (set_buf i ?b s) = blk d s"
      using set_buf_cache [OF inv u, of ?b] b0(1-3) by auto
    ultimately show thesis
      using u b0 by (intro found [of i ?b]) (simp_all add: holdingsleep_def)
  qed
  show thesis
  proof (cases "\<exists>i<NBUF. holds_block d n s i")
    case True
    then obtain i where i: "i < NBUF" "holds_block d n s i" by blast
    note c = blk_cached [OF inv i]
    show thesis
      by (rule core [of i "(bufs s ! i)\<lparr>b_refcnt := b_refcnt (bufs s ! i) + 1\<rparr>"])
        (use i c free [OF i] in \<open>auto simp: usable_def bget_def\<close>)
  next
    case False
    then have none: "\<And>i. i < NBUF \<Longrightarrow> \<not> holds_block d n s i" by blast
    note c = blk_uncached [OF inv none]
    from room none obtain k where k: "k < NBUF" "b_refcnt (bufs s ! k) = 0" by blast
    show thesis
    proof (cases rule: find_split [of "\<lambda>i. b_refcnt (bufs s ! i) = 0" "rev (lru s)"])
      case none
      with k D(3) show thesis by auto
    next
      case (some i)
      then have i: "i < NBUF" using D(3) by auto
      show thesis
        by (rule core [of i "(bufs s ! i)\<lparr>b_dev := d, b_blockno := n, b_valid := False, b_refcnt := 1\<rparr>"])
          (use i c some D(6) [OF i] none in \<open>auto simp: usable_def bget_def\<close>)
    qed
  qed
qed

lemma brelse_spec:
  fixes s :: "'a bio_scheme"
  assumes inv: "bio_inv d s" and i: "i < NBUF" "holds_block d n s i" "holdingsleep (mypid s) (b_lock (bufs s ! i))"
    and clean: "b_refcnt (bufs s ! i) = 1 \<Longrightarrow> b_valid (bufs s ! i) \<Longrightarrow> b_data (bufs s ! i) = dsk s n"
  obtains s' where "brelse i s = Ok s'" "bio_inv d s'" "blk d s' = blk d s" "dsk s' = dsk s" "wtrace s' = wtrace s"
    "bufs s' = (bufs s)[i := (bufs s ! i)\<lparr>b_lock := (b_lock (bufs s ! i))\<lparr>sl_locked := False, sl_pid := 0\<rparr>,
       b_refcnt := b_refcnt (bufs s ! i) - 1\<rparr>]"
    "mypid s' = mypid s" "bio.more s' = bio.more s"
proof -
  note D = bio_invD [OF inv]
  let ?b = "(bufs s ! i)\<lparr>b_lock := (b_lock (bufs s ! i))\<lparr>sl_locked := False, sl_pid := 0\<rparr>,
       b_refcnt := b_refcnt (bufs s ! i) - 1\<rparr>"
  let ?w = "wakeup (ChBuf i) s"
  have my: "mypid ?w = mypid s" using D(4) by (simp add: mypid_def)
  have w: "bufs ?w = bufs s" "lru ?w = lru s" "dsk ?w = dsk s" "wtrace ?w = wtrace s" "bio.more ?w = bio.more s"
    by (simp_all add: wakeup_def)
  have invw: "bio_inv d ?w" using inv by (simp add: bio_inv_def w frame_simps)
  have blkw: "blk d ?w = blk d s" by (rule ext) (simp only: blk_def w)
  have u: "usable d n ?w i" using i by (simp add: usable_def w)
  have "blk d ?w n = (if b_valid ?b then b_data ?b else dsk ?w n)"
    using blk_cached(1) [OF invw i(1), of n] i(2) by (simp add: w)
  then have same: "(blk d ?w)(n := if b_valid ?b then b_data ?b else dsk ?w n) = blk d ?w" by auto
  have c: "bio_inv d (set_buf i ?b ?w)" "blk d (set_buf i ?b ?w) = blk d s"
    using set_buf_cache [OF invw u, of ?b] i(2) clean same blkw by (auto simp: w)
  let ?s = "set_buf i ?b ?w"
  let ?s' = "if b_refcnt ?b = 0 then ?s\<lparr>lru := i # removeAll i (lru ?s)\<rparr> else ?s"
  have perm: "distinct (i # removeAll i (lru s))" "set (i # removeAll i (lru s)) = {..<NBUF}"
    using D(2,3) i(1) by (auto simp: distinct_removeAll)
  have "bio_inv d ?s'" using c(1) perm by (auto simp: bio_inv_def w)
  moreover have "blk d ?s' = blk d s"
  proof -
    have "blk d (?s\<lparr>lru := i # removeAll i (lru ?s)\<rparr>) m = blk d ?s m" if "b_refcnt ?b = 0" for m
    proof -
      let ?r = "?s\<lparr>lru := i # removeAll i (lru ?s)\<rparr>"
      have inv': "bio_inv d ?r" using c(1) perm by (auto simp: bio_inv_def w)
      show ?thesis
      proof (cases "\<exists>j<NBUF. holds_block d m ?s j")
        case True
        then obtain j where j: "j < NBUF" "holds_block d m ?s j" by blast
        with blk_cached(1) [OF c(1) j] blk_cached(1) [OF inv' j(1), of m] show ?thesis by simp
      next
        case False
        with blk_uncached(1) [OF c(1), of m] blk_uncached(1) [OF inv', of m] show ?thesis by auto
      qed
    qed
    with c(2) show ?thesis by auto
  qed
  moreover have "brelse i s = Ok ?s'"
    using i(3) by (simp add: brelse_def releasesleep_def w Let_def)
  moreover have "mypid ?s' = mypid s" using my by (simp add: mypid_def myproc_def)
  ultimately show thesis by (intro that [of ?s']) (simp_all add: w)
qed

lemma bwrite_spec:
  assumes inv: "bio_inv d s" and i: "i < NBUF" "holds_block d n s i" "b_valid (bufs s ! i)"
    "holdingsleep (mypid s) (b_lock (bufs s ! i))"
  defines "s' \<equiv> s\<lparr>dsk := (dsk s)(n := b_data (bufs s ! i)), wtrace := wtrace s @ [(n, b_data (bufs s ! i))]\<rparr>"
  shows "bwrite i s = Ok s'" "bio_inv d s'" "blk d s' = blk d s"
proof -
  note D = bio_invD [OF inv]
  show "bwrite i s = Ok s'" using i by (simp add: bwrite_def disk_rw_def s'_def Let_def)
  have other: "b_blockno (bufs s ! j) \<noteq> n" if "j < NBUF" "j \<noteq> i" "b_dev (bufs s ! j) = d" for j
    using D(5) [OF that(1) i(1) that(3)] i(2) that(2) by auto
  have "b_data (bufs s ! j) = dsk s' (b_blockno (bufs s ! j))"
    if "j < NBUF" "b_refcnt (bufs s ! j) = 0" "b_dev (bufs s ! j) = d" "b_valid (bufs s ! j)" for j
    using D(7) [OF that] other [OF that(1) _ that(3)] i(2) by (cases "j = i") (auto simp: s'_def)
  with D show inv': "bio_inv d s'" unfolding bio_inv_def by (auto simp: s'_def)
  show "blk d s' = blk d s"
  proof
    fix m
    show "blk d s' m = blk d s m"
    proof (cases "\<exists>j<NBUF. holds_block d m s j")
      case True
      then obtain j where j: "j < NBUF" "holds_block d m s j" by blast
      have "m = n \<Longrightarrow> j = i" using other [OF j(1)] j(2) by auto
      with j i(3) blk_cached(1) [OF inv j] blk_cached(1) [OF inv' j(1), of m] show ?thesis by (auto simp: s'_def)
    next
      case False
      with i(1,2) have "m \<noteq> n" by auto
      with False blk_uncached(1) [OF inv, of m] blk_uncached(1) [OF inv', of m] show ?thesis by (auto simp: s'_def)
    qed
  qed
qed

end
