(* ===== verification/Bcache.thy ===== *)
theory Bcache
  imports Bio
begin

text \<open>
  The contract of the buffer cache as its clients, the log and the file system, use it.
  \<open>cst d P H s\<close> says that the blocks \<open>P\<close> are pinned and the blocks \<open>H\<close> are held
  (read and not yet released) by the calling process; each operation has one lemma that says
  how \<open>P\<close>, \<open>H\<close>, the disk and the contents \<open>blk\<close> change.
\<close>

definition pins :: "u32 set \<Rightarrow> u32 \<Rightarrow> u32" where
  "pins P n = (if n \<in> P then 1 else 0)"

definition cst :: "u32 \<Rightarrow> u32 set \<Rightarrow> u32 set \<Rightarrow> 'a bio_scheme \<Rightarrow> bool" where
  "cst d P H s \<longleftrightarrow> bio_inv d s \<and> finite P \<and> finite H \<and>
     (\<forall>i<NBUF. let b = bufs s ! i in
        if b_dev b = d
        then b_refcnt b = pins P (b_blockno b) + pins H (b_blockno b) \<and>
             sl_locked (b_lock b) = (b_blockno b \<in> H) \<and> (b_blockno b \<in> H \<longrightarrow> sl_pid (b_lock b) = mypid s) \<and>
             (b_blockno b \<in> P \<union> H \<longrightarrow> b_valid b)
        else b_refcnt b = 0) \<and>
     (\<forall>n\<in>P \<union> H. \<exists>i<NBUF. holds_block d n s i)"

text \<open>The buffer that caches a block.\<close>

definition at_block :: "u32 \<Rightarrow> u32 \<Rightarrow> 'a bio_scheme \<Rightarrow> nat \<Rightarrow> bool" where
  "at_block d n s i \<longleftrightarrow> i < NBUF \<and> holds_block d n s i"

lemma cst_inv: "cst d P H s \<Longrightarrow> bio_inv d s"
  by (simp add: cst_def)

lemma cst_buf:
  assumes "cst d P H s" "at_block d n s i"
  shows "b_refcnt (bufs s ! i) = pins P n + pins H n" "sl_locked (b_lock (bufs s ! i)) = (n \<in> H)"
    "n \<in> H \<Longrightarrow> holdingsleep (mypid s) (b_lock (bufs s ! i))" "n \<in> P \<union> H \<Longrightarrow> b_valid (bufs s ! i)"
    "n \<in> P \<union> H \<Longrightarrow> b_data (bufs s ! i) = blk d s n"
proof -
  have i: "i < NBUF" "holds_block d n s i" using assms(2) by (auto simp: at_block_def)
  with assms(1) show *: "b_refcnt (bufs s ! i) = pins P n + pins H n" "sl_locked (b_lock (bufs s ! i)) = (n \<in> H)"
    "n \<in> H \<Longrightarrow> holdingsleep (mypid s) (b_lock (bufs s ! i))" "n \<in> P \<union> H \<Longrightarrow> b_valid (bufs s ! i)"
    by (auto simp: cst_def Let_def holdingsleep_def)
  show "n \<in> P \<union> H \<Longrightarrow> b_data (bufs s ! i) = blk d s n"
    using blk_cached(1) [OF cst_inv [OF assms(1)] i] *(4) by simp
qed

lemma at_block_unique:
  assumes "cst d P H s" "at_block d n s i" "at_block d n s j"
  shows "i = j"
  using bio_invD(5) [OF cst_inv [OF assms(1)], of i j] assms(2,3) by (simp add: at_block_def)

lemma cst_at: "cst d P H s \<Longrightarrow> n \<in> P \<union> H \<Longrightarrow> \<exists>i. at_block d n s i"
  by (auto simp: cst_def at_block_def)

text \<open>With fewer blocks in use than there are buffers, one is idle.\<close>

lemma cst_room:
  assumes c: "cst d P H s" and card: "card (P \<union> H) < NBUF"
  shows "\<exists>i<NBUF. b_refcnt (bufs s ! i) = 0"
proof (rule ccontr)
  assume "\<not> ?thesis"
  then have busy: "\<And>i. i < NBUF \<Longrightarrow> b_refcnt (bufs s ! i) \<noteq> 0" by blast
  have used: "b_dev (bufs s ! i) = d \<and> b_blockno (bufs s ! i) \<in> P \<union> H" if "i < NBUF" for i
    using c busy [OF that] that by (auto simp: cst_def Let_def pins_def split: if_splits)
  have "inj_on (\<lambda>i. b_blockno (bufs s ! i)) {..<NBUF}"
    using used bio_invD(5) [OF cst_inv [OF c]] by (auto simp: inj_on_def)
  moreover have "(\<lambda>i. b_blockno (bufs s ! i)) ` {..<NBUF} \<subseteq> P \<union> H" using used by blast
  moreover have "finite (P \<union> H)" using c by (simp add: cst_def)
  ultimately have "card {..<NBUF} \<le> card (P \<union> H)" by (rule card_inj_on_le)
  with card show False by simp
qed

text \<open>Replacing the buffer of a block keeps all the others.\<close>

lemma cst_set_buf:
  assumes c: "cst d P H s" and u: "usable d n s i" and b: "b_dev b = d" "b_blockno b = n" "b_valid b"
      "b_refcnt b = pins P' n + pins H' n" "sl_locked (b_lock b) = (n \<in> H')" "n \<in> H' \<longrightarrow> sl_pid (b_lock b) = mypid s"
    and same: "\<And>m. m \<noteq> n \<Longrightarrow> (m \<in> P' \<longleftrightarrow> m \<in> P) \<and> (m \<in> H' \<longleftrightarrow> m \<in> H)" and fin: "finite P'" "finite H'"
    and clean: "n \<notin> P' \<union> H' \<longrightarrow> b_data b = dsk s n"
  shows "cst d P' H' (set_buf i b s)" "blk d (set_buf i b s) = (blk d s)(n := b_data b)" "at_block d n (set_buf i b s) i"
proof -
  note inv = cst_inv [OF c] and D = bio_invD [OF cst_inv [OF c]]
  have i: "i < NBUF" using u by (simp add: usable_def)
  have zero: "b_refcnt b = 0 \<Longrightarrow> n \<notin> P' \<union> H'" using b(4) by (auto simp: pins_def split: if_splits)
  note sb = set_buf_cache [OF inv u b(1,2)]
  have clean': "b_refcnt b = 0 \<Longrightarrow> \<not> sl_locked (b_lock b) \<and> (b_valid b \<longrightarrow> b_data b = dsk s n)"
    using zero clean b(5) by auto
  note inv' = sb(1) [OF clean'] and blk' = sb(2) [OF clean']
  show "blk d (set_buf i b s) = (blk d s)(n := b_data b)" using blk' b(3) by simp
  have nth: "bufs (set_buf i b s) ! j = (if j = i then b else bufs s ! j)" if "j < NBUF" for j
    using that D(1) i by simp
  show "at_block d n (set_buf i b s) i" using i nth [OF i] b by (simp add: at_block_def)
  have other: "\<not> holds_block d n s j" if "j < NBUF" "j \<noteq> i" for j
    using u that D(5) [of i j] by (auto simp: usable_def)
  have "let b' = bufs (set_buf i b s) ! j in
        if b_dev b' = d
        then b_refcnt b' = pins P' (b_blockno b') + pins H' (b_blockno b') \<and>
             sl_locked (b_lock b') = (b_blockno b' \<in> H') \<and> (b_blockno b' \<in> H' \<longrightarrow> sl_pid (b_lock b') = mypid (set_buf i b s)) \<and>
             (b_blockno b' \<in> P' \<union> H' \<longrightarrow> b_valid b')
        else b_refcnt b' = 0" if j: "j < NBUF" for j
  proof (cases "j = i")
    case True
    with nth [OF j] b show ?thesis by simp
  next
    case False
    have "let b' = bufs s ! j in
        if b_dev b' = d
        then b_refcnt b' = pins P (b_blockno b') + pins H (b_blockno b') \<and>
             sl_locked (b_lock b') = (b_blockno b' \<in> H) \<and> (b_blockno b' \<in> H \<longrightarrow> sl_pid (b_lock b') = mypid s) \<and>
             (b_blockno b' \<in> P \<union> H \<longrightarrow> b_valid b')
        else b_refcnt b' = 0" using c j by (simp add: cst_def)
    with False other [OF j False] same [of "b_blockno (bufs s ! j)"] nth [OF j] show ?thesis
      by (auto simp: Let_def pins_def split: if_splits)
  qed
  moreover have "\<exists>j<NBUF. holds_block d m (set_buf i b s) j" if m: "m \<in> P' \<union> H'" for m
  proof (cases "m = n")
    case True
    with i nth [OF i] b show ?thesis by auto
  next
    case False
    with m same have "m \<in> P \<union> H" by auto
    then obtain j where j: "j < NBUF" "holds_block d m s j" using c by (auto simp: cst_def)
    have "j \<noteq> i"
    proof
      assume "j = i"
      with j u False have "b_refcnt (bufs s ! i) = 0" by (auto simp: usable_def)
      with cst_buf(1) [OF c, of m i] \<open>m \<in> P \<union> H\<close> j \<open>j = i\<close> show False
        by (auto simp: at_block_def pins_def split: if_splits)
    qed
    with j nth [OF j(1)] show ?thesis by auto
  qed
  ultimately show "cst d P' H' (set_buf i b s)" using inv' fin by (simp add: cst_def)
qed

section \<open>The operations\<close>

text \<open>What an operation of the cache leaves alone: memory, the process table up to wakeups, the
  fields of the layers above, and where the blocks in use are cached.\<close>

definition bframe :: "'a bio_scheme \<Rightarrow> 'a bio_scheme \<Rightarrow> bool" where
  "bframe s s' \<longleftrightarrow> pmem s' = pmem s \<and> kend s' = kend s \<and> freelist s' = freelist s \<and> refcnt s' = refcnt s \<and>
     cur s' = cur s \<and> length (procs s') = length (procs s) \<and> myproc s' = myproc s \<and> bio.more s' = bio.more s"

lemma bframe_refl [simp]: "bframe s s"
  by (simp add: bframe_def)

lemma bframe_trans [trans]: "bframe s t \<Longrightarrow> bframe t u \<Longrightarrow> bframe s u"
  by (simp add: bframe_def)

lemma bframe_set_buf [simp]: "bframe s (set_buf i b s)"
  by (simp add: bframe_def set_buf_def myproc_def)

lemma bframeD:
  assumes "bframe s s'"
  shows "pmem s' = pmem s" "kend s' = kend s" "freelist s' = freelist s" "refcnt s' = refcnt s" "cur s' = cur s"
    "length (procs s') = length (procs s)" "myproc s' = myproc s" "bio.more s' = bio.more s" "mypid s' = mypid s"
  using assms by (simp_all add: bframe_def mypid_def)

lemma c_bread:
  fixes s :: "'a bio_scheme"
  assumes c: "cst d P H s" and n: "n \<notin> H" "card (P \<union> insert n H) \<le> NBUF"
  obtains i s' where "bread d n s = Ok (i, s')" "cst d P (insert n H) s'" "at_block d n s' i"
    "b_data (bufs s' ! i) = blk d s n" "blk d s' = blk d s" "dsk s' = dsk s" "wtrace s' = wtrace s" "bframe s s'"
    "\<And>m j. m \<in> P \<union> H \<Longrightarrow> at_block d m s j \<Longrightarrow> at_block d m s' j"
proof -
  have fin: "finite P" "finite H" using c by (auto simp: cst_def)
  have free: "\<not> sl_locked (b_lock (bufs s ! i)) \<and> b_refcnt (bufs s ! i) + 1 \<noteq> 0"
    if "i < NBUF" "holds_block d n s i" for i
    using cst_buf(1,2) [OF c, of n i] that n(1) by (auto simp: at_block_def pins_def)
  have room: "\<exists>i<NBUF. holds_block d n s i \<or> b_refcnt (bufs s ! i) = 0"
  proof (cases "n \<in> P")
    case True
    then show ?thesis using cst_at [OF c, of n] by (auto simp: at_block_def)
  next
    case False
    with n fin have "card (P \<union> H) < NBUF" by simp
    from cst_room [OF c this] show ?thesis by blast
  qed
  obtain i b where r: "bread d n s = Ok (i, set_buf i b s)" and u: "usable d n s i"
    and b: "b_dev b = d" "b_blockno b = n" "b_valid b" "b_data b = blk d s n"
      "holdingsleep (mypid s) (b_lock b)" "b_refcnt b = (if holds_block d n s i then b_refcnt (bufs s ! i) + 1 else 1)"
    using bread_spec [OF cst_inv [OF c] free room] by metis
  have i: "i < NBUF" using u by (simp add: usable_def)
  have "n \<in> P \<Longrightarrow> holds_block d n s i"
    using u cst_at [OF c, of n] by (auto simp: usable_def at_block_def)
  then have ref: "b_refcnt b = pins P n + pins (insert n H) n"
    using b(6) cst_buf(1) [OF c, of n i] i n(1) by (auto simp: at_block_def pins_def)
  note set = cst_set_buf [OF c u b(1-3) ref]
  have set': "cst d P (insert n H) (set_buf i b s)" "blk d (set_buf i b s) = (blk d s)(n := b_data b)"
    "at_block d n (set_buf i b s) i"
    using set b(5) fin by (auto simp: holdingsleep_def)
  have keep: "at_block d m (set_buf i b s) j" if m: "m \<in> P \<union> H" and a: "at_block d m s j" for m j
  proof (cases "j = i")
    case True
    have "b_refcnt (bufs s ! j) \<noteq> 0" using cst_buf(1) [OF c a] m by (auto simp: pins_def)
    with True u a have "m = n" by (auto simp: usable_def at_block_def)
    with set'(3) True show ?thesis by simp
  next
    case False
    with a show ?thesis by (simp add: at_block_def)
  qed
  have data: "b_data (bufs (set_buf i b s) ! i) = blk d s n" using b(4) i bio_invD(1) [OF cst_inv [OF c]] by simp
  show thesis by (rule that [OF r set'(1,3) data _ _ _ _ keep]) (use set'(2) b(4) in auto)
qed

lemma c_set_data:
  assumes c: "cst d P H s" and a: "at_block d n s i" and n: "n \<in> H"
  shows "cst d P H (set_buf i ((bufs s ! i)\<lparr>b_data := x\<rparr>) s)"
    "blk d (set_buf i ((bufs s ! i)\<lparr>b_data := x\<rparr>) s) = (blk d s)(n := x)"
    "at_block d m s j \<Longrightarrow> at_block d m (set_buf i ((bufs s ! i)\<lparr>b_data := x\<rparr>) s) j"
proof -
  have i: "i < NBUF" "b_dev (bufs s ! i) = d" "b_blockno (bufs s ! i) = n" using a by (auto simp: at_block_def)
  have u: "usable d n s i" using i by (simp add: usable_def)
  note B = cst_buf [OF c a]
  have fin: "finite P" "finite H" using c by (auto simp: cst_def)
  note set = cst_set_buf [OF c u, where b = "(bufs s ! i)\<lparr>b_data := x\<rparr>" and P' = P and H' = H]
  show "cst d P H (set_buf i ((bufs s ! i)\<lparr>b_data := x\<rparr>) s)"
    using set(1) i B n fin by (simp add: holdingsleep_def)
  show "blk d (set_buf i ((bufs s ! i)\<lparr>b_data := x\<rparr>) s) = (blk d s)(n := x)"
    using set(2) i B n fin by (simp add: holdingsleep_def)
  show "at_block d m s j \<Longrightarrow> at_block d m (set_buf i ((bufs s ! i)\<lparr>b_data := x\<rparr>) s) j"
    using i(1) bio_invD(1) [OF cst_inv [OF c]] by (cases "j = i") (auto simp: at_block_def)
qed

lemma c_bwrite:
  fixes s :: "'a bio_scheme"
  assumes c: "cst d P H s" and a: "at_block d n s i" and n: "n \<in> H"
  obtains s' where "bwrite i s = Ok s'" "cst d P H s'" "blk d s' = blk d s" "dsk s' = (dsk s)(n := blk d s n)"
    "wtrace s' = wtrace s @ [(n, blk d s n)]" "bframe s s'" "\<And>m j. at_block d m s j \<Longrightarrow> at_block d m s' j"
proof -
  note B = cst_buf [OF c a]
  have i: "i < NBUF" "holds_block d n s i" using a by (auto simp: at_block_def)
  let ?s' = "s\<lparr>dsk := (dsk s)(n := b_data (bufs s ! i)), wtrace := wtrace s @ [(n, b_data (bufs s ! i))]\<rparr>"
  have v: "b_valid (bufs s ! i)" and h: "holdingsleep (mypid s) (b_lock (bufs s ! i))" and x: "b_data (bufs s ! i) = blk d s n"
    using B n by auto
  note w = bwrite_spec [OF cst_inv [OF c] i v h]
  have "mypid ?s' = mypid s" by (simp add: mypid_def myproc_def)
  then have "cst d P H ?s'" using c w(2) by (simp add: cst_def Let_def)
  then show thesis
    by (intro that [of ?s'] w) (use x in \<open>auto simp: bframe_def myproc_def at_block_def\<close>)
qed

lemma c_brelse:
  fixes s :: "'a bio_scheme"
  assumes c: "cst d P H s" and a: "at_block d n s i" and n: "n \<in> H" and clean: "n \<in> P \<or> blk d s n = dsk s n"
  obtains s' where "brelse i s = Ok s'" "cst d P (H - {n}) s'" "blk d s' = blk d s" "dsk s' = dsk s"
    "wtrace s' = wtrace s" "bframe s s'" "\<And>m j. at_block d m s j \<Longrightarrow> at_block d m s' j"
proof -
  note B = cst_buf [OF c a] and D = bio_invD [OF cst_inv [OF c]]
  have i: "i < NBUF" "holds_block d n s i" using a by (auto simp: at_block_def)
  have fin: "finite P" "finite H" using c by (auto simp: cst_def)
  have v: "b_valid (bufs s ! i)" and h: "holdingsleep (mypid s) (b_lock (bufs s ! i))" and x: "b_data (bufs s ! i) = blk d s n"
    using B n by auto
  have cl: "b_refcnt (bufs s ! i) = 1 \<Longrightarrow> b_valid (bufs s ! i) \<Longrightarrow> b_data (bufs s ! i) = dsk s n"
    using clean x B(1) n by (auto simp: pins_def)
  let ?b = "(bufs s ! i)\<lparr>b_lock := (b_lock (bufs s ! i))\<lparr>sl_locked := False, sl_pid := 0\<rparr>, b_refcnt := b_refcnt (bufs s ! i) - 1\<rparr>"
  obtain s' where r: "brelse i s = Ok s'" "bio_inv d s'" "blk d s' = blk d s" "dsk s' = dsk s" "wtrace s' = wtrace s"
    "bufs s' = (bufs s)[i := ?b]" "mypid s' = mypid s" "bio.more s' = bio.more s"
    using brelse_spec [OF cst_inv [OF c] i h cl] by metis
  have fr: "bframe s s'"
    using r(1) D(4) by (auto simp: brelse_def releasesleep_def bframe_def Let_def frame_simps set_buf_def myproc_def
        wakeup_nth wakeup_proc_def r(8) split: if_splits)
  have u: "usable d n s i" using i by (simp add: usable_def)
  have ref: "b_refcnt ?b = pins P n + pins (H - {n}) n" using B(1) n by (simp add: pins_def)
  note set = cst_set_buf [OF c u, where b = ?b and P' = P and H' = "H - {n}"]
  have "cst d P (H - {n}) (set_buf i ?b s)" using set(1) i v ref fin clean x by auto
  then have "cst d P (H - {n}) s'" using r(2,6,7) by (simp add: cst_def Let_def)
  moreover have "at_block d m s' j" if "at_block d m s j" for m j
    using that r(6) i D(1) by (cases "j = i") (auto simp: at_block_def)
  ultimately show thesis by (rule that [OF r(1) _ r(3-5) fr])
qed

lemma c_pin:
  assumes c: "cst d P H s" and a: "at_block d n s i" and n: "n \<in> H"
  shows "n \<notin> P \<Longrightarrow> cst d (insert n P) H (bpin i s)" "n \<notin> P \<Longrightarrow> blk d (bpin i s) = blk d s"
    "n \<in> P \<Longrightarrow> cst d (P - {n}) H (bunpin i s)" "n \<in> P \<Longrightarrow> blk d (bunpin i s) = blk d s"
    "at_block d m s j \<Longrightarrow> at_block d m (bpin i s) j" "at_block d m s j \<Longrightarrow> at_block d m (bunpin i s) j"
proof -
  note B = cst_buf [OF c a] and D = bio_invD [OF cst_inv [OF c]]
  have i: "i < NBUF" "b_dev (bufs s ! i) = d" "b_blockno (bufs s ! i) = n" using a by (auto simp: at_block_def)
  have u: "usable d n s i" using i by (simp add: usable_def)
  have fin: "finite P" "finite H" using c by (auto simp: cst_def)
  have same: "(blk d s)(n := b_data (bufs s ! i)) = blk d s" using B(5) n by auto
  show "n \<notin> P \<Longrightarrow> cst d (insert n P) H (bpin i s)" "n \<notin> P \<Longrightarrow> blk d (bpin i s) = blk d s"
    using cst_set_buf(1,2) [OF c u, where b = "(bufs s ! i)\<lparr>b_refcnt := b_refcnt (bufs s ! i) + 1\<rparr>" and P' = "insert n P" and H' = H] i B n fin same
    by (auto simp: bpin_def pins_def holdingsleep_def)
  show "n \<in> P \<Longrightarrow> cst d (P - {n}) H (bunpin i s)" "n \<in> P \<Longrightarrow> blk d (bunpin i s) = blk d s"
    using cst_set_buf(1,2) [OF c u, where b = "(bufs s ! i)\<lparr>b_refcnt := b_refcnt (bufs s ! i) - 1\<rparr>" and P' = "P - {n}" and H' = H] i B n fin same
    by (auto simp: bunpin_def pins_def holdingsleep_def)
  show "at_block d m s j \<Longrightarrow> at_block d m (bpin i s) j" "at_block d m s j \<Longrightarrow> at_block d m (bunpin i s) j"
    using i(1) D(1) by (cases "j = i"; auto simp: at_block_def bpin_def bunpin_def)+
qed

lemma pin_frame [simp]:
  "dsk (bpin i s) = dsk s" "dsk (bunpin i s) = dsk s" "wtrace (bpin i s) = wtrace s" "wtrace (bunpin i s) = wtrace s"
  "bframe s (bpin i s)" "bframe s (bunpin i s)"
  by (simp_all add: bpin_def bunpin_def)

text \<open>Once every buffer is in use, a block that is not cached cannot be read.\<close>

lemma bread_no_buffers:
  assumes inv: "bio_inv d s" and busy: "\<And>i. i < NBUF \<Longrightarrow> b_refcnt (bufs s ! i) \<noteq> 0 \<and> \<not> holds_block d n s i"
  shows "bread d n s = Panic ''bget: no buffers''"
proof -
  note D = bio_invD [OF inv]
  have "find (holds_block d n s) (lru s) = None" using busy D(3) by (auto simp: find_None_iff)
  moreover have "find (\<lambda>i. b_refcnt (bufs s ! i) = 0) (rev (lru s)) = None" using busy D(3) by (auto simp: find_None_iff)
  ultimately show ?thesis by (simp add: bread_def bget_def)
qed

end
