(* ===== verification/Bytes.thy ===== *)
theory Bytes
  imports Prelude
begin

text \<open>
  C structures stored in byte arrays: little-endian fields of \<open>k\<close> bytes at an offset.  Used for
  what the kernel keeps in disk blocks (log header, inodes, directory entries, superblock), for
  structures copied to and from user memory, and for ELF headers.
\<close>

definition le_bytes :: "nat \<Rightarrow> 'a::len word \<Rightarrow> u8 list" where
  "le_bytes k v = map (\<lambda>i. ucast (drop_bit (8 * i) v)) [0..<k]"

fun le_word :: "u8 list \<Rightarrow> 'a::len word" where
  "le_word [] = 0"
| "le_word (b # bs) = ucast b OR push_bit 8 (le_word bs)"

definition get_field :: "nat \<Rightarrow> nat \<Rightarrow> u8 list \<Rightarrow> u8 list" where
  "get_field off k bs = take k (drop off bs)"

definition put_field :: "nat \<Rightarrow> u8 list \<Rightarrow> u8 list \<Rightarrow> u8 list" where
  "put_field off xs bs = take off bs @ xs @ drop (off + length xs) bs"

definition get32 :: "nat \<Rightarrow> u8 list \<Rightarrow> u32" where
  "get32 off bs = le_word (get_field off 4 bs)"

definition put32 :: "nat \<Rightarrow> u32 \<Rightarrow> u8 list \<Rightarrow> u8 list" where
  "put32 off v = put_field off (le_bytes 4 v)"

definition get16 :: "nat \<Rightarrow> u8 list \<Rightarrow> u16" where
  "get16 off bs = le_word (get_field off 2 bs)"

definition put16 :: "nat \<Rightarrow> u16 \<Rightarrow> u8 list \<Rightarrow> u8 list" where
  "put16 off v = put_field off (le_bytes 2 v)"

definition get64 :: "nat \<Rightarrow> u8 list \<Rightarrow> u64" where
  "get64 off bs = le_word (get_field off 8 bs)"

lemma of_nat_u32_inj:
  assumes "i < 2 ^ 32" "j < 2 ^ 32"
  shows "(of_nat i :: u32) = of_nat j \<longleftrightarrow> i = j"
proof -
  have "unat (of_nat i :: u32) = i" "unat (of_nat j :: u32) = j"
    using assms by (simp_all add: unat_of_nat take_bit_nat_eq_self)
  then show ?thesis by metis
qed

lemma length_le_bytes [simp]: "length (le_bytes k v) = k"
  by (simp add: le_bytes_def)

lemma le_bytes_Suc: "le_bytes (Suc k) v = ucast v # le_bytes k (drop_bit 8 v)"
  by (simp add: le_bytes_def upt_conv_Cons map_Suc_upt [symmetric] o_def drop_bit_drop_bit add.commute del: upt_Suc)

lemma le_word_bytes: "le_word (le_bytes k v) = take_bit (8 * k) v"
proof (induction k arbitrary: v)
  case 0
  then show ?case by (simp add: le_bytes_def)
next
  case (Suc k)
  show ?case
    by (rule bit_word_eqI) (auto simp: le_bytes_Suc Suc.IH bit_simps)
qed

lemma le_word_full: "8 * k = LENGTH('a) \<Longrightarrow> le_word (le_bytes k v) = (v :: 'a::len word)"
  by (simp add: le_word_bytes)

lemma length_put_field [simp]: "off + length xs \<le> length bs \<Longrightarrow> length (put_field off xs bs) = length bs"
  by (simp add: put_field_def)

lemma get_put_same: "off + length xs \<le> length bs \<Longrightarrow> k = length xs \<Longrightarrow> get_field off k (put_field off xs bs) = xs"
  by (simp add: get_field_def put_field_def)

lemma nth_put_field:
  assumes "off + length xs \<le> length bs" "i < length bs"
  shows "put_field off xs bs ! i = (if off \<le> i \<and> i < off + length xs then xs ! (i - off) else bs ! i)"
  using assms by (auto simp: put_field_def nth_append)

lemma get_field_nth:
  assumes "off + k \<le> length bs"
  shows "get_field off k bs = map (\<lambda>i. bs ! (off + i)) [0..<k]"
  using assms by (intro nth_equalityI) (auto simp: get_field_def)

lemma get_put_other:
  assumes "off + length xs \<le> length bs" "off' + k \<le> length bs" "off' + k \<le> off \<or> off + length xs \<le> off'"
  shows "get_field off' k (put_field off xs bs) = get_field off' k bs"
  using assms by (auto simp: get_field_nth nth_put_field)

lemma get_put32 [simp]:
  "off + 4 \<le> length bs \<Longrightarrow> get32 off (put32 off v bs) = v"
  "off + 4 \<le> length bs \<Longrightarrow> off' + 4 \<le> length bs \<Longrightarrow> off' + 4 \<le> off \<or> off + 4 \<le> off' \<Longrightarrow>
     get32 off' (put32 off v bs) = get32 off' bs"
  "off + 4 \<le> length bs \<Longrightarrow> length (put32 off v bs) = length bs"
  by (simp_all add: get32_def put32_def get_put_same get_put_other le_word_full)

lemma get_put16 [simp]:
  "off + 2 \<le> length bs \<Longrightarrow> get16 off (put16 off v bs) = v"
  "off + 2 \<le> length bs \<Longrightarrow> off' + 2 \<le> length bs \<Longrightarrow> off' + 2 \<le> off \<or> off + 2 \<le> off' \<Longrightarrow>
     get16 off' (put16 off v bs) = get16 off' bs"
  "off + 2 \<le> length bs \<Longrightarrow> length (put16 off v bs) = length bs"
  by (simp_all add: get16_def put16_def get_put_same get_put_other le_word_full)

lemma get_put_mixed [simp]:
  "off + 2 \<le> length bs \<Longrightarrow> off' + 4 \<le> length bs \<Longrightarrow> off' + 4 \<le> off \<or> off + 2 \<le> off' \<Longrightarrow>
     get32 off' (put16 off v bs) = get32 off' bs"
  "off + 4 \<le> length bs \<Longrightarrow> off' + 2 \<le> length bs \<Longrightarrow> off' + 2 \<le> off \<or> off + 4 \<le> off' \<Longrightarrow>
     get16 off' (put32 off w bs) = get16 off' bs"
  by (simp_all add: get32_def put32_def get16_def put16_def get_put_other)

section \<open>C strings held in byte lists\<close>

text \<open>A string is the list of its bytes; reading past the end of the list reads the NUL.\<close>

definition hd0 :: "u8 list \<Rightarrow> u8" where
  "hd0 p = (case p of [] \<Rightarrow> 0 | c # _ \<Rightarrow> c)"

fun strncmp_list :: "u8 list \<Rightarrow> u8 list \<Rightarrow> nat \<Rightarrow> int" where
  "strncmp_list p q 0 = 0"
| "strncmp_list p q (Suc n) =
     (if hd0 p \<noteq> 0 \<and> hd0 p = hd0 q then strncmp_list (tl p) (tl q) n else uint (hd0 p) - uint (hd0 q))"

definition cstr :: "u8 list \<Rightarrow> u8 list" where
  "cstr = takeWhile (\<lambda>c. c \<noteq> 0)"

definition strncpy_list :: "u8 list \<Rightarrow> nat \<Rightarrow> u8 list" where
  "strncpy_list t n = take n (cstr t @ replicate n 0)"

lemma length_strncpy_list [simp]: "length (strncpy_list t n) = n"
  by (simp add: strncpy_list_def)

lemma hd0_simps [simp]: "hd0 [] = 0" "hd0 (c # p) = c"
  by (simp_all add: hd0_def)

lemma cstr_simps [simp]: "cstr [] = []" "cstr (c # p) = (if c = 0 then [] else c # cstr p)"
  by (simp_all add: cstr_def)

text \<open>Two strings compare equal when they agree up to their NUL, or up to the given length.\<close>

lemma strncmp_list_eq: "strncmp_list p q n = 0 \<longleftrightarrow> take n (cstr p) = take n (cstr q)"
proof (induction p q n rule: strncmp_list.induct)
  case (2 p q n)
  then show ?case by (cases p; cases q) (auto simp: word_uint_eq_iff)
qed simp

lemma cstr_take_strncpy: "take n (cstr (strncpy_list t n)) = take n (cstr t)"
proof -
  have "cstr (take n (xs @ replicate m 0)) = take n xs" if "\<forall>c\<in>set xs. c \<noteq> 0" for xs :: "u8 list" and n m
    using that
  proof (induction xs arbitrary: n)
    case Nil
    then show ?case by (cases "min n m") (auto simp: cstr_def)
  next
    case (Cons c xs)
    then show ?case by (cases n) auto
  qed
  moreover have "\<forall>c\<in>set (cstr t). c \<noteq> 0" by (auto simp: cstr_def dest: set_takeWhileD)
  ultimately have "cstr (strncpy_list t n) = take n (cstr t)" unfolding strncpy_list_def by blast
  then show ?thesis by simp
qed

end
