(* ===== verification/Log.thy ===== *)
theory Log
  imports Bcache Bytes
begin

text \<open>
  The write-ahead log (\<^verbatim>\<open>kernel/log.c\<close>).  The in-memory \<^verbatim>\<open>struct log\<close> extends the
  state of the buffer cache; the on-disk header is read and written as the bytes of its block.
  The recovery message of \<open>install_trans\<close> is left out.  The lemmas say which block writes each
  operation performs, in order; \<open>Logcrash\<close> and \<open>Logspace\<close> build on them.
\<close>

abbreviation MAXOPBLOCKS :: int where
  "MAXOPBLOCKS \<equiv> 10"

abbreviation LOGBLOCKS :: int where
  "LOGBLOCKS \<equiv> 30"

record logst = bio +
  log_start :: u32
  log_outstanding :: int
  log_committing :: bool
  log_dev :: u32
  lh_n :: int
  lh_block :: "u32 list"

section \<open>Operations\<close>

text \<open>The data of a buffer, and its update in place.\<close>

definition bdata :: "nat \<Rightarrow> 'a bio_scheme \<Rightarrow> block" where
  "bdata i s = b_data (bufs s ! i)"

definition set_bdata :: "nat \<Rightarrow> block \<Rightarrow> 'a bio_scheme \<Rightarrow> 'a bio_scheme" where
  "set_bdata i x s = set_buf i ((bufs s ! i)\<lparr>b_data := x\<rparr>) s"

definition install_block :: "bool \<Rightarrow> nat \<Rightarrow> 'a logst_scheme \<Rightarrow> 'a logst_scheme kres" where
  "install_block recovering tail s =
     andThen (bread (log_dev s) (log_start s + of_nat tail + 1) s) (\<lambda>(lbuf, s).
     andThen (bread (log_dev s) (lh_block s ! tail) s) (\<lambda>(dbuf, s).
       let s = set_bdata dbuf (bdata lbuf s) s in
     andThen (bwrite dbuf s) (\<lambda>s.
       let s = (if recovering then s else bunpin dbuf s) in
     andThen (brelse lbuf s) (\<lambda>s. brelse dbuf s))))"

definition install_trans :: "bool \<Rightarrow> 'a logst_scheme \<Rightarrow> 'a logst_scheme kres" where
  "install_trans recovering s = forM (install_block recovering) [0..<nat (lh_n s)] s"

text \<open>\<^verbatim>\<open>struct logheader\<close> in a block: the count at offset 0, then the block numbers.  A count
  above \<^verbatim>\<open>LOGBLOCKS\<close> makes \<^verbatim>\<open>read_head\<close> write past the array, which has no defined
  behaviour.\<close>

definition head_n :: "block \<Rightarrow> int" where
  "head_n x = sint (get32 0 x)"

definition head_block :: "block \<Rightarrow> nat \<Rightarrow> u32" where
  "head_block x i = get32 (4 + 4 * i) x"

definition read_head :: "'a logst_scheme \<Rightarrow> 'a logst_scheme kres" where
  "read_head s =
     andThen (bread (log_dev s) (log_start s) s) (\<lambda>(buf, s).
       let n = head_n (bdata buf s) in
       if n > LOGBLOCKS then Panic ''undefined: array index'' else
       let s = s\<lparr>lh_n := n, lh_block := map (head_block (bdata buf s)) [0..<nat n] @ drop (nat n) (lh_block s)\<rparr> in
       brelse buf s)"

definition head_bytes :: "int \<Rightarrow> u32 list \<Rightarrow> block \<Rightarrow> block" where
  "head_bytes n bs x = fold (\<lambda>i. put32 (4 + 4 * i) (bs ! i)) [0..<nat n] (put32 0 (word_of_int n) x)"

definition write_head :: "'a logst_scheme \<Rightarrow> 'a logst_scheme kres" where
  "write_head s =
     andThen (bread (log_dev s) (log_start s) s) (\<lambda>(buf, s).
       let s = set_bdata buf (head_bytes (lh_n s) (lh_block s) (bdata buf s)) s in
     andThen (bwrite buf s) (\<lambda>s. brelse buf s))"

definition recover_from_log :: "'a logst_scheme \<Rightarrow> 'a logst_scheme kres" where
  "recover_from_log s =
     andThen (read_head s) (\<lambda>s.
     andThen (install_trans True s) (\<lambda>s. write_head (s\<lparr>lh_n := 0\<rparr>)))"

definition initlog :: "u32 \<Rightarrow> u32 \<Rightarrow> 'a logst_scheme \<Rightarrow> 'a logst_scheme kres" where
  "initlog dev logstart s =
     (if 4 + 4 * nat LOGBLOCKS \<ge> BSIZE then Panic ''initlog: too big logheader''
      else recover_from_log (s\<lparr>log_start := logstart, log_dev := dev\<rparr>))"

definition begin_op :: "'a logst_scheme \<Rightarrow> 'a logst_scheme kres" where
  "begin_op s =
     (if log_committing s then Spin
      else if lh_n s + (log_outstanding s + 1) * MAXOPBLOCKS > LOGBLOCKS then Spin
      else Ok (s\<lparr>log_outstanding := log_outstanding s + 1\<rparr>))"

definition write_log_block :: "nat \<Rightarrow> 'a logst_scheme \<Rightarrow> 'a logst_scheme kres" where
  "write_log_block tail s =
     andThen (bread (log_dev s) (log_start s + of_nat tail + 1) s) (\<lambda>(to, s).
     andThen (bread (log_dev s) (lh_block s ! tail) s) (\<lambda>(from, s).
       let s = set_bdata to (bdata from s) s in
     andThen (bwrite to s) (\<lambda>s.
     andThen (brelse from s) (\<lambda>s. brelse to s))))"

definition write_log :: "'a logst_scheme \<Rightarrow> 'a logst_scheme kres" where
  "write_log s = forM write_log_block [0..<nat (lh_n s)] s"

definition commit :: "'a logst_scheme \<Rightarrow> 'a logst_scheme kres" where
  "commit s =
     (if lh_n s > 0
      then andThen (write_log s) (\<lambda>s.
           andThen (write_head s) (\<lambda>s.
           andThen (install_trans False s) (\<lambda>s. write_head (s\<lparr>lh_n := 0\<rparr>))))
      else Ok s)"

definition end_op :: "'a logst_scheme \<Rightarrow> 'a logst_scheme kres" where
  "end_op s =
     (let s = s\<lparr>log_outstanding := log_outstanding s - 1\<rparr> in
      if log_committing s then Panic ''log.committing''
      else if log_outstanding s = 0
      then andThen (commit (s\<lparr>log_committing := True\<rparr>)) (\<lambda>s. Ok (wakeup ChLog (s\<lparr>log_committing := False\<rparr>)))
      else Ok (wakeup ChLog s))"

definition log_write :: "nat \<Rightarrow> 'a logst_scheme \<Rightarrow> 'a logst_scheme kres" where
  "log_write b s =
     (if lh_n s \<ge> LOGBLOCKS then Panic ''too big a transaction''
      else if log_outstanding s < 1 then Panic ''log_write outside of trans''
      else let blockno = b_blockno (bufs s ! b);
               i = length (takeWhile (\<lambda>x. x \<noteq> blockno) (take (nat (lh_n s)) (lh_block s)));
               s = s\<lparr>lh_block := (lh_block s)[i := blockno]\<rparr>
           in Ok (if int i = lh_n s then (bpin b s)\<lparr>lh_n := lh_n s + 1\<rparr> else s))"

section \<open>Frames\<close>

lemma logst_frame:
  assumes "bframe s s'"
  shows "log_start s' = log_start s" "log_outstanding s' = log_outstanding s" "log_committing s' = log_committing s"
    "log_dev s' = log_dev s" "lh_n s' = lh_n s" "lh_block s' = lh_block s" "logst.more s' = logst.more s"
  using assms by (cases s; cases s'; simp add: bframe_def)+

lemma cst_log_upd [simp]:
  "cst d P H (s\<lparr>lh_n := n\<rparr>) = cst d P H s" "cst d P H (s\<lparr>lh_block := bs\<rparr>) = cst d P H s"
  "cst d P H (s\<lparr>log_outstanding := out\<rparr>) = cst d P H s" "cst d P H (s\<lparr>log_committing := c\<rparr>) = cst d P H s"
  "cst d P H (s\<lparr>log_start := st\<rparr>) = cst d P H s" "cst d P H (s\<lparr>log_dev := dv\<rparr>) = cst d P H s"
  by (simp_all add: cst_def bio_inv_def mypid_def myproc_def)

lemma blk_log_upd [simp]:
  "blk d (s\<lparr>lh_n := n\<rparr>) = blk d s" "blk d (s\<lparr>lh_block := bs\<rparr>) = blk d s"
  "blk d (s\<lparr>log_outstanding := out\<rparr>) = blk d s" "blk d (s\<lparr>log_committing := c\<rparr>) = blk d s"
  "blk d (s\<lparr>log_start := st\<rparr>) = blk d s" "blk d (s\<lparr>log_dev := dv\<rparr>) = blk d s"
  by (simp_all add: blk_def fun_eq_iff split: option.split)

lemma at_block_log_upd [simp]:
  "at_block d m (s\<lparr>lh_n := n\<rparr>) i = at_block d m s i" "at_block d m (s\<lparr>lh_block := bs\<rparr>) i = at_block d m s i"
  by (simp_all add: at_block_def)

lemma cst_clean:
  assumes c: "cst d P H s" and n: "n \<notin> P" "n \<notin> H"
  shows "blk d s n = dsk s n"
proof (cases "\<exists>i<NBUF. holds_block d n s i")
  case True
  then obtain i where i: "i < NBUF" "holds_block d n s i" by blast
  then have "b_refcnt (bufs s ! i) = 0" using cst_buf(1) [OF c, of n i] n by (simp add: at_block_def pins_def)
  with blk_cached(1) [OF cst_inv [OF c] i] bio_invD(7) [OF cst_inv [OF c] i(1)] i show ?thesis by simp
next
  case False
  then show ?thesis using blk_uncached(1) [OF cst_inv [OF c], of n] by blast
qed

section \<open>Writing blocks\<close>

definition apply_writes :: "(u32 \<times> block) list \<Rightarrow> (u32 \<Rightarrow> block) \<Rightarrow> u32 \<Rightarrow> block" where
  "apply_writes ws D = foldl (\<lambda>D (n, x). D(n := x)) D ws"

lemma apply_writes_simps [simp]:
  "apply_writes [] D = D" "apply_writes ((n, x) # ws) D = apply_writes ws (D(n := x))"
  "apply_writes (ws @ vs) D = apply_writes vs (apply_writes ws D)"
  by (simp_all add: apply_writes_def)

lemma apply_writes_other: "n \<notin> fst ` set ws \<Longrightarrow> apply_writes ws D n = D n"
  by (induction ws arbitrary: D) auto

lemma apply_writes_in:
  assumes "n \<in> fst ` set ws" "\<And>x. (n, x) \<in> set ws \<Longrightarrow> x = y"
  shows "apply_writes ws D n = y"
  using assms
proof (induction ws arbitrary: D)
  case (Cons w ws)
  obtain m x where w: "w = (m, x)" by (cases w)
  show ?case
  proof (cases "n \<in> fst ` set ws")
    case True
    with Cons w show ?thesis by simp
  next
    case False
    with Cons.prems w have "n = m" "x = y" by auto
    with False w show ?thesis by (simp add: apply_writes_other)
  qed
qed simp

text \<open>The state after the writes \<open>ws\<close>: cache contents and disk agree on them.\<close>

definition wrote :: "u32 \<Rightarrow> (u32 \<times> block) list \<Rightarrow> 'a bio_scheme \<Rightarrow> 'a bio_scheme \<Rightarrow> bool" where
  "wrote d ws s s' \<longleftrightarrow> blk d s' = apply_writes ws (blk d s) \<and> dsk s' = apply_writes ws (dsk s) \<and>
     wtrace s' = wtrace s @ ws \<and> bframe s s'"

lemma wrote_trans [trans]: "wrote d ws s t \<Longrightarrow> wrote d vs t u \<Longrightarrow> wrote d (ws @ vs) s u"
  by (auto simp: wrote_def intro: bframe_trans)

lemma wrote_refl [simp]: "wrote d [] s s"
  by (simp add: wrote_def)

section \<open>What the steps of a commit do\<close>

lemma set_bdata_frame [simp]:
  "dsk (set_bdata i x s) = dsk s" "wtrace (set_bdata i x s) = wtrace s" "bframe s (set_bdata i x s)"
  by (simp_all add: set_bdata_def)

lemma c_set_bdata:
  assumes "cst d P H s" "at_block d n s i" "n \<in> H"
  shows "cst d P H (set_bdata i x s)" "blk d (set_bdata i x s) = (blk d s)(n := x)"
    "at_block d m s j \<Longrightarrow> at_block d m (set_bdata i x s) j"
  using c_set_data [OF assms] by (simp_all add: set_bdata_def)

lemma c_bdata: "cst d P H s \<Longrightarrow> at_block d n s i \<Longrightarrow> n \<in> P \<union> H \<Longrightarrow> bdata i s = blk d s n"
  unfolding bdata_def by (rule cst_buf(5))

text \<open>The cache blocks in use stay where they are.\<close>

definition keeps :: "u32 \<Rightarrow> u32 set \<Rightarrow> 'a bio_scheme \<Rightarrow> 'a bio_scheme \<Rightarrow> bool" where
  "keeps d A s s' \<longleftrightarrow> (\<forall>m\<in>A. \<forall>i. at_block d m s i \<longrightarrow> at_block d m s' i)"

text \<open>A step that changes neither contents nor disk.\<close>

definition quiet :: "u32 \<Rightarrow> 'a bio_scheme \<Rightarrow> 'a bio_scheme \<Rightarrow> bool" where
  "quiet d s s' \<longleftrightarrow> blk d s' = blk d s \<and> dsk s' = dsk s \<and> wtrace s' = wtrace s \<and> bframe s s'"

lemma quietD:
  assumes "quiet d s s'"
  shows "blk d s' = blk d s" "dsk s' = dsk s" "wtrace s' = wtrace s" "bframe s s'"
  using assms by (simp_all add: quiet_def)

lemma keeps_atD: "keeps d A s s' \<Longrightarrow> at_block d m s i \<Longrightarrow> m \<in> A \<Longrightarrow> at_block d m s' i"
  by (simp add: keeps_def)

lemma read_block:
  assumes "cst d P H s" "n \<notin> H" "card (P \<union> insert n H) \<le> NBUF"
  shows "\<exists>i s'. bread d n s = Ok (i, s') \<and> cst d P (insert n H) s' \<and> at_block d n s' i \<and> quiet d s s' \<and> keeps d (P \<union> H) s s'"
  by (rule c_bread [OF assms]) (simp add: quiet_def keeps_def)

lemma write_block:
  assumes "cst d P H s" "at_block d n s i" "n \<in> H"
  shows "\<exists>s'. bwrite i s = Ok s' \<and> cst d P H s' \<and> blk d s' = blk d s \<and> dsk s' = (dsk s)(n := blk d s n) \<and>
    wtrace s' = wtrace s @ [(n, blk d s n)] \<and> bframe s s' \<and> keeps d UNIV s s'"
  by (rule c_bwrite [OF assms]) (simp add: keeps_def)

lemma release_block:
  assumes "cst d P H s" "at_block d n s i" "n \<in> H" "n \<in> P \<or> blk d s n = dsk s n"
  shows "\<exists>s'. brelse i s = Ok s' \<and> cst d P (H - {n}) s' \<and> quiet d s s' \<and> keeps d UNIV s s'"
  by (rule c_brelse [OF assms]) (simp add: quiet_def keeps_def)

lemma write_log_block_spec:
  fixes s :: "'a logst_scheme"
  assumes c: "cst (log_dev s) P {} s" and P: "lh_block s ! k \<in> P" "log_start s + of_nat k + 1 \<notin> P" "card P < NBUF"
  shows "\<exists>s'. write_log_block k s = Ok s' \<and> cst (log_dev s) P {} s' \<and>
    wrote (log_dev s) [(log_start s + of_nat k + 1, blk (log_dev s) s (lh_block s ! k))] s s'"
proof -
  define d l m where "d = log_dev s" and "l = log_start s + of_nat k + 1" and "m = lh_block s ! k"
  note c = c [folded d_def] and P = P [folded l_def m_def]
  have fin: "finite P" and ne: "m \<noteq> l" using c P by (auto simp: cst_def)
  have "card (P \<union> insert l {}) \<le> NBUF" using P fin by simp
  then obtain i s1 where 1: "bread d l s = Ok (i, s1)" "cst d P {l} s1" "at_block d l s1 i" "quiet d s s1"
    using read_block [OF c] by blast
  have "card (P \<union> insert m {l}) \<le> NBUF" using P fin by (simp add: insert_absorb)
  moreover have "m \<notin> {l}" using ne by simp
  ultimately obtain j s2 where 2: "bread d m s1 = Ok (j, s2)" "cst d P {m, l} s2" "at_block d m s2 j" "quiet d s1 s2"
    "keeps d (P \<union> {l}) s1 s2"
    using read_block [OF 1(2)] by blast
  have li: "at_block d l s2 i" using keeps_atD [OF 2(5) 1(3)] by simp
  define s3 where "s3 = set_bdata i (bdata j s2) s2"
  note q1 = quietD [OF 1(4)] and q2 = quietD [OF 2(4)]
  have x: "bdata j s2 = blk d s m" using c_bdata [OF 2(2,3)] q1(1) q2(1) by simp
  have 3: "cst d P {m, l} s3" "blk d s3 = (blk d s)(l := blk d s m)" "at_block d m s3 j" "at_block d l s3 i"
    using c_set_bdata [OF 2(2) li, where x = "bdata j s2"] x 2(3) li q1(1) q2(1) by (simp_all add: s3_def)
  obtain s4 where 4: "bwrite i s3 = Ok s4" "cst d P {m, l} s4" "blk d s4 = blk d s3" "dsk s4 = (dsk s3)(l := blk d s3 l)"
    "wtrace s4 = wtrace s3 @ [(l, blk d s3 l)]" "bframe s3 s4" "keeps d UNIV s3 s4"
    using write_block [OF 3(1,4)] by blast
  note k4 = keeps_atD [OF 4(7) 3(3) UNIV_I] keeps_atD [OF 4(7) 3(4) UNIV_I]
  obtain s5 where 5: "brelse j s4 = Ok s5" "cst d P ({m, l} - {m}) s5" "quiet d s4 s5" "keeps d UNIV s4 s5"
    using release_block [OF 4(2) k4(1)] P(1) by blast
  note q5 = quietD [OF 5(3)] and k5 = keeps_atD [OF 5(4) k4(2) UNIV_I]
  have "blk d s5 l = dsk s5 l" using q5 4(3,4) by simp
  then obtain s6 where 6: "brelse i s5 = Ok s6" "cst d P ({m, l} - {m} - {l}) s6" "quiet d s5 s6"
    using release_block [OF 5(2) k5] ne by blast
  note q6 = quietD [OF 6(3)]
  have fr: "bframe s s6"
    using q1(4) q2(4) 4(6) q5(4) q6(4) set_bdata_frame(3) [of s2 i "bdata j s2", folded s3_def] by (meson bframe_trans)
  have "write_log_block k s = Ok s6"
    using 1(1) 2(1) 4(1) 5(1) 6(1) logst_frame [OF q1(4)]
    by (simp add: write_log_block_def d_def l_def m_def s3_def Let_def)
  moreover have "wrote d [(l, blk d s m)] s s6"
    using fr q6(1-3) q5(1-3) 4(3-5) 3(2) q2(2,3) q1(2,3) by (simp add: wrote_def s3_def)
  moreover
  have e: "{m, l} - {m} - {l} = {}" by auto
  have "cst d P {} s6" using 6(2) unfolding e .
  ultimately show ?thesis unfolding d_def l_def m_def by blast
qed

lemma install_block_spec:
  fixes s :: "'a logst_scheme"
  assumes c: "cst (log_dev s) P {} s" and P: "log_start s + of_nat k + 1 \<notin> P" "log_start s + of_nat k + 1 \<noteq> lh_block s ! k"
      "card (insert (lh_block s ! k) P) < NBUF" "\<not> recov \<Longrightarrow> lh_block s ! k \<in> P"
  shows "\<exists>s'. install_block recov k s = Ok s' \<and> cst (log_dev s) (if recov then P else P - {lh_block s ! k}) {} s' \<and>
    wrote (log_dev s) [(lh_block s ! k, blk (log_dev s) s (log_start s + of_nat k + 1))] s s'"
proof -
  define d l m where "d = log_dev s" and "l = log_start s + of_nat k + 1" and "m = lh_block s ! k"
  note c = c [folded d_def] and P = P [folded l_def m_def]
  have fin: "finite P" using c by (auto simp: cst_def)
  have "card (insert m P) = (if m \<in> P then card P else Suc (card P))" using fin by (simp add: insert_absorb)
  then have cards: "card (P \<union> insert l {}) \<le> NBUF" "card (P \<union> insert m {l}) \<le> NBUF"
    using P(1,3) fin by (auto simp: insert_commute card_insert_if split: if_splits)
  obtain i s1 where 1: "bread d l s = Ok (i, s1)" "cst d P {l} s1" "at_block d l s1 i" "quiet d s s1"
    using read_block [OF c _ cards(1)] by blast
  have "m \<notin> {l}" using P(2) by simp
  from read_block [OF 1(2) this cards(2)]
  obtain j s2 where 2: "bread d m s1 = Ok (j, s2)" "cst d P {m, l} s2" "at_block d m s2 j" "quiet d s1 s2"
    "keeps d (P \<union> {l}) s1 s2" by blast
  have li: "at_block d l s2 i" using keeps_atD [OF 2(5) 1(3)] by simp
  define s3 where "s3 = set_bdata j (bdata i s2) s2"
  note q1 = quietD [OF 1(4)] and q2 = quietD [OF 2(4)]
  have x: "bdata i s2 = blk d s l" using c_bdata [OF 2(2) li] q1(1) q2(1) by simp
  have 3: "cst d P {m, l} s3" "blk d s3 = (blk d s)(m := blk d s l)" "at_block d m s3 j" "at_block d l s3 i"
    using c_set_bdata [OF 2(2,3), where x = "bdata i s2"] x 2(3) li q1(1) q2(1) by (simp_all add: s3_def)
  obtain s4 where 4: "bwrite j s3 = Ok s4" "cst d P {m, l} s4" "blk d s4 = blk d s3" "dsk s4 = (dsk s3)(m := blk d s3 m)"
    "wtrace s4 = wtrace s3 @ [(m, blk d s3 m)]" "bframe s3 s4" "keeps d UNIV s3 s4"
    using write_block [OF 3(1,3)] by blast
  note k4 = keeps_atD [OF 4(7) 3(3) UNIV_I] keeps_atD [OF 4(7) 3(4) UNIV_I]
  define s5 P' where "s5 = (if recov then s4 else bunpin j s4)" and "P' = (if recov then P else P - {m})"
  have 5: "cst d P' {m, l} s5" "quiet d s4 s5" "at_block d m s5 j" "at_block d l s5 i"
    using c_pin(3,4,6) [OF 4(2) k4(1)] 4(2) k4 P(4) by (auto simp: s5_def P'_def quiet_def)
  note q5 = quietD [OF 5(2)]
  have "blk d s5 l = dsk s5 l"
    using cst_clean [OF c, of l] P(1,2) q5(1,2) 4(3,4) 3(2) q2(2) q1(2) by (simp add: s3_def)
  then obtain s6 where 6: "brelse i s5 = Ok s6" "cst d P' ({m, l} - {l}) s6" "quiet d s5 s6" "keeps d UNIV s5 s6"
    using release_block [OF 5(1,4)] by blast
  note q6 = quietD [OF 6(3)] and k6 = keeps_atD [OF 6(4) 5(3) UNIV_I]
  have "blk d s6 m = dsk s6 m" using q6 q5 4(3,4) by simp
  then obtain s7 where 7: "brelse j s6 = Ok s7" "cst d P' ({m, l} - {l} - {m}) s7" "quiet d s6 s7"
    using release_block [OF 6(2) k6] P(2) by blast
  note q7 = quietD [OF 7(3)]
  have fr: "bframe s s7"
    using q1(4) q2(4) 4(6) q5(4) q6(4) q7(4) set_bdata_frame(3) [of s2 j "bdata i s2", folded s3_def] by (meson bframe_trans)
  have "install_block recov k s = Ok s7"
    using 1(1) 2(1) 4(1) 6(1) 7(1) logst_frame [OF q1(4)]
    by (simp add: install_block_def d_def l_def m_def s3_def s5_def Let_def)
  moreover have "wrote d [(m, blk d s l)] s s7"
    using fr q7(1-3) q6(1-3) q5(1-3) 4(3-5) 3(2) q2(2,3) q1(2,3) by (simp add: wrote_def s3_def)
  moreover
  have e: "{m, l} - {l} - {m} = {}" by auto
  have "cst d P' {} s7" using 7(2) unfolding e .
  ultimately show ?thesis unfolding d_def l_def m_def P'_def by blast
qed

section \<open>The header block\<close>

lemma head_fold:
  assumes "4 + 4 * k \<le> length x"
  shows "length (fold (\<lambda>i. put32 (4 + 4 * i) (bs ! i)) [0..<k] x) = length x \<and>
    get32 0 (fold (\<lambda>i. put32 (4 + 4 * i) (bs ! i)) [0..<k] x) = get32 0 x \<and>
    (\<forall>i<k. get32 (4 + 4 * i) (fold (\<lambda>i. put32 (4 + 4 * i) (bs ! i)) [0..<k] x) = bs ! i)"
  using assms
proof (induction k)
  case (Suc k)
  then show ?case by (auto simp: less_Suc_eq)
qed simp

lemma head_bytes_ok:
  assumes "length x = BSIZE" "0 \<le> n" "n \<le> LOGBLOCKS"
  shows "length (head_bytes n bs x) = BSIZE" "head_n (head_bytes n bs x) = n"
    "i < nat n \<Longrightarrow> head_block (head_bytes n bs x) i = bs ! i"
proof -
  have "4 + 4 * nat n \<le> length (put32 0 (word_of_int n) x)" using assms by simp
  note f = head_fold [OF this, of bs]
  show "length (head_bytes n bs x) = BSIZE" using f assms(1) by (simp add: head_bytes_def)
  have "sint (word_of_int n :: u32) = n"
    using assms(2,3) by (simp add: sint_word_ariths signed_of_int signed_take_bit_int_eq_self)
  then show "head_n (head_bytes n bs x) = n" using f assms(1) by (simp add: head_bytes_def head_n_def)
  show "i < nat n \<Longrightarrow> head_block (head_bytes n bs x) i = bs ! i" using f by (simp add: head_bytes_def head_block_def)
qed

lemma write_head_spec:
  fixes s :: "'a logst_scheme"
  assumes c: "cst (log_dev s) P {} s" and P: "log_start s \<notin> P" "card P < NBUF"
  shows "\<exists>s'. write_head s = Ok s' \<and> cst (log_dev s) P {} s' \<and>
    wrote (log_dev s) [(log_start s, head_bytes (lh_n s) (lh_block s) (blk (log_dev s) s (log_start s)))] s s'"
proof -
  define d l where "d = log_dev s" and "l = log_start s"
  note c = c [folded d_def] and P = P [folded l_def]
  have fin: "finite P" using c by (auto simp: cst_def)
  have "card (P \<union> insert l {}) \<le> NBUF" using P fin by simp
  then obtain i s1 where 1: "bread d l s = Ok (i, s1)" "cst d P {l} s1" "at_block d l s1 i" "quiet d s s1"
    using read_block [OF c] by blast
  note q1 = quietD [OF 1(4)]
  define x where "x = head_bytes (lh_n s) (lh_block s) (blk d s l)"
  define s2 where "s2 = set_bdata i x s1"
  have x: "bdata i s1 = blk d s l" using c_bdata [OF 1(2,3)] q1(1) by simp
  have 2: "cst d P {l} s2" "blk d s2 = (blk d s)(l := x)" "at_block d l s2 i"
    using c_set_bdata [OF 1(2,3), where x = x] 1(3) q1(1) by (simp_all add: s2_def)
  obtain s3 where 3: "bwrite i s2 = Ok s3" "cst d P {l} s3" "blk d s3 = blk d s2" "dsk s3 = (dsk s2)(l := blk d s2 l)"
    "wtrace s3 = wtrace s2 @ [(l, blk d s2 l)]" "bframe s2 s3" "keeps d UNIV s2 s3"
    using write_block [OF 2(1,3)] by blast
  have "blk d s3 l = dsk s3 l" using 3(3,4) by simp
  then obtain s4 where 4: "brelse i s3 = Ok s4" "cst d P ({l} - {l}) s4" "quiet d s3 s4"
    using release_block [OF 3(2) keeps_atD [OF 3(7) 2(3) UNIV_I]] by blast
  note q4 = quietD [OF 4(3)]
  have "bframe s s4"
    using q1(4) 3(6) q4(4) set_bdata_frame(3) [of s1 i x, folded s2_def] by (meson bframe_trans)
  then have "wrote d [(l, x)] s s4"
    using q4(1-3) 3(3-5) 2(2) q1(2,3) by (simp add: wrote_def s2_def)
  moreover have "write_head s = Ok s4"
    using 1(1) 3(1) 4(1) x logst_frame [OF q1(4)] by (simp add: write_head_def d_def l_def s2_def x_def Let_def)
  ultimately show ?thesis using 4(2) unfolding d_def l_def x_def by auto
qed

section \<open>Commit\<close>

text \<open>The blocks of the log on disk: the header and the slots behind it.\<close>

definition logblks :: "u32 \<Rightarrow> u32 set" where
  "logblks L = (\<lambda>i. L + of_nat i) ` {0..30}"

lemma logblks_mem [simp]: "L \<in> logblks L" "k < 30 \<Longrightarrow> L + of_nat k + 1 \<in> logblks L"
proof -
  have "L = L + of_nat 0" by simp
  then show "L \<in> logblks L" unfolding logblks_def by (rule image_eqI) simp
  have "L + of_nat k + 1 = L + of_nat (Suc k)" by (simp add: add.assoc)
  then show "L + of_nat k + 1 \<in> logblks L" if "k < 30" unfolding logblks_def by (rule image_eqI) (use that in simp)
qed

lemma log_slot_inj:
  assumes "i < 30" "j < 30" "L + of_nat i + 1 = (L :: u32) + of_nat j + 1"
  shows "i = j"
proof -
  have "(of_nat i :: u32) = of_nat j" using assms(3) by simp
  with assms(1,2) show ?thesis by (simp add: of_nat_u32_inj)
qed

lemma log_slot_head: "i < 30 \<Longrightarrow> (L :: u32) + of_nat i + 1 \<noteq> L"
proof
  assume i: "i < 30" and "L + of_nat i + 1 = L"
  then have "(of_nat (Suc i) :: u32) = 0" by (simp add: add.assoc add.commute)
  then have "unat (of_nat (Suc i) :: u32) = 0" by (simp only: unat_0)
  with i show False by (subst (asm) unat_of_nat_small) simp_all
qed

text \<open>A transaction that is ready to commit: the header in memory lists the pinned blocks, each once,
  none of them in the log.\<close>

definition log_ready :: "u32 list \<Rightarrow> 'a logst_scheme \<Rightarrow> bool" where
  "log_ready bs s \<longleftrightarrow> cst (log_dev s) (set bs) {} s \<and> distinct bs \<and> length bs < NBUF \<and>
     set bs \<inter> logblks (log_start s) = {} \<and> lh_n s = int (length bs) \<and> length (lh_block s) = nat LOGBLOCKS \<and>
     take (length bs) (lh_block s) = bs"

lemma log_readyD:
  assumes "log_ready bs s"
  shows "cst (log_dev s) (set bs) {} s" "distinct bs" "length bs < NBUF" "set bs \<inter> logblks (log_start s) = {}"
    "lh_n s = int (length bs)" "\<And>i. i < length bs \<Longrightarrow> lh_block s ! i = bs ! i" "card (set bs) < NBUF"
    "\<And>i. i < length bs \<Longrightarrow> log_start s + of_nat i + 1 \<notin> set bs" "log_start s \<notin> set bs"
proof -
  note r = assms [unfolded log_ready_def]
  show "cst (log_dev s) (set bs) {} s" "distinct bs" "length bs < NBUF" "set bs \<inter> logblks (log_start s) = {}"
    "lh_n s = int (length bs)" "card (set bs) < NBUF" using r by (simp_all add: distinct_card)
  show "lh_block s ! i = bs ! i" if "i < length bs" for i using r that by (metis nth_take)
  show "log_start s + of_nat i + 1 \<notin> set bs" if "i < length bs" for i
    using r that logblks_mem(2) [of i "log_start s"] by auto
  show "log_start s \<notin> set bs" using r logblks_mem(1) [of "log_start s"] by auto
qed

definition log_writes :: "u32 \<Rightarrow> u32 list \<Rightarrow> (u32 \<Rightarrow> block) \<Rightarrow> (u32 \<times> block) list" where
  "log_writes L bs f = map (\<lambda>i. (L + of_nat i + 1, f (bs ! i))) [0..<length bs]"

definition home_writes :: "u32 \<Rightarrow> u32 list \<Rightarrow> (u32 \<Rightarrow> block) \<Rightarrow> (u32 \<times> block) list" where
  "home_writes L bs f = map (\<lambda>i. (bs ! i, f (L + of_nat i + 1))) [0..<length bs]"

lemma write_log_spec:
  fixes s :: "'a logst_scheme"
  assumes r: "log_ready bs s"
  shows "\<exists>s'. write_log s = Ok s' \<and> cst (log_dev s) (set bs) {} s' \<and>
    wrote (log_dev s) (log_writes (log_start s) bs (blk (log_dev s) s)) s s'"
proof -
  note R = log_readyD [OF r]
  let ?d = "log_dev s" and ?L = "log_start s"
  let ?w = "\<lambda>k. map (\<lambda>i. (?L + of_nat i + 1, blk ?d s (bs ! i))) [0..<k]"
  have "\<exists>u. write_log_block k t = Ok u \<and> cst ?d (set bs) {} u \<and> wrote ?d (?w (Suc k)) s u"
    if k: "k < length bs" and t: "cst ?d (set bs) {} t \<and> wrote ?d (?w k) s t" for k t
  proof -
    have fr: "bframe s t" using t by (simp add: wrote_def)
    note f = logst_frame [OF fr]
    have "bs ! k \<notin> fst ` set (?w k)" using R(8) k by (fastforce simp: in_set_conv_nth)
    then have "blk ?d t (bs ! k) = blk ?d s (bs ! k)" using t by (simp add: wrote_def apply_writes_other)
    then obtain u where "write_log_block k t = Ok u" "cst ?d (set bs) {} u" "wrote ?d [(?L + of_nat k + 1, blk ?d s (bs ! k))] t u"
      using write_log_block_spec [of t "set bs" k] t f R(6) [OF k] R(7) R(8) [OF k] k by auto
    with t show ?thesis using wrote_trans [of ?d "?w k" s t] by auto
  qed
  from forM_upt [where I = "\<lambda>k t. cst ?d (set bs) {} t \<and> wrote ?d (?w k) s t" and n = "length bs", OF _ this]
  show ?thesis using R(1,5) by (auto simp: write_log_def log_writes_def)
qed

lemma install_trans_spec:
  fixes s :: "'a logst_scheme"
  assumes c: "cst (log_dev s) (if recov then {} else set bs) {} s" and n: "lh_n s = int (length bs)" "length bs \<le> 30"
    and bs: "\<And>i. i < length bs \<Longrightarrow> lh_block s ! i = bs ! i" "set bs \<inter> logblks (log_start s) = {}"
      "\<not> recov \<Longrightarrow> distinct bs \<and> length bs < NBUF"
  shows "\<exists>s'. install_trans recov s = Ok s' \<and> cst (log_dev s) {} {} s' \<and>
    wrote (log_dev s) (home_writes (log_start s) bs (blk (log_dev s) s)) s s'"
proof -
  let ?d = "log_dev s" and ?L = "log_start s" and ?P = "\<lambda>k. if recov then {} else set (drop k bs)"
  let ?w = "\<lambda>k. map (\<lambda>i. (bs ! i, blk ?d s (?L + of_nat i + 1))) [0..<k]"
  have apart: "?L + of_nat k + 1 \<notin> set bs" if "k < length bs" for k
    using bs(2) n(2) logblks_mem(2) [of k ?L] that by auto
  have step: "\<exists>u. install_block recov k t = Ok u \<and> cst ?d (?P (Suc k)) {} u \<and> wrote ?d (?w (Suc k)) s u"
    if k: "k < length bs" and t: "cst ?d (?P k) {} t \<and> wrote ?d (?w k) s t" for k t
  proof -
    have fr: "bframe s t" using t by (simp add: wrote_def)
    note f = logst_frame [OF fr]
    have dr: "drop k bs = bs ! k # drop (Suc k) bs" using k by (rule Cons_nth_drop_Suc [symmetric])
    have "?L + of_nat k + 1 \<notin> fst ` set (?w k)" using apart [OF k] k by auto
    then have x: "blk ?d t (?L + of_nat k + 1) = blk ?d s (?L + of_nat k + 1)"
      using t by (simp add: wrote_def apply_writes_other)
    have P: "?L + of_nat k + 1 \<notin> ?P k" "?L + of_nat k + 1 \<noteq> bs ! k"
      using apart [OF k] k by (auto dest: in_set_dropD)
    have "card (set (drop k bs)) \<le> length (drop k bs)" by (rule card_length)
    then have card: "card (insert (bs ! k) (?P k)) < NBUF" using bs(3) dr by auto
    have rest: "(if recov then ?P k else ?P k - {bs ! k}) = ?P (Suc k)"
    proof (cases recov)
      case False
      have "distinct (bs ! k # drop (Suc k) bs)" unfolding dr [symmetric] using bs(3) False by simp
      with False show ?thesis by (simp add: dr)
    qed simp
    have "\<exists>u. install_block recov k t = Ok u \<and> cst ?d (?P (Suc k)) {} u \<and> wrote ?d [(bs ! k, blk ?d s (?L + of_nat k + 1))] t u"
      using install_block_spec [of t "?P k" k recov] t P card dr unfolding f bs(1) [OF k] x rest by auto
    with t show ?thesis using wrote_trans [of ?d "?w k" s t] by auto
  qed
  have "\<exists>u. forM (install_block recov) [0..<length bs] s = Ok u \<and> cst ?d (?P (length bs)) {} u \<and> wrote ?d (?w (length bs)) s u"
    by (rule forM_upt [where I = "\<lambda>k t. cst ?d (?P k) {} t \<and> wrote ?d (?w k) s t"]) (use c step in auto)
  moreover have "?P (length bs) = {}" by simp
  ultimately show ?thesis using n(1) by (simp only: install_trans_def home_writes_def nat_int)
qed

lemma wrote_lh_n:
  fixes s t :: "'a logst_scheme"
  assumes "wrote d ws s t"
  shows "wrote d ws (s\<lparr>lh_n := n\<rparr>) (t\<lparr>lh_n := n\<rparr>)"
proof -
  have "bframe s t \<Longrightarrow> bframe (s\<lparr>lh_n := n\<rparr>) (t\<lparr>lh_n := n\<rparr>)"
    by (cases s; cases t) (simp add: bframe_def myproc_def)
  with assms show ?thesis by (simp add: wrote_def)
qed

text \<open>The writes of a commit, in order: the log, its header, the home locations, the empty header.\<close>

definition new_head :: "u32 list \<Rightarrow> 'a logst_scheme \<Rightarrow> block" where
  "new_head bs s = head_bytes (int (length bs)) (lh_block s) (blk (log_dev s) s (log_start s))"

definition commit_writes :: "u32 list \<Rightarrow> 'a logst_scheme \<Rightarrow> (u32 \<times> block) list" where
  "commit_writes bs s =
     log_writes (log_start s) bs (blk (log_dev s) s) @ [(log_start s, new_head bs s)] @
     map (\<lambda>b. (b, blk (log_dev s) s b)) bs @ [(log_start s, head_bytes 0 (lh_block s) (new_head bs s))]"

lemma log_writes_at:
  assumes "length bs \<le> 30" "i < length bs"
  shows "apply_writes (log_writes L bs f) D (L + of_nat i + 1) = f (bs ! i)"
proof (rule apply_writes_in)
  show "L + of_nat i + 1 \<in> fst ` set (log_writes L bs f)" using assms(2) by (force simp: log_writes_def)
  show "x = f (bs ! i)" if "(L + of_nat i + 1, x) \<in> set (log_writes L bs f)" for x
  proof -
    from that obtain j where j: "j < length bs" "L + of_nat i + 1 = L + of_nat j + 1" "x = f (bs ! j)"
      unfolding log_writes_def by auto
    then have "i = j" using log_slot_inj [of i j L] assms by simp
    with j show ?thesis by simp
  qed
qed

lemma log_writes_fst: "length bs \<le> 30 \<Longrightarrow> fst ` set (log_writes L bs f) \<subseteq> logblks L - {L}"
proof
  fix x assume n: "length bs \<le> 30" and "x \<in> fst ` set (log_writes L bs f)"
  then obtain i where i: "i < length bs" "x = L + of_nat i + 1" unfolding log_writes_def by auto
  with n logblks_mem(2) [of i L] log_slot_head [of i L] show "x \<in> logblks L - {L}" by simp
qed

lemma commit_spec:
  fixes s :: "'a logst_scheme"
  assumes r: "log_ready bs s" and ne: "bs \<noteq> []"
  shows "\<exists>s'. commit s = Ok s' \<and> cst (log_dev s) {} {} s' \<and> wrote (log_dev s) (commit_writes bs s) (s\<lparr>lh_n := 0\<rparr>) s'"
proof -
  note R = log_readyD [OF r]
  let ?d = "log_dev s" and ?L = "log_start s"
  let ?lw = "log_writes ?L bs (blk ?d s)" and ?hw = "map (\<lambda>b. (b, blk ?d s b)) bs"
  obtain s1 where 1: "write_log s = Ok s1" "cst ?d (set bs) {} s1" "wrote ?d ?lw s s1" using write_log_spec [OF r] by blast
  have f1: "bframe s s1" using 1(3) by (simp add: wrote_def)
  note f1 = logst_frame [OF f1]
  have L1: "blk ?d s1 ?L = blk ?d s ?L"
    using 1(3) log_writes_fst [of bs ?L "blk ?d s"] R(3) by (auto simp: wrote_def intro!: apply_writes_other)
  from write_head_spec [of s1 "set bs", unfolded f1 L1 R(5)] 1(2) R(7,9)
  obtain s2 where 2: "write_head s1 = Ok s2" "cst ?d (set bs) {} s2" "wrote ?d [(?L, new_head bs s)] s1 s2"
    by (auto simp: new_head_def)
  note w2 = wrote_trans [OF 1(3) 2(3)]
  have "bframe s s2" using w2 by (simp add: wrote_def)
  note f2 = logst_frame [OF this]
  have slots: "blk ?d s2 (?L + of_nat i + 1) = blk ?d s (bs ! i)" if "i < length bs" for i
    using w2 log_slot_head [of i ?L] log_writes_at [of bs i] that R(3) by (simp add: wrote_def)
  have home: "home_writes ?L bs (blk ?d s2) = ?hw"
    using slots by (auto simp: home_writes_def intro!: nth_equalityI)
  have "\<exists>s3. install_trans False s2 = Ok s3 \<and> cst ?d {} {} s3 \<and> wrote ?d ?hw s2 s3"
    using install_trans_spec [of s2 False bs, unfolded f2 home] 2(2) R(2-6) by simp
  then obtain s3 where 3: "install_trans False s2 = Ok s3" "cst ?d {} {} s3" "wrote ?d ?hw s2 s3" by blast
  note w3 = wrote_trans [OF w2 3(3)]
  have "bframe s s3" using w3 by (simp add: wrote_def)
  note f3 = logst_frame [OF this]
  have "?L \<notin> fst ` set ?hw" using R(9) by auto
  then have L3: "blk ?d s3 ?L = new_head bs s" using w3 by (simp add: wrote_def apply_writes_other)
  have "\<exists>s4. write_head (s3\<lparr>lh_n := 0\<rparr>) = Ok s4 \<and> cst ?d {} {} s4 \<and>
      wrote ?d [(?L, head_bytes 0 (lh_block s) (new_head bs s))] (s3\<lparr>lh_n := 0\<rparr>) s4"
    using write_head_spec [of "s3\<lparr>lh_n := 0\<rparr>" "{}"] 3(2) by (simp add: f3 L3)
  then obtain s4 where 4: "write_head (s3\<lparr>lh_n := 0\<rparr>) = Ok s4" "cst ?d {} {} s4"
    "wrote ?d [(?L, head_bytes 0 (lh_block s) (new_head bs s))] (s3\<lparr>lh_n := 0\<rparr>) s4" by blast
  have "wrote ?d (commit_writes bs s) (s\<lparr>lh_n := 0\<rparr>) s4"
    using wrote_trans [OF wrote_lh_n [OF w3, of 0] 4(3)] by (simp add: commit_writes_def)
  moreover have "commit s = Ok s4" using 1(1) 2(1) 3(1) 4(1) R(5) ne by (simp add: commit_def)
  ultimately show ?thesis using 4(2) by blast
qed

section \<open>Recovery\<close>

text \<open>What \<open>recover_from_log\<close> makes of a disk, from an empty cache.\<close>

lemma recover_spec:
  fixes s :: "'a logst_scheme"
  assumes c: "cst (log_dev s) {} {} s" and n: "0 \<le> head_n (dsk s (log_start s))" "head_n (dsk s (log_start s)) \<le> LOGBLOCKS"
    and bs: "bs = map (head_block (dsk s (log_start s))) [0..<nat (head_n (dsk s (log_start s)))]"
      "set bs \<inter> logblks (log_start s) = {}"
  shows "\<exists>s' x. recover_from_log s = Ok s' \<and> cst (log_dev s) {} {} s' \<and> lh_n s' = 0 \<and>
    dsk s' = (apply_writes (home_writes (log_start s) bs (dsk s)) (dsk s))(log_start s := x)"
proof -
  let ?d = "log_dev s" and ?L = "log_start s" and ?n = "head_n (dsk s (log_start s))"
  have clean: "blk ?d t = dsk t" if "cst ?d {} {} t" for t :: "'a logst_scheme"
    using cst_clean [OF that] by (intro ext) simp
  have "card ({} \<union> insert ?L {}) \<le> NBUF" by simp
  then obtain i s1 where 1: "bread ?d ?L s = Ok (i, s1)" "cst ?d {} {?L} s1" "at_block ?d ?L s1 i" "quiet ?d s s1"
    using read_block [OF c] by blast
  note q1 = quietD [OF 1(4)] and f1 = logst_frame [OF quietD(4) [OF 1(4)]]
  have x: "bdata i s1 = dsk s ?L" using c_bdata [OF 1(2,3)] q1(1) clean [OF c] by simp
  define s2 where "s2 = s1\<lparr>lh_n := ?n, lh_block := bs @ drop (nat ?n) (lh_block s)\<rparr>"
  have 2: "cst ?d {} {?L} s2" "blk ?d s2 = blk ?d s" "dsk s2 = dsk s" "at_block ?d ?L s2 i"
    using 1(2,3) q1 by (simp_all add: s2_def)
  obtain s3 where 3: "brelse i s2 = Ok s3" "cst ?d {} ({?L} - {?L}) s3" "quiet ?d s2 s3"
    using release_block [OF 2(1,4)] 2(2,3) clean [OF c] by auto
  note q3 = quietD [OF 3(3)] and f3 = logst_frame [OF quietD(4) [OF 3(3)]]
  have head: "read_head s = Ok s3"
    using 1(1) 3(1) x n(2) f1 bs(1) by (simp add: read_head_def s2_def Let_def)
  have fields: "log_dev s3 = ?d" "log_start s3 = ?L" "lh_n s3 = int (length bs)" "length bs \<le> 30"
    "\<And>k. k < length bs \<Longrightarrow> lh_block s3 ! k = bs ! k"
    using f3 f1 n bs(1) by (simp_all add: s2_def nth_append)
  have "\<exists>s4. install_trans True s3 = Ok s4 \<and> cst ?d {} {} s4 \<and> wrote ?d (home_writes ?L bs (dsk s)) s3 s4"
    using install_trans_spec [of s3 True bs] fields bs(2) 3(2) q3(1) 2(2) clean [OF c] by simp
  then obtain s4 where 4: "install_trans True s3 = Ok s4" "cst ?d {} {} s4" "wrote ?d (home_writes ?L bs (dsk s)) s3 s4"
    by blast
  have f4: "bframe s3 s4" using 4(3) by (simp add: wrote_def)
  note f4 = logst_frame [OF f4]
  have "\<exists>s5 x. write_head (s4\<lparr>lh_n := 0\<rparr>) = Ok s5 \<and> cst ?d {} {} s5 \<and> wrote ?d [(?L, x)] (s4\<lparr>lh_n := 0\<rparr>) s5"
    using write_head_spec [of "s4\<lparr>lh_n := 0\<rparr>" "{}"] 4(2) by (auto simp: f4 fields)
  then obtain s5 x where 5: "write_head (s4\<lparr>lh_n := 0\<rparr>) = Ok s5" "cst ?d {} {} s5" "wrote ?d [(?L, x)] (s4\<lparr>lh_n := 0\<rparr>) s5"
    by blast
  have "bframe (s4\<lparr>lh_n := 0\<rparr>) s5" using 5(3) by (simp add: wrote_def)
  from logst_frame(5) [OF this] have "lh_n s5 = 0" by simp
  moreover have "recover_from_log s = Ok s5" using head 4(1) 5(1) by (simp add: recover_from_log_def)
  moreover have "dsk s5 = (apply_writes (home_writes ?L bs (dsk s)) (dsk s))(?L := x)"
    using 5(3) 4(3) q3(2) 2(3) by (simp add: wrote_def)
  ultimately show ?thesis using 5(2) by blast
qed

end
