(* ===== verification/Logcrash.thy ===== *)
theory Logcrash
  imports Log
begin

text \<open>
  Crash safety of the log: if the machine stops after any prefix of the block writes of
  \<open>commit\<close>, recovery leaves the file system as it was before the transaction or as it is
  after all of it.  Also the limit of the cache: a log that is completely full cannot be committed.
\<close>

section \<open>Boot\<close>

text \<open>The buffer array at boot is static storage: all bytes zero.  \<open>binit\<close> on it gives a cache
  in which nothing of device \<open>d\<close> is in use.\<close>

definition zero_buf :: buf where
  "zero_buf = \<lparr>b_valid = False, b_dev = 0, b_blockno = 0, b_lock = \<lparr>sl_locked = False, sl_name = [], sl_pid = 0\<rparr>,
     b_refcnt = 0, b_data = replicate BSIZE 0\<rparr>"

definition boot_cache :: "'a bio_scheme \<Rightarrow> bool" where
  "boot_cache s \<longleftrightarrow> bufs s = replicate NBUF zero_buf \<and> cur s < length (procs s)"

lemma bframe_lru [simp]: "bframe s (s\<lparr>lru := xs\<rparr>)" "bframe s (binit_buf s i)"
  by (simp_all add: bframe_def binit_buf_def set_buf_def myproc_def)

lemma binit_buf_fields [simp]:
  "length (bufs (binit_buf s i)) = length (bufs s)" "lru (binit_buf s i) = i # lru s" "dsk (binit_buf s i) = dsk s"
  "wtrace (binit_buf s i) = wtrace s"
  by (simp_all add: binit_buf_def)

lemma binit_fold:
  fixes s :: "'a bio_scheme"
  assumes "k \<le> length (bufs s)" "\<forall>b\<in>set (bufs s). b_dev b = 0 \<and> b_refcnt b = 0 \<and> \<not> b_valid b \<and> \<not> sl_locked (b_lock b)"
  defines "t \<equiv> foldl binit_buf s [0..<k]"
  shows "length (bufs t) = length (bufs s) \<and> lru t = rev [0..<k] @ lru s \<and> dsk t = dsk s \<and> wtrace t = wtrace s \<and> bframe s t \<and>
    (\<forall>b\<in>set (bufs t). b_dev b = 0 \<and> b_refcnt b = 0 \<and> \<not> b_valid b \<and> \<not> sl_locked (b_lock b))"
  unfolding t_def using assms(1)
proof (induction k)
  case 0
  then show ?case using assms(2) by simp
next
  case (Suc k)
  let ?t = "foldl binit_buf s [0..<k]" and ?u = "binit_buf (foldl binit_buf s [0..<k]) k"
  have IH: "length (bufs ?t) = length (bufs s)" "lru ?t = rev [0..<k] @ lru s" "dsk ?t = dsk s" "wtrace ?t = wtrace s" "bframe s ?t"
    "\<forall>b\<in>set (bufs ?t). b_dev b = 0 \<and> b_refcnt b = 0 \<and> \<not> b_valid b \<and> \<not> sl_locked (b_lock b)"
    using Suc by simp_all
  have "bframe s ?u" using bframe_trans [OF IH(5) bframe_lru(2)] .
  moreover have "\<forall>b\<in>set (bufs ?u). b_dev b = 0 \<and> b_refcnt b = 0 \<and> \<not> b_valid b \<and> \<not> sl_locked (b_lock b)"
    using IH(1,6) Suc.prems set_update_subset_insert [of "bufs ?t" k] nth_mem [of k "bufs ?t"]
    by (fastforce simp: binit_buf_def initsleeplock_def)
  ultimately show ?case using IH(1-4) by simp
qed

lemma binit_cst:
  assumes b: "boot_cache s" and d: "d \<noteq> 0"
  shows "cst d {} {} (binit s)" "dsk (binit s) = dsk s" "bframe s (binit s)"
proof -
  let ?s = "s\<lparr>lru := []\<rparr>"
  have "\<forall>b\<in>set (bufs ?s). b_dev b = 0 \<and> b_refcnt b = 0 \<and> \<not> b_valid b \<and> \<not> sl_locked (b_lock b)" "NBUF \<le> length (bufs ?s)"
    using b by (auto simp: boot_cache_def zero_buf_def)
  from binit_fold [OF this(2,1)]
  have t: "length (bufs (binit s)) = NBUF" "lru (binit s) = rev [0..<NBUF]" "dsk (binit s) = dsk s" "bframe ?s (binit s)"
    "\<forall>b\<in>set (bufs (binit s)). b_dev b = 0 \<and> b_refcnt b = 0 \<and> \<not> b_valid b \<and> \<not> sl_locked (b_lock b)"
    using b by (simp_all add: binit_def boot_cache_def)
  show "dsk (binit s) = dsk s" by (rule t(3))
  show fr: "bframe s (binit s)" using bframe_trans [OF bframe_lru(1) t(4)] .
  have z: "b_dev (bufs (binit s) ! i) = 0" "b_refcnt (bufs (binit s) ! i) = 0" "\<not> sl_locked (b_lock (bufs (binit s) ! i))"
    if "i < NBUF" for i using t(1,5) that nth_mem [of i "bufs (binit s)"] by auto
  have cur: "cur (binit s) < length (procs (binit s))" using fr b by (simp add: bframe_def boot_cache_def)
  have set: "set (lru (binit s)) = {..<NBUF}" unfolding t(2) set_rev set_upt by auto
  have dis: "distinct (lru (binit s))" unfolding t(2) distinct_rev by (rule distinct_upt)
  have "bio_inv d (binit s)"
    unfolding bio_inv_def using t(1) set dis cur z d by (metis (no_types, lifting))
  then show "cst d {} {} (binit s)" using z d unfolding cst_def Let_def by auto
qed

lemma take_commit:
  assumes "k \<le> length A \<Longrightarrow> Q (take k A)" "\<And>j. j \<le> length B \<Longrightarrow> Q (A @ [x] @ take j B)" "Q (A @ [x] @ B @ [y])"
  shows "Q (take k (A @ [x] @ B @ [y]))"
proof -
  consider "k \<le> length A" | j where "k = Suc (length A + j)" "j \<le> length B" | "k \<ge> length (A @ [x] @ B @ [y])"
    by (cases "k \<le> length A"; cases "k \<le> Suc (length A + length B)") (force simp: not_le dest: less_imp_Suc_add)+
  then show ?thesis
  proof cases
    case 1
    with assms(1) show ?thesis by simp
  next
    case (2 j)
    then have "take k (A @ [x] @ B @ [y]) = A @ [x] @ take j B" by simp
    then show ?thesis using assms(2) [OF 2(2)] by (simp only:)
  next
    case 3
    then have "take k (A @ [x] @ B @ [y]) = A @ [x] @ B @ [y]" by (rule take_all)
    then show ?thesis using assms(3) by (simp only:)
  qed
qed

lemma commit_home:
  assumes r: "log_ready bs s" and n: "n \<notin> logblks (log_start s)"
  shows "apply_writes (commit_writes bs s) (dsk s) n = blk (log_dev s) s n"
proof (cases "n \<in> set bs")
  case True
  then have "apply_writes (map (\<lambda>b. (b, blk (log_dev s) s b)) bs) E n = blk (log_dev s) s n" for E
    by (intro apply_writes_in) (auto simp: image_image)
  then show ?thesis using n by (auto simp: commit_writes_def)
next
  case False
  have "n \<notin> fst ` set (commit_writes bs s)"
    using log_writes_fst [of bs "log_start s" "blk (log_dev s) s"] n False log_readyD(3) [OF r] by (auto simp: commit_writes_def)
  then show ?thesis using cst_clean [OF log_readyD(1) [OF r]] False by (simp add: apply_writes_other)
qed

text \<open>The disks a crash can leave behind, and what recovery reads off their header.\<close>

lemma crash_disk:
  assumes r: "log_ready bs s" and L: "L = log_start s" and d: "d = log_dev s"
    and h: "head_n (dsk s L) = 0" "length (dsk s L) = BSIZE"
    and D: "D = apply_writes (take k (commit_writes bs s)) (dsk s)"
  shows "head_n (D L) = 0 \<and> ((\<forall>n. n \<notin> logblks L \<longrightarrow> D n = dsk s n) \<or> (\<forall>n. n \<notin> logblks L \<longrightarrow> D n = blk d s n)) \<or>
    head_n (D L) = int (length bs) \<and> map (head_block (D L)) [0..<length bs] = bs \<and>
    (\<forall>n. n \<notin> logblks L \<longrightarrow> apply_writes (home_writes L bs D) D n = blk d s n)"
proof -
  note R = log_readyD [OF r, folded L d]
  let ?lw = "log_writes L bs (blk d s)" and ?hw = "map (\<lambda>b. (b, blk d s b)) bs"
  let ?h1 = "new_head bs s" and ?h0 = "head_bytes 0 (lh_block s) (new_head bs s)"
  have n30: "length bs \<le> 30" using R(3) by simp
  have lw: "fst ` set ?lw \<subseteq> logblks L - {L}" using log_writes_fst [OF n30] .
  have clean: "blk d s m = dsk s m" if "m \<notin> set bs" for m using cst_clean [OF R(1)] that by simp
  have x: "length (blk d s L) = BSIZE" using h(2) clean [OF R(9)] by simp
  have h1: "length ?h1 = BSIZE" "head_n ?h1 = int (length bs)" "\<And>i. i < length bs \<Longrightarrow> head_block ?h1 i = bs ! i"
    using head_bytes_ok [OF x, where n = "int (length bs)" and bs = "lh_block s"] R(6) n30 by (simp_all add: new_head_def L d)
  have h0: "head_n ?h0 = 0" using head_bytes_ok(2) [OF h1(1), of 0 "lh_block s"] by simp
  have W: "commit_writes bs s = ?lw @ [(L, ?h1)] @ ?hw @ [(L, ?h0)]" by (simp add: commit_writes_def L d)
  let ?D = "\<lambda>ws. apply_writes ws (dsk s)"
  have old: "?D ws L = dsk s L" "n \<notin> logblks L \<Longrightarrow> ?D ws n = dsk s n" if "set ws \<subseteq> set ?lw" for ws n
    using that lw by (auto intro!: apply_writes_other)
  have mid: "?D (?lw @ [(L, ?h1)] @ take j ?hw) L = ?h1"
    "i < length bs \<Longrightarrow> ?D (?lw @ [(L, ?h1)] @ take j ?hw) (L + of_nat i + 1) = blk d s (bs ! i)"
    "n \<notin> logblks L \<Longrightarrow> n \<notin> set bs \<Longrightarrow> ?D (?lw @ [(L, ?h1)] @ take j ?hw) n = dsk s n" for i j n
  proof -
    have sub: "fst ` set (take j ?hw) \<subseteq> set bs" by (auto dest!: in_set_takeD)
    show "?D (?lw @ [(L, ?h1)] @ take j ?hw) L = ?h1"
    proof -
      have "L \<notin> fst ` set (take j ?hw)" using sub R(9) by blast
      then show ?thesis by (simp add: apply_writes_other)
    qed
    show "?D (?lw @ [(L, ?h1)] @ take j ?hw) (L + of_nat i + 1) = blk d s (bs ! i)" if i: "i < length bs"
    proof -
      have "L + of_nat i + 1 \<notin> fst ` set (take j ?hw)" using sub R(8) [OF i] by blast
      moreover have "L + of_nat i + 1 \<noteq> L" using i R(3) by (intro log_slot_head) simp
      ultimately show ?thesis using log_writes_at [OF n30 i] by (simp add: apply_writes_other)
    qed
    show "?D (?lw @ [(L, ?h1)] @ take j ?hw) n = dsk s n" if n: "n \<notin> logblks L" "n \<notin> set bs"
    proof -
      have "n \<notin> fst ` set (take j ?hw)" "n \<notin> fst ` set ?lw" "n \<noteq> L" using sub lw n by auto
      then show ?thesis by (simp add: apply_writes_other)
    qed
  qed
  have mid': "apply_writes (home_writes L bs (?D (?lw @ [(L, ?h1)] @ take j ?hw))) (?D (?lw @ [(L, ?h1)] @ take j ?hw)) n = blk d s n"
    if n: "n \<notin> logblks L" for j n
  proof -
    have home: "home_writes L bs (?D (?lw @ [(L, ?h1)] @ take j ?hw)) = ?hw"
      using mid(2) [of _ j] by (auto simp: home_writes_def intro!: nth_equalityI)
    show ?thesis
    proof (cases "n \<in> set bs")
      case True
      then show ?thesis unfolding home by (intro apply_writes_in) (auto simp: image_image)
    next
      case False
      then have "n \<notin> fst ` set ?hw" by auto
      note o = apply_writes_other [OF this]
      show ?thesis unfolding home o mid(3) [OF n False] clean [OF False] ..
    qed
  qed
  have new: "?D (?lw @ [(L, ?h1)] @ ?hw @ [(L, ?h0)]) L = ?h0"
    "n \<notin> logblks L \<Longrightarrow> ?D (?lw @ [(L, ?h1)] @ ?hw @ [(L, ?h0)]) n = blk d s n" for n
    using commit_home [OF r, folded L d, of n] unfolding W by simp_all
  show ?thesis unfolding D W
  proof (rule take_commit, goal_cases)
    case 1
    have "set (take k ?lw) \<subseteq> set ?lw" by (rule set_take_subset)
    from old [OF this] h show ?case by simp
  next
    case (2 j)
    have "map (head_block ?h1) [0..<length bs] = bs" using h1(3) by (intro nth_equalityI) auto
    then show ?case unfolding mid(1) using h1(2) mid' [of _ j] by blast
  next
    case 3
    show ?case unfolding new(1) using h0 new(2) by blast
  qed
qed

text \<open>C11. Crash safety of the log.  \<open>commit\<close> returns with every modified block at its home
  location.  If the machine stops after any number \<open>k\<close> of its block writes, then booting from what is on
  the disk (\<^verbatim>\<open>binit\<close>, then \<^verbatim>\<open>initlog\<close>) never panics and leaves all blocks outside the log as they
  were before the transaction, or all of them as they are after it.\<close>

theorem crash_safe:
  fixes s :: "'a logst_scheme"
  assumes r: "log_ready bs s" and ne: "bs \<noteq> []" and d: "d = log_dev s" "d \<noteq> 0" and L: "L = log_start s"
    and h: "head_n (dsk s L) = 0" "length (dsk s L) = BSIZE"
  shows "\<exists>s'. commit s = Ok s' \<and> (\<forall>n. n \<notin> logblks L \<longrightarrow> dsk s' n = blk d s n) \<and>
    (\<forall>k (t :: 'a logst_scheme). boot_cache t \<longrightarrow>
       dsk t = apply_writes (take k (drop (length (wtrace s)) (wtrace s'))) (dsk s) \<longrightarrow>
       (\<exists>t'. initlog d L (binit t) = Ok t' \<and>
          ((\<forall>n. n \<notin> logblks L \<longrightarrow> dsk t' n = dsk s n) \<or> (\<forall>n. n \<notin> logblks L \<longrightarrow> dsk t' n = blk d s n))))"
proof -
  note R = log_readyD [OF r, folded L d(1)]
  obtain s' where s': "commit s = Ok s'" "cst d {} {} s'" "wrote d (commit_writes bs s) (s\<lparr>lh_n := 0\<rparr>) s'"
    using commit_spec [OF r ne] d by blast
  have tr: "drop (length (wtrace s)) (wtrace s') = commit_writes bs s" using s'(3) by (simp add: wrote_def)
  have new: "dsk s' n = blk d s n" if "n \<notin> logblks L" for n
    using commit_home [OF r] s'(3) that by (simp add: wrote_def L d)
  have rec: "\<exists>t'. initlog d L (binit t) = Ok t' \<and>
          ((\<forall>n. n \<notin> logblks L \<longrightarrow> dsk t' n = dsk s n) \<or> (\<forall>n. n \<notin> logblks L \<longrightarrow> dsk t' n = blk d s n))"
    if b: "boot_cache t" and D: "dsk t = apply_writes (take k (commit_writes bs s)) (dsk s)" for k and t :: "'a logst_scheme"
  proof -
    let ?t = "(binit t)\<lparr>log_start := L, log_dev := d\<rparr>"
    note bc = binit_cst [OF b d(2)]
    have c: "cst (log_dev ?t) {} {} ?t" using bc(1) by simp
    have init: "initlog d L (binit t) = recover_from_log ?t" by (simp add: initlog_def)
    have fields: "dsk ?t = dsk t" "log_start ?t = L" using bc(2) by simp_all
    from crash_disk [OF r L d(1) h D] consider
        (same) "head_n (dsk t L) = 0" "(\<forall>n. n \<notin> logblks L \<longrightarrow> dsk t n = dsk s n) \<or> (\<forall>n. n \<notin> logblks L \<longrightarrow> dsk t n = blk d s n)"
      | (redo) "head_n (dsk t L) = int (length bs)" "map (head_block (dsk t L)) [0..<length bs] = bs"
          "\<forall>n. n \<notin> logblks L \<longrightarrow> apply_writes (home_writes L bs (dsk t)) (dsk t) n = blk d s n"
      by blast
    then show ?thesis
    proof cases
      case same
      have "\<exists>t' x. recover_from_log ?t = Ok t' \<and> dsk t' = (dsk t)(L := x)"
        using recover_spec [OF c, of "[]"] same(1) unfolding fields by (auto simp: home_writes_def)
      then obtain t' x where t': "recover_from_log ?t = Ok t'" "dsk t' = (dsk t)(L := x)" by blast
      have "dsk t' n = dsk t n" if "n \<notin> logblks L" for n using t'(2) that by auto
      with same(2) t'(1) show ?thesis unfolding init by auto
    next
      case redo
      have "\<exists>t' x. recover_from_log ?t = Ok t' \<and> dsk t' = (apply_writes (home_writes L bs (dsk t)) (dsk t))(L := x)"
      proof -
        have "bs = map (head_block (dsk t L)) [0..<nat (head_n (dsk t L))]" unfolding redo(1) nat_int redo(2) ..
        moreover have "0 \<le> head_n (dsk t L)" "head_n (dsk t L) \<le> LOGBLOCKS" using R(3) by (simp_all add: redo(1))
        ultimately show ?thesis using recover_spec [OF c, unfolded fields, of bs] R(4) by blast
      qed
      then obtain t' x where t': "recover_from_log ?t = Ok t'"
        "dsk t' = (apply_writes (home_writes L bs (dsk t)) (dsk t))(L := x)" by blast
      have "dsk t' n = blk d s n" if "n \<notin> logblks L" for n using t'(2) redo(3) that by auto
      with t'(1) show ?thesis unfolding init by auto
    qed
  qed
  show ?thesis
  proof (rule exI [of _ s'], intro conjI allI impI)
    show "dsk s' n = blk d s n" if "n \<notin> logblks L" for n by (rule new [OF that])
    fix k and t :: "'a logst_scheme"
    assume "boot_cache t" "dsk t = apply_writes (take k (drop (length (wtrace s)) (wtrace s'))) (dsk s)"
    then show "\<exists>t'. initlog d L (binit t) = Ok t' \<and>
          ((\<forall>n. n \<notin> logblks L \<longrightarrow> dsk t' n = dsk s n) \<or> (\<forall>n. n \<notin> logblks L \<longrightarrow> dsk t' n = blk d s n))"
      unfolding tr by (rule rec)
  qed (rule s'(1))
qed

text \<open>A transaction in progress: from a booted kernel, one block read, changed, logged and released.\<close>

definition ex_boot :: logst where
  "ex_boot = \<lparr>pmem = (\<lambda>_. 0), kend = 0x80022000, freelist = 0, refcnt = (\<lambda>_. 0),
     procs = [\<lparr>p_state = RUNNING, p_chan = ChNone, p_killed = 0, p_xstate = 0, p_pid = 7, p_parent = None, p_kstack = 0,
       p_sz = 0, p_pagetable = 0, p_trapframe = 0, p_context = zero_ctx, p_ofile = replicate 16 None, p_cwd = None, p_name = []\<rparr>],
     cur = 0, bufs = replicate NBUF zero_buf, lru = [], dsk = (\<lambda>_. replicate BSIZE 0), wtrace = [],
     log_start = 2, log_outstanding = 1, log_committing = False, log_dev = 1, lh_n = 1, lh_block = 50 # replicate 29 0\<rparr>"

lemma boot_ex: "boot_cache ex_boot"
  by (simp add: boot_cache_def ex_boot_def)

lemma logged_block:
  fixes s :: "'a logst_scheme"
  assumes b: "boot_cache s" and d: "log_dev s = d" "d \<noteq> 0" and lh: "lh_n s = 1" "length (lh_block s) = nat LOGBLOCKS" "lh_block s ! 0 = n"
    and n: "n \<notin> logblks (log_start s)"
  shows "\<exists>t :: 'a logst_scheme. log_ready [n] t \<and> dsk t = dsk s \<and> blk d t n = x \<and> log_dev t = d \<and> log_start t = log_start s"
proof -
  note bc = binit_cst [OF b d(2)]
  have "card ({} \<union> insert n {}) \<le> NBUF" by simp
  then obtain i s1 where 1: "bread d n (binit s) = Ok (i, s1)" "cst d {} {n} s1" "at_block d n s1 i" "quiet d (binit s) s1"
    using read_block [OF bc(1)] by blast
  let ?s2 = "set_bdata i x s1"
  note c2 = c_set_bdata [OF 1(2,3), where x = x]
  have 2: "cst d {} {n} ?s2" "at_block d n ?s2 i" "blk d ?s2 n = x" "dsk ?s2 = dsk s"
    using c2 1(3) quietD(2) [OF 1(4)] bc(2) by simp_all
  let ?s3 = "bpin i ?s2"
  have 3: "cst d {n} {n} ?s3" "at_block d n ?s3 i" "blk d ?s3 n = x"
    using c_pin [OF 2(1,2)] 2 by simp_all
  obtain s4 where 4: "brelse i ?s3 = Ok s4" "cst d {n} ({n} - {n}) s4" "quiet d ?s3 s4"
    using release_block [OF 3(1,2)] by blast
  note q4 = quietD [OF 4(3)]
  have "bframe s s4"
    using bc(3) quietD(4) [OF 1(4)] set_bdata_frame(3) [of s1 i x] pin_frame(5) [of ?s2 i] q4(4) by (meson bframe_trans)
  note f = logst_frame [OF this]
  have "log_ready [n] s4"
    using 4(2) f d lh n by (cases "lh_block s") (simp_all add: log_ready_def)
  then show ?thesis using q4 2(4) 3(3) f d by (intro exI [of _ s4]) simp
qed

theorem crash_safe_witness:
  "\<exists>s :: logst. dsk s 50 ! 0 = 0 \<and> blk 1 s 50 ! 0 = 9 \<and> (\<exists>s'. commit s = Ok s' \<and> dsk s' 50 ! 0 = 9)"
proof -
  have out: "(50 :: u32) \<notin> logblks (log_start ex_boot)"
  proof
    assume "(50 :: u32) \<in> logblks (log_start ex_boot)"
    then obtain i where "i \<le> 30" "(50 :: u32) = of_nat (2 + i)" by (auto simp: logblks_def ex_boot_def)
    then have "unat (50 :: u32) = unat (of_nat (2 + i) :: u32)" by simp
    with \<open>i \<le> 30\<close> show False by (subst (asm) unat_of_nat_small) simp_all
  qed
  obtain s :: logst where s: "log_ready [50] s" "dsk s = dsk ex_boot" "blk 1 s 50 = replicate BSIZE 9" "log_dev s = 1"
    "log_start s = log_start ex_boot"
    using logged_block [OF boot_ex _ _ _ _ _ out, of 1 "replicate BSIZE 9"] by (auto simp: ex_boot_def)
  have head: "head_n (dsk s (log_start s)) = 0" "length (dsk s (log_start s)) = BSIZE"
    using s(2) by (simp_all add: ex_boot_def head_n_def get32_def get_field_def numeral_eq_Suc)
  from crash_safe [OF s(1) _ refl _ refl head] s(3-5) out
  obtain s' where "commit s = Ok s'" "dsk s' 50 = replicate BSIZE 9" by auto
  with s(2,3) show ?thesis by (intro exI [of _ s]) (simp add: ex_boot_def)
qed

section \<open>A log that is full\<close>

text \<open>C13. The cache has no buffer to spare: \<^verbatim>\<open>NBUF\<close> equals \<^verbatim>\<open>LOGBLOCKS\<close>, so when
  as many blocks are logged as \<^verbatim>\<open>log_write\<close> admits, all of them pinned, the first
  \<^verbatim>\<open>bread\<close> of the commit finds no buffer and panics.\<close>

theorem full_log_panics:
  fixes s :: "'a logst_scheme"
  assumes c: "cst (log_dev s) (set bs) {} s" and bs: "distinct bs" "length bs = nat LOGBLOCKS" "log_start s + 1 \<notin> set bs"
    and n: "lh_n s = LOGBLOCKS"
  shows "commit s = Panic ''bget: no buffers''"
proof -
  let ?d = "log_dev s"
  define buf where "buf n = (SOME i. at_block ?d n s i)" for n
  have buf: "at_block ?d n s (buf n)" if "n \<in> set bs" for n
    unfolding buf_def using cst_at [OF c] that by (auto intro: someI_ex)
  have "inj_on buf (set bs)"
  proof (rule inj_onI)
    fix x y assume "x \<in> set bs" "y \<in> set bs" "buf x = buf y"
    with buf [of x] buf [of y] show "x = y" by (simp add: at_block_def)
  qed
  then have "card (buf ` set bs) = NBUF" using bs(1,2) by (simp add: card_image distinct_card)
  moreover have "buf ` set bs \<subseteq> {..<NBUF}" using buf by (auto simp: at_block_def)
  ultimately have all: "buf ` set bs = {..<NBUF}" by (intro card_subset_eq) auto
  have "b_refcnt (bufs s ! i) \<noteq> 0 \<and> \<not> holds_block ?d (log_start s + 1) s i" if "i < NBUF" for i
  proof -
    have "i \<in> buf ` set bs" using all that by simp
    then obtain n where "n \<in> set bs" "at_block ?d n s i" using buf by auto
    with cst_buf(1) [OF c this(2)] bs(3) show ?thesis by (auto simp: pins_def at_block_def)
  qed
  from bread_no_buffers [OF cst_inv [OF c] this]
  have "write_log_block 0 s = Panic ''bget: no buffers''" by (simp add: write_log_block_def)
  moreover have "[0..<nat LOGBLOCKS] = 0 # [1..<nat LOGBLOCKS]" by (simp add: upt_rec)
  ultimately show ?thesis using n by (simp add: commit_def write_log_def)
qed

definition ex_full :: logst where
  "ex_full = ex_boot\<lparr>bufs := map (\<lambda>i. \<lparr>b_valid = True, b_dev = 1, b_blockno = of_nat (100 + i),
       b_lock = initsleeplock ''buffer'', b_refcnt = 1, b_data = replicate BSIZE 0\<rparr>) [0..<NBUF],
     lru := [0..<NBUF], lh_n := 30, lh_block := map (\<lambda>i. of_nat (100 + i)) [0..<NBUF]\<rparr>"

lemma of_nat_100_inj: "i < NBUF \<Longrightarrow> j < NBUF \<Longrightarrow> (of_nat (100 + i) :: u32) = of_nat (100 + j) \<Longrightarrow> i = j"
  by (subst (asm) of_nat_u32_inj) simp_all

lemma ex_full_cst: "cst 1 (set (lh_block ex_full)) {} ex_full"
proof -
  have buf: "bufs ex_full ! i = \<lparr>b_valid = True, b_dev = 1, b_blockno = of_nat (100 + i),
       b_lock = initsleeplock ''buffer'', b_refcnt = 1, b_data = replicate BSIZE 0\<rparr>" if "i < NBUF" for i
    using that by (simp add: ex_full_def)
  have len: "length (bufs ex_full) = NBUF" "lru ex_full = [0..<NBUF]" "cur ex_full < length (procs ex_full)"
    by (simp_all add: ex_full_def ex_boot_def)
  have set: "set (lh_block ex_full) = (\<lambda>i. of_nat (100 + i)) ` {0..<NBUF}" by (simp add: ex_full_def)
  have "bio_inv 1 ex_full"
    unfolding bio_inv_def len(2) using len(1,3) buf of_nat_100_inj by (auto simp: lessThan_atLeast0)
  moreover have "\<exists>i<NBUF. holds_block 1 n ex_full i" if "n \<in> set (lh_block ex_full)" for n
    using that buf unfolding set by auto
  ultimately show ?thesis unfolding cst_def Let_def set using buf by (auto simp: pins_def initsleeplock_def)
qed

theorem full_log_panics_witness: "commit ex_full = Panic ''bget: no buffers''"
proof (rule full_log_panics [of ex_full "lh_block ex_full"])
  have dev: "log_dev ex_full = 1" by (simp add: ex_full_def ex_boot_def)
  show "cst (log_dev ex_full) (set (lh_block ex_full)) {} ex_full" unfolding dev by (rule ex_full_cst)
  show "distinct (lh_block ex_full)"
    using of_nat_100_inj by (auto simp: ex_full_def distinct_map inj_on_def)
  show "log_start ex_full + 1 \<notin> set (lh_block ex_full)"
  proof
    assume "log_start ex_full + 1 \<in> set (lh_block ex_full)"
    then obtain i where i: "i < NBUF" "(3 :: u32) = of_nat (100 + i)" by (auto simp: ex_full_def ex_boot_def)
    then have "unat (3 :: u32) = unat (of_nat (100 + i) :: u32)" by (simp only:)
    with i(1) show False by (subst (asm) unat_of_nat_small) simp_all
  qed
qed (simp_all add: ex_full_def)

end
