(* ===== verification/Logspace.thy ===== *)
theory Logspace
  imports Log
begin

text \<open>
  Log space: the admission test of \<open>begin_op\<close> keeps the log from overflowing, whatever the
  interleaving of the system calls.
\<close>

text \<open>The file-system calls of the kernel as they use the log, in any interleaving: each may call
  \<open>log_write\<close> up to \<^verbatim>\<open>MAXOPBLOCKS\<close> times between its \<open>begin_op\<close> and its
  \<open>end_op\<close>.  A state holds what each running call has left.\<close>

inductive log_step :: "nat list \<times> 'a logst_scheme \<Rightarrow> nat list \<times> 'a logst_scheme \<Rightarrow> bool" where
  step_begin: "begin_op s = Ok s' \<Longrightarrow> log_step (ops, s) (nat MAXOPBLOCKS # ops, s')"
| step_write: "i < length ops \<Longrightarrow> 0 < ops ! i \<Longrightarrow> log_write b s = Ok s' \<Longrightarrow> log_step (ops, s) (ops[i := ops ! i - 1], s')"
| step_end: "i < length ops \<Longrightarrow> end_op s = Ok s' \<Longrightarrow> log_step (ops, s) (take i ops @ drop (Suc i) ops, s')"

definition log_init :: "nat list \<times> 'a logst_scheme \<Rightarrow> bool" where
  "log_init = (\<lambda>(ops, s). ops = [] \<and> log_outstanding s = 0 \<and> \<not> log_committing s \<and> lh_n s = 0)"

definition log_space :: "nat list \<times> 'a logst_scheme \<Rightarrow> bool" where
  "log_space = (\<lambda>(ops, s). log_outstanding s = int (length ops) \<and> \<not> log_committing s \<and> 0 \<le> lh_n s \<and>
     (\<forall>b\<in>set ops. b \<le> nat MAXOPBLOCKS) \<and> lh_n s + int (sum_list ops) \<le> LOGBLOCKS)"

lemma more_bread:
  assumes "bread d n s = Ok (i, s')"
  shows "bio.more s' = bio.more s"
proof -
  have lock: "lock_buf j t = Ok (k, t') \<Longrightarrow> bio.more t' = bio.more t" for j t k t'
    by (auto simp: lock_buf_def andThen_eq_Ok)
  have "bget d n s = Ok (j, t) \<Longrightarrow> bio.more t = bio.more s" for j t
    by (auto simp: bget_def dest!: lock split: option.splits)
  with assms show ?thesis by (auto simp: bread_def disk_rw_def andThen_eq_Ok Let_def split: if_splits)
qed

lemma more_brelse: "brelse i s = Ok s' \<Longrightarrow> bio.more s' = bio.more s"
  by (auto simp: brelse_def releasesleep_def Let_def wakeup_def set_buf_def split: if_splits)

lemma more_bwrite: "bwrite i s = Ok s' \<Longrightarrow> bio.more s' = bio.more s"
  by (auto simp: bwrite_def disk_rw_def Let_def split: if_splits)

lemma write_head_more:
  fixes s :: "'a logst_scheme"
  assumes "write_head s = Ok s'"
  shows "bio.more s' = bio.more s"
proof -
  obtain i s1 s2 where "bread (log_dev s) (log_start s) s = Ok (i, s1)"
    "bwrite i (set_bdata i (head_bytes (lh_n s1) (lh_block s1) (bdata i s1)) s1) = Ok s2" "brelse i s2 = Ok s'"
    using assms by (auto simp: write_head_def andThen_eq_Ok Let_def)
  then show ?thesis by (auto dest!: more_bread more_brelse more_bwrite simp: set_bdata_def)
qed

lemma more_fields:
  fixes s s' :: "'a logst_scheme"
  assumes "bio.more s' = bio.more s"
  shows "lh_n s' = lh_n s" "log_outstanding s' = log_outstanding s" "log_committing s' = log_committing s"
  using assms by (cases s; cases s'; simp)+

lemma forM_keeps:
  assumes "forM f is s = Ok s'" "\<And>i s s'. f i s = Ok s' \<Longrightarrow> g s' = g s"
  shows "g s' = g s"
  using assms(1)
proof (induction "is" arbitrary: s)
  case (Cons i "is")
  then obtain t where "f i s = Ok t" "forM f is t = Ok s'" by (auto simp: andThen_eq_Ok)
  with Cons.IH [of t] assms(2) [of i s t] show ?case by simp
qed simp

lemma bunpin_more [simp]: "bio.more (bunpin i s) = bio.more s" "bio.more (bpin i s) = bio.more s" "bio.more (set_bdata i x s) = bio.more s"
  by (simp_all add: bunpin_def bpin_def set_bdata_def)

lemma write_log_more: "write_log s = Ok s' \<Longrightarrow> bio.more s' = bio.more s"
  unfolding write_log_def
  by (erule forM_keeps) (auto simp: write_log_block_def andThen_eq_Ok Let_def dest!: more_bread more_brelse more_bwrite)

lemma install_trans_more: "install_trans r s = Ok s' \<Longrightarrow> bio.more s' = bio.more s"
  unfolding install_trans_def
  by (erule forM_keeps)
    (auto simp: install_block_def andThen_eq_Ok Let_def dest!: more_bread more_brelse more_bwrite split: if_splits)

lemma commit_fields:
  fixes s s' :: "'a logst_scheme"
  assumes "commit s = Ok s'" "0 \<le> lh_n s"
  shows "lh_n s' = 0 \<and> log_outstanding s' = log_outstanding s \<and> log_committing s' = log_committing s"
proof (cases "lh_n s > 0")
  case True
  with assms obtain s1 s2 s3 where "write_log s = Ok s1" "write_head s1 = Ok s2" "install_trans False s2 = Ok s3"
    and h: "write_head (s3\<lparr>lh_n := 0\<rparr>) = Ok s'" by (auto simp: commit_def andThen_eq_Ok)
  then have "bio.more s3 = bio.more s" using write_log_more write_head_more install_trans_more by metis
  from more_fields [OF this] more_fields [OF write_head_more [OF h]] show ?thesis by simp
next
  case False
  with assms show ?thesis by (simp add: commit_def)
qed

lemma wakeup_log [simp]:
  "lh_n (wakeup ch s) = lh_n s" "log_outstanding (wakeup ch s) = log_outstanding s" "log_committing (wakeup ch s) = log_committing s"
  by (simp_all add: wakeup_def)

lemma sum_list_split: "i < length xs \<Longrightarrow> sum_list xs = sum_list (take i xs) + xs ! i + sum_list (drop (Suc i) xs)" for xs :: "nat list"
  by (subst id_take_nth_drop [of i xs]) simp_all

lemma log_step_space:
  assumes "log_step x y" "log_space x"
  shows "log_space y"
  using assms
proof (cases rule: log_step.cases)
  case (step_begin s s' ops)
  have "sum_list ops \<le> 10 * length ops" if "\<forall>b\<in>set ops. b \<le> nat MAXOPBLOCKS"
    using that by (induction ops) auto
  with step_begin assms(2) show ?thesis
    by (auto simp: log_space_def begin_op_def split: if_splits)
next
  case (step_write i ops b s s')
  have sum: "sum_list (ops[i := ops ! i - 1]) = sum_list ops - 1"
    using step_write(3,4) sum_list_split [of i ops] sum_list_split [of i "ops[i := ops ! i - 1]"] by simp
  have pos: "0 < sum_list ops" using step_write(3,4) sum_list_split [of i ops] by simp
  have "set (ops[i := ops ! i - 1]) \<subseteq> insert (ops ! i - 1) (set ops)" by (rule set_update_subset_insert)
  moreover have "ops ! i \<in> set ops" using step_write(3) by simp
  ultimately have le: "\<forall>b\<in>set (ops[i := ops ! i - 1]). b \<le> nat MAXOPBLOCKS"
    using assms(2) step_write(1) by (fastforce simp: log_space_def)
  have s': "log_outstanding s' = log_outstanding s" "log_committing s' = log_committing s" "lh_n s' \<le> lh_n s + 1" "lh_n s \<le> lh_n s'"
    using step_write(5) by (auto simp: log_write_def bpin_def set_buf_def Let_def split: if_splits)
  have "int (sum_list ops - 1) = int (sum_list ops) - 1" using pos by simp
  with step_write(1,2) assms(2) s' le sum show ?thesis by (simp add: log_space_def del: set_update_subsetI)
next
  case (step_end i ops s s')
  have sum: "sum_list (take i ops @ drop (Suc i) ops) \<le> sum_list ops" "length (take i ops @ drop (Suc i) ops) = length ops - 1"
    "set (take i ops @ drop (Suc i) ops) \<subseteq> set ops"
    using step_end(3) sum_list_split [of i ops] by (auto dest: in_set_takeD in_set_dropD)
  have nonneg: "0 \<le> lh_n s" and out: "log_outstanding s = int (length ops)" and nc: "\<not> log_committing s"
    using assms(2) step_end(1) by (auto simp: log_space_def)
  have "log_outstanding s' = log_outstanding s - 1 \<and> \<not> log_committing s' \<and> 0 \<le> lh_n s' \<and> lh_n s' \<le> lh_n s"
    using step_end(4) nc nonneg by (auto simp: end_op_def andThen_eq_Ok Let_def dest!: commit_fields split: if_splits)
  with step_end(1-3) assms(2) sum out show ?thesis by (auto simp: log_space_def)
qed

lemma log_init_space: "log_init x \<Longrightarrow> log_space x"
  by (auto simp: log_init_def log_space_def)

interpretation log_sys: transition_system log_init log_step log_space
  by unfold_locales (rule log_init_space, assumption, rule log_step_space)



end
