(* ===== verification/Copyio.thy ===== *)
theory Copyio
  imports Vm Kstate
begin

text \<open>
  \<^verbatim>\<open>either_copyout\<close> and \<^verbatim>\<open>either_copyin\<close> of \<^verbatim>\<open>kernel/proc.c\<close>.  The pair of
  arguments \<^verbatim>\<open>user_dst\<close>, \<^verbatim>\<open>dst\<close> is one value: a user address of the current process, an
  address in physical memory, or a local variable of the caller, whose bytes the caller keeps.
\<close>

datatype dst = DUser u64 | DKern u64 | DLocal

datatype src = SUser u64 | SKern u64 | SLocal "u8 list"

fun dst_plus :: "dst \<Rightarrow> nat \<Rightarrow> dst" where
  "dst_plus (DUser a) m = DUser (a + of_nat m)"
| "dst_plus (DKern a) m = DKern (a + of_nat m)"
| "dst_plus DLocal m = DLocal"

fun src_plus :: "src \<Rightarrow> nat \<Rightarrow> src" where
  "src_plus (SUser a) m = SUser (a + of_nat m)"
| "src_plus (SKern a) m = SKern (a + of_nat m)"
| "src_plus (SLocal bs) m = SLocal (drop m bs)"

fun either_copyout :: "dst \<Rightarrow> u8 list \<Rightarrow> 'a kst_scheme \<Rightarrow> (int \<times> 'a kst_scheme) kres" where
  "either_copyout (DUser a) bs s = copyout (p_sz (myproc s)) (p_pagetable (myproc s)) a bs s"
| "either_copyout (DKern a) bs s = Ok (0, s\<lparr>pmem := put_bytes (pmem s) a bs\<rparr>)"
| "either_copyout DLocal bs s = Ok (0, s)"

text \<open>The bytes that \<open>either_copyin\<close> stores at its destination are part of its result, also when
  it fails half way.\<close>

fun either_copyin :: "src \<Rightarrow> nat \<Rightarrow> 'a kst_scheme \<Rightarrow> (int \<times> u8 list \<times> 'a kst_scheme) kres" where
  "either_copyin (SUser a) len s = copyin (p_sz (myproc s)) (p_pagetable (myproc s)) a len s"
| "either_copyin (SKern a) len s = Ok (0, get_bytes (pmem s) a len, s)"
| "either_copyin (SLocal bs) len s = Ok (0, take len bs, s)"

end
