(* ===== verification/Fs.thy ===== *)
theory Fs
  imports Log Copyio
begin

text \<open>
  The file system (\<^verbatim>\<open>kernel/fs.c\<close>, \<^verbatim>\<open>kernel/fs.h\<close>, \<^verbatim>\<open>struct inode\<close> of
  \<^verbatim>\<open>kernel/file.h\<close>): block allocation, inodes, their contents, directories and path names, all
  through the buffer cache and the log.  An inode pointer is an index into \<open>itable\<close>; a path is the
  list of its bytes without the NUL.  Messages printed on the console are left out.
\<close>

section \<open>Layout\<close>

abbreviation ROOTINO :: u32 where "ROOTINO \<equiv> 1"
abbreviation ROOTDEV :: u32 where "ROOTDEV \<equiv> 1"
abbreviation NDIRECT :: nat where "NDIRECT \<equiv> 12"
abbreviation NINDIRECT :: nat where "NINDIRECT \<equiv> 256"
abbreviation MAXFILE :: nat where "MAXFILE \<equiv> 268"
abbreviation IPB :: nat where "IPB \<equiv> 16"
abbreviation BPB :: nat where "BPB \<equiv> 8192"
abbreviation DIRSIZ :: nat where "DIRSIZ \<equiv> 14"
abbreviation NINODE :: nat where "NINODE \<equiv> 50"
abbreviation T_DIR :: u16 where "T_DIR \<equiv> 1"
abbreviation T_FILE :: u16 where "T_FILE \<equiv> 2"
abbreviation T_DEVICE :: u16 where "T_DEVICE \<equiv> 3"
abbreviation FSMAGIC :: u32 where "FSMAGIC \<equiv> 0x10203040"

record superblock =
  sb_magic :: u32
  sb_size :: u32
  sb_nblocks :: u32
  sb_ninodes :: u32
  sb_nlog :: u32
  sb_logstart :: u32
  sb_inodestart :: u32
  sb_bmapstart :: u32

record dinode =
  di_type :: u16
  di_major :: u16
  di_minor :: u16
  di_nlink :: u16
  di_size :: u32
  di_addrs :: "u32 list"

record inode =
  i_dev :: u32
  i_inum :: u32
  i_ref :: int
  i_lock :: sleeplock
  i_valid :: bool
  i_type :: u16
  i_major :: u16
  i_minor :: u16
  i_nlink :: u16
  i_size :: u32
  i_addrs :: "u32 list"

record stat =
  st_dev :: u32
  st_ino :: u32
  st_type :: u16
  st_nlink :: u16
  st_size :: u64

record fsst = logst +
  sblk :: superblock
  itable :: "inode list"

text \<open>\<^verbatim>\<open>struct dinode\<close> and \<^verbatim>\<open>struct superblock\<close> in the bytes of a block.\<close>

definition get_dinode :: "nat \<Rightarrow> block \<Rightarrow> dinode" where
  "get_dinode off x =
     \<lparr>di_type = get16 off x, di_major = get16 (off + 2) x, di_minor = get16 (off + 4) x, di_nlink = get16 (off + 6) x,
      di_size = get32 (off + 8) x, di_addrs = map (\<lambda>i. get32 (off + 12 + 4 * i) x) [0..<NDIRECT + 1]\<rparr>"

definition put_dinode :: "nat \<Rightarrow> dinode \<Rightarrow> block \<Rightarrow> block" where
  "put_dinode off di x =
     fold (\<lambda>i. put32 (off + 12 + 4 * i) (di_addrs di ! i)) [0..<NDIRECT + 1]
       (put32 (off + 8) (di_size di) (put16 (off + 6) (di_nlink di) (put16 (off + 4) (di_minor di)
         (put16 (off + 2) (di_major di) (put16 off (di_type di) x)))))"

definition get_superblock :: "block \<Rightarrow> superblock" where
  "get_superblock x =
     \<lparr>sb_magic = get32 0 x, sb_size = get32 4 x, sb_nblocks = get32 8 x, sb_ninodes = get32 12 x, sb_nlog = get32 16 x,
      sb_logstart = get32 20 x, sb_inodestart = get32 24 x, sb_bmapstart = get32 28 x\<rparr>"

definition IBLOCK :: "u32 \<Rightarrow> 'a fsst_scheme \<Rightarrow> u32" where
  "IBLOCK i s = i div of_nat IPB + sb_inodestart (sblk s)"

definition BBLOCK :: "u32 \<Rightarrow> 'a fsst_scheme \<Rightarrow> u32" where
  "BBLOCK b s = b div of_nat BPB + sb_bmapstart (sblk s)"

definition ioff :: "u32 \<Rightarrow> nat" where
  "ioff inum = 64 * (unat inum mod IPB)"

definition inode_at :: "nat \<Rightarrow> 'a fsst_scheme \<Rightarrow> inode" where
  "inode_at ip s = itable s ! ip"

definition set_inode :: "nat \<Rightarrow> inode \<Rightarrow> 'a fsst_scheme \<Rightarrow> 'a fsst_scheme" where
  "set_inode ip x s = s\<lparr>itable := (itable s)[ip := x]\<rparr>"

section \<open>Blocks\<close>

definition readsb :: "u32 \<Rightarrow> 'a fsst_scheme \<Rightarrow> 'a fsst_scheme kres" where
  "readsb dev s =
     andThen (bread dev 1 s) (\<lambda>(bp, s).
       let s = s\<lparr>sblk := get_superblock (bdata bp s)\<rparr> in brelse bp s)"

definition bzero :: "u32 \<Rightarrow> u32 \<Rightarrow> 'a fsst_scheme \<Rightarrow> 'a fsst_scheme kres" where
  "bzero dev bno s =
     andThen (bread dev bno s) (\<lambda>(bp, s).
       let s = set_bdata bp (replicate BSIZE 0) s in
     andThen (log_write bp s) (\<lambda>s. brelse bp s))"

definition bitmask :: "nat \<Rightarrow> u8" where
  "bitmask bi = push_bit (bi mod 8) 1"

text \<open>The inner loop of \<open>balloc\<close> looks for the first clear bit of a bitmap block.\<close>

definition free_bit :: "block \<Rightarrow> nat \<Rightarrow> nat option" where
  "free_bit x n = find (\<lambda>bi. x ! (bi div 8) AND bitmask bi = 0) [0..<n]"

fun balloc_loop :: "u32 \<Rightarrow> nat list \<Rightarrow> 'a fsst_scheme \<Rightarrow> (u32 \<times> 'a fsst_scheme) kres" where
  "balloc_loop dev [] s = Ok (0, s)"
| "balloc_loop dev (b # bs) s =
     andThen (bread dev (BBLOCK (of_nat b) s) s) (\<lambda>(bp, s).
       case free_bit (bdata bp s) (min BPB (unat (sb_size (sblk s)) - b)) of
         Some bi \<Rightarrow>
           (let x = bdata bp s;
                s = set_bdata bp (x[bi div 8 := x ! (bi div 8) OR bitmask bi]) s in
            andThen (log_write bp s) (\<lambda>s.
            andThen (brelse bp s) (\<lambda>s.
            andThen (bzero dev (of_nat (b + bi)) s) (\<lambda>s. Ok (of_nat (b + bi), s)))))
       | None \<Rightarrow> andThen (brelse bp s) (\<lambda>s. balloc_loop dev bs s))"

definition balloc :: "u32 \<Rightarrow> 'a fsst_scheme \<Rightarrow> (u32 \<times> 'a fsst_scheme) kres" where
  "balloc dev s = balloc_loop dev (map (\<lambda>k. k * BPB) [0..<(unat (sb_size (sblk s)) + BPB - 1) div BPB]) s"

definition bfree :: "u32 \<Rightarrow> u32 \<Rightarrow> 'a fsst_scheme \<Rightarrow> 'a fsst_scheme kres" where
  "bfree dev b s =
     andThen (bread dev (BBLOCK b s) s) (\<lambda>(bp, s).
       let bi = unat b mod BPB; x = bdata bp s in
       if x ! (bi div 8) AND bitmask bi = 0 then Panic ''freeing free block''
       else let s = set_bdata bp (x[bi div 8 := x ! (bi div 8) AND NOT (bitmask bi)]) s in
            andThen (log_write bp s) (\<lambda>s. brelse bp s))"

section \<open>Inodes\<close>

definition iinit :: "'a fsst_scheme \<Rightarrow> 'a fsst_scheme" where
  "iinit s = s\<lparr>itable := map (\<lambda>ip. ip\<lparr>i_lock := initsleeplock ''inode''\<rparr>) (itable s)\<rparr>"

definition iget :: "u32 \<Rightarrow> u32 \<Rightarrow> 'a fsst_scheme \<Rightarrow> (nat \<times> 'a fsst_scheme) kres" where
  "iget dev inum s =
     (case find (\<lambda>i. i_ref (inode_at i s) > 0 \<and> i_dev (inode_at i s) = dev \<and> i_inum (inode_at i s) = inum)
            [0..<length (itable s)] of
        Some ip \<Rightarrow> Ok (ip, set_inode ip ((inode_at ip s)\<lparr>i_ref := i_ref (inode_at ip s) + 1\<rparr>) s)
      | None \<Rightarrow>
         (case find (\<lambda>i. i_ref (inode_at i s) = 0) [0..<length (itable s)] of
            None \<Rightarrow> Panic ''iget: no inodes''
          | Some ip \<Rightarrow> Ok (ip, set_inode ip
              ((inode_at ip s)\<lparr>i_dev := dev, i_inum := inum, i_ref := 1, i_valid := False\<rparr>) s)))"

fun ialloc_loop :: "u32 \<Rightarrow> u16 \<Rightarrow> nat list \<Rightarrow> 'a fsst_scheme \<Rightarrow> (nat option \<times> 'a fsst_scheme) kres" where
  "ialloc_loop dev type [] s = Ok (None, s)"
| "ialloc_loop dev type (inum # is) s =
     andThen (bread dev (IBLOCK (of_nat inum) s) s) (\<lambda>(bp, s).
       let off = ioff (of_nat inum); x = bdata bp s in
       if di_type (get_dinode off x) = 0
       then let s = set_bdata bp (put16 off type (put_field off (replicate 64 0) x)) s in
            andThen (log_write bp s) (\<lambda>s.
            andThen (brelse bp s) (\<lambda>s.
            andThen (iget dev (of_nat inum) s) (\<lambda>(ip, s). Ok (Some ip, s))))
       else andThen (brelse bp s) (\<lambda>s. ialloc_loop dev type is s))"

definition ialloc :: "u32 \<Rightarrow> u16 \<Rightarrow> 'a fsst_scheme \<Rightarrow> (nat option \<times> 'a fsst_scheme) kres" where
  "ialloc dev type s = ialloc_loop dev type [1..<unat (sb_ninodes (sblk s))] s"

definition inode_dinode :: "inode \<Rightarrow> dinode" where
  "inode_dinode x = \<lparr>di_type = i_type x, di_major = i_major x, di_minor = i_minor x, di_nlink = i_nlink x,
     di_size = i_size x, di_addrs = i_addrs x\<rparr>"

definition iupdate :: "nat \<Rightarrow> 'a fsst_scheme \<Rightarrow> 'a fsst_scheme kres" where
  "iupdate ip s =
     andThen (bread (i_dev (inode_at ip s)) (IBLOCK (i_inum (inode_at ip s)) s) s) (\<lambda>(bp, s).
       let x = put_dinode (ioff (i_inum (inode_at ip s))) (inode_dinode (inode_at ip s)) (bdata bp s);
           s = set_bdata bp x s in
     andThen (log_write bp s) (\<lambda>s. brelse bp s))"

definition idup :: "nat \<Rightarrow> 'a fsst_scheme \<Rightarrow> nat \<times> 'a fsst_scheme" where
  "idup ip s = (ip, set_inode ip ((inode_at ip s)\<lparr>i_ref := i_ref (inode_at ip s) + 1\<rparr>) s)"

definition ilock :: "nat \<Rightarrow> 'a fsst_scheme \<Rightarrow> 'a fsst_scheme kres" where
  "ilock ip s =
     (if i_ref (inode_at ip s) < 1 then Panic ''ilock''
      else andThen (acquiresleep (mypid s) (i_lock (inode_at ip s))) (\<lambda>lk.
        let s = set_inode ip ((inode_at ip s)\<lparr>i_lock := lk\<rparr>) s in
        if \<not> i_valid (inode_at ip s)
        then andThen (bread (i_dev (inode_at ip s)) (IBLOCK (i_inum (inode_at ip s)) s) s) (\<lambda>(bp, s).
          let di = get_dinode (ioff (i_inum (inode_at ip s))) (bdata bp s);
              s = set_inode ip ((inode_at ip s)\<lparr>i_type := di_type di, i_major := di_major di, i_minor := di_minor di,
                    i_nlink := di_nlink di, i_size := di_size di, i_addrs := di_addrs di\<rparr>) s in
          andThen (brelse bp s) (\<lambda>s.
            let s = set_inode ip ((inode_at ip s)\<lparr>i_valid := True\<rparr>) s in
            if i_type (inode_at ip s) = 0 then Panic ''ilock: no type'' else Ok s))
        else Ok s))"

definition iunlock :: "nat \<Rightarrow> 'a fsst_scheme \<Rightarrow> 'a fsst_scheme kres" where
  "iunlock ip s =
     (if \<not> holdingsleep (mypid s) (i_lock (inode_at ip s)) \<or> i_ref (inode_at ip s) < 1 then Panic ''iunlock''
      else let (lk, s) = releasesleep (ChInode ip) (i_lock (inode_at ip s)) s
           in Ok (set_inode ip ((inode_at ip s)\<lparr>i_lock := lk\<rparr>) s))"

section \<open>Inode content\<close>

definition set_addr :: "nat \<Rightarrow> nat \<Rightarrow> u32 \<Rightarrow> 'a fsst_scheme \<Rightarrow> 'a fsst_scheme" where
  "set_addr ip i a s = set_inode ip ((inode_at ip s)\<lparr>i_addrs := (i_addrs (inode_at ip s))[i := a]\<rparr>) s"

text \<open>Both levels of \<open>bmap\<close> fetch an entry of \<^verbatim>\<open>addrs\<close> and allocate it when it is empty.\<close>

definition bmap_addr :: "nat \<Rightarrow> nat \<Rightarrow> 'a fsst_scheme \<Rightarrow> (u32 \<times> 'a fsst_scheme) kres" where
  "bmap_addr ip i s =
     (let addr = i_addrs (inode_at ip s) ! i in
      if addr \<noteq> 0 then Ok (addr, s)
      else andThen (balloc (i_dev (inode_at ip s)) s) (\<lambda>(addr, s).
             if addr = 0 then Ok (0, s) else Ok (addr, set_addr ip i addr s)))"

definition bmap :: "nat \<Rightarrow> nat \<Rightarrow> 'a fsst_scheme \<Rightarrow> (u32 \<times> 'a fsst_scheme) kres" where
  "bmap ip bn s =
     (if bn < NDIRECT then bmap_addr ip bn s
      else let bn = bn - NDIRECT in
      if bn < NINDIRECT
      then andThen (bmap_addr ip NDIRECT s) (\<lambda>(addr, s).
             if addr = 0 then Ok (0, s)
             else andThen (bread (i_dev (inode_at ip s)) addr s) (\<lambda>(bp, s).
               let addr = get32 (4 * bn) (bdata bp s) in
               andThen (if addr \<noteq> 0 then Ok (addr, s)
                        else andThen (balloc (i_dev (inode_at ip s)) s) (\<lambda>(addr, s).
                          if addr \<noteq> 0
                          then andThen (log_write bp (set_bdata bp (put32 (4 * bn) addr (bdata bp s)) s)) (\<lambda>s. Ok (addr, s))
                          else Ok (addr, s))) (\<lambda>(addr, s).
               andThen (brelse bp s) (\<lambda>s. Ok (addr, s)))))
      else Panic ''bmap: out of range'')"

definition itrunc_direct :: "nat \<Rightarrow> nat \<Rightarrow> 'a fsst_scheme \<Rightarrow> 'a fsst_scheme kres" where
  "itrunc_direct ip i s =
     (let a = i_addrs (inode_at ip s) ! i in
      if a \<noteq> 0 then andThen (bfree (i_dev (inode_at ip s)) a s) (\<lambda>s. Ok (set_addr ip i 0 s)) else Ok s)"

definition itrunc_indirect :: "nat \<Rightarrow> nat \<Rightarrow> nat \<Rightarrow> 'a fsst_scheme \<Rightarrow> 'a fsst_scheme kres" where
  "itrunc_indirect ip bp j s =
     (let a = get32 (4 * j) (bdata bp s) in if a \<noteq> 0 then bfree (i_dev (inode_at ip s)) a s else Ok s)"

definition itrunc :: "nat \<Rightarrow> 'a fsst_scheme \<Rightarrow> 'a fsst_scheme kres" where
  "itrunc ip s =
     andThen (forM (itrunc_direct ip) [0..<NDIRECT] s) (\<lambda>s.
     andThen (let a = i_addrs (inode_at ip s) ! NDIRECT in
              if a \<noteq> 0
              then andThen (bread (i_dev (inode_at ip s)) a s) (\<lambda>(bp, s).
                   andThen (forM (itrunc_indirect ip bp) [0..<NINDIRECT] s) (\<lambda>s.
                   andThen (brelse bp s) (\<lambda>s.
                   andThen (bfree (i_dev (inode_at ip s)) a s) (\<lambda>s. Ok (set_addr ip NDIRECT 0 s)))))
              else Ok s) (\<lambda>s.
       iupdate ip (set_inode ip ((inode_at ip s)\<lparr>i_size := 0\<rparr>) s)))"

definition iput :: "nat \<Rightarrow> 'a fsst_scheme \<Rightarrow> 'a fsst_scheme kres" where
  "iput ip s =
     andThen (if i_ref (inode_at ip s) = 1 \<and> i_valid (inode_at ip s) \<and> i_nlink (inode_at ip s) = 0
       then andThen (acquiresleep (mypid s) (i_lock (inode_at ip s))) (\<lambda>lk.
            andThen (itrunc ip (set_inode ip ((inode_at ip s)\<lparr>i_lock := lk\<rparr>) s)) (\<lambda>s.
            andThen (iupdate ip (set_inode ip ((inode_at ip s)\<lparr>i_type := 0\<rparr>) s)) (\<lambda>s.
              let s = set_inode ip ((inode_at ip s)\<lparr>i_valid := False\<rparr>) s;
                  (lk, s) = releasesleep (ChInode ip) (i_lock (inode_at ip s)) s
              in Ok (set_inode ip ((inode_at ip s)\<lparr>i_lock := lk\<rparr>) s))))
       else Ok s) (\<lambda>s.
     Ok (set_inode ip ((inode_at ip s)\<lparr>i_ref := i_ref (inode_at ip s) - 1\<rparr>) s))"

definition iunlockput :: "nat \<Rightarrow> 'a fsst_scheme \<Rightarrow> 'a fsst_scheme kres" where
  "iunlockput ip s = andThen (iunlock ip s) (\<lambda>s. iput ip s)"

definition ireclaim_inode :: "u32 \<Rightarrow> nat \<Rightarrow> 'a fsst_scheme \<Rightarrow> 'a fsst_scheme kres" where
  "ireclaim_inode dev inum s =
     andThen (bread dev (IBLOCK (of_nat inum) s) s) (\<lambda>(bp, s).
       let di = get_dinode (ioff (of_nat inum)) (bdata bp s) in
       if di_type di \<noteq> 0 \<and> di_nlink di = 0
       then andThen (iget dev (of_nat inum) s) (\<lambda>(ip, s).
            andThen (brelse bp s) (\<lambda>s.
            andThen (begin_op s) (\<lambda>s.
            andThen (ilock ip s) (\<lambda>s.
            andThen (iunlock ip s) (\<lambda>s.
            andThen (iput ip s) (\<lambda>s. end_op s))))))
       else brelse bp s)"

definition ireclaim :: "u32 \<Rightarrow> 'a fsst_scheme \<Rightarrow> 'a fsst_scheme kres" where
  "ireclaim dev s = forM (ireclaim_inode dev) [1..<unat (sb_ninodes (sblk s))] s"

definition fsinit :: "u32 \<Rightarrow> 'a fsst_scheme \<Rightarrow> 'a fsst_scheme kres" where
  "fsinit dev s =
     andThen (readsb dev s) (\<lambda>s.
       if sb_magic (sblk s) \<noteq> FSMAGIC then Panic ''invalid file system''
       else andThen (initlog dev (sb_logstart (sblk s)) s) (\<lambda>s. ireclaim dev s))"

definition stati :: "nat \<Rightarrow> 'a fsst_scheme \<Rightarrow> stat" where
  "stati ip s = (let x = inode_at ip s in
     \<lparr>st_dev = i_dev x, st_ino = i_inum x, st_type = i_type x, st_nlink = i_nlink x, st_size = ucast (i_size x)\<rparr>)"

text \<open>The loops of \<open>readi\<close> and \<open>writei\<close>: \<open>left\<close> is \<^verbatim>\<open>n - tot\<close>.  The bytes
  read are also part of the result of \<open>readi\<close>; a destination that is a local variable of the caller
  holds them.\<close>

abbreviation io_chunk :: "nat \<Rightarrow> nat \<Rightarrow> nat" where
  "io_chunk off left \<equiv> min left (BSIZE - off mod BSIZE)"

function readi_loop :: "nat \<Rightarrow> dst \<Rightarrow> nat \<Rightarrow> nat \<Rightarrow> int \<Rightarrow> u8 list \<Rightarrow> 'a fsst_scheme \<Rightarrow>
    (int \<times> u8 list \<times> 'a fsst_scheme) kres" where
  "readi_loop ip dst off left tot acc s =
     (if left = 0 then Ok (tot, acc, s)
      else andThen (bmap ip (off div BSIZE) s) (\<lambda>(addr, s).
        if addr = 0 then Ok (tot, acc, s)
        else andThen (bread (i_dev (inode_at ip s)) addr s) (\<lambda>(bp, s).
          let m = io_chunk off left; bs = get_field (off mod BSIZE) m (bdata bp s) in
          andThen (either_copyout dst bs s) (\<lambda>(r, s).
            if r = - 1 then andThen (brelse bp s) (\<lambda>s. Ok (- 1, acc, s))
            else andThen (brelse bp s) (\<lambda>s.
              readi_loop ip (dst_plus dst m) (off + m) (left - m) (tot + int m) (acc @ bs) s)))))"
  by pat_completeness auto
termination
  by (relation "measure (\<lambda>(ip, dst, off, left, tot, acc, s). left)") auto

declare readi_loop.simps [simp del]

definition readi :: "nat \<Rightarrow> dst \<Rightarrow> u32 \<Rightarrow> u32 \<Rightarrow> 'a fsst_scheme \<Rightarrow> (int \<times> u8 list \<times> 'a fsst_scheme) kres" where
  "readi ip dst off n s =
     (let size = i_size (inode_at ip s) in
      if off > size \<or> off + n < off then Ok (0, [], s)
      else let n = (if off + n > size then size - off else n)
           in readi_loop ip dst (unat off) (unat n) 0 [] s)"

text \<open>\<open>writei_loop\<close> returns \<^verbatim>\<open>tot\<close> and \<^verbatim>\<open>off\<close>.  When \<open>either_copyin\<close> fails half way the
  bytes it has stored are in the buffer, which is released without being logged.\<close>

function writei_loop :: "nat \<Rightarrow> src \<Rightarrow> nat \<Rightarrow> nat \<Rightarrow> int \<Rightarrow> 'a fsst_scheme \<Rightarrow> (int \<times> nat \<times> 'a fsst_scheme) kres" where
  "writei_loop ip src off left tot s =
     (if left = 0 then Ok (tot, off, s)
      else andThen (bmap ip (off div BSIZE) s) (\<lambda>(addr, s).
        if addr = 0 then Ok (tot, off, s)
        else andThen (bread (i_dev (inode_at ip s)) addr s) (\<lambda>(bp, s).
          let m = io_chunk off left in
          andThen (either_copyin src m s) (\<lambda>(r, bs, s).
            let s = set_bdata bp (put_field (off mod BSIZE) bs (bdata bp s)) s in
            if r = - 1 then andThen (brelse bp s) (\<lambda>s. Ok (tot, off, s))
            else andThen (log_write bp s) (\<lambda>s.
              andThen (brelse bp s) (\<lambda>s.
                writei_loop ip (src_plus src m) (off + m) (left - m) (tot + int m) s))))))"
  by pat_completeness auto
termination
  by (relation "measure (\<lambda>(ip, src, off, left, tot, s). left)") auto

declare writei_loop.simps [simp del]

definition writei :: "nat \<Rightarrow> src \<Rightarrow> u32 \<Rightarrow> u32 \<Rightarrow> 'a fsst_scheme \<Rightarrow> (int \<times> 'a fsst_scheme) kres" where
  "writei ip src off n s =
     (let size = i_size (inode_at ip s) in
      if off > size \<or> off + n < off then Ok (- 1, s)
      else if off + n > of_nat (MAXFILE * BSIZE) then Ok (- 1, s)
      else andThen (writei_loop ip src (unat off) (unat n) 0 s) (\<lambda>(tot, off, s).
        let s = (if of_nat off > i_size (inode_at ip s)
                 then set_inode ip ((inode_at ip s)\<lparr>i_size := of_nat off\<rparr>) s else s)
        in andThen (iupdate ip s) (\<lambda>s. Ok (tot, s))))"

section \<open>Directories\<close>

text \<open>\<^verbatim>\<open>struct dirent\<close>: the inode number, then the name.\<close>

abbreviation dirent_size :: nat where
  "dirent_size \<equiv> 16"

definition de_inum :: "u8 list \<Rightarrow> u16" where
  "de_inum de = get16 0 de"

definition de_name :: "u8 list \<Rightarrow> u8 list" where
  "de_name de = get_field 2 DIRSIZ de"

definition dirent :: "u16 \<Rightarrow> u8 list \<Rightarrow> u8 list" where
  "dirent inum name = le_bytes 2 inum @ name"

definition namecmp :: "u8 list \<Rightarrow> u8 list \<Rightarrow> int" where
  "namecmp s t = strncmp_list s t DIRSIZ"

definition dir_offs :: "nat \<Rightarrow> 'a fsst_scheme \<Rightarrow> nat list" where
  "dir_offs dp s = map (\<lambda>k. dirent_size * k) [0..<(unat (i_size (inode_at dp s)) + dirent_size - 1) div dirent_size]"

fun dirlookup_loop :: "nat \<Rightarrow> u8 list \<Rightarrow> nat list \<Rightarrow> 'a fsst_scheme \<Rightarrow> ((nat \<times> nat) option \<times> 'a fsst_scheme) kres" where
  "dirlookup_loop dp name [] s = Ok (None, s)"
| "dirlookup_loop dp name (off # offs) s =
     andThen (readi dp DLocal (of_nat off) (of_nat dirent_size) s) (\<lambda>(r, de, s).
       if r \<noteq> int dirent_size then Panic ''dirlookup read''
       else if de_inum de = 0 then dirlookup_loop dp name offs s
       else if namecmp name (de_name de) = 0
       then andThen (iget (i_dev (inode_at dp s)) (ucast (de_inum de)) s) (\<lambda>(ip, s). Ok (Some (ip, off), s))
       else dirlookup_loop dp name offs s)"

text \<open>The result is the inode and the offset of its entry, which callers may ask for.\<close>

definition dirlookup :: "nat \<Rightarrow> u8 list \<Rightarrow> 'a fsst_scheme \<Rightarrow> ((nat \<times> nat) option \<times> 'a fsst_scheme) kres" where
  "dirlookup dp name s =
     (if i_type (inode_at dp s) \<noteq> T_DIR then Panic ''dirlookup not DIR''
      else dirlookup_loop dp name (dir_offs dp s) s)"

fun dirlink_scan :: "nat \<Rightarrow> nat list \<Rightarrow> nat \<Rightarrow> 'a fsst_scheme \<Rightarrow> (nat \<times> 'a fsst_scheme) kres" where
  "dirlink_scan dp [] end_off s = Ok (end_off, s)"
| "dirlink_scan dp (off # offs) end_off s =
     andThen (readi dp DLocal (of_nat off) (of_nat dirent_size) s) (\<lambda>(r, de, s).
       if r \<noteq> int dirent_size then Panic ''dirlink read''
       else if de_inum de = 0 then Ok (off, s) else dirlink_scan dp offs end_off s)"

definition dirlink :: "nat \<Rightarrow> u8 list \<Rightarrow> u32 \<Rightarrow> 'a fsst_scheme \<Rightarrow> (int \<times> 'a fsst_scheme) kres" where
  "dirlink dp name inum s =
     andThen (dirlookup dp name s) (\<lambda>(found, s).
       case found of
         Some (ip, off) \<Rightarrow> andThen (iput ip s) (\<lambda>s. Ok (- 1, s))
       | None \<Rightarrow>
          andThen (dirlink_scan dp (dir_offs dp s) (dirent_size * length (dir_offs dp s)) s) (\<lambda>(off, s).
          andThen (writei dp (SLocal (dirent (ucast inum) (strncpy_list name DIRSIZ))) (of_nat off) (of_nat dirent_size) s)
            (\<lambda>(r, s). Ok (if r \<noteq> int dirent_size then - 1 else 0, s))))"

section \<open>Paths\<close>

abbreviation slash :: u8 where
  "slash \<equiv> 47"

text \<open>The rest of the path and the element, of which at most \<^verbatim>\<open>DIRSIZ\<close> bytes are kept.\<close>

definition skipelem :: "u8 list \<Rightarrow> (u8 list \<times> u8 list) option" where
  "skipelem path =
     (let path = dropWhile (\<lambda>c. c = slash) path in
      if path = [] then None
      else let name = take DIRSIZ (takeWhile (\<lambda>c. c \<noteq> slash) path);
               path = dropWhile (\<lambda>c. c \<noteq> slash) path
           in Some (dropWhile (\<lambda>c. c = slash) path, name))"

lemma skipelem_shorter: "skipelem path = Some (path', name) \<Longrightarrow> length path' < length path"
proof -
  assume "skipelem path = Some (path', name)"
  then obtain p where p: "p = dropWhile (\<lambda>c. c = slash) path" "p \<noteq> []"
    "path' = dropWhile (\<lambda>c. c = slash) (dropWhile (\<lambda>c. c \<noteq> slash) p)"
    by (auto simp: skipelem_def Let_def split: if_splits)
  then have "hd p \<noteq> slash" using hd_dropWhile [of "\<lambda>c. c = slash" path] by simp
  with p(2) have "length (dropWhile (\<lambda>c. c \<noteq> slash) p) < length p"
    by (cases p) (auto intro: le_less_trans [OF length_dropWhile_le])
  with p(1,3) show ?thesis using length_dropWhile_le [of "\<lambda>c. c = slash" path]
      length_dropWhile_le [of "\<lambda>c. c = slash" "dropWhile (\<lambda>c. c \<noteq> slash) p"] by simp
qed

function namex_loop :: "nat \<Rightarrow> u8 list \<Rightarrow> bool \<Rightarrow> u8 list \<Rightarrow> 'a fsst_scheme \<Rightarrow>
    (nat option \<times> u8 list \<times> 'a fsst_scheme) kres" where
  "namex_loop ip path nameiparent name s =
     (case skipelem path of
        None \<Rightarrow> if nameiparent then andThen (iput ip s) (\<lambda>s. Ok (None, name, s)) else Ok (Some ip, name, s)
      | Some (path', name) \<Rightarrow>
         andThen (ilock ip s) (\<lambda>s.
           if i_type (inode_at ip s) \<noteq> T_DIR then andThen (iunlockput ip s) (\<lambda>s. Ok (None, name, s))
           else if nameiparent \<and> path' = [] then andThen (iunlock ip s) (\<lambda>s. Ok (Some ip, name, s))
           else andThen (dirlookup ip name s) (\<lambda>(found, s).
             case found of
               None \<Rightarrow> andThen (iunlockput ip s) (\<lambda>s. Ok (None, name, s))
             | Some (nxt, off) \<Rightarrow> andThen (iunlockput ip s) (\<lambda>s. namex_loop nxt path' nameiparent name s))))"
  by pat_completeness auto
termination
  by (relation "measure (\<lambda>(ip, path, nameiparent, name, s). length path)") (auto intro: skipelem_shorter)

declare namex_loop.simps [simp del]

definition namex :: "u8 list \<Rightarrow> bool \<Rightarrow> 'a fsst_scheme \<Rightarrow> (nat option \<times> u8 list \<times> 'a fsst_scheme) kres" where
  "namex path nameiparent s =
     (if path \<noteq> [] \<and> hd path = slash
      then andThen (iget ROOTDEV ROOTINO s) (\<lambda>(ip, s). namex_loop ip path nameiparent [] s)
      else case p_cwd (myproc s) of
             None \<Rightarrow> Panic ''undefined: null pointer''
           | Some cwd \<Rightarrow> let (ip, s) = idup cwd s in namex_loop ip path nameiparent [] s)"

definition namei :: "u8 list \<Rightarrow> 'a fsst_scheme \<Rightarrow> (nat option \<times> 'a fsst_scheme) kres" where
  "namei path s = andThen (namex path False s) (\<lambda>(ip, name, s). Ok (ip, s))"

definition nameiparent :: "u8 list \<Rightarrow> 'a fsst_scheme \<Rightarrow> (nat option \<times> u8 list \<times> 'a fsst_scheme) kres" where
  "nameiparent path s = namex path True s"

end
