(* ===== verification/Printf.thy ===== *)
theory Printf
  imports Prelude
begin

text \<open>
  Formatted output: the kernel's \<^verbatim>\<open>printf\<close> (\<^verbatim>\<open>kernel/printf.c\<close>) and the user library's
  \<^verbatim>\<open>vprintf\<close> (\<^verbatim>\<open>user/printf.c\<close>), as functions from the format and the variadic arguments to the
  characters they put out.  An argument is a 64-bit slot or a string; \<open>None\<close> is a call that fetches an
  argument that is not there, or of the other kind, which C leaves undefined.
\<close>

type_synonym text8 = "u8 list"

datatype arg = AInt u64 | AStr "text8 option"

section \<open>Numbers\<close>

definition kdigits :: text8 where
  "kdigits = map of_nat [48, 49, 50, 51, 52, 53, 54, 55, 56, 57, 97, 98, 99, 100, 101, 102]"

definition udigits :: text8 where
  "udigits = map of_nat [48, 49, 50, 51, 52, 53, 54, 55, 56, 57, 65, 66, 67, 68, 69, 70]"

text \<open>The loop that fills \<^verbatim>\<open>buf\<close>, least significant digit first.\<close>

function print_digits :: "text8 \<Rightarrow> nat \<Rightarrow> nat \<Rightarrow> text8" where
  "print_digits digits x base =
     (digits ! (x mod base)) # (if base > 1 \<and> x div base \<noteq> 0 then print_digits digits (x div base) base else [])"
  by pat_completeness auto
termination
  by (relation "measure (\<lambda>(digits, x, base). x)") (auto simp: div_less_dividend div_greater_zero_iff)

declare print_digits.simps [simp del]

text \<open>What \<^verbatim>\<open>printint\<close> has put into \<^verbatim>\<open>buf[20]\<close>; it is then printed backwards.\<close>

definition printint_buf :: "text8 \<Rightarrow> u64 \<Rightarrow> nat \<Rightarrow> bool \<Rightarrow> text8" where
  "printint_buf digits xx base sign =
     (let neg = (sign \<and> sint xx < 0); x = (if neg then - xx else xx)
      in print_digits digits (unat x) base @ (if neg then [45] else []))"

definition printint :: "text8 \<Rightarrow> u64 \<Rightarrow> nat \<Rightarrow> bool \<Rightarrow> text8" where
  "printint digits xx base sign = rev (printint_buf digits xx base sign)"

definition printptr :: "text8 \<Rightarrow> u64 \<Rightarrow> text8" where
  "printptr digits x = [48, 120] @ map (\<lambda>i. digits ! unat (drop_bit 60 (push_bit (4 * i) x))) [0..<16]"

section \<open>Conversions\<close>

text \<open>What one conversion puts out, how many format characters it takes, and the arguments left:
  shared text of the two programs' case distinction on \<open>c0\<close>, \<open>c1\<close>, \<open>c2\<close>.\<close>

abbreviation ch_d :: u8 where "ch_d \<equiv> 100"
abbreviation ch_l :: u8 where "ch_l \<equiv> 108"
abbreviation ch_u :: u8 where "ch_u \<equiv> 117"
abbreviation ch_x :: u8 where "ch_x \<equiv> 120"
abbreviation ch_p :: u8 where "ch_p \<equiv> 112"
abbreviation ch_c :: u8 where "ch_c \<equiv> 99"
abbreviation ch_s :: u8 where "ch_s \<equiv> 115"
abbreviation percent :: u8 where "percent \<equiv> 37"

fun va_int :: "arg list \<Rightarrow> (u64 \<times> arg list) option" where
  "va_int (AInt x # ap) = Some (x, ap)"
| "va_int _ = None"

fun va_str :: "arg list \<Rightarrow> (text8 \<times> arg list) option" where
  "va_str (AStr None # ap) = Some ([40, 110, 117, 108, 108, 41], ap)"
| "va_str (AStr (Some t) # ap) = Some (t, ap)"
| "va_str _ = None"

definition conv :: "text8 \<Rightarrow> u8 \<Rightarrow> u8 \<Rightarrow> u8 \<Rightarrow> arg list \<Rightarrow> (text8 \<times> nat \<times> arg list) option" where
  "conv digits c0 c1 c2 ap =
     (let num = (\<lambda>f base sign k. map_option (\<lambda>(x, ap). (printint digits (f x) base sign, k, ap)) (va_int ap));
          int32 = (\<lambda>x :: u64. scast (ucast x :: u32)); uint32 = (\<lambda>x :: u64. ucast (ucast x :: u32))
      in if c0 = ch_d then num int32 10 True 1
         else if c0 = ch_l \<and> c1 = ch_d then num id 10 True 2
         else if c0 = ch_l \<and> c1 = ch_l \<and> c2 = ch_d then num id 10 True 3
         else if c0 = ch_u then num uint32 10 False 1
         else if c0 = ch_l \<and> c1 = ch_u then num id 10 False 2
         else if c0 = ch_l \<and> c1 = ch_l \<and> c2 = ch_u then num id 10 False 3
         else if c0 = ch_x then num uint32 16 False 1
         else if c0 = ch_l \<and> c1 = ch_x then num id 16 False 2
         else if c0 = ch_l \<and> c1 = ch_l \<and> c2 = ch_x then num id 16 False 3
         else if c0 = ch_p then map_option (\<lambda>(x, ap). (printptr digits x, 1, ap)) (va_int ap)
         else if c0 = ch_c then map_option (\<lambda>(x, ap). ([ucast x], 1, ap)) (va_int ap)
         else if c0 = ch_s then map_option (\<lambda>(t, ap). (t, 1, ap)) (va_str ap)
         else if c0 = percent then Some ([percent], 1, ap)
         else Some ([percent, c0], 1, ap))"

lemma conv_pos: "conv digits c0 c1 c2 ap = Some (t, k, ap') \<Longrightarrow> 0 < k"
  by (auto simp: conv_def Let_def split: if_splits)

text \<open>\<^verbatim>\<open>fmt[i]\<close>, with the NUL behind the string.\<close>

definition fmt_at :: "text8 \<Rightarrow> nat \<Rightarrow> u8" where
  "fmt_at fmt i = (if i < length fmt then fmt ! i else 0)"

section \<open>The kernel's loop\<close>

function printf_loop :: "text8 \<Rightarrow> text8 \<Rightarrow> nat \<Rightarrow> arg list \<Rightarrow> text8 option" where
  "printf_loop digits fmt i ap =
     (let cx = fmt_at fmt i in
      if i \<ge> length fmt \<or> cx = 0 then Some []
      else if cx \<noteq> percent then map_option (\<lambda>out. cx # out) (printf_loop digits fmt (i + 1) ap)
      else let c0 = fmt_at fmt (i + 1);
               c1 = (if c0 \<noteq> 0 then fmt_at fmt (i + 2) else 0);
               c2 = (if c1 \<noteq> 0 then fmt_at fmt (i + 3) else 0)
           in if c0 = 0 then Some []
              else case conv digits c0 c1 c2 ap of
                     None \<Rightarrow> None
                   | Some (t, k, ap) \<Rightarrow> map_option (\<lambda>out. t @ out) (printf_loop digits fmt (i + 1 + k) ap))"
  by pat_completeness auto
termination
  by (relation "measure (\<lambda>(digits, fmt, i, ap). length fmt - i)") (auto simp: fmt_at_def split: if_splits)

declare printf_loop.simps [simp del]

definition kprintf :: "text8 \<Rightarrow> arg list \<Rightarrow> text8 option" where
  "kprintf fmt ap = printf_loop kdigits fmt 0 ap"

section \<open>The user library's loop\<close>

text \<open>\<open>state\<close> tells whether a \<^verbatim>\<open>%\<close> has just been read.\<close>

function vprintf_loop :: "text8 \<Rightarrow> text8 \<Rightarrow> bool \<Rightarrow> nat \<Rightarrow> arg list \<Rightarrow> text8 option" where
  "vprintf_loop digits fmt state i ap =
     (if i \<ge> length fmt \<or> fmt_at fmt i = 0 then Some []
      else let c0 = fmt_at fmt i in
        if \<not> state
        then if c0 = percent then vprintf_loop digits fmt True (i + 1) ap
             else map_option (\<lambda>out. c0 # out) (vprintf_loop digits fmt False (i + 1) ap)
        else let c1 = (if c0 \<noteq> 0 then fmt_at fmt (i + 1) else 0);
                 c2 = (if c1 \<noteq> 0 then fmt_at fmt (i + 2) else 0)
             in case conv digits c0 c1 c2 ap of
                  None \<Rightarrow> None
                | Some (t, k, ap) \<Rightarrow> map_option (\<lambda>out. t @ out) (vprintf_loop digits fmt False (i + k) ap))"
  by pat_completeness auto
termination
  by (relation "measure (\<lambda>(digits, fmt, state, i, ap). length fmt - i)") (auto dest: conv_pos)

declare vprintf_loop.simps [simp del]

definition vprintf :: "text8 \<Rightarrow> arg list \<Rightarrow> text8 option" where
  "vprintf fmt ap = vprintf_loop udigits fmt False 0 ap"

section \<open>The two loops agree\<close>


section \<open>Numbers are printed whole\<close>

lemma print_digits_length: "1 < base \<Longrightarrow> x < base ^ k \<Longrightarrow> 0 < k \<Longrightarrow> length (print_digits digits x base) \<le> k"
proof (induction k arbitrary: x)
  case (Suc k)
  show ?case
  proof (cases "x div base = 0")
    case True
    then show ?thesis by (simp add: print_digits.simps [of _ x])
  next
    case False
    have "x div base < base ^ k" using Suc.prems by (simp add: div_less_iff_less_mult mult.commute)
    moreover from this False have "0 < k" by (cases k) auto
    ultimately show ?thesis using Suc False by (simp add: print_digits.simps [of _ x])
  qed
qed simp

text \<open>C19. \<^verbatim>\<open>printint\<close> never writes past its \<^verbatim>\<open>buf[20]\<close>: in base 10 and 16 every 64-bit number,
  with its sign, has at most 20 characters.\<close>

theorem printint_in_bounds:
  assumes "base = 10 \<or> base = 16"
  shows "length (printint_buf digits xx base sign) \<le> 20"
proof (cases "sign \<and> sint xx < 0")
  case True
  have ge: "- (2 ^ 63) \<le> sint xx" using sint_ge [of xx] by simp
  have e: "(word_of_int (- sint xx) :: u64) = - xx" by simp
  have "uint (word_of_int (- sint xx) :: u64) = - sint xx"
    unfolding uint_word_of_int using ge True by (intro mod_pos_pos_trivial) simp_all
  then have "uint (- xx) \<le> 2 ^ 63" unfolding e using ge by linarith
  then have "nat (uint (- xx)) \<le> nat (2 ^ 63)" by (rule nat_mono)
  then have "unat (- xx) \<le> 2 ^ 63" unfolding unat_eq_nat_uint by (simp only: nat_power_eq nat_numeral zero_le_numeral)
  then have "unat (- xx) < base ^ 19" using assms by auto
  with assms True print_digits_length [of base "unat (- xx)" 19 digits] show ?thesis by (auto simp: printint_buf_def Let_def)
next
  case False
  have "unat xx < base ^ 20" using assms unat_u64_less [of xx] by auto
  with assms False print_digits_length [of base "unat xx" 20 digits] show ?thesis by (auto simp: printint_buf_def Let_def)
qed

theorem printint_in_bounds_witness: "length (printint_buf kdigits (- (2 ^ 63)) 10 True) \<le> 20"
  using printint_in_bounds [of 10 kdigits "- (2 ^ 63)" True] by simp

end
