(* ===== verification/Console.thy ===== *)
theory Console
  imports Fs Printf
begin

text \<open>
  The console (\<^verbatim>\<open>kernel/console.c\<close>) on the serial port (\<^verbatim>\<open>kernel/uart.c\<close>), the kernel's
  \<^verbatim>\<open>printf\<close> on top of it, and \<^verbatim>\<open>procdump\<close>.  The device is seen through the register writes the driver
  performs (\<open>uart_w\<close>) and, at an interrupt, through what its registers hold.  Waiting for the
  transmitter ends with it idle: \<^verbatim>\<open>uartputc_sync\<close> polls until it is, and the sleep in
  \<^verbatim>\<open>uartwrite\<close> ends when \<^verbatim>\<open>uartintr\<close> has cleared \<^verbatim>\<open>tx_busy\<close>.
\<close>

record consst = fsst +
  cons_buf :: "u8 list"
  cons_r :: u32
  cons_w :: u32
  cons_e :: u32
  tx_busy :: bool
  uart_w :: "(nat \<times> u8) list"
  panicked :: bool

section \<open>The serial port\<close>

abbreviation THR :: nat where "THR \<equiv> 0"
abbreviation IER :: nat where "IER \<equiv> 1"
abbreviation FCR :: nat where "FCR \<equiv> 2"
abbreviation LCR :: nat where "LCR \<equiv> 3"

definition WriteReg :: "nat \<Rightarrow> u8 \<Rightarrow> 'a consst_scheme \<Rightarrow> 'a consst_scheme" where
  "WriteReg reg v s = s\<lparr>uart_w := uart_w s @ [(reg, v)]\<rparr>"

definition uartinit :: "'a consst_scheme \<Rightarrow> 'a consst_scheme" where
  "uartinit s = foldl (\<lambda>s (r, v). WriteReg r v s) s
     [(IER, 0), (LCR, 0x80), (0, 3), (1, 0), (LCR, 3), (FCR, 7), (IER, 3)]"

definition uartwrite_byte :: "u8 \<Rightarrow> 'a consst_scheme \<Rightarrow> 'a consst_scheme" where
  "uartwrite_byte c s = (let s = s\<lparr>tx_busy := False\<rparr> in (WriteReg THR c s)\<lparr>tx_busy := True\<rparr>)"

definition uartwrite :: "u8 list \<Rightarrow> 'a consst_scheme \<Rightarrow> 'a consst_scheme" where
  "uartwrite buf s = fold uartwrite_byte buf s"

definition uartputc_sync :: "u8 \<Rightarrow> 'a consst_scheme \<Rightarrow> 'a consst_scheme kres" where
  "uartputc_sync c s = (if panicked s then Spin else Ok (WriteReg THR c s))"

section \<open>Output\<close>

abbreviation BACKSPACE :: u32 where
  "BACKSPACE \<equiv> 0x100"

definition consputc :: "u32 \<Rightarrow> 'a consst_scheme \<Rightarrow> 'a consst_scheme kres" where
  "consputc c s =
     (if c = BACKSPACE
      then andThen (uartputc_sync 8 s) (\<lambda>s. andThen (uartputc_sync 32 s) (\<lambda>s. uartputc_sync 8 s))
      else uartputc_sync (ucast c) s)"

definition printf :: "text8 \<Rightarrow> arg list \<Rightarrow> 'a consst_scheme \<Rightarrow> 'a consst_scheme kres" where
  "printf fmt ap s =
     (case kprintf fmt ap of
        None \<Rightarrow> Panic ''undefined: variadic argument''
      | Some out \<Rightarrow> forM (\<lambda>c. consputc (ucast c)) out s)"

function consolewrite :: "src \<Rightarrow> nat \<Rightarrow> int \<Rightarrow> 'a consst_scheme \<Rightarrow> (int \<times> 'a consst_scheme) kres" where
  "consolewrite src left i s =
     (if left = 0 then Ok (i, s)
      else let nn = min 32 left in
        andThen (either_copyin src nn s) (\<lambda>(r, buf, s).
          if r = - 1 then Ok (i, s)
          else consolewrite (src_plus src nn) (left - nn) (i + int nn) (uartwrite buf s)))"
  by pat_completeness auto
termination
  by (relation "measure (\<lambda>(src, left, i, s). left)") auto

declare consolewrite.simps [simp del]

definition text_of :: "string \<Rightarrow> text8" where
  "text_of = map (\<lambda>c. of_nat (of_char c))"

definition state_name :: "procstate \<Rightarrow> text8" where
  "state_name st = text_of (case st of UNUSED \<Rightarrow> ''unused'' | USED \<Rightarrow> ''used'' | SLEEPING \<Rightarrow> ''sleep ''
     | RUNNABLE \<Rightarrow> ''runble'' | RUNNING \<Rightarrow> ''run   '' | ZOMBIE \<Rightarrow> ''zombie'')"

definition procdump_proc :: "proc \<Rightarrow> 'a consst_scheme \<Rightarrow> 'a consst_scheme kres" where
  "procdump_proc p s =
     (if p_state p = UNUSED then Ok s
      else andThen (printf (text_of ''%d %s %s'') [AInt (word_of_int (p_pid p)), AStr (Some (state_name (p_state p))), AStr (Some (cstr (p_name p)))] s)
             (\<lambda>s. printf [10] [] s))"

definition procdump :: "'a consst_scheme \<Rightarrow> 'a consst_scheme kres" where
  "procdump s = andThen (printf [10] [] s) (\<lambda>s. forM procdump_proc (procs s) s)"

section \<open>Input\<close>

abbreviation INPUT_BUF_SIZE :: u32 where
  "INPUT_BUF_SIZE \<equiv> 128"

abbreviation newline :: u8 where
  "newline \<equiv> 10"

definition cons_at :: "u32 \<Rightarrow> 'a consst_scheme \<Rightarrow> u8" where
  "cons_at i s = cons_buf s ! unat (i mod INPUT_BUF_SIZE)"

text \<open>The buffer is a ring indexed by the counters \<^verbatim>\<open>r\<close> (read), \<^verbatim>\<open>w\<close> (lines complete) and
  \<^verbatim>\<open>e\<close> (edited).  A reader with nothing to read sleeps: the outcome \<open>Spin\<close>.\<close>

function consoleread_loop :: "dst \<Rightarrow> nat \<Rightarrow> int \<Rightarrow> 'a consst_scheme \<Rightarrow> (int \<times> u8 list \<times> 'a consst_scheme) kres" where
  "consoleread_loop dst n got s =
     (if n = 0 then Ok (got, [], s)
      else if cons_r s = cons_w s
      then if p_killed (myproc s) \<noteq> 0 then Ok (- 1, [], s) else Spin
      else let c = cons_at (cons_r s) s; s = s\<lparr>cons_r := cons_r s + 1\<rparr> in
        if c = 4
        then Ok (got, [], if got > 0 then s\<lparr>cons_r := cons_r s - 1\<rparr> else s)
        else andThen (either_copyout dst [c] s) (\<lambda>(r, s).
          if r = - 1 then Ok (got, [], s)
          else if c = newline then Ok (got + 1, [c], s)
          else andThen (consoleread_loop (dst_plus dst 1) (n - 1) (got + 1) s) (\<lambda>(r, bs, s). Ok (r, c # bs, s))))"
  by pat_completeness auto
termination
  by (relation "measure (\<lambda>(dst, n, got, s). n)") auto

declare consoleread_loop.simps [simp del]

definition consoleread :: "dst \<Rightarrow> nat \<Rightarrow> 'a consst_scheme \<Rightarrow> (int \<times> u8 list \<times> 'a consst_scheme) kres" where
  "consoleread dst n s = consoleread_loop dst n 0 s"

function kill_line :: "'a consst_scheme \<Rightarrow> 'a consst_scheme kres" where
  "kill_line s =
     (if cons_e s \<noteq> cons_w s \<and> cons_at (cons_e s - 1) s \<noteq> newline
      then andThen (consputc BACKSPACE (s\<lparr>cons_e := cons_e s - 1\<rparr>)) (\<lambda>s. kill_line s)
      else Ok s)"
  by pat_completeness auto
termination
proof (relation "measure (\<lambda>s. unat (cons_e s - cons_w s))")
  fix s x :: "'a consst_scheme"
  assume "cons_e s \<noteq> cons_w s \<and> cons_at (cons_e s - 1) s \<noteq> newline"
    and x: "consputc BACKSPACE (s\<lparr>cons_e := cons_e s - 1\<rparr>) = Ok x"
  then have ne: "cons_e s - cons_w s \<noteq> 0" by simp
  have "cons_e x = cons_e s - 1" "cons_w x = cons_w s"
    using x by (auto simp: consputc_def uartputc_sync_def WriteReg_def split: if_splits)
  then have "cons_e x - cons_w x = (cons_e s - cons_w s) - 1" by simp
  then show "(x, s) \<in> measure (\<lambda>s. unat (cons_e s - cons_w s))"
    using ne by (simp add: unat_minus_one unat_gt_0)
qed simp

declare kill_line.simps [simp del]

definition consoleintr :: "u8 \<Rightarrow> 'a consst_scheme \<Rightarrow> 'a consst_scheme kres" where
  "consoleintr c s =
     (if c = 0x10 then procdump s
      else if c = 0x15 then kill_line s
      else if c = 8 \<or> c = 0x7f
      then if cons_e s \<noteq> cons_w s then consputc BACKSPACE (s\<lparr>cons_e := cons_e s - 1\<rparr>) else Ok s
      else if c \<noteq> 0 \<and> cons_e s - cons_r s < INPUT_BUF_SIZE
      then let c = (if c = 13 then newline else c) in
        andThen (consputc (ucast c) s) (\<lambda>s.
          let s = s\<lparr>cons_buf := (cons_buf s)[unat (cons_e s mod INPUT_BUF_SIZE) := c], cons_e := cons_e s + 1\<rparr> in
          Ok (if c = newline \<or> c = 4 \<or> cons_e s - cons_r s = INPUT_BUF_SIZE
              then wakeup ChCons (s\<lparr>cons_w := cons_e s\<rparr>) else s))
      else Ok s)"

text \<open>At an interrupt the device reports whether it is idle and which characters have arrived.\<close>

definition uartintr :: "bool \<Rightarrow> u8 list \<Rightarrow> 'a consst_scheme \<Rightarrow> 'a consst_scheme kres" where
  "uartintr tx_idle rx s =
     forM consoleintr rx (if tx_idle then wakeup ChUart (s\<lparr>tx_busy := False\<rparr>) else s)"

definition consoleinit :: "'a consst_scheme \<Rightarrow> 'a consst_scheme" where
  "consoleinit s = uartinit s"

end
