(* ===== verification/Pipe.thy ===== *)
theory Pipe
  imports Console
begin

text \<open>
  Pipes (\<^verbatim>\<open>kernel/pipe.c\<close>) and the open-file table they share with \<open>File\<close>.  A pipe lives in a page
  from \<^verbatim>\<open>kalloc\<close> and is known by its address; its lock is held from one \<^verbatim>\<open>sleep\<close> to the next, so
  \<open>pipewrite_cs\<close> and \<open>piperead_cs\<close> run to the end of the call or to the point where it
  sleeps, as one step, and report how far they got.
\<close>

abbreviation PIPESIZE :: nat where "PIPESIZE \<equiv> 512"
abbreviation NFILE :: nat where "NFILE \<equiv> 100"

record pipe =
  pi_data :: "u8 list"
  pi_nread :: u32
  pi_nwrite :: u32
  pi_readopen :: bool
  pi_writeopen :: bool

datatype ftype = FD_NONE | FD_PIPE | FD_INODE | FD_DEVICE

record kfile =
  f_type :: ftype
  f_ref :: int
  f_readable :: bool
  f_writable :: bool
  f_pipe :: u64
  f_ip :: nat
  f_off :: u32
  f_major :: u16

record filest = consst +
  pipes :: "u64 \<Rightarrow> pipe"
  ftable :: "kfile list"

definition set_pipe :: "u64 \<Rightarrow> pipe \<Rightarrow> 'a filest_scheme \<Rightarrow> 'a filest_scheme" where
  "set_pipe pi x s = s\<lparr>pipes := (pipes s)(pi := x)\<rparr>"

definition set_file :: "nat \<Rightarrow> kfile \<Rightarrow> 'a filest_scheme \<Rightarrow> 'a filest_scheme" where
  "set_file f x s = s\<lparr>ftable := (ftable s)[f := x]\<rparr>"

definition filealloc :: "'a filest_scheme \<Rightarrow> nat option \<times> 'a filest_scheme" where
  "filealloc s =
     (case find (\<lambda>f. f_ref (ftable s ! f) = 0) [0..<length (ftable s)] of
        Some f \<Rightarrow> (Some f, set_file f ((ftable s ! f)\<lparr>f_ref := 1\<rparr>) s)
      | None \<Rightarrow> (None, s))"

definition filedup :: "nat \<Rightarrow> 'a filest_scheme \<Rightarrow> (nat \<times> 'a filest_scheme) kres" where
  "filedup f s =
     (if f_ref (ftable s ! f) < 1 then Panic ''filedup''
      else Ok (f, set_file f ((ftable s ! f)\<lparr>f_ref := f_ref (ftable s ! f) + 1\<rparr>) s))"

section \<open>The ring buffer\<close>

definition pipe_full :: "pipe \<Rightarrow> bool" where
  "pipe_full p \<longleftrightarrow> pi_nwrite p = pi_nread p + of_nat PIPESIZE"

definition pipe_empty :: "pipe \<Rightarrow> bool" where
  "pipe_empty p \<longleftrightarrow> pi_nread p = pi_nwrite p"

definition pipe_put :: "u8 \<Rightarrow> pipe \<Rightarrow> pipe" where
  "pipe_put ch p = p\<lparr>pi_data := (pi_data p)[unat (pi_nwrite p) mod PIPESIZE := ch], pi_nwrite := pi_nwrite p + 1\<rparr>"

definition pipe_get :: "pipe \<Rightarrow> u8 \<times> pipe" where
  "pipe_get p = (pi_data p ! (unat (pi_nread p) mod PIPESIZE), p\<lparr>pi_nread := pi_nread p + 1\<rparr>)"

section \<open>Operations\<close>

definition pipeclose :: "u64 \<Rightarrow> bool \<Rightarrow> 'a filest_scheme \<Rightarrow> 'a filest_scheme kres" where
  "pipeclose pi writable s =
     (let s = (if writable
               then wakeup (ChPipeR (unat pi)) (set_pipe pi ((pipes s pi)\<lparr>pi_writeopen := False\<rparr>) s)
               else wakeup (ChPipeW (unat pi)) (set_pipe pi ((pipes s pi)\<lparr>pi_readopen := False\<rparr>) s))
      in if \<not> pi_readopen (pipes s pi) \<and> \<not> pi_writeopen (pipes s pi) then kfree pi s else Ok s)"

text \<open>The result is \<open>Some r\<close> for a return and \<open>None\<close> for a writer that sleeps after
  \<open>i\<close> bytes, to go on from there.\<close>

function pipewrite_cs :: "u64 \<Rightarrow> u64 \<Rightarrow> nat \<Rightarrow> nat \<Rightarrow> 'a filest_scheme \<Rightarrow> (int option \<times> nat \<times> 'a filest_scheme) kres" where
  "pipewrite_cs pi addr i n s =
     (if i < n
      then if \<not> pi_readopen (pipes s pi) \<or> p_killed (myproc s) \<noteq> 0 then Ok (Some (- 1), i, s)
           else if pipe_full (pipes s pi) then Ok (None, i, wakeup (ChPipeR (unat pi)) s)
           else andThen (copyin (p_sz (myproc s)) (p_pagetable (myproc s)) (addr + of_nat i) 1 s) (\<lambda>(r, ch, s).
             if r = - 1 then Ok (Some (int i), i, wakeup (ChPipeR (unat pi)) s)
             else pipewrite_cs pi addr (i + 1) n (set_pipe pi (pipe_put (hd ch) (pipes s pi)) s))
      else Ok (Some (int i), i, wakeup (ChPipeR (unat pi)) s))"
  by pat_completeness auto
termination
  by (relation "measure (\<lambda>(pi, addr, i, n, s). n - i)") auto

declare pipewrite_cs.simps [simp del]

function piperead_loop :: "u64 \<Rightarrow> u64 \<Rightarrow> nat \<Rightarrow> nat \<Rightarrow> 'a filest_scheme \<Rightarrow> (nat \<times> 'a filest_scheme) kres" where
  "piperead_loop pi addr i n s =
     (if i < n \<and> \<not> pipe_empty (pipes s pi)
      then let (ch, p) = pipe_get (pipes s pi); s = set_pipe pi p s in
           andThen (copyout (p_sz (myproc s)) (p_pagetable (myproc s)) (addr + of_nat i) [ch] s) (\<lambda>(r, s).
             if r = - 1 then Ok (i, s) else piperead_loop pi addr (i + 1) n s)
      else Ok (i, s))"
  by pat_completeness auto
termination
  by (relation "measure (\<lambda>(pi, addr, i, n, s). n - i)") auto

declare piperead_loop.simps [simp del]

definition piperead_cs :: "u64 \<Rightarrow> u64 \<Rightarrow> nat \<Rightarrow> 'a filest_scheme \<Rightarrow> (int option \<times> 'a filest_scheme) kres" where
  "piperead_cs pi addr n s =
     (if pipe_empty (pipes s pi) \<and> pi_writeopen (pipes s pi)
      then if p_killed (myproc s) \<noteq> 0 then Ok (Some (- 1), s) else Ok (None, s)
      else andThen (piperead_loop pi addr 0 n s) (\<lambda>(i, s). Ok (Some (int i), wakeup (ChPipeW (unat pi)) s)))"

text \<open>The calls as a single process sees them; one that sleeps does not return.\<close>

definition pipewrite :: "u64 \<Rightarrow> u64 \<Rightarrow> nat \<Rightarrow> 'a filest_scheme \<Rightarrow> (int \<times> 'a filest_scheme) kres" where
  "pipewrite pi addr n s =
     andThen (pipewrite_cs pi addr 0 n s) (\<lambda>(r, i, s). case r of Some v \<Rightarrow> Ok (v, s) | None \<Rightarrow> Spin)"

definition piperead :: "u64 \<Rightarrow> u64 \<Rightarrow> nat \<Rightarrow> 'a filest_scheme \<Rightarrow> (int \<times> 'a filest_scheme) kres" where
  "piperead pi addr n s = andThen (piperead_cs pi addr n s) (\<lambda>(r, s). case r of Some v \<Rightarrow> Ok (v, s) | None \<Rightarrow> Spin)"

end
