(* ===== verification/File.thy ===== *)
theory File
  imports Pipe
begin

text \<open>
  Open files (\<^verbatim>\<open>kernel/file.c\<close>) and \<^verbatim>\<open>pipealloc\<close>.  The only device in the switch table
  \<^verbatim>\<open>devsw\<close> is the console, at major number 1.
\<close>

abbreviation NDEV :: int where "NDEV \<equiv> 10"
abbreviation CONSOLE :: u16 where "CONSOLE \<equiv> 1"

definition fileclose :: "nat \<Rightarrow> 'a filest_scheme \<Rightarrow> 'a filest_scheme kres" where
  "fileclose f s =
     (if f_ref (ftable s ! f) < 1 then Panic ''fileclose''
      else let s = set_file f ((ftable s ! f)\<lparr>f_ref := f_ref (ftable s ! f) - 1\<rparr>) s in
        if f_ref (ftable s ! f) > 0 then Ok s
        else let ff = ftable s ! f; s = set_file f (ff\<lparr>f_ref := 0, f_type := FD_NONE\<rparr>) s in
          case f_type ff of
            FD_PIPE \<Rightarrow> pipeclose (f_pipe ff) (f_writable ff) s
          | FD_NONE \<Rightarrow> Ok s
          | _ \<Rightarrow> andThen (begin_op s) (\<lambda>s. andThen (iput (f_ip ff) s) (\<lambda>s. end_op s)))"

definition opt_fileclose :: "nat option \<Rightarrow> 'a filest_scheme \<Rightarrow> 'a filest_scheme kres" where
  "opt_fileclose f s = (case f of None \<Rightarrow> Ok s | Some f \<Rightarrow> fileclose f s)"

definition pipealloc :: "'a filest_scheme \<Rightarrow> ((nat \<times> nat) option \<times> 'a filest_scheme) kres" where
  "pipealloc s =
     (let (f0, s) = filealloc s;
          (f1, s) = (if f0 = None then (None, s) else filealloc s)
      in case (f0, f1) of
           (Some a, Some b) \<Rightarrow>
             (let (pi, s) = kalloc s in
              if pi = 0
              then andThen (fileclose a s) (\<lambda>s. andThen (fileclose b s) (\<lambda>s. Ok (None, s)))
              else let s = set_pipe pi ((pipes s pi)\<lparr>pi_readopen := True, pi_writeopen := True, pi_nwrite := 0, pi_nread := 0\<rparr>) s;
                       s = set_file a ((ftable s ! a)\<lparr>f_type := FD_PIPE, f_readable := True, f_writable := False, f_pipe := pi\<rparr>) s;
                       s = set_file b ((ftable s ! b)\<lparr>f_type := FD_PIPE, f_readable := False, f_writable := True, f_pipe := pi\<rparr>) s
                   in Ok (Some (a, b), s))
         | _ \<Rightarrow> andThen (opt_fileclose f0 s) (\<lambda>s. andThen (opt_fileclose f1 s) (\<lambda>s. Ok (None, s))))"

text \<open>\<^verbatim>\<open>struct stat\<close> as the bytes copied out, padding included.\<close>

definition stat_bytes :: "stat \<Rightarrow> u8 list" where
  "stat_bytes st = le_bytes 4 (st_dev st) @ le_bytes 4 (st_ino st) @ le_bytes 2 (st_type st) @ le_bytes 2 (st_nlink st) @
     replicate 4 0 @ le_bytes 8 (st_size st)"

definition filestat :: "nat \<Rightarrow> u64 \<Rightarrow> 'a filest_scheme \<Rightarrow> (int \<times> 'a filest_scheme) kres" where
  "filestat f addr s =
     (let ff = ftable s ! f in
      if f_type ff = FD_INODE \<or> f_type ff = FD_DEVICE
      then andThen (ilock (f_ip ff) s) (\<lambda>s.
           let st = stati (f_ip ff) s in
           andThen (iunlock (f_ip ff) s) (\<lambda>s.
           andThen (copyout (p_sz (myproc s)) (p_pagetable (myproc s)) addr (stat_bytes st) s) (\<lambda>(r, s).
             Ok (if r < 0 then - 1 else 0, s))))
      else Ok (- 1, s))"

definition dev_ok :: "u16 \<Rightarrow> bool" where
  "dev_ok major \<longleftrightarrow> \<not> (sint major < 0 \<or> sint major \<ge> NDEV) \<and> major = CONSOLE"

definition fileread :: "nat \<Rightarrow> u64 \<Rightarrow> int \<Rightarrow> 'a filest_scheme \<Rightarrow> (int \<times> 'a filest_scheme) kres" where
  "fileread f addr n s =
     (let ff = ftable s ! f in
      if \<not> f_readable ff then Ok (- 1, s)
      else case f_type ff of
             FD_PIPE \<Rightarrow> piperead (f_pipe ff) addr (nat n) s
           | FD_DEVICE \<Rightarrow>
               if \<not> dev_ok (f_major ff) then Ok (- 1, s)
               else andThen (consoleread (DUser addr) (nat n) s) (\<lambda>(r, bs, s). Ok (r, s))
           | FD_INODE \<Rightarrow>
               andThen (ilock (f_ip ff) s) (\<lambda>s.
               andThen (readi (f_ip ff) (DUser addr) (f_off ff) (word_of_int n) s) (\<lambda>(r, bs, s).
                 let s = (if r > 0 then set_file f ((ftable s ! f)\<lparr>f_off := f_off (ftable s ! f) + word_of_int r\<rparr>) s else s)
                 in andThen (iunlock (f_ip ff) s) (\<lambda>s. Ok (r, s))))
           | FD_NONE \<Rightarrow> Panic ''fileread'')"

text \<open>\<^verbatim>\<open>max\<close>: so many bytes at a time that a call never logs more than \<^verbatim>\<open>MAXOPBLOCKS\<close> blocks.\<close>

abbreviation write_max :: nat where
  "write_max \<equiv> (10 - 1 - 1 - 2) div 2 * BSIZE"

function filewrite_loop :: "nat \<Rightarrow> u64 \<Rightarrow> nat \<Rightarrow> nat \<Rightarrow> 'a filest_scheme \<Rightarrow> (nat \<times> 'a filest_scheme) kres" where
  "filewrite_loop f addr i n s =
     (if i < n
      then let n1 = min (n - i) write_max; ip = f_ip (ftable s ! f) in
        andThen (begin_op s) (\<lambda>s.
        andThen (ilock ip s) (\<lambda>s.
        andThen (writei ip (SUser (addr + of_nat i)) (f_off (ftable s ! f)) (of_nat n1) s) (\<lambda>(r, s).
          let s = (if r > 0 then set_file f ((ftable s ! f)\<lparr>f_off := f_off (ftable s ! f) + word_of_int r\<rparr>) s else s) in
        andThen (iunlock ip s) (\<lambda>s.
        andThen (end_op s) (\<lambda>s.
          if r \<noteq> int n1 then Ok (i, s) else filewrite_loop f addr (i + n1) n s)))))
      else Ok (i, s))"
  by pat_completeness auto
termination
  by (relation "measure (\<lambda>(f, addr, i, n, s). n - i)") auto

declare filewrite_loop.simps [simp del]

definition filewrite :: "nat \<Rightarrow> u64 \<Rightarrow> int \<Rightarrow> 'a filest_scheme \<Rightarrow> (int \<times> 'a filest_scheme) kres" where
  "filewrite f addr n s =
     (let ff = ftable s ! f in
      if \<not> f_writable ff then Ok (- 1, s)
      else case f_type ff of
             FD_PIPE \<Rightarrow> pipewrite (f_pipe ff) addr (nat n) s
           | FD_DEVICE \<Rightarrow>
               if \<not> dev_ok (f_major ff) then Ok (- 1, s) else consolewrite (SUser addr) (nat n) 0 s
           | FD_INODE \<Rightarrow>
               andThen (filewrite_loop f addr 0 (nat n) s) (\<lambda>(i, s). Ok (if int i = n then n else - 1, s))
           | FD_NONE \<Rightarrow> Panic ''filewrite'')"

end
