(* ===== verification/Proc.thy ===== *)
theory Proc
  imports File
begin

text \<open>
  Processes (\<^verbatim>\<open>kernel/proc.c\<close>): creation and destruction with their memory, files and parents, waiting
  and killing.  \<open>kexit\<close> ends where the process enters the scheduler; \<open>kwait\<close> that would sleep has
  the outcome \<open>Spin\<close>.  The addresses of \<^verbatim>\<open>trampoline\<close> and \<^verbatim>\<open>forkret\<close> come from the linker
  and are fields of the state.
\<close>

abbreviation NPROC :: nat where "NPROC \<equiv> 64"
abbreviation NOFILE :: nat where "NOFILE \<equiv> 16"

record sysst = filest +
  nextpid :: int
  initproc :: "nat option"
  ticks :: u32
  trampoline :: u64
  forkret_addr :: u64

definition set_proc :: "nat \<Rightarrow> proc \<Rightarrow> 'a kst_scheme \<Rightarrow> 'a kst_scheme" where
  "set_proc i p s = s\<lparr>procs := (procs s)[i := p]\<rparr>"

definition proc_chan :: "nat option \<Rightarrow> chan" where
  "proc_chan i = (case i of None \<Rightarrow> ChNone | Some i \<Rightarrow> ChProc i)"

section \<open>Boot\<close>

definition mapstack :: "u64 \<Rightarrow> nat \<Rightarrow> 'a kmem_scheme \<Rightarrow> 'a kmem_scheme kres" where
  "mapstack kpgtbl i s =
     (let (pa, s) = kalloc s in
      if pa = 0 then Panic ''kalloc'' else kvmmap kpgtbl (KSTACK (of_nat i)) pa PGSIZE (PTE_R OR PTE_W) s)"

definition proc_mapstacks :: "u64 \<Rightarrow> 'a kmem_scheme \<Rightarrow> 'a kmem_scheme kres" where
  "proc_mapstacks kpgtbl s = forM (mapstack kpgtbl) [0..<NPROC] s"

definition procinit :: "'a kst_scheme \<Rightarrow> 'a kst_scheme" where
  "procinit s = s\<lparr>procs := map (\<lambda>i. (procs s ! i)\<lparr>p_state := UNUSED, p_kstack := KSTACK (of_nat i)\<rparr>) [0..<length (procs s)]\<rparr>"

definition allocpid :: "'a sysst_scheme \<Rightarrow> int \<times> 'a sysst_scheme" where
  "allocpid s = (nextpid s, s\<lparr>nextpid := nextpid s + 1\<rparr>)"

section \<open>Page tables of processes\<close>

definition proc_pagetable :: "u64 \<Rightarrow> 'a sysst_scheme \<Rightarrow> (u64 \<times> 'a sysst_scheme) kres" where
  "proc_pagetable trapframe s =
     (let (pagetable, s) = uvmcreate s in
      if pagetable = 0 then Ok (0, s)
      else andThen (mappages pagetable TRAMPOLINE PGSIZE (trampoline s) (PTE_R OR PTE_X) s) (\<lambda>(r, s).
        if r < 0 then andThen (uvmfree pagetable 0 s) (\<lambda>s. Ok (0, s))
        else andThen (mappages pagetable TRAPFRAME PGSIZE trapframe (PTE_R OR PTE_W) s) (\<lambda>(r, s).
          if r < 0
          then andThen (uvmunmap pagetable TRAMPOLINE 1 False s) (\<lambda>s.
               andThen (uvmfree pagetable 0 s) (\<lambda>s. Ok (0, s)))
          else Ok (pagetable, s))))"

definition proc_freepagetable :: "u64 \<Rightarrow> u64 \<Rightarrow> 'a kmem_scheme \<Rightarrow> 'a kmem_scheme kres" where
  "proc_freepagetable pagetable sz s =
     andThen (uvmunmap pagetable TRAMPOLINE 1 False s) (\<lambda>s.
     andThen (uvmunmap pagetable TRAPFRAME 1 False s) (\<lambda>s.
       uvmfree pagetable sz s))"

section \<open>The process table\<close>

definition freeproc :: "nat \<Rightarrow> 'a sysst_scheme \<Rightarrow> 'a sysst_scheme kres" where
  "freeproc i s =
     andThen (if p_trapframe (procs s ! i) \<noteq> 0 then kfree (p_trapframe (procs s ! i)) s else Ok s) (\<lambda>s.
       let s = set_proc i ((procs s ! i)\<lparr>p_trapframe := 0\<rparr>) s in
     andThen (if p_pagetable (procs s ! i) \<noteq> 0
              then proc_freepagetable (p_pagetable (procs s ! i)) (p_sz (procs s ! i)) s else Ok s) (\<lambda>s.
       Ok (set_proc i ((procs s ! i)\<lparr>p_pagetable := 0, p_sz := 0, p_pid := 0, p_parent := None,
             p_name := (p_name (procs s ! i))[0 := 0], p_chan := ChNone, p_killed := 0, p_xstate := 0, p_state := UNUSED\<rparr>) s)))"

definition allocproc :: "'a sysst_scheme \<Rightarrow> (nat option \<times> 'a sysst_scheme) kres" where
  "allocproc s =
     (case find (\<lambda>i. p_state (procs s ! i) = UNUSED) [0..<length (procs s)] of
        None \<Rightarrow> Ok (None, s)
      | Some i \<Rightarrow>
         (let (pid, s) = allocpid s;
              s = set_proc i ((procs s ! i)\<lparr>p_pid := pid, p_state := USED\<rparr>) s;
              (tf, s) = kalloc s;
              s = set_proc i ((procs s ! i)\<lparr>p_trapframe := tf\<rparr>) s
          in if tf = 0 then andThen (freeproc i s) (\<lambda>s. Ok (None, s))
             else andThen (proc_pagetable tf s) (\<lambda>(pagetable, s).
               let s = set_proc i ((procs s ! i)\<lparr>p_pagetable := pagetable\<rparr>) s in
               if pagetable = 0 then andThen (freeproc i s) (\<lambda>s. Ok (None, s))
               else Ok (Some i, set_proc i ((procs s ! i)\<lparr>p_context := zero_ctx\<lparr>c_ra := forkret_addr s,
                      c_sp := p_kstack (procs s ! i) + PGSIZE\<rparr>\<rparr>) s))))"

definition userinit :: "'a sysst_scheme \<Rightarrow> 'a sysst_scheme kres" where
  "userinit s =
     andThen (allocproc s) (\<lambda>(p, s).
       let s = s\<lparr>initproc := p\<rparr> in
       case p of
         None \<Rightarrow> Panic ''undefined: null pointer''
       | Some i \<Rightarrow> andThen (namei [slash] s) (\<lambda>(cwd, s).
           Ok (set_proc i ((procs s ! i)\<lparr>p_cwd := cwd, p_state := RUNNABLE\<rparr>) s)))"

definition growproc :: "int \<Rightarrow> 'a sysst_scheme \<Rightarrow> (int \<times> 'a sysst_scheme) kres" where
  "growproc n s =
     (let p = myproc s; sz = p_sz p in
      if n > 0
      then andThen (uvmalloc (p_pagetable p) sz (sz + word_of_int n) PTE_W s) (\<lambda>(sz, s).
             if sz = 0 then Ok (- 1, s) else Ok (0, set_myproc ((myproc s)\<lparr>p_sz := sz\<rparr>) s))
      else if n < 0
      then andThen (uvmdealloc (p_pagetable p) sz (sz + word_of_int n) s) (\<lambda>(sz, s).
             Ok (0, set_myproc ((myproc s)\<lparr>p_sz := sz\<rparr>) s))
      else Ok (0, s))"

section \<open>Fork\<close>

text \<open>\<^verbatim>\<open>struct trapframe\<close>: 36 registers of 8 bytes; \<^verbatim>\<open>a0\<close> is at offset 112.\<close>

abbreviation trapframe_size :: nat where "trapframe_size \<equiv> 288"
abbreviation tf_a0 :: u64 where "tf_a0 \<equiv> 112"

definition dup_ofile :: "nat \<Rightarrow> nat \<Rightarrow> 'a sysst_scheme \<Rightarrow> 'a sysst_scheme kres" where
  "dup_ofile np i s =
     (case p_ofile (myproc s) ! i of
        None \<Rightarrow> Ok s
      | Some f \<Rightarrow> andThen (filedup f s) (\<lambda>(f, s).
          Ok (set_proc np ((procs s ! np)\<lparr>p_ofile := (p_ofile (procs s ! np))[i := Some f]\<rparr>) s)))"

text \<open>\<^verbatim>\<open>safestrcpy\<close> into \<^verbatim>\<open>name[16]\<close>.\<close>

definition safestrcpy_list :: "u8 list \<Rightarrow> u8 list \<Rightarrow> nat \<Rightarrow> u8 list" where
  "safestrcpy_list old t n = (let c = take (n - 1) (cstr t) in c @ [0] @ drop (Suc (length c)) old)"

definition kfork :: "'a sysst_scheme \<Rightarrow> (int \<times> 'a sysst_scheme) kres" where
  "kfork s =
     andThen (allocproc s) (\<lambda>(np, s).
       case np of
         None \<Rightarrow> Ok (- 1, s)
       | Some np \<Rightarrow>
          andThen (uvmcopy (p_pagetable (myproc s)) (p_pagetable (procs s ! np)) (p_sz (myproc s)) s) (\<lambda>(r, s).
            if r < 0 then andThen (freeproc np s) (\<lambda>s. Ok (- 1, s))
            else let s = set_proc np ((procs s ! np)\<lparr>p_sz := p_sz (myproc s)\<rparr>) s;
                     ptf = p_trapframe (myproc s); ntf = p_trapframe (procs s ! np);
                     s = s\<lparr>pmem := put_bytes (pmem s) ntf (get_bytes (pmem s) ptf trapframe_size)\<rparr>;
                     s = s\<lparr>pmem := store64 (pmem s) (ntf + tf_a0) 0\<rparr>
                 in andThen (forM (dup_ofile np) [0..<NOFILE] s) (\<lambda>s.
                      case p_cwd (myproc s) of
                        None \<Rightarrow> Panic ''undefined: null pointer''
                      | Some cwd \<Rightarrow>
                         (let (cwd, s) = idup cwd s;
                              np' = (procs s ! np)\<lparr>p_cwd := Some cwd,
                                p_name := safestrcpy_list (p_name (procs s ! np)) (p_name (myproc s)) 16,
                                p_parent := Some (cur s), p_state := RUNNABLE\<rparr>
                          in Ok (p_pid np', set_proc np np' s)))))"

section \<open>Exit and wait\<close>

definition reparent_proc :: "nat \<Rightarrow> nat \<Rightarrow> 'a sysst_scheme \<Rightarrow> 'a sysst_scheme kres" where
  "reparent_proc p pp s =
     (if p_parent (procs s ! pp) = Some p
      then Ok (wakeup (proc_chan (initproc s)) (set_proc pp ((procs s ! pp)\<lparr>p_parent := initproc s\<rparr>) s))
      else Ok s)"

definition reparent :: "nat \<Rightarrow> 'a sysst_scheme \<Rightarrow> 'a sysst_scheme kres" where
  "reparent p s = forM (reparent_proc p) [0..<length (procs s)] s"

definition close_fd :: "nat \<Rightarrow> 'a sysst_scheme \<Rightarrow> 'a sysst_scheme kres" where
  "close_fd fd s =
     (case p_ofile (myproc s) ! fd of
        None \<Rightarrow> Ok s
      | Some f \<Rightarrow> andThen (fileclose f s) (\<lambda>s.
          Ok (set_myproc ((myproc s)\<lparr>p_ofile := (p_ofile (myproc s))[fd := None]\<rparr>) s)))"

text \<open>The part of \<open>kexit\<close> that holds \<^verbatim>\<open>wait_lock\<close>: the children go to \<^verbatim>\<open>init\<close>, the parent is woken.\<close>

definition kexit_zombie :: "int \<Rightarrow> 'a sysst_scheme \<Rightarrow> 'a sysst_scheme kres" where
  "kexit_zombie status s =
     andThen (reparent (cur s) s) (\<lambda>s.
       let s = wakeup (proc_chan (p_parent (myproc s))) s
       in Ok (set_myproc ((myproc s)\<lparr>p_xstate := status, p_state := ZOMBIE\<rparr>) s))"

definition kexit :: "int \<Rightarrow> 'a sysst_scheme \<Rightarrow> 'a sysst_scheme kres" where
  "kexit status s =
     (if initproc s = Some (cur s) then Panic ''init exiting''
      else andThen (forM close_fd [0..<NOFILE] s) (\<lambda>s.
           andThen (begin_op s) (\<lambda>s.
           andThen (case p_cwd (myproc s) of None \<Rightarrow> Panic ''undefined: null pointer'' | Some cwd \<Rightarrow> iput cwd s) (\<lambda>s.
           andThen (end_op s) (\<lambda>s.
             kexit_zombie status (set_myproc ((myproc s)\<lparr>p_cwd := None\<rparr>) s))))))"

fun kwait_scan :: "u64 \<Rightarrow> nat list \<Rightarrow> bool \<Rightarrow> 'a sysst_scheme \<Rightarrow> (int \<times> 'a sysst_scheme) kres" where
  "kwait_scan addr [] havekids s = (if \<not> havekids \<or> p_killed (myproc s) \<noteq> 0 then Ok (- 1, s) else Spin)"
| "kwait_scan addr (pp # pps) havekids s =
     (if p_parent (procs s ! pp) = Some (cur s)
      then if p_state (procs s ! pp) = ZOMBIE
           then let pid = p_pid (procs s ! pp) in
             andThen (if addr \<noteq> 0
                      then copyout (p_sz (myproc s)) (p_pagetable (myproc s)) addr
                             (le_bytes 4 (word_of_int (p_xstate (procs s ! pp)) :: u32)) s
                      else Ok (0, s)) (\<lambda>(r, s).
               if r < 0 then Ok (- 1, s) else andThen (freeproc pp s) (\<lambda>s. Ok (pid, s)))
           else kwait_scan addr pps True s
      else kwait_scan addr pps havekids s)"

definition kwait :: "u64 \<Rightarrow> 'a sysst_scheme \<Rightarrow> (int \<times> 'a sysst_scheme) kres" where
  "kwait addr s = kwait_scan addr [0..<length (procs s)] False s"

section \<open>Kill\<close>

definition kkill :: "int \<Rightarrow> 'a kst_scheme \<Rightarrow> int \<times> 'a kst_scheme" where
  "kkill pid s =
     (case find (\<lambda>i. p_pid (procs s ! i) = pid) [0..<length (procs s)] of
        None \<Rightarrow> (- 1, s)
      | Some i \<Rightarrow> (0, set_proc i (let p = (procs s ! i)\<lparr>p_killed := 1\<rparr> in
          if p_state p = SLEEPING then p\<lparr>p_state := RUNNABLE\<rparr> else p) s))"

definition setkilled :: "nat \<Rightarrow> 'a kst_scheme \<Rightarrow> 'a kst_scheme" where
  "setkilled i s = set_proc i ((procs s ! i)\<lparr>p_killed := 1\<rparr>) s"

definition killed :: "nat \<Rightarrow> 'a kst_scheme \<Rightarrow> int" where
  "killed i s = p_killed (procs s ! i)"

end
