(* ===== verification/Exec.thy ===== *)
theory Exec
  imports Proc
begin

text \<open>
  \<^verbatim>\<open>kernel/exec.c\<close> with the ELF structures of \<^verbatim>\<open>kernel/elf.h\<close>.  The headers are the byte lists
  read into the local variables of \<^verbatim>\<open>kexec\<close>; the argument strings are the bytes in front of their NUL.
  Each \<^verbatim>\<open>goto bad\<close> is a branch that ends in \<open>exec_bad\<close>.
\<close>

abbreviation MAXARG :: nat where "MAXARG \<equiv> 32"
abbreviation USERSTACK :: u64 where "USERSTACK \<equiv> 1"
abbreviation ELF_MAGIC :: u32 where "ELF_MAGIC \<equiv> 0x464C457F"
abbreviation elfhdr_size :: nat where "elfhdr_size \<equiv> 64"
abbreviation proghdr_size :: nat where "proghdr_size \<equiv> 56"

record elfhdr =
  e_magic :: u32
  e_entry :: u64
  e_phoff :: u64
  e_phnum :: u16

record proghdr =
  ph_type :: u32
  ph_flags :: u32
  ph_off :: u64
  ph_vaddr :: u64
  ph_filesz :: u64
  ph_memsz :: u64

definition get_elfhdr :: "u8 list \<Rightarrow> elfhdr" where
  "get_elfhdr x = \<lparr>e_magic = get32 0 x, e_entry = get64 24 x, e_phoff = get64 32 x, e_phnum = get16 56 x\<rparr>"

definition get_proghdr :: "u8 list \<Rightarrow> proghdr" where
  "get_proghdr x = \<lparr>ph_type = get32 0 x, ph_flags = get32 4 x, ph_off = get64 8 x, ph_vaddr = get64 16 x,
     ph_filesz = get64 32 x, ph_memsz = get64 40 x\<rparr>"

definition flags2perm :: "u32 \<Rightarrow> u64" where
  "flags2perm flags =
     (let perm = (if flags AND 1 \<noteq> 0 then PTE_X else 0)
      in if flags AND 2 \<noteq> 0 then perm OR PTE_W else perm)"

fun loadseg_loop :: "u64 \<Rightarrow> u64 \<Rightarrow> nat \<Rightarrow> u32 \<Rightarrow> nat \<Rightarrow> nat list \<Rightarrow> 'a sysst_scheme \<Rightarrow> (int \<times> 'a sysst_scheme) kres" where
  "loadseg_loop pagetable va ip offset sz [] s = Ok (0, s)"
| "loadseg_loop pagetable va ip offset sz (i # is) s =
     andThen (walkaddr pagetable (va + of_nat i) s) (\<lambda>pa.
       if pa = 0 then Panic ''loadseg: address should exist''
       else let n = min (sz - i) (unat PGSIZE) in
         andThen (readi ip (DKern pa) (offset + of_nat i) (of_nat n) s) (\<lambda>(r, bs, s).
           if r \<noteq> int n then Ok (- 1, s) else loadseg_loop pagetable va ip offset sz is s))"

definition loadseg :: "u64 \<Rightarrow> u64 \<Rightarrow> nat \<Rightarrow> u32 \<Rightarrow> u32 \<Rightarrow> 'a sysst_scheme \<Rightarrow> (int \<times> 'a sysst_scheme) kres" where
  "loadseg pagetable va ip offset sz s =
     loadseg_loop pagetable va ip offset (unat sz)
       (map (\<lambda>k. k * unat PGSIZE) [0..<(unat sz + unat PGSIZE - 1) div unat PGSIZE]) s"

text \<open>The loop over the program headers: whether it succeeded, and \<^verbatim>\<open>sz\<close>.\<close>

fun exec_load :: "nat \<Rightarrow> u64 \<Rightarrow> u32 list \<Rightarrow> u64 \<Rightarrow> 'a sysst_scheme \<Rightarrow> (bool \<times> u64 \<times> 'a sysst_scheme) kres" where
  "exec_load ip pagetable [] sz s = Ok (True, sz, s)"
| "exec_load ip pagetable (off # offs) sz s =
     andThen (readi ip DLocal off (of_nat proghdr_size) s) (\<lambda>(r, bs, s).
       let ph = get_proghdr bs in
       if r \<noteq> int proghdr_size then Ok (False, sz, s)
       else if ph_type ph \<noteq> 1 then exec_load ip pagetable offs sz s
       else if ph_memsz ph < ph_filesz ph then Ok (False, sz, s)
       else if ph_vaddr ph + ph_memsz ph < ph_vaddr ph then Ok (False, sz, s)
       else if ph_vaddr ph mod PGSIZE \<noteq> 0 then Ok (False, sz, s)
       else andThen (uvmalloc pagetable sz (ph_vaddr ph + ph_memsz ph) (flags2perm (ph_flags ph)) s) (\<lambda>(sz1, s).
         if sz1 = 0 then Ok (False, sz, s)
         else andThen (loadseg pagetable (ph_vaddr ph) ip (ucast (ph_off ph)) (ucast (ph_filesz ph)) s) (\<lambda>(r, s).
           if r < 0 then Ok (False, sz1, s) else exec_load ip pagetable offs sz1 s)))"

definition exec_bad :: "nat option \<Rightarrow> u64 \<Rightarrow> u64 \<Rightarrow> 'a sysst_scheme \<Rightarrow> (int \<times> 'a sysst_scheme) kres" where
  "exec_bad ip pagetable sz s =
     andThen (if pagetable \<noteq> 0 then proc_freepagetable pagetable sz s else Ok s) (\<lambda>s.
     andThen (case ip of None \<Rightarrow> Ok s | Some ip \<Rightarrow> andThen (iunlockput ip s) (\<lambda>s. end_op s)) (\<lambda>s.
       Ok (- 1, s)))"

text \<open>Copying the argument strings onto the new stack: whether it succeeded, \<^verbatim>\<open>sp\<close>, \<^verbatim>\<open>ustack\<close>.\<close>

fun exec_args :: "u64 \<Rightarrow> u64 \<Rightarrow> u64 \<Rightarrow> u8 list list \<Rightarrow> u64 list \<Rightarrow> 'a sysst_scheme \<Rightarrow>
    (bool \<times> u64 \<times> u64 list \<times> 'a sysst_scheme) kres" where
  "exec_args pagetable sp stackbase [] ustack s = Ok (True, sp, ustack, s)"
| "exec_args pagetable sp stackbase (arg # argv) ustack s =
     (if length ustack \<ge> MAXARG then Ok (False, sp, ustack, s)
      else let sp = sp - of_nat (length arg + 1); sp = sp - sp mod 16 in
        if sp < stackbase then Ok (False, sp, ustack, s)
        else andThen (copyout (p_sz (myproc s)) pagetable sp (arg @ [0]) s) (\<lambda>(r, s).
          if r < 0 then Ok (False, sp, ustack, s)
          else exec_args pagetable sp stackbase argv (ustack @ [sp]) s))"

text \<open>\<^verbatim>\<open>last\<close>: the part of the path behind its last slash.\<close>

definition path_last :: "u8 list \<Rightarrow> u8 list" where
  "path_last path = rev (takeWhile (\<lambda>c. c \<noteq> slash) (rev path))"

definition tf_store :: "u64 \<Rightarrow> u64 \<Rightarrow> 'a kst_scheme \<Rightarrow> 'a kst_scheme" where
  "tf_store off v s = s\<lparr>pmem := store64 (pmem s) (p_trapframe (myproc s) + off) v\<rparr>"

definition exec_commit :: "u8 list \<Rightarrow> nat \<Rightarrow> u64 \<Rightarrow> u64 \<Rightarrow> u64 \<Rightarrow> u64 \<Rightarrow> 'a sysst_scheme \<Rightarrow> (int \<times> 'a sysst_scheme) kres" where
  "exec_commit path argc pagetable sz sp entry s =
     (let p = myproc s; oldpagetable = p_pagetable p; oldsz = p_sz p;
          s = tf_store 120 sp s;
          s = set_myproc (p\<lparr>p_name := safestrcpy_list (p_name p) (path_last path) 16, p_pagetable := pagetable, p_sz := sz\<rparr>) s;
          s = tf_store 24 entry s;
          s = tf_store 48 sp s
      in andThen (proc_freepagetable oldpagetable oldsz s) (\<lambda>s. Ok (int argc, s)))"

definition exec_stack :: "u8 list \<Rightarrow> u8 list list \<Rightarrow> u64 \<Rightarrow> u64 \<Rightarrow> u64 \<Rightarrow> 'a sysst_scheme \<Rightarrow> (int \<times> 'a sysst_scheme) kres" where
  "exec_stack path argv pagetable entry sz s =
     (let sz = PGROUNDUP sz in
      andThen (uvmalloc pagetable sz (sz + (USERSTACK + 1) * PGSIZE) PTE_W s) (\<lambda>(sz1, s).
        if sz1 = 0 then exec_bad None pagetable sz s
        else let sz = sz1 in
        andThen (uvmclear pagetable (sz - (USERSTACK + 1) * PGSIZE) s) (\<lambda>s.
          let sp = sz; stackbase = sp - USERSTACK * PGSIZE in
        andThen (exec_args pagetable sp stackbase argv [] s) (\<lambda>(ok, sp, ustack, s).
          if \<not> ok then exec_bad None pagetable sz s
          else let argc = length ustack; sp = sp - of_nat ((argc + 1) * 8); sp = sp - sp mod 16 in
            if sp < stackbase then exec_bad None pagetable sz s
            else andThen (copyout (p_sz (myproc s)) pagetable sp (concat (map (le_bytes 8) (ustack @ [0]))) s) (\<lambda>(r, s).
              if r < 0 then exec_bad None pagetable sz s
              else exec_commit path argc pagetable sz sp entry s)))))"

definition kexec :: "u8 list \<Rightarrow> u8 list list \<Rightarrow> 'a sysst_scheme \<Rightarrow> (int \<times> 'a sysst_scheme) kres" where
  "kexec path argv s =
     andThen (begin_op s) (\<lambda>s.
     andThen (namei path s) (\<lambda>(ip, s).
       case ip of
         None \<Rightarrow> andThen (end_op s) (\<lambda>s. Ok (- 1, s))
       | Some ip \<Rightarrow>
          andThen (ilock ip s) (\<lambda>s.
          andThen (readi ip DLocal 0 (of_nat elfhdr_size) s) (\<lambda>(r, bs, s).
            let elf = get_elfhdr bs in
            if r \<noteq> int elfhdr_size then exec_bad (Some ip) 0 0 s
            else if e_magic elf \<noteq> ELF_MAGIC then exec_bad (Some ip) 0 0 s
            else andThen (proc_pagetable (p_trapframe (myproc s)) s) (\<lambda>(pagetable, s).
              if pagetable = 0 then exec_bad (Some ip) 0 0 s
              else andThen (exec_load ip pagetable
                     (map (\<lambda>i. ucast (e_phoff elf) + of_nat (proghdr_size * i)) [0..<unat (e_phnum elf)]) 0 s)
                   (\<lambda>(ok, sz, s).
                if \<not> ok then exec_bad (Some ip) pagetable sz s
                else andThen (iunlockput ip s) (\<lambda>s.
                     andThen (end_op s) (\<lambda>s. exec_stack path argv pagetable (e_entry elf) sz s))))))))"

end
