(* ===== verification/Syscall.thy ===== *)
theory Syscall
  imports Exec
begin

text \<open>
  System calls: argument fetching and dispatch (\<^verbatim>\<open>kernel/syscall.c\<close>), the process calls
  (\<^verbatim>\<open>kernel/sysproc.c\<close>) and the file calls (\<^verbatim>\<open>kernel/sysfile.c\<close>).  Arguments are read from the saved
  registers in the trapframe page; results are \<^verbatim>\<open>int\<close>s, stored there sign-extended.
\<close>

abbreviation MAXPATH :: nat where "MAXPATH \<equiv> 128"

section \<open>Arguments (syscall.c)\<close>

definition fetchaddr :: "u64 \<Rightarrow> 'a sysst_scheme \<Rightarrow> (int \<times> u64 \<times> 'a sysst_scheme) kres" where
  "fetchaddr addr s =
     (let sz = p_sz (myproc s) in
      if addr \<ge> sz \<or> addr + 8 > sz then Ok (- 1, 0, s)
      else andThen (copyin sz (p_pagetable (myproc s)) addr 8 s) (\<lambda>(r, bs, s).
        if r \<noteq> 0 then Ok (- 1, 0, s) else Ok (0, le_word bs, s)))"

text \<open>The bytes stored in the buffer are part of the result.\<close>

definition fetchstr :: "u64 \<Rightarrow> nat \<Rightarrow> 'a sysst_scheme \<Rightarrow> (int \<times> u8 list) kres" where
  "fetchstr addr mx s =
     andThen (copyinstr (p_pagetable (myproc s)) addr mx s) (\<lambda>(r, bs).
       if r < 0 then Ok (- 1, bs) else Ok (int (length (cstr bs)), bs))"

definition argraw :: "nat \<Rightarrow> 'a sysst_scheme \<Rightarrow> u64" where
  "argraw n s = load64 (pmem s) (p_trapframe (myproc s) + tf_a0 + of_nat (8 * n))"

definition argint :: "nat \<Rightarrow> 'a sysst_scheme \<Rightarrow> int" where
  "argint n s = sint (ucast (argraw n s) :: u32)"

definition argaddr :: "nat \<Rightarrow> 'a sysst_scheme \<Rightarrow> u64" where
  "argaddr n s = argraw n s"

definition argstr :: "nat \<Rightarrow> nat \<Rightarrow> 'a sysst_scheme \<Rightarrow> (int \<times> u8 list) kres" where
  "argstr n mx s = fetchstr (argaddr n s) mx s"

section \<open>Processes (sysproc.c)\<close>

definition sys_exit :: "'a sysst_scheme \<Rightarrow> 'a sysst_scheme kres" where
  "sys_exit s = kexit (argint 0 s) s"

definition sys_getpid :: "'a sysst_scheme \<Rightarrow> (int \<times> 'a sysst_scheme) kres" where
  "sys_getpid s = Ok (mypid s, s)"

definition sys_fork :: "'a sysst_scheme \<Rightarrow> (int \<times> 'a sysst_scheme) kres" where
  "sys_fork s = kfork s"

definition sys_wait :: "'a sysst_scheme \<Rightarrow> (int \<times> 'a sysst_scheme) kres" where
  "sys_wait s = kwait (argaddr 0 s) s"

abbreviation SBRK_EAGER :: int where "SBRK_EAGER \<equiv> 1"

definition sys_sbrk :: "'a sysst_scheme \<Rightarrow> (int \<times> 'a sysst_scheme) kres" where
  "sys_sbrk s =
     (let n = argint 0 s; t = argint 1 s; addr = p_sz (myproc s) in
      if t = SBRK_EAGER \<or> n < 0
      then andThen (growproc n s) (\<lambda>(r, s). Ok (if r < 0 then - 1 else sint addr, s))
      else if addr + word_of_int n < addr then Ok (- 1, s)
      else Ok (sint addr, set_myproc ((myproc s)\<lparr>p_sz := p_sz (myproc s) + word_of_int n\<rparr>) s))"

text \<open>\<open>ticks0\<close> is the time at the call; the loop is left when enough ticks have passed.\<close>

definition sys_pause :: "u32 \<Rightarrow> 'a sysst_scheme \<Rightarrow> (int \<times> 'a sysst_scheme) kres" where
  "sys_pause ticks0 s =
     (let n = max 0 (argint 0 s) in
      if ticks s - ticks0 < word_of_int n
      then if killed (cur s) s \<noteq> 0 then Ok (- 1, s) else Spin
      else Ok (0, s))"

definition sys_kill :: "'a sysst_scheme \<Rightarrow> (int \<times> 'a sysst_scheme) kres" where
  "sys_kill s = Ok (kkill (argint 0 s) s)"

definition sys_uptime :: "'a sysst_scheme \<Rightarrow> (int \<times> 'a sysst_scheme) kres" where
  "sys_uptime s = Ok (uint (ticks s), s)"

section \<open>Files (sysfile.c)\<close>

definition argfd :: "nat \<Rightarrow> 'a sysst_scheme \<Rightarrow> (nat \<times> nat) option" where
  "argfd n s =
     (let fd = argint n s in
      if fd < 0 \<or> fd \<ge> int NOFILE then None
      else map_option (\<lambda>f. (nat fd, f)) (p_ofile (myproc s) ! nat fd))"

definition set_ofile :: "nat \<Rightarrow> nat option \<Rightarrow> 'a sysst_scheme \<Rightarrow> 'a sysst_scheme" where
  "set_ofile fd f s = set_myproc ((myproc s)\<lparr>p_ofile := (p_ofile (myproc s))[fd := f]\<rparr>) s"

definition fdalloc :: "nat \<Rightarrow> 'a sysst_scheme \<Rightarrow> nat option \<times> 'a sysst_scheme" where
  "fdalloc f s =
     (case find (\<lambda>fd. p_ofile (myproc s) ! fd = None) [0..<NOFILE] of
        Some fd \<Rightarrow> (Some fd, set_ofile fd (Some f) s)
      | None \<Rightarrow> (None, s))"

definition sys_dup :: "'a sysst_scheme \<Rightarrow> (int \<times> 'a sysst_scheme) kres" where
  "sys_dup s =
     (case argfd 0 s of
        None \<Rightarrow> Ok (- 1, s)
      | Some (_, f) \<Rightarrow>
         (case fdalloc f s of
            (None, s) \<Rightarrow> Ok (- 1, s)
          | (Some fd, s) \<Rightarrow> andThen (filedup f s) (\<lambda>(f, s). Ok (int fd, s))))"

definition sys_read :: "'a sysst_scheme \<Rightarrow> (int \<times> 'a sysst_scheme) kres" where
  "sys_read s = (case argfd 0 s of None \<Rightarrow> Ok (- 1, s) | Some (_, f) \<Rightarrow> fileread f (argaddr 1 s) (argint 2 s) s)"

definition sys_write :: "'a sysst_scheme \<Rightarrow> (int \<times> 'a sysst_scheme) kres" where
  "sys_write s = (case argfd 0 s of None \<Rightarrow> Ok (- 1, s) | Some (_, f) \<Rightarrow> filewrite f (argaddr 1 s) (argint 2 s) s)"

definition sys_close :: "'a sysst_scheme \<Rightarrow> (int \<times> 'a sysst_scheme) kres" where
  "sys_close s =
     (case argfd 0 s of
        None \<Rightarrow> Ok (- 1, s)
      | Some (fd, f) \<Rightarrow> andThen (fileclose f (set_ofile fd None s)) (\<lambda>s. Ok (0, s)))"

definition sys_fstat :: "'a sysst_scheme \<Rightarrow> (int \<times> 'a sysst_scheme) kres" where
  "sys_fstat s = (case argfd 0 s of None \<Rightarrow> Ok (- 1, s) | Some (_, f) \<Rightarrow> filestat f (argaddr 1 s) s)"

definition end_with :: "int \<Rightarrow> 'a sysst_scheme \<Rightarrow> (int \<times> 'a sysst_scheme) kres" where
  "end_with r s = andThen (end_op s) (\<lambda>s. Ok (r, s))"

definition add_nlink :: "u16 \<Rightarrow> nat \<Rightarrow> 'a fsst_scheme \<Rightarrow> 'a fsst_scheme" where
  "add_nlink k ip s = set_inode ip ((inode_at ip s)\<lparr>i_nlink := i_nlink (inode_at ip s) + k\<rparr>) s"

definition link_bad :: "nat \<Rightarrow> 'a sysst_scheme \<Rightarrow> (int \<times> 'a sysst_scheme) kres" where
  "link_bad ip s =
     andThen (ilock ip s) (\<lambda>s.
     andThen (iupdate ip (add_nlink (- 1) ip s)) (\<lambda>s.
     andThen (iunlockput ip s) (\<lambda>s. end_with (- 1) s)))"

definition sys_link :: "'a sysst_scheme \<Rightarrow> (int \<times> 'a sysst_scheme) kres" where
  "sys_link s =
     andThen (argstr 0 MAXPATH s) (\<lambda>(r0, old).
       if r0 < 0 then Ok (- 1, s)
       else andThen (argstr 1 MAXPATH s) (\<lambda>(r1, new).
       if r1 < 0 then Ok (- 1, s)
       else
     andThen (begin_op s) (\<lambda>s.
     andThen (namei (cstr old) s) (\<lambda>(ip, s).
       case ip of None \<Rightarrow> end_with (- 1) s | Some ip \<Rightarrow>
     andThen (ilock ip s) (\<lambda>s.
       if i_type (inode_at ip s) = T_DIR then andThen (iunlockput ip s) (\<lambda>s. end_with (- 1) s)
       else
     andThen (iupdate ip (add_nlink 1 ip s)) (\<lambda>s.
     andThen (iunlock ip s) (\<lambda>s.
     andThen (nameiparent (cstr new) s) (\<lambda>(dp, name, s).
       case dp of None \<Rightarrow> link_bad ip s | Some dp \<Rightarrow>
     andThen (ilock dp s) (\<lambda>s.
     andThen (if i_dev (inode_at dp s) \<noteq> i_dev (inode_at ip s) then Ok (- 1, s)
              else dirlink dp name (i_inum (inode_at ip s)) s) (\<lambda>(r, s).
       if r < 0 then andThen (iunlockput dp s) (\<lambda>s. link_bad ip s)
       else andThen (iunlockput dp s) (\<lambda>s.
            andThen (iput ip s) (\<lambda>s. end_with 0 s))))))))))))"

fun isdirempty_loop :: "nat \<Rightarrow> nat list \<Rightarrow> 'a sysst_scheme \<Rightarrow> (bool \<times> 'a sysst_scheme) kres" where
  "isdirempty_loop dp [] s = Ok (True, s)"
| "isdirempty_loop dp (off # offs) s =
     andThen (readi dp DLocal (of_nat off) (of_nat dirent_size) s) (\<lambda>(r, de, s).
       if r \<noteq> int dirent_size then Panic ''isdirempty: readi''
       else if de_inum de \<noteq> 0 then Ok (False, s) else isdirempty_loop dp offs s)"

definition isdirempty :: "nat \<Rightarrow> 'a sysst_scheme \<Rightarrow> (bool \<times> 'a sysst_scheme) kres" where
  "isdirempty dp s = isdirempty_loop dp (drop 2 (dir_offs dp s)) s"

definition unlink_bad :: "nat \<Rightarrow> 'a sysst_scheme \<Rightarrow> (int \<times> 'a sysst_scheme) kres" where
  "unlink_bad dp s = andThen (iunlockput dp s) (\<lambda>s. end_with (- 1) s)"

text \<open>The second half of \<^verbatim>\<open>sys_unlink\<close>, from the cleared directory entry on.\<close>

definition unlink_entry :: "nat \<Rightarrow> nat \<Rightarrow> nat \<Rightarrow> 'a sysst_scheme \<Rightarrow> (int \<times> 'a sysst_scheme) kres" where
  "unlink_entry dp ip off s =
     andThen (writei dp (SLocal (replicate dirent_size 0)) (of_nat off) (of_nat dirent_size) s) (\<lambda>(r, s).
       if r \<noteq> int dirent_size then Panic ''unlink: writei''
       else
     andThen (if i_type (inode_at ip s) = T_DIR then iupdate dp (add_nlink (- 1) dp s) else Ok s) (\<lambda>s.
     andThen (iunlockput dp s) (\<lambda>s.
     andThen (iupdate ip (add_nlink (- 1) ip s)) (\<lambda>s.
     andThen (iunlockput ip s) (\<lambda>s. end_with 0 s)))))"

definition sys_unlink :: "'a sysst_scheme \<Rightarrow> (int \<times> 'a sysst_scheme) kres" where
  "sys_unlink s =
     andThen (argstr 0 MAXPATH s) (\<lambda>(r, path).
       if r < 0 then Ok (- 1, s)
       else
     andThen (begin_op s) (\<lambda>s.
     andThen (nameiparent (cstr path) s) (\<lambda>(dp, name, s).
       case dp of None \<Rightarrow> end_with (- 1) s | Some dp \<Rightarrow>
     andThen (ilock dp s) (\<lambda>s.
       if namecmp name [46] = 0 \<or> namecmp name [46, 46] = 0 then unlink_bad dp s
       else
     andThen (dirlookup dp name s) (\<lambda>(found, s).
       case found of None \<Rightarrow> unlink_bad dp s | Some (ip, off) \<Rightarrow>
     andThen (ilock ip s) (\<lambda>s.
       if sint (i_nlink (inode_at ip s)) < 1 then Panic ''unlink: nlink < 1''
       else
     andThen (if i_type (inode_at ip s) = T_DIR then isdirempty ip s else Ok (True, s)) (\<lambda>(empty, s).
       if \<not> empty then andThen (iunlockput ip s) (\<lambda>s. unlink_bad dp s)
       else unlink_entry dp ip off s)))))))"

definition create_fail :: "nat \<Rightarrow> nat \<Rightarrow> 'a sysst_scheme \<Rightarrow> (nat option \<times> 'a sysst_scheme) kres" where
  "create_fail ip dp s =
     andThen (iupdate ip (set_inode ip ((inode_at ip s)\<lparr>i_nlink := 0\<rparr>) s)) (\<lambda>s.
     andThen (iunlockput ip s) (\<lambda>s.
     andThen (iunlockput dp s) (\<lambda>s. Ok (None, s))))"

text \<open>The second half of \<^verbatim>\<open>create\<close>, for a name that is not there yet.\<close>

definition create_new :: "nat \<Rightarrow> u8 list \<Rightarrow> u16 \<Rightarrow> u16 \<Rightarrow> u16 \<Rightarrow> 'a sysst_scheme \<Rightarrow> (nat option \<times> 'a sysst_scheme) kres" where
  "create_new dp name type major minor s =
     andThen (ialloc (i_dev (inode_at dp s)) type s) (\<lambda>(ip, s).
       case ip of None \<Rightarrow> andThen (iunlockput dp s) (\<lambda>s. Ok (None, s)) | Some ip \<Rightarrow>
     andThen (ilock ip s) (\<lambda>s.
     andThen (iupdate ip (set_inode ip ((inode_at ip s)\<lparr>i_major := major, i_minor := minor, i_nlink := 1\<rparr>) s)) (\<lambda>s.
     andThen (if type = T_DIR
              then andThen (dirlink ip [46] (i_inum (inode_at ip s)) s) (\<lambda>(r, s).
                   if r < 0 then Ok (r, s) else dirlink ip [46, 46] (i_inum (inode_at dp s)) s)
              else Ok (0, s)) (\<lambda>(r, s).
       if r < 0 then create_fail ip dp s
       else
     andThen (dirlink dp name (i_inum (inode_at ip s)) s) (\<lambda>(r, s).
       if r < 0 then create_fail ip dp s
       else
     andThen (if type = T_DIR then iupdate dp (add_nlink 1 dp s) else Ok s) (\<lambda>s.
     andThen (iunlockput dp s) (\<lambda>s. Ok (Some ip, s))))))))"

definition create :: "u8 list \<Rightarrow> u16 \<Rightarrow> u16 \<Rightarrow> u16 \<Rightarrow> 'a sysst_scheme \<Rightarrow> (nat option \<times> 'a sysst_scheme) kres" where
  "create path type major minor s =
     andThen (nameiparent path s) (\<lambda>(dp, name, s).
       case dp of None \<Rightarrow> Ok (None, s) | Some dp \<Rightarrow>
     andThen (ilock dp s) (\<lambda>s.
     andThen (dirlookup dp name s) (\<lambda>(found, s).
       case found of
         Some (ip, off) \<Rightarrow>
           andThen (iunlockput dp s) (\<lambda>s.
           andThen (ilock ip s) (\<lambda>s.
             if type = T_FILE \<and> (i_type (inode_at ip s) = T_FILE \<or> i_type (inode_at ip s) = T_DEVICE)
             then Ok (Some ip, s) else andThen (iunlockput ip s) (\<lambda>s. Ok (None, s))))
       | None \<Rightarrow> create_new dp name type major minor s)))"

abbreviation O_RDONLY :: int where "O_RDONLY \<equiv> 0"
abbreviation O_WRONLY :: int where "O_WRONLY \<equiv> 1"
abbreviation O_RDWR :: int where "O_RDWR \<equiv> 2"
abbreviation O_CREATE :: int where "O_CREATE \<equiv> 0x200"
abbreviation O_TRUNC :: int where "O_TRUNC \<equiv> 0x400"

definition open_inode :: "u8 list \<Rightarrow> int \<Rightarrow> 'a sysst_scheme \<Rightarrow> (nat option \<times> 'a sysst_scheme) kres" where
  "open_inode path omode s =
     (if omode AND O_CREATE \<noteq> 0 then create path T_FILE 0 0 s
      else andThen (namei path s) (\<lambda>(ip, s).
        case ip of None \<Rightarrow> Ok (None, s) | Some ip \<Rightarrow>
        andThen (ilock ip s) (\<lambda>s.
          if i_type (inode_at ip s) = T_DIR \<and> omode \<noteq> O_RDONLY
          then andThen (iunlockput ip s) (\<lambda>s. Ok (None, s)) else Ok (Some ip, s))))"

definition open_fail :: "nat \<Rightarrow> 'a sysst_scheme \<Rightarrow> (int \<times> 'a sysst_scheme) kres" where
  "open_fail ip s = andThen (iunlockput ip s) (\<lambda>s. end_with (- 1) s)"

definition open_file :: "nat \<Rightarrow> int \<Rightarrow> 'a sysst_scheme \<Rightarrow> (int \<times> 'a sysst_scheme) kres" where
  "open_file ip omode s =
     (case filealloc s of
        (None, s) \<Rightarrow> open_fail ip s
      | (Some f, s) \<Rightarrow>
         (case fdalloc f s of
            (None, s) \<Rightarrow> andThen (fileclose f s) (\<lambda>s. open_fail ip s)
          | (Some fd, s) \<Rightarrow>
             (let ff = (if i_type (inode_at ip s) = T_DEVICE
                        then (ftable s ! f)\<lparr>f_type := FD_DEVICE, f_major := i_major (inode_at ip s)\<rparr>
                        else (ftable s ! f)\<lparr>f_type := FD_INODE, f_off := 0\<rparr>);
                  s = set_file f (ff\<lparr>f_ip := ip, f_readable := (omode AND O_WRONLY = 0),
                        f_writable := (omode AND O_WRONLY \<noteq> 0 \<or> omode AND O_RDWR \<noteq> 0)\<rparr>) s
              in andThen (if omode AND O_TRUNC \<noteq> 0 \<and> i_type (inode_at ip s) = T_FILE then itrunc ip s else Ok s) (\<lambda>s.
                 andThen (iunlock ip s) (\<lambda>s. end_with (int fd) s)))))"

definition sys_open :: "'a sysst_scheme \<Rightarrow> (int \<times> 'a sysst_scheme) kres" where
  "sys_open s =
     andThen (argstr 0 MAXPATH s) (\<lambda>(n, path).
       if n < 0 then Ok (- 1, s)
       else
     andThen (begin_op s) (\<lambda>s.
     andThen (open_inode (cstr path) (argint 1 s) s) (\<lambda>(ip, s).
       case ip of None \<Rightarrow> end_with (- 1) s | Some ip \<Rightarrow>
       if i_type (inode_at ip s) = T_DEVICE \<and> (sint (i_major (inode_at ip s)) < 0 \<or> sint (i_major (inode_at ip s)) \<ge> NDEV)
       then open_fail ip s else open_file ip (argint 1 s) s)))"

definition end_create :: "nat option \<Rightarrow> 'a sysst_scheme \<Rightarrow> (int \<times> 'a sysst_scheme) kres" where
  "end_create ip s =
     (case ip of None \<Rightarrow> end_with (- 1) s | Some ip \<Rightarrow> andThen (iunlockput ip s) (\<lambda>s. end_with 0 s))"

definition sys_mkdir :: "'a sysst_scheme \<Rightarrow> (int \<times> 'a sysst_scheme) kres" where
  "sys_mkdir s =
     andThen (begin_op s) (\<lambda>s.
     andThen (argstr 0 MAXPATH s) (\<lambda>(r, path).
       if r < 0 then end_with (- 1) s
       else andThen (create (cstr path) T_DIR 0 0 s) (\<lambda>(ip, s). end_create ip s)))"

definition sys_mknod :: "'a sysst_scheme \<Rightarrow> (int \<times> 'a sysst_scheme) kres" where
  "sys_mknod s =
     andThen (begin_op s) (\<lambda>s.
     andThen (argstr 0 MAXPATH s) (\<lambda>(r, path).
       if r < 0 then end_with (- 1) s
       else andThen (create (cstr path) T_DEVICE (word_of_int (argint 1 s)) (word_of_int (argint 2 s)) s)
              (\<lambda>(ip, s). end_create ip s)))"

definition sys_chdir :: "'a sysst_scheme \<Rightarrow> (int \<times> 'a sysst_scheme) kres" where
  "sys_chdir s =
     andThen (begin_op s) (\<lambda>s.
     andThen (argstr 0 MAXPATH s) (\<lambda>(r, path).
       if r < 0 then end_with (- 1) s
       else
     andThen (namei (cstr path) s) (\<lambda>(ip, s).
       case ip of None \<Rightarrow> end_with (- 1) s | Some ip \<Rightarrow>
     andThen (ilock ip s) (\<lambda>s.
       if i_type (inode_at ip s) \<noteq> T_DIR then andThen (iunlockput ip s) (\<lambda>s. end_with (- 1) s)
       else
     andThen (iunlock ip s) (\<lambda>s.
     andThen (case p_cwd (myproc s) of None \<Rightarrow> Panic ''undefined: null pointer'' | Some cwd \<Rightarrow> iput cwd s) (\<lambda>s.
     andThen (end_op s) (\<lambda>s.
       Ok (0, set_myproc ((myproc s)\<lparr>p_cwd := Some ip\<rparr>) s))))))))"

text \<open>The loop of \<^verbatim>\<open>sys_exec\<close> that fetches the argument vector: whether it succeeded, the pages allocated
  for the strings and the strings.\<close>

fun fetch_argv :: "nat \<Rightarrow> u64 \<Rightarrow> u64 list \<Rightarrow> u8 list list \<Rightarrow> 'a sysst_scheme \<Rightarrow>
    (bool \<times> u64 list \<times> u8 list list \<times> 'a sysst_scheme) kres" where
  "fetch_argv 0 uargv pages argv s = Ok (False, pages, argv, s)"
| "fetch_argv (Suc n) uargv pages argv s =
     andThen (fetchaddr (uargv + of_nat (8 * length argv)) s) (\<lambda>(r, uarg, s).
       if r < 0 then Ok (False, pages, argv, s)
       else if uarg = 0 then Ok (True, pages, argv, s)
       else let (page, s) = kalloc s in
         if page = 0 then Ok (False, pages, argv, s)
         else andThen (fetchstr uarg (unat PGSIZE) s) (\<lambda>(r, bs).
           let s = s\<lparr>pmem := put_bytes (pmem s) page bs\<rparr> in
           if r < 0 then Ok (False, pages @ [page], argv, s)
           else fetch_argv n uargv (pages @ [page]) (argv @ [cstr bs]) s))"

definition sys_exec :: "'a sysst_scheme \<Rightarrow> (int \<times> 'a sysst_scheme) kres" where
  "sys_exec s =
     andThen (argstr 0 MAXPATH s) (\<lambda>(r, path).
       if r < 0 then Ok (- 1, s)
       else
     andThen (fetch_argv MAXARG (argaddr 1 s) [] [] s) (\<lambda>(ok, pages, argv, s).
     andThen (if ok then kexec (cstr path) argv s else Ok (- 1, s)) (\<lambda>(ret, s).
     andThen (forM kfree pages s) (\<lambda>s. Ok (ret, s)))))"

definition pipe_fail :: "nat \<Rightarrow> nat \<Rightarrow> 'a sysst_scheme \<Rightarrow> (int \<times> 'a sysst_scheme) kres" where
  "pipe_fail rdf wrf s = andThen (fileclose rdf s) (\<lambda>s. andThen (fileclose wrf s) (\<lambda>s. Ok (- 1, s)))"

definition put_int :: "u64 \<Rightarrow> int \<Rightarrow> 'a sysst_scheme \<Rightarrow> (int \<times> 'a sysst_scheme) kres" where
  "put_int addr v s = copyout (p_sz (myproc s)) (p_pagetable (myproc s)) addr (le_bytes 4 (word_of_int v :: u32)) s"

definition sys_pipe :: "'a sysst_scheme \<Rightarrow> (int \<times> 'a sysst_scheme) kres" where
  "sys_pipe s =
     (let fdarray = argaddr 0 s in
      andThen (pipealloc s) (\<lambda>(fs, s).
        case fs of None \<Rightarrow> Ok (- 1, s) | Some (rdf, wrf) \<Rightarrow>
        (case fdalloc rdf s of
           (None, s) \<Rightarrow> pipe_fail rdf wrf s
         | (Some fd0, s) \<Rightarrow>
            (case fdalloc wrf s of
               (None, s) \<Rightarrow> pipe_fail rdf wrf (set_ofile fd0 None s)
             | (Some fd1, s) \<Rightarrow>
                andThen (put_int fdarray (int fd0) s) (\<lambda>(r, s).
                andThen (if r < 0 then Ok (r, s) else put_int (fdarray + 4) (int fd1) s) (\<lambda>(r, s).
                  if r < 0 then pipe_fail rdf wrf (set_ofile fd1 None (set_ofile fd0 None s))
                  else Ok (0, s)))))))"

section \<open>Dispatch (syscall.c)\<close>

text \<open>The table of handlers, without \<^verbatim>\<open>SYS_exit\<close> (2), which does not return.\<close>

definition handler :: "u32 \<Rightarrow> int \<Rightarrow> ('a sysst_scheme \<Rightarrow> (int \<times> 'a sysst_scheme) kres) option" where
  "handler ticks0 num =
     (if num = 1 then Some sys_fork else if num = 3 then Some sys_wait else if num = 4 then Some sys_pipe
      else if num = 5 then Some sys_read else if num = 6 then Some sys_kill else if num = 7 then Some sys_exec
      else if num = 8 then Some sys_fstat else if num = 9 then Some sys_chdir else if num = 10 then Some sys_dup
      else if num = 11 then Some sys_getpid else if num = 12 then Some sys_sbrk else if num = 13 then Some (sys_pause ticks0)
      else if num = 14 then Some sys_uptime else if num = 15 then Some sys_open else if num = 16 then Some sys_write
      else if num = 17 then Some sys_mknod else if num = 18 then Some sys_unlink else if num = 19 then Some sys_link
      else if num = 20 then Some sys_mkdir else if num = 21 then Some sys_close else None)"

text \<open>The result tells whether the process has exited.\<close>

definition syscall :: "'a sysst_scheme \<Rightarrow> (bool \<times> 'a sysst_scheme) kres" where
  "syscall s =
     (let num = sint (ucast (load64 (pmem s) (p_trapframe (myproc s) + 168)) :: u32) in
      if num = 2 then andThen (sys_exit s) (\<lambda>s. Ok (True, s))
      else case handler (ticks s) num of
             Some f \<Rightarrow> andThen (f s) (\<lambda>(r, s). Ok (False, tf_store tf_a0 (word_of_int r) s))
           | None \<Rightarrow>
              andThen (printf (text_of ''%d %s: unknown sys call %d'' @ [newline])
                  [AInt (word_of_int (mypid s)), AStr (Some (cstr (p_name (myproc s)))), AInt (word_of_int num)] s)
                (\<lambda>s. Ok (False, tf_store tf_a0 (- 1) s)))"

end
