(* ===== verification/Csr.thy ===== *)
theory Csr
  imports Riscv
begin

text \<open>
  The registers of a hart, with the accessors of \<^verbatim>\<open>kernel/riscv.h\<close>, the interrupt switches built from
  them, and the machine-mode entry code of \<^verbatim>\<open>kernel/start.c\<close>.  Each register is one field; that the
  hardware shows parts of some registers through others (\<^verbatim>\<open>sstatus\<close> in \<^verbatim>\<open>mstatus\<close>) is not
  modelled, and no code here relies on it.  \<open>mode\<close> and \<open>pc\<close> are what \<^verbatim>\<open>mret\<close> sets.
\<close>

record csrs =
  csr_mstatus :: u64
  csr_sstatus :: u64
  csr_sip :: u64
  csr_sie :: u64
  csr_mie :: u64
  csr_sepc :: u64
  csr_medeleg :: u64
  csr_mideleg :: u64
  csr_stvec :: u64
  csr_stimecmp :: u64
  csr_menvcfg :: u64
  csr_satp :: u64
  csr_mcounteren :: u64
  csr_tp :: u64
  csr_mhartid :: u64
  csr_scause :: u64
  csr_stval :: u64
  csr_time :: u64
  csr_sp :: u64
  csr_ra :: u64
  csr_mepc :: u64
  csr_pmpcfg0 :: u64
  csr_pmpaddr0 :: u64
  mode :: u64
  pc :: u64

section \<open>Accessors (riscv.h)\<close>

definition r_mstatus :: "'a csrs_scheme \<Rightarrow> u64" where
  [simp]: "r_mstatus h = csr_mstatus h"

definition r_sstatus :: "'a csrs_scheme \<Rightarrow> u64" where
  [simp]: "r_sstatus h = csr_sstatus h"

definition r_sip :: "'a csrs_scheme \<Rightarrow> u64" where
  [simp]: "r_sip h = csr_sip h"

definition r_sie :: "'a csrs_scheme \<Rightarrow> u64" where
  [simp]: "r_sie h = csr_sie h"

definition r_mie :: "'a csrs_scheme \<Rightarrow> u64" where
  [simp]: "r_mie h = csr_mie h"

definition r_sepc :: "'a csrs_scheme \<Rightarrow> u64" where
  [simp]: "r_sepc h = csr_sepc h"

definition r_medeleg :: "'a csrs_scheme \<Rightarrow> u64" where
  [simp]: "r_medeleg h = csr_medeleg h"

definition r_mideleg :: "'a csrs_scheme \<Rightarrow> u64" where
  [simp]: "r_mideleg h = csr_mideleg h"

definition r_stvec :: "'a csrs_scheme \<Rightarrow> u64" where
  [simp]: "r_stvec h = csr_stvec h"

definition r_stimecmp :: "'a csrs_scheme \<Rightarrow> u64" where
  [simp]: "r_stimecmp h = csr_stimecmp h"

definition r_menvcfg :: "'a csrs_scheme \<Rightarrow> u64" where
  [simp]: "r_menvcfg h = csr_menvcfg h"

definition r_satp :: "'a csrs_scheme \<Rightarrow> u64" where
  [simp]: "r_satp h = csr_satp h"

definition r_mcounteren :: "'a csrs_scheme \<Rightarrow> u64" where
  [simp]: "r_mcounteren h = csr_mcounteren h"

definition r_tp :: "'a csrs_scheme \<Rightarrow> u64" where
  [simp]: "r_tp h = csr_tp h"

definition r_mhartid :: "'a csrs_scheme \<Rightarrow> u64" where
  [simp]: "r_mhartid h = csr_mhartid h"

definition r_scause :: "'a csrs_scheme \<Rightarrow> u64" where
  [simp]: "r_scause h = csr_scause h"

definition r_stval :: "'a csrs_scheme \<Rightarrow> u64" where
  [simp]: "r_stval h = csr_stval h"

definition r_time :: "'a csrs_scheme \<Rightarrow> u64" where
  [simp]: "r_time h = csr_time h"

definition r_sp :: "'a csrs_scheme \<Rightarrow> u64" where
  [simp]: "r_sp h = csr_sp h"

definition r_ra :: "'a csrs_scheme \<Rightarrow> u64" where
  [simp]: "r_ra h = csr_ra h"

definition w_mstatus :: "u64 \<Rightarrow> 'a csrs_scheme \<Rightarrow> 'a csrs_scheme" where
  [simp]: "w_mstatus x h = h\<lparr>csr_mstatus := x\<rparr>"

definition w_sstatus :: "u64 \<Rightarrow> 'a csrs_scheme \<Rightarrow> 'a csrs_scheme" where
  [simp]: "w_sstatus x h = h\<lparr>csr_sstatus := x\<rparr>"

definition w_sip :: "u64 \<Rightarrow> 'a csrs_scheme \<Rightarrow> 'a csrs_scheme" where
  [simp]: "w_sip x h = h\<lparr>csr_sip := x\<rparr>"

definition w_sie :: "u64 \<Rightarrow> 'a csrs_scheme \<Rightarrow> 'a csrs_scheme" where
  [simp]: "w_sie x h = h\<lparr>csr_sie := x\<rparr>"

definition w_mie :: "u64 \<Rightarrow> 'a csrs_scheme \<Rightarrow> 'a csrs_scheme" where
  [simp]: "w_mie x h = h\<lparr>csr_mie := x\<rparr>"

definition w_sepc :: "u64 \<Rightarrow> 'a csrs_scheme \<Rightarrow> 'a csrs_scheme" where
  [simp]: "w_sepc x h = h\<lparr>csr_sepc := x\<rparr>"

definition w_medeleg :: "u64 \<Rightarrow> 'a csrs_scheme \<Rightarrow> 'a csrs_scheme" where
  [simp]: "w_medeleg x h = h\<lparr>csr_medeleg := x\<rparr>"

definition w_mideleg :: "u64 \<Rightarrow> 'a csrs_scheme \<Rightarrow> 'a csrs_scheme" where
  [simp]: "w_mideleg x h = h\<lparr>csr_mideleg := x\<rparr>"

definition w_stvec :: "u64 \<Rightarrow> 'a csrs_scheme \<Rightarrow> 'a csrs_scheme" where
  [simp]: "w_stvec x h = h\<lparr>csr_stvec := x\<rparr>"

definition w_stimecmp :: "u64 \<Rightarrow> 'a csrs_scheme \<Rightarrow> 'a csrs_scheme" where
  [simp]: "w_stimecmp x h = h\<lparr>csr_stimecmp := x\<rparr>"

definition w_menvcfg :: "u64 \<Rightarrow> 'a csrs_scheme \<Rightarrow> 'a csrs_scheme" where
  [simp]: "w_menvcfg x h = h\<lparr>csr_menvcfg := x\<rparr>"

definition w_satp :: "u64 \<Rightarrow> 'a csrs_scheme \<Rightarrow> 'a csrs_scheme" where
  [simp]: "w_satp x h = h\<lparr>csr_satp := x\<rparr>"

definition w_mcounteren :: "u64 \<Rightarrow> 'a csrs_scheme \<Rightarrow> 'a csrs_scheme" where
  [simp]: "w_mcounteren x h = h\<lparr>csr_mcounteren := x\<rparr>"

definition w_tp :: "u64 \<Rightarrow> 'a csrs_scheme \<Rightarrow> 'a csrs_scheme" where
  [simp]: "w_tp x h = h\<lparr>csr_tp := x\<rparr>"

definition w_mepc :: "u64 \<Rightarrow> 'a csrs_scheme \<Rightarrow> 'a csrs_scheme" where
  [simp]: "w_mepc x h = h\<lparr>csr_mepc := x\<rparr>"

definition w_pmpcfg0 :: "u64 \<Rightarrow> 'a csrs_scheme \<Rightarrow> 'a csrs_scheme" where
  [simp]: "w_pmpcfg0 x h = h\<lparr>csr_pmpcfg0 := x\<rparr>"

definition w_pmpaddr0 :: "u64 \<Rightarrow> 'a csrs_scheme \<Rightarrow> 'a csrs_scheme" where
  [simp]: "w_pmpaddr0 x h = h\<lparr>csr_pmpaddr0 := x\<rparr>"

section \<open>Interrupts (riscv.h)\<close>

definition SSTATUS_SPP :: u64 where "SSTATUS_SPP = push_bit 8 1"
definition SSTATUS_SPIE :: u64 where "SSTATUS_SPIE = push_bit 5 1"
definition SSTATUS_SIE :: u64 where "SSTATUS_SIE = push_bit 1 1"

definition intr_on :: "'a csrs_scheme \<Rightarrow> 'a csrs_scheme" where
  "intr_on h = w_sstatus (r_sstatus h OR SSTATUS_SIE) h"

definition intr_off :: "'a csrs_scheme \<Rightarrow> 'a csrs_scheme" where
  "intr_off h = w_sstatus (r_sstatus h AND NOT SSTATUS_SIE) h"

definition intr_get :: "'a csrs_scheme \<Rightarrow> bool" where
  "intr_get h \<longleftrightarrow> r_sstatus h AND SSTATUS_SIE \<noteq> 0"

definition MAKE_SATP :: "u64 \<Rightarrow> u64" where
  "MAKE_SATP pagetable = push_bit 60 8 OR drop_bit 12 pagetable"

section \<open>Machine mode (start.c)\<close>

definition MSTATUS_MPP_MASK :: u64 where "MSTATUS_MPP_MASK = push_bit 11 3"
definition MSTATUS_MPP_S :: u64 where "MSTATUS_MPP_S = push_bit 11 1"
definition SIE_SEIE :: u64 where "SIE_SEIE = push_bit 9 1"
definition SIE_STIE :: u64 where "SIE_STIE = push_bit 5 1"
definition MIE_STIE :: u64 where "MIE_STIE = push_bit 5 1"

definition mret :: "'a csrs_scheme \<Rightarrow> 'a csrs_scheme" where
  "mret h = h\<lparr>mode := drop_bit 11 (csr_mstatus h) AND 3, pc := csr_mepc h\<rparr>"

definition timerinit :: "'a csrs_scheme \<Rightarrow> 'a csrs_scheme" where
  "timerinit h =
     (let h = w_mie (r_mie h OR MIE_STIE) h;
          h = w_menvcfg (r_menvcfg h OR push_bit 63 1) h;
          h = w_mcounteren (r_mcounteren h OR 2) h
      in w_stimecmp (r_time h + 1000000) h)"

definition start :: "u64 \<Rightarrow> 'a csrs_scheme \<Rightarrow> 'a csrs_scheme" where
  "start main_addr h =
     (let x = r_mstatus h;
          x = x AND NOT MSTATUS_MPP_MASK;
          x = x OR MSTATUS_MPP_S;
          h = w_mstatus x h;
          h = w_mepc main_addr h;
          h = w_satp 0 h;
          h = w_medeleg 0xffff h;
          h = w_mideleg 0xffff h;
          h = w_sie (r_sie h OR SIE_SEIE OR SIE_STIE) h;
          h = w_pmpaddr0 0x3fffffffffffff h;
          h = w_pmpcfg0 0xf h;
          h = timerinit h;
          h = w_tp (scast (ucast (r_mhartid h) :: u32)) h
      in mret h)"

lemma intr_on_off [simp]: "intr_get (intr_on h)" "\<not> intr_get (intr_off h)"
proof -
  have "bit (SSTATUS_SIE :: u64) 1" "(SSTATUS_SIE :: u64) \<noteq> 0" by (simp_all add: SSTATUS_SIE_def bit_simps)
  then show "intr_get (intr_on h)" by (auto simp: intr_get_def intr_on_def bit_eq_iff bit_simps intro!: exI [of _ 1])
  show "\<not> intr_get (intr_off h)"
    by (auto simp: intr_get_def intr_off_def bit_eq_iff bit_simps)
qed


end
