(* ===== verification/Virtio.thy ===== *)
theory Virtio
  imports Proc
begin

text \<open>
  The disk driver (\<^verbatim>\<open>kernel/virtio_disk.c\<close>, \<^verbatim>\<open>kernel/virtio.h\<close>).  The queue structures are records,
  the arrays of length \<^verbatim>\<open>NUM\<close> are functions, and the three kinds of address the driver hands to the device
  are constructors.  The device registers are an argument of the functions that read them, and writes to them
  are a list.  \<^verbatim>\<open>virtio_disk_rw\<close> is cut where it sleeps: \<open>disk_submit\<close> runs up to the notification of
  the device, or to the point where it waits for descriptors, and \<open>disk_finish\<close> from the completion on.
\<close>

section \<open>Data\<close>

abbreviation NUM :: nat where "NUM \<equiv> 8"

datatype vptr = VNull | VReq nat | VData nat | VStatus nat

record virtq_desc =
  vd_addr :: vptr
  vd_len :: u32
  vd_flags :: u16
  vd_next :: u16

record virtq_avail =
  va_flags :: u16
  va_idx :: u16
  va_ring :: "nat \<Rightarrow> u16"

record virtq_used_elem =
  ue_id :: u32
  ue_len :: u32

record virtq_used =
  vu_flags :: u16
  vu_idx :: u16
  vu_ring :: "nat \<Rightarrow> virtq_used_elem"

record virtio_blk_req =
  rq_type :: u32
  rq_reserved :: u32
  rq_sector :: u64

record vinfo =
  in_b :: "nat option"
  in_status :: u8

text \<open>\<^verbatim>\<open>struct disk\<close>, the \<^verbatim>\<open>disk\<close> field of every buffer, and the register writes so far.  The three
  pages that hold the queue are known by their addresses.\<close>

record vdiskst = sysst +
  vq_desc_page :: u64
  vq_avail_page :: u64
  vq_used_page :: u64
  vq_desc :: "nat \<Rightarrow> virtq_desc"
  vq_avail :: virtq_avail
  vq_used :: virtq_used
  vq_free :: "nat \<Rightarrow> bool"
  vq_used_idx :: u16
  vq_info :: "nat \<Rightarrow> vinfo"
  vq_ops :: "nat \<Rightarrow> virtio_blk_req"
  b_disk :: "nat \<Rightarrow> bool"
  virtio_w :: "(u32 \<times> u32) list"

definition VRING_DESC_F_NEXT :: u16 where [simp]: "VRING_DESC_F_NEXT = 1"
definition VRING_DESC_F_WRITE :: u16 where [simp]: "VRING_DESC_F_WRITE = 2"
definition VIRTIO_BLK_T_IN :: u32 where [simp]: "VIRTIO_BLK_T_IN = 0"
definition VIRTIO_BLK_T_OUT :: u32 where [simp]: "VIRTIO_BLK_T_OUT = 1"

definition zero_desc :: virtq_desc where
  "zero_desc = \<lparr>vd_addr = VNull, vd_len = 0, vd_flags = 0, vd_next = 0\<rparr>"

definition virtio_store :: "u32 \<Rightarrow> u32 \<Rightarrow> 'a vdiskst_scheme \<Rightarrow> 'a vdiskst_scheme" where
  "virtio_store r v s = s\<lparr>virtio_w := virtio_w s @ [(r, v)]\<rparr>"

section \<open>Initialisation\<close>

definition virtio_features :: "u32 \<Rightarrow> u32" where
  "virtio_features offered =
     (let features = (ucast offered :: u64);
          features = features AND NOT (push_bit 5 1);
          features = features AND NOT (push_bit 7 1);
          features = features AND NOT (push_bit 11 1);
          features = features AND NOT (push_bit 12 1);
          features = features AND NOT (push_bit 27 1);
          features = features AND NOT (push_bit 29 1);
          features = features AND NOT (push_bit 28 1)
      in ucast features)"

definition virtio_queue_pages :: "'a vdiskst_scheme \<Rightarrow> 'a vdiskst_scheme kres" where
  "virtio_queue_pages s =
     (let (d, s) = kalloc s; (a, s) = kalloc s; (u, s) = kalloc s in
      if d = 0 \<or> a = 0 \<or> u = 0 then Panic ''virtio disk kalloc''
      else let s = s\<lparr>pmem := memset (pmem s) d 0 (ucast PGSIZE)\<rparr>;
               s = s\<lparr>pmem := memset (pmem s) a 0 (ucast PGSIZE)\<rparr>;
               s = s\<lparr>pmem := memset (pmem s) u 0 (ucast PGSIZE)\<rparr>
           in Ok (s\<lparr>vq_desc_page := d, vq_avail_page := a, vq_used_page := u,
                    vq_desc := (\<lambda>_. zero_desc), vq_avail := \<lparr>va_flags = 0, va_idx = 0, va_ring = (\<lambda>_. 0)\<rparr>,
                    vq_used := \<lparr>vu_flags = 0, vu_idx = 0, vu_ring = (\<lambda>_. \<lparr>ue_id = 0, ue_len = 0\<rparr>)\<rparr>\<rparr>))"

text \<open>\<open>rd\<close> is what each register reads as.\<close>

definition virtio_disk_init :: "(u32 \<Rightarrow> u32) \<Rightarrow> 'a vdiskst_scheme \<Rightarrow> 'a vdiskst_scheme kres" where
  "virtio_disk_init rd s =
     (if rd 0x000 \<noteq> 0x74726976 \<or> rd 0x004 \<noteq> 2 \<or> rd 0x008 \<noteq> 2 \<or> rd 0x00c \<noteq> 0x554d4551
      then Panic ''could not find virtio disk''
      else let s = virtio_store 0x070 0 s;
               s = virtio_store 0x070 1 s;
               s = virtio_store 0x070 3 s;
               s = virtio_store 0x020 (virtio_features (rd 0x010)) s;
               s = virtio_store 0x070 11 s;
               status = rd 0x070
      in if status AND 8 = 0 then Panic ''virtio disk FEATURES_OK unset''
      else let s = virtio_store 0x030 0 s
      in if rd 0x044 \<noteq> 0 then Panic ''virtio disk should not be ready''
      else if rd 0x034 = 0 then Panic ''virtio disk has no queue 0''
      else if rd 0x034 < 8 then Panic ''virtio disk max queue too short''
      else andThen (virtio_queue_pages s) (\<lambda>s.
        let s = virtio_store 0x038 8 s;
            s = virtio_store 0x080 (ucast (vq_desc_page s)) s;
            s = virtio_store 0x084 (ucast (drop_bit 32 (vq_desc_page s))) s;
            s = virtio_store 0x090 (ucast (vq_avail_page s)) s;
            s = virtio_store 0x094 (ucast (drop_bit 32 (vq_avail_page s))) s;
            s = virtio_store 0x0a0 (ucast (vq_used_page s)) s;
            s = virtio_store 0x0a4 (ucast (drop_bit 32 (vq_used_page s))) s;
            s = virtio_store 0x044 1 s;
            s = s\<lparr>vq_free := (\<lambda>i. i < NUM \<or> vq_free s i)\<rparr>
        in Ok (virtio_store 0x070 (status OR 4) s)))"

section \<open>Descriptors\<close>

definition alloc_desc :: "'a vdiskst_scheme \<Rightarrow> nat option \<times> 'a vdiskst_scheme" where
  "alloc_desc s =
     (case find (vq_free s) [0..<NUM] of
        Some i \<Rightarrow> (Some i, s\<lparr>vq_free := (vq_free s)(i := False)\<rparr>)
      | None \<Rightarrow> (None, s))"

definition free_desc :: "nat \<Rightarrow> 'a vdiskst_scheme \<Rightarrow> 'a vdiskst_scheme kres" where
  "free_desc i s =
     (if i \<ge> NUM then Panic ''free_desc 1''
      else if vq_free s i then Panic ''free_desc 2''
      else Ok (wakeup ChDiskFree (s\<lparr>vq_desc := (vq_desc s)(i := zero_desc), vq_free := (vq_free s)(i := True)\<rparr>)))"

text \<open>Every round of the loop frees a descriptor that was in use, so there are at most \<^verbatim>\<open>NUM\<close>.\<close>

definition in_use :: "'a vdiskst_scheme \<Rightarrow> nat set" where
  "in_use s = {i. i < NUM \<and> \<not> vq_free s i}"

lemma free_desc_in_use: "free_desc i s = Ok s' \<Longrightarrow> i \<in> in_use s \<and> in_use s' = in_use s - {i}"
  by (auto simp: free_desc_def in_use_def wakeup_def split: if_splits)

lemma finite_in_use [simp]: "finite (in_use s)"
  by (simp add: in_use_def)

function free_chain :: "nat \<Rightarrow> 'a vdiskst_scheme \<Rightarrow> 'a vdiskst_scheme kres" where
  "free_chain i s =
     (let flag = vd_flags (vq_desc s i); nxt = vd_next (vq_desc s i) in
      andThen (free_desc i s) (\<lambda>s.
        if flag AND VRING_DESC_F_NEXT \<noteq> 0 then free_chain (unat nxt) s else Ok s))"
  by pat_completeness auto
termination
proof (relation "measure (\<lambda>(i, s). card (in_use s))")
  fix i and s s' :: "'a vdiskst_scheme" and flag nxt :: u16
  assume "free_desc i s = Ok s'"
  then have "i \<in> in_use s" "in_use s' = in_use s - {i}" by (simp_all add: free_desc_in_use)
  then have "card (in_use s') < card (in_use s)" by (simp only: card_Diff1_less [OF finite_in_use])
  then show "((unat nxt, s'), i, s) \<in> measure (\<lambda>(i, s). card (in_use s))" by simp
qed simp

declare free_chain.simps [simp del]

fun alloc3_loop :: "nat \<Rightarrow> nat list \<Rightarrow> 'a vdiskst_scheme \<Rightarrow> (nat list option \<times> 'a vdiskst_scheme) kres" where
  "alloc3_loop 0 idx s = Ok (Some idx, s)"
| "alloc3_loop (Suc k) idx s =
     (case alloc_desc s of
        (Some d, s) \<Rightarrow> alloc3_loop k (idx @ [d]) s
      | (None, s) \<Rightarrow> andThen (forM free_desc idx s) (\<lambda>s. Ok (None, s)))"

definition alloc3_desc :: "'a vdiskst_scheme \<Rightarrow> (nat list option \<times> 'a vdiskst_scheme) kres" where
  "alloc3_desc s = alloc3_loop 3 [] s"

section \<open>Requests\<close>

definition set_desc :: "nat \<Rightarrow> virtq_desc \<Rightarrow> 'a vdiskst_scheme \<Rightarrow> 'a vdiskst_scheme" where
  "set_desc i d s = s\<lparr>vq_desc := (vq_desc s)(i := d)\<rparr>"

text \<open>The sector number is computed in 32 bits.\<close>

definition disk_format :: "nat \<Rightarrow> bool \<Rightarrow> nat \<Rightarrow> nat \<Rightarrow> nat \<Rightarrow> 'a vdiskst_scheme \<Rightarrow> 'a vdiskst_scheme" where
  "disk_format b write i0 i1 i2 s =
     (let sector = ucast (b_blockno (bufs s ! b) * 2 :: u32) :: u64;
          s = s\<lparr>vq_ops := (vq_ops s)(i0 := \<lparr>rq_type = (if write then VIRTIO_BLK_T_OUT else VIRTIO_BLK_T_IN),
                rq_reserved = 0, rq_sector = sector\<rparr>)\<rparr>;
          s = set_desc i0 \<lparr>vd_addr = VReq i0, vd_len = 16, vd_flags = VRING_DESC_F_NEXT, vd_next = of_nat i1\<rparr> s;
          s = set_desc i1 \<lparr>vd_addr = VData b, vd_len = 1024,
                vd_flags = (if write then 0 else VRING_DESC_F_WRITE) OR VRING_DESC_F_NEXT, vd_next = of_nat i2\<rparr> s;
          s = s\<lparr>vq_info := (vq_info s)(i0 := (vq_info s i0)\<lparr>in_status := 0xff\<rparr>)\<rparr>;
          s = set_desc i2 \<lparr>vd_addr = VStatus i0, vd_len = 1, vd_flags = VRING_DESC_F_WRITE, vd_next = 0\<rparr> s;
          s = s\<lparr>b_disk := (b_disk s)(b := True)\<rparr>
      in s\<lparr>vq_info := (vq_info s)(i0 := (vq_info s i0)\<lparr>in_b := Some b\<rparr>)\<rparr>)"

definition disk_notify :: "nat \<Rightarrow> 'a vdiskst_scheme \<Rightarrow> 'a vdiskst_scheme" where
  "disk_notify i0 s =
     (let av = vq_avail s;
          av = av\<lparr>va_ring := (va_ring av)(unat (va_idx av) mod NUM := of_nat i0)\<rparr>;
          av = av\<lparr>va_idx := va_idx av + 1\<rparr>
      in virtio_store 0x050 0 (s\<lparr>vq_avail := av\<rparr>))"

definition disk_submit :: "nat \<Rightarrow> bool \<Rightarrow> 'a vdiskst_scheme \<Rightarrow> (nat option \<times> 'a vdiskst_scheme) kres" where
  "disk_submit b write s =
     andThen (alloc3_desc s) (\<lambda>(r, s).
       case r of
         None \<Rightarrow> Ok (None, s)
       | Some idx \<Rightarrow> Ok (Some (idx ! 0), disk_notify (idx ! 0) (disk_format b write (idx ! 0) (idx ! 1) (idx ! 2) s)))"

definition disk_finish :: "nat \<Rightarrow> 'a vdiskst_scheme \<Rightarrow> 'a vdiskst_scheme kres" where
  "disk_finish i0 s = free_chain i0 (s\<lparr>vq_info := (vq_info s)(i0 := (vq_info s i0)\<lparr>in_b := None\<rparr>)\<rparr>)"

text \<open>The whole call.  \<open>wait\<close> is what happens while the caller sleeps on its buffer.\<close>

definition virtio_disk_rw :: "('a vdiskst_scheme \<Rightarrow> 'a vdiskst_scheme) \<Rightarrow> nat \<Rightarrow> bool \<Rightarrow> 'a vdiskst_scheme \<Rightarrow> 'a vdiskst_scheme kres" where
  "virtio_disk_rw wait b write s =
     andThen (disk_submit b write s) (\<lambda>(r, s).
       case r of
         None \<Rightarrow> Spin
       | Some i0 \<Rightarrow> let s = wait s in if b_disk s b then Spin else disk_finish i0 s)"

section \<open>The interrupt\<close>

text \<open>Each round moves \<^verbatim>\<open>used_idx\<close> towards \<^verbatim>\<open>used->idx\<close>.\<close>

lemma u16_gap: "(a :: u16) \<noteq> b \<Longrightarrow> unat (b - (a + 1)) < unat (b - a)"
proof -
  assume "a \<noteq> b"
  then have "b - a \<noteq> 0" by simp
  from unat_minus_one [OF this] have "unat (b - (a + 1)) = unat (b - a) - 1" by (simp add: diff_diff_eq)
  moreover have "0 < unat (b - a)" using \<open>b - a \<noteq> 0\<close> by (simp add: unat_gt_0)
  ultimately show ?thesis by simp
qed

function virtio_intr_loop :: "'a vdiskst_scheme \<Rightarrow> 'a vdiskst_scheme kres" where
  "virtio_intr_loop s =
     (if vq_used_idx s = vu_idx (vq_used s) then Ok s
      else let i = unat (ue_id (vu_ring (vq_used s) (unat (vq_used_idx s) mod NUM))) in
        if i \<ge> NUM then Panic ''undefined: out of bounds''
        else if in_status (vq_info s i) \<noteq> 0 then Panic ''virtio_disk_intr status''
        else (case in_b (vq_info s i) of
            None \<Rightarrow> Panic ''undefined: null pointer''
          | Some b \<Rightarrow>
             let s = wakeup (ChDisk b) (s\<lparr>b_disk := (b_disk s)(b := False)\<rparr>)
             in virtio_intr_loop (s\<lparr>vq_used_idx := vq_used_idx s + 1\<rparr>)))"
  by pat_completeness auto

termination
  by (relation "measure (\<lambda>s. unat (vu_idx (vq_used s) - vq_used_idx s))") (auto simp: wakeup_def intro: u16_gap)

declare virtio_intr_loop.simps [simp del]

text \<open>\<open>irq\<close> is what the interrupt status register reads as.\<close>

definition virtio_disk_intr :: "u32 \<Rightarrow> 'a vdiskst_scheme \<Rightarrow> 'a vdiskst_scheme kres" where
  "virtio_disk_intr irq s = virtio_intr_loop (virtio_store 0x064 (irq AND 3) s)"

end
