(* ===== verification/Trap.thy ===== *)
theory Trap
  imports Syscall Csr Virtio
begin

text \<open>
  Traps and interrupts (\<^verbatim>\<open>kernel/trap.c\<close>), the interrupt controller (\<^verbatim>\<open>kernel/plic.c\<close>) and the
  scheduling primitives of \<^verbatim>\<open>kernel/proc.c\<close>.  A hart is its registers, the addresses of the trap vectors,
  and the writes it has made to the PLIC.  What the devices report at an interrupt is an argument.
\<close>

record hart = csrs +
  kernelvec :: u64
  uservec :: u64
  usertrap_addr :: u64
  plic_w :: "(u64 \<times> u32) list"

text \<open>What the devices hold when an interrupt is taken.\<close>

record devices =
  dev_irq :: u32
  dev_tx_idle :: bool
  dev_rx :: "u8 list"
  dev_disk :: u32

section \<open>PLIC\<close>

abbreviation UART0_IRQ :: u32 where "UART0_IRQ \<equiv> 10"
abbreviation VIRTIO0_IRQ :: u32 where "VIRTIO0_IRQ \<equiv> 1"

definition cpuid :: "'a hart_scheme \<Rightarrow> u64" where
  "cpuid h = scast (ucast (r_tp h) :: u32)"

definition plic_store :: "u64 \<Rightarrow> u32 \<Rightarrow> 'a hart_scheme \<Rightarrow> 'a hart_scheme" where
  "plic_store a v h = h\<lparr>plic_w := plic_w h @ [(a, v)]\<rparr>"

definition PLIC_SENABLE :: "u64 \<Rightarrow> u64" where "PLIC_SENABLE n = PLIC + 0x2080 + n * 0x100"
definition PLIC_SPRIORITY :: "u64 \<Rightarrow> u64" where "PLIC_SPRIORITY n = PLIC + 0x201000 + n * 0x2000"
definition PLIC_SCLAIM :: "u64 \<Rightarrow> u64" where "PLIC_SCLAIM n = PLIC + 0x201004 + n * 0x2000"

definition plicinit :: "'a hart_scheme \<Rightarrow> 'a hart_scheme" where
  "plicinit h = plic_store (PLIC + ucast VIRTIO0_IRQ * 4) 1 (plic_store (PLIC + ucast UART0_IRQ * 4) 1 h)"

definition plicinithart :: "'a hart_scheme \<Rightarrow> 'a hart_scheme" where
  "plicinithart h =
     plic_store (PLIC_SPRIORITY (cpuid h)) 0
       (plic_store (PLIC_SENABLE (cpuid h)) (push_bit 10 1 OR push_bit 1 1) h)"

definition plic_claim :: "devices \<Rightarrow> u32" where
  "plic_claim dev = dev_irq dev"

definition plic_complete :: "u32 \<Rightarrow> 'a hart_scheme \<Rightarrow> 'a hart_scheme" where
  "plic_complete irq h = plic_store (PLIC_SCLAIM (cpuid h)) irq h"

section \<open>Scheduling\<close>

text \<open>One round of the loop of \<open>scheduler\<close> for the process \<open>i\<close>: it is switched to if it is
  runnable.  A process leaves the processor in \<open>yield\<close> or \<open>sleep\<close>, which end at
  \<open>sched\<close>; \<open>sleep_done\<close> is what \<open>sleep\<close> does when the process runs again.\<close>

definition scheduler_pick :: "nat \<Rightarrow> 'a kst_scheme \<Rightarrow> 'a kst_scheme" where
  "scheduler_pick i s =
     (if p_state (procs s ! i) = RUNNABLE
      then (set_proc i ((procs s ! i)\<lparr>p_state := RUNNING\<rparr>) s)\<lparr>cur := i\<rparr> else s)"

text \<open>The checks of \<open>sched\<close>: the process lock is held, it is the only one, interrupts are off, and the
  state has been changed.\<close>

definition sched :: "bool \<Rightarrow> int \<Rightarrow> bool \<Rightarrow> 'a kst_scheme \<Rightarrow> 'a kst_scheme kres" where
  "sched holding_plock noff intr s =
     (if \<not> holding_plock then Panic ''sched p->lock''
      else if noff \<noteq> 1 then Panic ''sched locks''
      else if p_state (myproc s) = RUNNING then Panic ''sched RUNNING''
      else if intr then Panic ''sched interruptible''
      else Ok s)"

definition yield :: "'a kst_scheme \<Rightarrow> 'a kst_scheme kres" where
  "yield s = sched True 1 False (set_myproc ((myproc s)\<lparr>p_state := RUNNABLE\<rparr>) s)"

definition sleep :: "chan \<Rightarrow> 'a kst_scheme \<Rightarrow> 'a kst_scheme kres" where
  "sleep ch s = sched True 1 False (set_myproc ((myproc s)\<lparr>p_chan := ch, p_state := SLEEPING\<rparr>) s)"

definition sleep_done :: "'a kst_scheme \<Rightarrow> 'a kst_scheme" where
  "sleep_done s = set_myproc ((myproc s)\<lparr>p_chan := ChNone\<rparr>) s"

section \<open>Traps\<close>

definition trapinithart :: "'a hart_scheme \<Rightarrow> 'a hart_scheme" where
  "trapinithart h = w_stvec (kernelvec h) h"

definition clockintr :: "'b hart_scheme \<Rightarrow> 'a vdiskst_scheme \<Rightarrow> 'b hart_scheme \<times> 'a vdiskst_scheme" where
  "clockintr h s =
     (w_stimecmp (r_time h + 1000000) h,
      if cpuid h = 0 then wakeup ChTicks (s\<lparr>ticks := ticks s + 1\<rparr>) else s)"

definition devintr :: "devices \<Rightarrow> 'b hart_scheme \<Rightarrow> 'a vdiskst_scheme \<Rightarrow> (int \<times> 'b hart_scheme \<times> 'a vdiskst_scheme) kres" where
  "devintr dev h s =
     (if r_scause h = 0x8000000000000009
      then let irq = plic_claim dev in
        andThen (if irq = UART0_IRQ then uartintr (dev_tx_idle dev) (dev_rx dev) s
                 else if irq = VIRTIO0_IRQ then virtio_disk_intr (dev_disk dev) s
                 else if irq \<noteq> 0 then printf (text_of ''unexpected interrupt irq=%d'' @ [newline]) [AInt (ucast irq)] s
                 else Ok s) (\<lambda>s.
          Ok (1, if irq \<noteq> 0 then plic_complete irq h else h, s))
      else if r_scause h = 0x8000000000000005
      then let (h, s) = clockintr h s in Ok (2, h, s)
      else Ok (0, h, s))"

definition prepare_return :: "'b hart_scheme \<Rightarrow> 'a vdiskst_scheme \<Rightarrow> 'b hart_scheme \<times> 'a vdiskst_scheme" where
  "prepare_return h s =
     (let h = intr_off h;
          h = w_stvec (TRAMPOLINE + (uservec h - trampoline s)) h;
          s = tf_store 0 (r_satp h) s;
          s = tf_store 8 (p_kstack (myproc s) + PGSIZE) s;
          s = tf_store 16 (usertrap_addr h) s;
          s = tf_store 32 (r_tp h) s;
          x = r_sstatus h;
          x = x AND NOT SSTATUS_SPP;
          x = x OR SSTATUS_SPIE;
          h = w_sstatus x h;
          h = w_sepc (load64 (pmem s) (p_trapframe (myproc s) + 24)) h
      in (h, s))"

text \<open>How a trap ends: the process has exited, it gives up the processor (and prepares its return when it
  runs again), or it returns with the page table for \<^verbatim>\<open>trampoline.S\<close>.\<close>

datatype trap_end = TExit | TYield | TReturn u64

definition usertrap_cause :: "devices \<Rightarrow> 'b hart_scheme \<Rightarrow> 'a vdiskst_scheme \<Rightarrow> (bool \<times> int \<times> 'b hart_scheme \<times> 'a vdiskst_scheme) kres" where
  "usertrap_cause dev h s =
     (if r_scause h = 8
      then if killed (cur s) s \<noteq> 0 then andThen (kexit (- 1) s) (\<lambda>s. Ok (True, 0, h, s))
           else let s = tf_store 24 (load64 (pmem s) (p_trapframe (myproc s) + 24) + 4) s; h = intr_on h in
                andThen (syscall s) (\<lambda>(exited, s). Ok (exited, 0, h, s))
      else andThen (devintr dev h s) (\<lambda>(which_dev, h, s).
        if which_dev \<noteq> 0 then Ok (False, which_dev, h, s)
        else andThen (if r_scause h = 15 \<or> r_scause h = 13
                      then vmfault (p_sz (myproc s)) (p_pagetable (myproc s)) (r_stval h) (r_scause h = 13) s
                      else Ok (0, s)) (\<lambda>(pa, s).
          if pa \<noteq> 0 then Ok (False, 0, h, s)
          else andThen (printf (text_of ''usertrap(): unexpected scause 0x%lx pid=%d'' @ [newline])
                          [AInt (r_scause h), AInt (word_of_int (mypid s))] s) (\<lambda>s.
               andThen (printf (text_of ''            sepc=0x%lx stval=0x%lx'' @ [newline]) [AInt (r_sepc h), AInt (r_stval h)] s) (\<lambda>s.
                 Ok (False, 0, h, setkilled (cur s) s))))))"

definition usertrap :: "devices \<Rightarrow> 'b hart_scheme \<Rightarrow> 'a vdiskst_scheme \<Rightarrow> (trap_end \<times> 'b hart_scheme \<times> 'a vdiskst_scheme) kres" where
  "usertrap dev h s =
     (if r_sstatus h AND SSTATUS_SPP \<noteq> 0 then Panic ''usertrap: not from user mode''
      else let h = w_stvec (kernelvec h) h; s = tf_store 24 (r_sepc h) s in
        andThen (usertrap_cause dev h s) (\<lambda>(exited, which_dev, h, s).
          if exited then Ok (TExit, h, s)
          else if killed (cur s) s \<noteq> 0 then andThen (kexit (- 1) s) (\<lambda>s. Ok (TExit, h, s))
          else if which_dev = 2 then andThen (yield s) (\<lambda>s. Ok (TYield, h, s))
          else let (h, s) = prepare_return h s in Ok (TReturn (MAKE_SATP (p_pagetable (myproc s))), h, s)))"

text \<open>\<open>running\<close> tells whether a process was running.  When it gives up the processor it goes on with the
  registers of the hart it runs on next, \<open>later\<close>, and restores the trap registers there.\<close>

definition kerneltrap :: "bool \<Rightarrow> 'b hart_scheme \<Rightarrow> devices \<Rightarrow> 'b hart_scheme \<Rightarrow> 'a vdiskst_scheme \<Rightarrow> ('b hart_scheme \<times> 'a vdiskst_scheme) kres" where
  "kerneltrap running later dev h s =
     (let sepc = r_sepc h; sstatus = r_sstatus h; scause = r_scause h in
      if sstatus AND SSTATUS_SPP = 0 then Panic ''kerneltrap: not from supervisor mode''
      else if intr_get h then Panic ''kerneltrap: interrupts enabled''
      else andThen (devintr dev h s) (\<lambda>(which_dev, h, s).
        if which_dev = 0
        then andThen (printf (text_of ''scause=0x%lx sepc=0x%lx stval=0x%lx'' @ [newline]) [AInt scause, AInt (r_sepc h), AInt (r_stval h)] s)
               (\<lambda>s. Panic ''kerneltrap'')
        else andThen (if which_dev = 2 \<and> running then andThen (yield s) (\<lambda>s. Ok (later, s)) else Ok (h, s)) (\<lambda>(h, s).
               Ok (w_sstatus sstatus (w_sepc sepc h), s))))"

section \<open>A kernel trap is invisible to the code it interrupts\<close>

text \<open>C20. A device or timer interrupt taken in the kernel returns to the program counter it interrupted, with
  interrupts off and the status register (so: the previous mode and enable bits) it had, also when the handler
  gave up the processor and the process goes on elsewhere, whatever the registers hold there.\<close>

theorem kerneltrap_restores:
  assumes "kerneltrap running later dev h s = Ok (h', s')"
  shows "r_sepc h' = r_sepc h \<and> r_sstatus h' = r_sstatus h \<and> \<not> intr_get h'"
  using assms
  by (auto simp: kerneltrap_def devintr_def Let_def andThen_eq_Ok intr_get_def split: if_splits prod.splits)

definition ex_hart :: hart where
  "ex_hart = \<lparr>csr_mstatus = 0, csr_sstatus = SSTATUS_SPP, csr_sip = 0, csr_sie = 0, csr_mie = 0, csr_sepc = 0x80001234, csr_medeleg = 0,
     csr_mideleg = 0, csr_stvec = 0x80005000, csr_stimecmp = 0, csr_menvcfg = 0, csr_satp = 0, csr_mcounteren = 0, csr_tp = 1,
     csr_mhartid = 1, csr_scause = 0x8000000000000005, csr_stval = 0, csr_time = 77, csr_sp = 0, csr_ra = 0, csr_mepc = 0,
     csr_pmpcfg0 = 0, csr_pmpaddr0 = 0, mode = 1, pc = 0, kernelvec = 0x80005000, uservec = 0, usertrap_addr = 0, plic_w = []\<rparr>"

theorem kerneltrap_restores_witness:
  "\<forall>s0 :: vdiskst. \<exists>h'. kerneltrap False ex_hart \<lparr>dev_irq = 0, dev_tx_idle = True, dev_rx = [], dev_disk = 0\<rparr> ex_hart s0 = Ok (h', s0) \<and>
     r_sepc h' = 0x80001234 \<and> csr_stimecmp h' = 1000077"
proof
  fix s0 :: vdiskst
  let ?h = "ex_hart\<lparr>csr_stimecmp := 1000077\<rparr>"
  have "SSTATUS_SPP AND SSTATUS_SIE = 0" "SSTATUS_SPP \<noteq> 0" by (simp_all add: SSTATUS_SPP_def SSTATUS_SIE_def)
  then have k: "kerneltrap False ex_hart \<lparr>dev_irq = 0, dev_tx_idle = True, dev_rx = [], dev_disk = 0\<rparr> ex_hart s0 = Ok (?h, s0)"
    by (simp add: kerneltrap_def devintr_def clockintr_def cpuid_def ex_hart_def intr_get_def Let_def)
  from kerneltrap_restores [OF k] have "r_sepc ?h = r_sepc ex_hart" by blast
  with k show "\<exists>h'. kerneltrap False ex_hart \<lparr>dev_irq = 0, dev_tx_idle = True, dev_rx = [], dev_disk = 0\<rparr> ex_hart s0 = Ok (h', s0) \<and>
     r_sepc h' = 0x80001234 \<and> csr_stimecmp h' = 1000077" by (simp add: ex_hart_def)
qed

end
