(* ===== verification/Boot.thy ===== *)
theory Boot
  imports Trap
begin

text \<open>
  Booting: the kernel page table (\<^verbatim>\<open>kvmmake\<close>, \<^verbatim>\<open>kvminit\<close>, \<^verbatim>\<open>kvminithart\<close> of
  \<^verbatim>\<open>kernel/vm.c\<close>), \<^verbatim>\<open>main\<close> (\<^verbatim>\<open>kernel/main.c\<close>) and the first return to user space,
  \<^verbatim>\<open>forkret\<close> (\<^verbatim>\<open>kernel/proc.c\<close>).  \<^verbatim>\<open>main\<close> is modelled up to the call of \<^verbatim>\<open>scheduler\<close>;
  \<open>rd\<close> is what the registers of the disk read as.
\<close>

record bootst = vdiskst +
  kernel_pagetable :: u64
  etext :: u64
  started :: bool
  forkret_first :: bool

definition kvmmake :: "'a bootst_scheme \<Rightarrow> (u64 \<times> 'a bootst_scheme) kres" where
  "kvmmake s =
     (let (kpgtbl, s) = kalloc s;
          s = s\<lparr>pmem := memset (pmem s) kpgtbl 0 (ucast PGSIZE)\<rparr>
      in andThen (kvmmap kpgtbl UART0 UART0 PGSIZE (PTE_R OR PTE_W) s) (\<lambda>s.
         andThen (kvmmap kpgtbl VIRTIO0 VIRTIO0 PGSIZE (PTE_R OR PTE_W) s) (\<lambda>s.
         andThen (kvmmap kpgtbl PLIC PLIC 0x4000000 (PTE_R OR PTE_W) s) (\<lambda>s.
         andThen (kvmmap kpgtbl KERNBASE KERNBASE (etext s - KERNBASE) (PTE_R OR PTE_X) s) (\<lambda>s.
         andThen (kvmmap kpgtbl (etext s) (etext s) (PHYSTOP - etext s) (PTE_R OR PTE_W) s) (\<lambda>s.
         andThen (kvmmap kpgtbl TRAMPOLINE (trampoline s) PGSIZE (PTE_R OR PTE_X) s) (\<lambda>s.
         andThen (proc_mapstacks kpgtbl s) (\<lambda>s. Ok (kpgtbl, s)))))))))"

definition kvminit :: "'a bootst_scheme \<Rightarrow> 'a bootst_scheme kres" where
  "kvminit s = andThen (kvmmake s) (\<lambda>(kpgtbl, s). Ok (s\<lparr>kernel_pagetable := kpgtbl\<rparr>))"

definition kvminithart :: "'a bootst_scheme \<Rightarrow> 'b hart_scheme \<Rightarrow> 'b hart_scheme" where
  "kvminithart s h = w_satp (MAKE_SATP (kernel_pagetable s)) h"

definition main_hart0 :: "(u32 \<Rightarrow> u32) \<Rightarrow> 'b hart_scheme \<Rightarrow> 'a bootst_scheme \<Rightarrow> ('b hart_scheme \<times> 'a bootst_scheme) kres" where
  "main_hart0 rd h s =
     (let s = consoleinit s in
      andThen (printf [newline] [] s) (\<lambda>s.
      andThen (printf (text_of ''xv6 kernel is booting'' @ [newline]) [] s) (\<lambda>s.
      andThen (printf [newline] [] s) (\<lambda>s.
      andThen (kinit s) (\<lambda>s.
      andThen (kvminit s) (\<lambda>s.
        let h = kvminithart s h;
            s = procinit s;
            h = trapinithart h;
            h = plicinit h;
            h = plicinithart h;
            s = binit s;
            s = iinit s
        in andThen (virtio_disk_init rd s) (\<lambda>s.
           andThen (userinit s) (\<lambda>s. Ok (h, s\<lparr>started := True\<rparr>)))))))))"

text \<open>The other harts wait for \<^verbatim>\<open>started\<close>.\<close>

definition main_hart :: "(u32 \<Rightarrow> u32) \<Rightarrow> 'b hart_scheme \<Rightarrow> 'a bootst_scheme \<Rightarrow> ('b hart_scheme \<times> 'a bootst_scheme) kres" where
  "main_hart rd h s =
     (if cpuid h = 0 then main_hart0 rd h s
      else if \<not> started s then Spin
      else andThen (printf (text_of ''hart %d starting'' @ [newline]) [AInt (cpuid h)] s) (\<lambda>s.
        let h = kvminithart s h;
            h = trapinithart h;
            h = plicinithart h
        in Ok (h, s)))"

definition init_path :: "u8 list" where
  "init_path = text_of ''/init''"

definition forkret :: "'b hart_scheme \<Rightarrow> 'a bootst_scheme \<Rightarrow> (u64 \<times> 'b hart_scheme \<times> 'a bootst_scheme) kres" where
  "forkret h s =
     andThen (if forkret_first s
              then andThen (fsinit ROOTDEV s) (\<lambda>s.
                   andThen (kexec init_path [init_path] (s\<lparr>forkret_first := False\<rparr>)) (\<lambda>(r, s).
                     let s = tf_store tf_a0 (word_of_int r) s in
                     if load64 (pmem s) (p_trapframe (myproc s) + tf_a0) = - 1 then Panic ''exec'' else Ok s))
              else Ok s) (\<lambda>s.
       let (h, s) = prepare_return h s in Ok (MAKE_SATP (p_pagetable (myproc s)), h, s))"

end
