(* ===== verification/Vmframe.thy ===== *)
theory Vmframe
  imports Vm Kstate
begin

text \<open>
  The memory code touches the memory only: whatever it does, the part of the kernel state above \<open>kmem\<close>
  (processes, buffers, files, pipes) is the same afterwards.
\<close>

lemma more_kalloc: "kalloc s = (p, s') \<Longrightarrow> kmem.more s' = kmem.more s"
  by (auto simp: kalloc_def Let_def)

lemma more_kalloc_snd: "kmem.more (snd (kalloc s)) = kmem.more s"
  by (simp add: more_kalloc [OF prod.collapse [symmetric]])

lemma more_kfree: "kfree p s = Ok s' \<Longrightarrow> kmem.more s' = kmem.more s"
  by (auto simp: kfree_def kfree_dec_def kfree_push_def Let_def andThen_eq_Ok split: if_splits)

lemma more_walk_loop: "walk_loop l pt va alloc s = (p, s') \<Longrightarrow> kmem.more s' = kmem.more s"
proof (induction l pt va alloc s rule: walk_loop.induct)
  case (2 l pt va alloc s)
  obtain q t where k: "kalloc s = (q, t)" by fastforce
  show ?case using 2 k more_kalloc [OF k] by (auto simp: Let_def split: if_splits)
qed simp

lemma more_walk: "walk pt va alloc s = Ok (p, s') \<Longrightarrow> kmem.more s' = kmem.more s"
  by (auto simp: walk_def dest: more_walk_loop split: if_splits)

lemma more_mappages_loop: "mappages_loop f pt a l pa perm s = Ok (r, s') \<Longrightarrow> kmem.more s' = kmem.more s"
proof (induction f pt a l pa perm s rule: mappages_loop.induct)
  case (2 f pt a l pa perm s)
  show ?case
  proof (cases "walk pt a True s")
    case (Ok x)
    obtain q t where x: "x = (q, t)" by (cases x)
    note w = more_walk [OF Ok [unfolded x]]
    show ?thesis
    proof (cases "a = l")
      case True
      then show ?thesis using "2.prems" w unfolding mappages_loop.simps Ok x by (auto simp: Let_def split: if_splits)
    next
      case False
      note IH = "2.IH" [OF Ok x [symmetric] _ _ refl False]
      show ?thesis using "2.prems" w IH False unfolding mappages_loop.simps Ok x by (auto simp: Let_def split: if_splits)
    qed
  qed (use "2.prems" in simp_all)
qed simp

lemma more_mappages: "mappages pt va sz pa perm s = Ok (r, s') \<Longrightarrow> kmem.more s' = kmem.more s"
  by (auto simp: mappages_def dest: more_mappages_loop split: if_splits)

lemma more_vmfault: "vmfault psz pt va rd s = Ok (r, s') \<Longrightarrow> kmem.more s' = kmem.more s"
  by (auto simp: vmfault_def andThen_eq_Ok Let_def split_beta more_kalloc_snd dest!: more_kfree more_walk more_mappages split: if_splits)

lemma more_andThen:
  assumes "andThen r (\<lambda>(x, t). f x t) = Ok (y, s')" "\<And>x t. r = Ok (x, t) \<Longrightarrow> kmem.more t = M"
    and "\<And>x t. f x t = Ok (y, s') \<Longrightarrow> kmem.more t = M \<Longrightarrow> kmem.more s' = M"
  shows "kmem.more s' = M"
  using assms by (auto simp: andThen_eq_Ok)

lemma more_copyout_frame:
  assumes "copyout_frame psz pt va s = Ok (r, s')"
  shows "kmem.more s' = kmem.more s"
proof (cases "va \<ge> MAXVA")
  case False
  then obtain pa where
    "andThen (if pa = 0 then vmfault psz pt va False s else Ok (pa, s)) (\<lambda>(pa0, s).
          if pa0 = 0 then Ok (0, s)
          else andThen (walk pt va False s) (\<lambda>(pte, s).
            andThen (if load64 (pmem s) pte AND PTE_COW \<noteq> 0
                     then vmfault psz pt va False s else Ok (pa0, s)) (\<lambda>(pa0, s).
              if pa0 = 0 then Ok (0, s)
              else if load64 (pmem s) pte AND PTE_W = 0 then Ok (0, s)
              else Ok (pa0, s)))) = Ok (r, s')"
    using assms unfolding copyout_frame_def if_not_P [OF False] andThen_eq_Ok [of "walkaddr pt va s"] by blast
  then show ?thesis
  proof (rule more_andThen)
    fix pa0 t
    assume t: "kmem.more t = kmem.more s" and "(if pa0 = 0 then Ok (0, t)
          else andThen (walk pt va False t) (\<lambda>(pte, s).
            andThen (if load64 (pmem s) pte AND PTE_COW \<noteq> 0
                     then vmfault psz pt va False s else Ok (pa0, s)) (\<lambda>(pa0, s).
              if pa0 = 0 then Ok (0, s)
              else if load64 (pmem s) pte AND PTE_W = 0 then Ok (0, s)
              else Ok (pa0, s)))) = Ok (r, s')"
    then show "kmem.more s' = kmem.more s"
      by (auto split: if_splits elim!: more_andThen dest!: more_walk more_vmfault)
  qed (auto dest: more_vmfault split: if_splits)
qed (use assms in \<open>simp add: copyout_frame_def\<close>)

lemma more_copyin_frame: "copyin_frame psz pt va s = Ok (r, s') \<Longrightarrow> kmem.more s' = kmem.more s"
  by (auto simp: copyin_frame_def andThen_eq_Ok dest!: more_vmfault split: if_splits)

lemma more_copyout: "copyout psz pt va bs s = Ok (r, s') \<Longrightarrow> kmem.more s' = kmem.more s"
proof (induction psz pt va bs s rule: copyout.induct)
  case (1 psz pt va bs s)
  note step = copyout.simps [of psz pt va bs s]
  show ?case
  proof (cases "bs = []")
    case False
    show ?thesis
    proof (cases "copyout_frame psz pt (PGROUNDDOWN va) s")
      case (Ok x)
      obtain q t where x: "x = (q, t)" by (cases x)
      show ?thesis
      proof (cases "q = 0")
        case q: False
        note IH = "1.IH" [OF False refl Ok x [symmetric] q refl refl]
        show ?thesis using "1.prems" IH False q more_copyout_frame [OF Ok [unfolded x]]
          unfolding step Let_def Ok x by simp
      qed (use "1.prems" False more_copyout_frame [OF Ok [unfolded x]] in \<open>simp add: step Let_def Ok x\<close>)
    qed (use "1.prems" False in \<open>simp_all add: step Let_def\<close>)
  qed (use "1.prems" in \<open>simp add: copyout.simps\<close>)
qed

lemma more_copyin: "copyin psz pt va n s = Ok (r, bs, s') \<Longrightarrow> kmem.more s' = kmem.more s"
proof (induction psz pt va n s arbitrary: r bs rule: copyin.induct)
  case (1 psz pt va n s)
  note step = copyin.simps [of psz pt va n s]
  show ?case
  proof (cases "n = 0")
    case False
    show ?thesis
    proof (cases "copyin_frame psz pt (PGROUNDDOWN va) s")
      case (Ok x)
      obtain q t where x: "x = (q, t)" by (cases x)
      show ?thesis
      proof (cases "q = 0")
        case q: False
        note IH = "1.IH" [OF False refl Ok x [symmetric] q refl refl]
        show ?thesis using "1.prems" False q more_copyin_frame [OF Ok [unfolded x]]
          unfolding step Let_def Ok x by (auto simp: andThen_eq_Ok dest!: IH [simplified PGSIZE_def])
      qed (use "1.prems" False more_copyin_frame [OF Ok [unfolded x]] in \<open>simp add: step Let_def Ok x\<close>)
    qed (use "1.prems" False in \<open>simp_all add: step Let_def\<close>)
  qed (use "1.prems" in \<open>simp add: copyin.simps\<close>)
qed

lemmas more_vm = more_kalloc more_kfree more_walk more_mappages more_vmfault more_copyout more_copyin

end
