(* ===== verification/Pipefifo.thy ===== *)
theory Pipefifo
  imports Pipe Vmframe Vmachine
begin

text \<open>
  A pipe is a bounded first-in first-out queue.  The interface \<open>bounded_fifo\<close> states what a queue with
  capacity promises; the ring buffer of \<open>Pipe\<close>, whose 32-bit counters run on and wrap around, implements
  it.  The history of a pipe then has the readers see exactly what was written, in order.
\<close>

section \<open>The interface\<close>

datatype pipe_op = Put u8 | Get

text \<open>A run of operations, each performed only when the code would: the bytes put, the bytes got, and the
  queue at the end.\<close>

fun fifo_run :: "(u8 \<Rightarrow> 'q \<Rightarrow> 'q) \<Rightarrow> ('q \<Rightarrow> u8 \<times> 'q) \<Rightarrow> ('q \<Rightarrow> bool) \<Rightarrow> ('q \<Rightarrow> bool) \<Rightarrow> pipe_op list \<Rightarrow> 'q \<Rightarrow> u8 list \<times> u8 list \<times> 'q" where
  "fifo_run put get full emp [] q = ([], [], q)"
| "fifo_run put get full emp (Put c # ops) q =
     (if full q then fifo_run put get full emp ops q
      else let (w, r, q') = fifo_run put get full emp ops (put c q) in (c # w, r, q'))"
| "fifo_run put get full emp (Get # ops) q =
     (if emp q then fifo_run put get full emp ops q
      else let (w, r, q') = fifo_run put get full emp ops (snd (get q)) in (w, fst (get q) # r, q'))"

locale bounded_fifo =
  fixes cap :: nat and inv :: "'q \<Rightarrow> bool" and queue :: "'q \<Rightarrow> u8 list"
    and put :: "u8 \<Rightarrow> 'q \<Rightarrow> 'q" and get :: "'q \<Rightarrow> u8 \<times> 'q" and full :: "'q \<Rightarrow> bool" and emp :: "'q \<Rightarrow> bool"
  assumes full_iff: "inv q \<Longrightarrow> full q \<longleftrightarrow> length (queue q) = cap"
    and empty_iff: "inv q \<Longrightarrow> emp q \<longleftrightarrow> queue q = []"
    and put_inv: "inv q \<Longrightarrow> \<not> full q \<Longrightarrow> inv (put c q)"
    and put_queue: "inv q \<Longrightarrow> \<not> full q \<Longrightarrow> queue (put c q) = queue q @ [c]"
    and get_inv: "inv q \<Longrightarrow> \<not> emp q \<Longrightarrow> inv (snd (get q))"
    and get_queue: "inv q \<Longrightarrow> \<not> emp q \<Longrightarrow> queue q = fst (get q) # queue (snd (get q))"
begin

lemma run_fifo: "inv q \<Longrightarrow> fifo_run put get full emp ops q = (w, r, q') \<Longrightarrow> inv q' \<and> queue q @ w = r @ queue q'"
proof (induction ops arbitrary: q w r q')
  case (Cons op ops)
  show ?case
  proof (cases op)
    case (Put c)
    obtain w1 r1 q1 where "fifo_run put get full emp ops (put c q) = (w1, r1, q1)" by (rule prod_cases3)
    then show ?thesis using Cons.IH [of q w r q'] Cons.IH [of "put c q" w1 r1 q1] Cons.prems Put
      by (cases "full q") (auto simp: put_inv put_queue)
  next
    case Get
    obtain w1 r1 q1 where "fifo_run put get full emp ops (snd (get q)) = (w1, r1, q1)" by (rule prod_cases3)
    then show ?thesis using Cons.IH [of q w r q'] Cons.IH [of "snd (get q)" w1 r1 q1] Cons.prems Get get_queue [of q]
      by (cases "emp q") (auto simp: get_inv)
  qed
qed simp

end

section \<open>The ring buffer implements it\<close>

definition pipe_inv :: "pipe \<Rightarrow> bool" where
  "pipe_inv p \<longleftrightarrow> length (pi_data p) = PIPESIZE \<and> unat (pi_nwrite p - pi_nread p) \<le> PIPESIZE"

definition pipe_queue :: "pipe \<Rightarrow> u8 list" where
  "pipe_queue p = map (\<lambda>k. pi_data p ! ((unat (pi_nread p) + k) mod PIPESIZE)) [0..<unat (pi_nwrite p - pi_nread p)]"

lemma length_pipe_queue [simp]: "length (pipe_queue p) = unat (pi_nwrite p - pi_nread p)"
  by (simp add: pipe_queue_def)

text \<open>The wrap-around of the counters is invisible modulo the size of the buffer.\<close>

lemma ring_add: "unat ((a :: u32) + of_nat k) mod PIPESIZE = (unat a + k) mod PIPESIZE"
proof -
  have "unat (a + of_nat k) = (unat a + k) mod 2 ^ 32" by (simp add: unat_word_ariths unat_of_nat mod_simps take_bit_eq_mod)
  moreover have "(x mod 2 ^ 32) mod PIPESIZE = x mod PIPESIZE" for x :: nat by (rule mod_mod_cancel) simp
  ultimately show ?thesis by simp
qed

lemma ring_write: "unat (w :: u32) mod PIPESIZE = (unat r + unat (w - r)) mod PIPESIZE"
  using ring_add [of r "unat (w - r)"] by simp

lemma pipe_full_iff: "pipe_inv p \<Longrightarrow> pipe_full p \<longleftrightarrow> length (pipe_queue p) = PIPESIZE"
proof -
  have "pi_nwrite p = pi_nread p + of_nat PIPESIZE \<longleftrightarrow> pi_nwrite p - pi_nread p = of_nat PIPESIZE" by (auto simp: algebra_simps)
  then show ?thesis by (simp add: pipe_full_def word_unat_eq_iff)
qed

lemma pipe_empty_iff: "pipe_empty p \<longleftrightarrow> pipe_queue p = []"
proof -
  have "pi_nread p = pi_nwrite p \<longleftrightarrow> unat (pi_nwrite p - pi_nread p) = 0" by (auto simp: unat_eq_0)
  then show ?thesis by (simp add: pipe_empty_def flip: length_0_conv)
qed

lemma pipe_put_ok:
  assumes inv: "pipe_inv p" and "\<not> pipe_full p"
  shows "pipe_inv (pipe_put c p)" "pipe_queue (pipe_put c p) = pipe_queue p @ [c]"
proof -
  define n where "n = unat (pi_nwrite p - pi_nread p)"
  have n: "n < PIPESIZE" "length (pi_data p) = PIPESIZE"
    using assms pipe_full_iff [OF inv] by (auto simp: pipe_inv_def n_def)
  have diff: "pi_nwrite p + 1 - pi_nread p = (pi_nwrite p - pi_nread p) + 1" by simp
  have Suc: "unat (pi_nwrite p + 1 - pi_nread p) = Suc n"
    unfolding diff using unat_plus_no_wrap [of "pi_nwrite p - pi_nread p" 1] n by (simp add: n_def)
  show "pipe_inv (pipe_put c p)" using n Suc by (simp add: pipe_inv_def pipe_put_def)
  have slot: "unat (pi_nwrite p) mod PIPESIZE = (unat (pi_nread p) + n) mod PIPESIZE" unfolding n_def by (rule ring_write)
  have other: "(unat (pi_nread p) + k) mod PIPESIZE \<noteq> (unat (pi_nread p) + n) mod PIPESIZE" if "k < n" for k
  proof
    assume "(unat (pi_nread p) + k) mod PIPESIZE = (unat (pi_nread p) + n) mod PIPESIZE"
    then have "PIPESIZE dvd (unat (pi_nread p) + n) - (unat (pi_nread p) + k)" using that mod_eq_dvd_iff_nat [of "unat (pi_nread p) + k" "unat (pi_nread p) + n" PIPESIZE] by simp
    then have "PIPESIZE dvd n - k" by simp
    with that n have "PIPESIZE \<le> n - k" by (intro dvd_imp_le) simp_all
    with that n show False by simp
  qed
  show "pipe_queue (pipe_put c p) = pipe_queue p @ [c]"
    using n Suc slot other [THEN not_sym] by (auto simp: pipe_queue_def pipe_put_def n_def [symmetric])
qed

lemma pipe_get_ok:
  assumes inv: "pipe_inv p" and "\<not> pipe_empty p"
  shows "pipe_inv (snd (pipe_get p))" "pipe_queue p = fst (pipe_get p) # pipe_queue (snd (pipe_get p))"
proof -
  define n where "n = unat (pi_nwrite p - pi_nread p)"
  have n: "0 < n" "n \<le> PIPESIZE" "length (pi_data p) = PIPESIZE"
    using assms pipe_empty_iff [of p] by (auto simp: pipe_inv_def n_def simp flip: length_greater_0_conv)
  then have ne: "pi_nwrite p - pi_nread p \<noteq> 0" by (auto simp: n_def)
  have "pi_nwrite p - (pi_nread p + 1) = (pi_nwrite p - pi_nread p) - 1" by simp
  then have less: "unat (pi_nwrite p - (pi_nread p + 1)) = n - 1" using unat_minus_one [OF ne] by (simp only: n_def)
  show "pipe_inv (snd (pipe_get p))" using n less by (simp add: pipe_inv_def pipe_get_def)
  have step: "(unat (pi_nread p + 1) + k) mod PIPESIZE = (unat (pi_nread p) + Suc k) mod PIPESIZE" for k
    using ring_add [of "pi_nread p" "Suc k"] ring_add [of "pi_nread p + 1" k] by (simp add: add.assoc)
  have "[0..<n] = 0 # map Suc [0..<n - 1]" using n(1) by (cases n) (simp_all add: map_Suc_upt upt_conv_Cons del: upt_Suc)
  then show "pipe_queue p = fst (pipe_get p) # pipe_queue (snd (pipe_get p))"
    using less step by (simp add: pipe_queue_def pipe_get_def n_def [symmetric])
qed

interpretation pq: bounded_fifo PIPESIZE pipe_inv pipe_queue pipe_put pipe_get pipe_full pipe_empty
  by unfold_locales (auto simp: pipe_full_iff pipe_empty_iff pipe_put_ok pipe_get_ok(1) intro: pipe_get_ok(2) [unfolded pipe_empty_iff])

section \<open>The loops of the calls\<close>

text \<open>Address spaces \<open>R\<close> are in order, whatever pages the rest of the kernel holds; and a process runs in
  one of them.\<close>

definition mem_ok :: "u64 set \<Rightarrow> 'a kmem_scheme \<Rightarrow> bool" where
  "mem_ok R s \<longleftrightarrow> (\<exists>ps own. vm_inv s ps R own \<and> (\<forall>f. 0 \<le> own f))"

definition user_ok :: "u64 set \<Rightarrow> proc \<Rightarrow> bool" where
  "user_ok R p \<longleftrightarrow> p_pagetable p \<in> R \<and> p_sz p \<le> TRAPFRAME"

lemma vm_inv_cong:
  assumes "pmem s' = pmem s" "kend s' = kend s" "freelist s' = freelist s" "refcnt s' = refcnt s"
  shows "vm_inv s' ps R own = vm_inv s ps R own"
  using assms by (simp add: vm_inv_def pt_inv_def kmem_inv_def page_ok_def tables_def leaf_ok_def)

lemma mem_ok_cong:
  assumes "pmem s' = pmem s" "kend s' = kend s" "freelist s' = freelist s" "refcnt s' = refcnt s"
  shows "mem_ok R s' = mem_ok R s"
  using vm_inv_cong [OF assms] by (simp add: mem_ok_def)

lemma ubyte_cong: "pmem s' = pmem s \<Longrightarrow> ubyte s' r va = ubyte s r va"
  by (simp add: ubyte_def Let_def)

lemma file_frame:
  fixes s s' :: "'a filest_scheme"
  assumes "kmem.more s' = kmem.more s"
  shows "pipes s' = pipes s" "procs s' = procs s" "cur s' = cur s" "myproc s' = myproc s"
  using assms by (cases s; cases s'; simp add: myproc_def)+

lemma set_pipe_frame [simp]:
  "pmem (set_pipe pi p s) = pmem s" "kend (set_pipe pi p s) = kend s" "freelist (set_pipe pi p s) = freelist s"
  "refcnt (set_pipe pi p s) = refcnt s" "procs (set_pipe pi p s) = procs s" "cur (set_pipe pi p s) = cur s"
  "myproc (set_pipe pi p s) = myproc s" "pipes (set_pipe pi p s) = (pipes s)(pi := p)" "mem_ok R (set_pipe pi p s) = mem_ok R s"
  by (simp_all add: set_pipe_def myproc_def) (rule mem_ok_cong; simp)

lemma wakeup_pipes [simp]:
  fixes s :: "'a filest_scheme"
  shows "pipes (wakeup ch s) = pipes s" "mem_ok R (wakeup ch s) = mem_ok R s"
  by (simp_all add: wakeup_def) (rule mem_ok_cong; simp)

lemma copyin1:
  fixes s :: "'a filest_scheme"
  assumes "mem_ok R s" "user_ok R (myproc s)"
  shows "\<exists>x bs s'. copyin (p_sz (myproc s)) (p_pagetable (myproc s)) va 1 s = Ok (x, bs, s') \<and> mem_ok R s' \<and>
    same_view R s s' \<and> kmem.more s' = kmem.more s \<and> (x = - 1 \<or> x = 0 \<and> va < TRAPFRAME \<and> bs = [ubyte s (p_pagetable (myproc s)) va])"
proof -
  obtain ps own where inv: "vm_inv s ps R own" "\<And>f. 0 \<le> own f" using assms(1) by (auto simp: mem_ok_def)
  have u: "p_pagetable (myproc s) \<in> R" "p_sz (myproc s) \<le> TRAPFRAME" using assms(2) by (simp_all add: user_ok_def)
  obtain x bs s' ps' where c: "copyin (p_sz (myproc s)) (p_pagetable (myproc s)) va 1 s = Ok (x, bs, s')" "vm_inv s' ps' R own"
    "same_view R s s'" "x = 0 \<and> length bs = 1 \<or> x = - 1 \<and> length bs \<le> 1" "seen s (p_pagetable (myproc s)) va bs"
    "bs \<noteq> [] \<longrightarrow> unat va + length bs \<le> unat TRAPFRAME"
    using copyin_spec [OF inv u, of va 1] by blast
  have "bs = [ubyte s (p_pagetable (myproc s)) va]" if "length bs = 1"
    using that c(5) by (cases bs) (auto simp: seen_def)
  moreover have "va < TRAPFRAME" if "length bs = 1" using that c(6) by (cases bs) (auto simp: word_less_nat_alt)
  moreover have "mem_ok R s'" using c(2) inv(2) by (auto simp: mem_ok_def)
  ultimately show ?thesis using c(1,3,4) more_copyin [OF c(1)] by blast
qed

lemma copyout1:
  fixes s :: "'a filest_scheme"
  assumes "mem_ok R s" "user_ok R (myproc s)"
  shows "\<exists>x s'. copyout (p_sz (myproc s)) (p_pagetable (myproc s)) va [c] s = Ok (x, s') \<and> mem_ok R s' \<and>
    kmem.more s' = kmem.more s \<and> (x = - 1 \<and> same_view R s s' \<or> x = 0 \<and> written R (p_pagetable (myproc s)) va [c] s s')"
proof -
  obtain ps own where inv: "vm_inv s ps R own" "\<And>f. 0 \<le> own f" using assms(1) by (auto simp: mem_ok_def)
  have u: "p_pagetable (myproc s) \<in> R" "p_sz (myproc s) \<le> TRAPFRAME" using assms(2) by (simp_all add: user_ok_def)
  obtain x s' ps' k where c: "copyout (p_sz (myproc s)) (p_pagetable (myproc s)) va [c] s = Ok (x, s')" "vm_inv s' ps' R own"
    "x = 0 \<and> k = length [c] \<or> x = - 1 \<and> k < length [c]" "written R (p_pagetable (myproc s)) va (take k [c]) s s'"
    using copyout_spec [OF inv u, of va "[c]"] by blast
  moreover have "mem_ok R s'" using c(2) inv(2) by (auto simp: mem_ok_def)
  ultimately show ?thesis using more_copyout [OF c(1)] by (auto simp: written_Nil)
qed

definition ubytes :: "'a kmem_scheme \<Rightarrow> u64 \<Rightarrow> u64 \<Rightarrow> nat \<Rightarrow> u8 list" where
  "ubytes s r va n = map (\<lambda>k. ubyte s r (va + of_nat k)) [0..<n]"

lemma ubytes_Suc: "ubytes s r va (Suc n) = ubyte s r va # ubytes s r (va + 1) n"
  by (simp add: ubytes_def upt_conv_Cons map_Suc_upt [symmetric] ac_simps del: upt_Suc)

text \<open>What the calls leave alone: who runs where, and the other pipes.\<close>

definition same_users :: "u64 \<Rightarrow> 'a filest_scheme \<Rightarrow> 'a filest_scheme \<Rightarrow> bool" where
  "same_users pi s s' \<longleftrightarrow> cur s' = cur s \<and> length (procs s') = length (procs s) \<and>
     (\<forall>k<length (procs s). p_pagetable (procs s' ! k) = p_pagetable (procs s ! k) \<and> p_sz (procs s' ! k) = p_sz (procs s ! k) \<and>
        p_killed (procs s' ! k) = p_killed (procs s ! k)) \<and>
     (\<forall>q. q \<noteq> pi \<longrightarrow> pipes s' q = pipes s q) \<and> pi_readopen (pipes s' pi) = pi_readopen (pipes s pi) \<and>
     pi_writeopen (pipes s' pi) = pi_writeopen (pipes s pi)"

lemma same_users_refl [simp]: "same_users pi s s"
  by (simp add: same_users_def)

lemma same_users_trans: "same_users pi s s' \<Longrightarrow> same_users pi s' s'' \<Longrightarrow> same_users pi s s''"
  by (simp add: same_users_def)

lemma same_users_wakeup [simp]: "same_users pi s (wakeup ch s)"
  by (auto simp: same_users_def wakeup_nth wakeup_proc_def frame_simps)

lemma same_users_step:
  assumes "kmem.more t = kmem.more s" "pi_readopen p = pi_readopen (pipes s pi)" "pi_writeopen p = pi_writeopen (pipes s pi)"
  shows "same_users pi s (set_pipe pi p t)"
  using assms(2,3) file_frame [OF assms(1)] by (simp add: same_users_def)

lemma pipe_put_ends [simp]: "pi_readopen (pipe_put c p) = pi_readopen p" "pi_writeopen (pipe_put c p) = pi_writeopen p"
  by (simp_all add: pipe_put_def)

lemma same_view_cong: "pmem t = pmem s' \<Longrightarrow> same_view R s t = same_view R s s'"
  by (simp add: same_view_def ubyte_cong [of t s'])

text \<open>\<open>pipewrite\<close> appends the caller's bytes, one for each it counts, whether it returns or goes to sleep.\<close>

lemma pipewrite_cs_spec:
  fixes s :: "'a filest_scheme"
  assumes "n - i = d" "i \<le> n" "mem_ok R s" "user_ok R (myproc s)" "pipe_inv (pipes s pi)" "same_view R s0 s"
  shows "\<exists>x j s'. pipewrite_cs pi addr i n s = Ok (x, i + j, s') \<and> i + j \<le> n \<and> mem_ok R s' \<and> same_view R s0 s' \<and>
    pipe_inv (pipes s' pi) \<and> pipe_queue (pipes s' pi) = pipe_queue (pipes s pi) @ ubytes s0 (p_pagetable (myproc s)) (addr + of_nat i) j \<and>
    same_users pi s s' \<and>
    (case x of None \<Rightarrow> pipe_full (pipes s' pi) \<and> i + j < n
     | Some v \<Rightarrow> v = int (i + j) \<or> v = - 1 \<and> (\<not> pi_readopen (pipes s pi) \<or> p_killed (myproc s) \<noteq> 0))"
  using assms
proof (induction d arbitrary: i s)
  case 0
  then have "pipewrite_cs pi addr i n s = Ok (Some (int i), i + 0, wakeup (ChPipeR (unat pi)) s)" by (simp add: pipewrite_cs.simps)
  then show ?case using "0.prems" by (intro exI conjI) (assumption | simp add: ubytes_def same_view_cong [OF wakeup_frame(1)])+
next
  case (Suc d)
  then have lt: "i < n" by simp
  note step = pipewrite_cs.simps [of pi addr i n s]
  consider (closed) "\<not> pi_readopen (pipes s pi) \<or> p_killed (myproc s) \<noteq> 0"
    | (full) "pi_readopen (pipes s pi)" "p_killed (myproc s) = 0" "pipe_full (pipes s pi)"
    | (go) "pi_readopen (pipes s pi)" "p_killed (myproc s) = 0" "\<not> pipe_full (pipes s pi)" by blast
  then show ?case
  proof cases
    case closed
    then have "pipewrite_cs pi addr i n s = Ok (Some (- 1), i + 0, s)" using lt by (auto simp: step)
    then show ?thesis using closed Suc.prems by (intro exI conjI) (assumption | simp add: ubytes_def)+
  next
    case full
    then have "pipewrite_cs pi addr i n s = Ok (None, i + 0, wakeup (ChPipeR (unat pi)) s)" using lt by (simp add: step)
    then show ?thesis using full lt Suc.prems
      by (intro exI conjI) (assumption | simp add: ubytes_def same_view_cong [OF wakeup_frame(1)])+
  next
    case go
    let ?r = "p_pagetable (myproc s)" and ?va = "addr + of_nat i"
    obtain x bs t where c: "copyin (p_sz (myproc s)) ?r ?va 1 s = Ok (x, bs, t)" "mem_ok R t" "same_view R s t"
      "kmem.more t = kmem.more s" "x = - 1 \<or> x = 0 \<and> ?va < TRAPFRAME \<and> bs = [ubyte s ?r ?va]"
      using copyin1 [OF Suc.prems(3,4), of ?va] by blast
    note fr = file_frame [OF c(4)]
    have v: "same_view R s0 t" by (rule same_view_trans [OF Suc.prems(6) c(3)])
    show ?thesis
    proof (cases "x = - 1")
      case True
      then have "pipewrite_cs pi addr i n s = Ok (Some (int i), i + 0, wakeup (ChPipeR (unat pi)) t)" using lt go c(1) by (simp add: step)
      moreover have "same_users pi s t" using fr by (simp add: same_users_def)
      ultimately show ?thesis using Suc.prems c(2) fr v same_users_trans [OF _ same_users_wakeup]
        by (intro exI conjI) (assumption | simp add: ubytes_def same_view_cong [OF wakeup_frame(1)])+
    next
      case False
      let ?b = "ubyte s ?r ?va"
      let ?t = "set_pipe pi (pipe_put ?b (pipes t pi)) t"
      have eq: "pipewrite_cs pi addr i n s = pipewrite_cs pi addr (Suc i) n ?t" using lt go c(1,5) False by (simp add: step)
      have put: "pipe_inv (pipe_put ?b (pipes t pi))" "pipe_queue (pipe_put ?b (pipes t pi)) = pipe_queue (pipes s pi) @ [?b]"
        using pipe_put_ok [OF Suc.prems(5) go(3)] fr by simp_all
      have b: "?b = ubyte s0 ?r ?va" using c(5) False Suc.prems(4,6) by (simp add: same_view_def user_ok_def)
      have us: "same_users pi s ?t" using same_users_step [OF c(4)] fr by simp
      have pre: "n - Suc i = d" "Suc i \<le> n" "mem_ok R ?t" "user_ok R (myproc ?t)" "pipe_inv (pipes ?t pi)" "same_view R s0 ?t"
        using Suc.prems(1,4) lt c(2) v put(1) fr same_view_cong [of ?t t R s0] by simp_all
      obtain y j s' where h: "pipewrite_cs pi addr (Suc i) n ?t = Ok (y, Suc i + j, s')" "Suc i + j \<le> n" "mem_ok R s'" "same_view R s0 s'"
        "pipe_inv (pipes s' pi)" "pipe_queue (pipes s' pi) = pipe_queue (pipes ?t pi) @ ubytes s0 (p_pagetable (myproc ?t)) (addr + of_nat (Suc i)) j"
        "same_users pi ?t s'" "case y of None \<Rightarrow> pipe_full (pipes s' pi) \<and> Suc i + j < n
          | Some v \<Rightarrow> v = int (Suc i + j) \<or> v = - 1 \<and> (\<not> pi_readopen (pipes ?t pi) \<or> p_killed (myproc ?t) \<noteq> 0)"
        using Suc.IH [OF pre] by blast
      have "pipe_queue (pipes s' pi) = pipe_queue (pipes s pi) @ ubytes s0 ?r ?va (Suc j)"
        using h(6) put(2) fr b by (simp add: ubytes_Suc ac_simps)
      then show ?thesis using eq h fr same_users_trans [OF us h(7)]
        by (intro exI [of _ y] exI [of _ "Suc j"] exI [of _ s'] conjI) (simp_all split: option.splits)
    qed
  qed
qed

text \<open>\<open>piperead\<close> stores the bytes at the front of the queue at consecutive addresses of the caller.  When the
  caller's memory gives out, the byte that could not be stored is gone all the same.\<close>

lemma piperead_loop_spec:
  fixes s :: "'a filest_scheme"
  assumes "n - i = d" "i \<le> n" "mem_ok R s" "user_ok R (myproc s)" "pipe_inv (pipes s pi)" "unat addr + n < 2 ^ 64"
  shows "\<exists>bs lost s'. piperead_loop pi addr i n s = Ok (i + length bs, s') \<and> i + length bs \<le> n \<and> mem_ok R s' \<and>
    pipe_inv (pipes s' pi) \<and> pipe_queue (pipes s pi) = bs @ lost @ pipe_queue (pipes s' pi) \<and> length lost \<le> 1 \<and>
    (lost = [] \<longrightarrow> i + length bs = n \<or> pipe_queue (pipes s' pi) = []) \<and> (lost \<noteq> [] \<longrightarrow> i + length bs < n) \<and>
    written R (p_pagetable (myproc s)) (addr + of_nat i) bs s s' \<and> same_users pi s s'"
  using assms
proof (induction d arbitrary: i s)
  case 0
  then have "piperead_loop pi addr i n s = Ok (i + length [], s)" by (simp add: piperead_loop.simps)
  then show ?case using "0.prems" by (intro exI [of _ "[]"] exI [of _ s]) (simp add: written_Nil)
next
  case (Suc d)
  then have lt: "i < n" by simp
  note step = piperead_loop.simps [of pi addr i n s] and q = pipe_get_ok [OF Suc.prems(5)]
  let ?r = "p_pagetable (myproc s)" and ?va = "addr + of_nat i"
  show ?case
  proof (cases "pipe_empty (pipes s pi)")
    case True
    then have "piperead_loop pi addr i n s = Ok (i + length [], s)" by (simp add: step)
    then show ?thesis using Suc.prems True pipe_empty_iff by (intro exI [of _ "[]"] exI [of _ s]) (simp add: written_Nil)
  next
    case False
    obtain ch p where g: "pipe_get (pipes s pi) = (ch, p)" by fastforce
    have ends: "pi_readopen p = pi_readopen (pipes s pi)" "pi_writeopen p = pi_writeopen (pipes s pi)" using g by (auto simp: pipe_get_def)
    note q = q [OF False, unfolded g, simplified]
    let ?s = "set_pipe pi p s"
    have ok: "mem_ok R ?s" "user_ok R (myproc ?s)" using Suc.prems(3,4) by simp_all
    obtain x t where c: "copyout (p_sz (myproc s)) ?r ?va [ch] ?s = Ok (x, t)" "mem_ok R t" "kmem.more t = kmem.more ?s"
      "x = - 1 \<and> same_view R ?s t \<or> x = 0 \<and> written R ?r ?va [ch] ?s t"
      using copyout1 [OF ok, of ?va ch] by auto
    note fr = file_frame [OF c(3)]
    have us: "same_users pi s t" using fr ends by (simp add: same_users_def)
    have w: "x = - 1 \<and> written R ?r ?va [] s t \<or> x = 0 \<and> written R ?r ?va [ch] s t"
      using c(4) ubyte_cong [of ?s s] by (auto simp: written_def same_view_def)
    show ?thesis
    proof (cases "x = - 1")
      case True
      then have "piperead_loop pi addr i n s = Ok (i + length [], t)" using lt False g c(1) by (simp add: step)
      then show ?thesis using True w lt q fr us c(2) by (intro exI [of _ "[]"] exI [of _ "[ch]"] exI [of _ t]) simp
    next
      case x: False
      have eq: "piperead_loop pi addr i n s = piperead_loop pi addr (Suc i) n t" using lt False g c(1) x by (simp add: step)
      have pre: "n - Suc i = d" "Suc i \<le> n" "mem_ok R t" "user_ok R (myproc t)" "pipe_inv (pipes t pi)"
        using Suc.prems(1,4) lt c(2) q(1) fr by simp_all
      obtain bs lost s' where h: "piperead_loop pi addr (Suc i) n t = Ok (Suc i + length bs, s')" "Suc i + length bs \<le> n" "mem_ok R s'"
        "pipe_inv (pipes s' pi)" "pipe_queue (pipes t pi) = bs @ lost @ pipe_queue (pipes s' pi)" "length lost \<le> 1"
        "lost = [] \<longrightarrow> Suc i + length bs = n \<or> pipe_queue (pipes s' pi) = []" "lost \<noteq> [] \<longrightarrow> Suc i + length bs < n"
        "written R (p_pagetable (myproc t)) (addr + of_nat (Suc i)) bs t s'" "same_users pi t s'"
        using Suc.IH [OF pre Suc.prems(6)] by blast
      have na: "unat (addr + of_nat m) = unat addr + m" if "m \<le> n" for m
        using Suc.prems(6) that unat_of_nat_small [of m, where ?'a = 64] by (subst unat_plus_no_wrap) simp_all
      have "unat (addr + of_nat (Suc i)) = unat ?va + length [ch]" using na [of i] na [of "Suc i"] lt by (simp del: of_nat_Suc)
      then have "written R ?r ?va ([ch] @ bs) s s'" using written_append [of R ?r ?va "[ch]" s t] w x h(9) fr by simp
      then show ?thesis using eq h q fr same_users_trans [OF us h(10)]
        by (intro exI [of _ "ch # bs"] exI [of _ lost] exI [of _ s']) simp
    qed
  qed
qed

section \<open>Properties\<close>

definition ex_pipe :: pipe where
  "ex_pipe = \<lparr>pi_data = replicate PIPESIZE 0, pi_nread = 0xffffffff, pi_nwrite = 0xffffffff, pi_readopen = True, pi_writeopen = True\<rparr>"

definition ex_proc :: "u64 \<Rightarrow> u64 \<Rightarrow> proc" where
  "ex_proc pt sz = \<lparr>p_state = RUNNABLE, p_chan = ChNone, p_killed = 0, p_xstate = 0, p_pid = 7, p_parent = None, p_kstack = 0,
     p_sz = sz, p_pagetable = pt, p_trapframe = 0, p_context = zero_ctx, p_ofile = replicate 16 None, p_cwd = None, p_name = []\<rparr>"

definition ex_files :: "kmem \<Rightarrow> proc list \<Rightarrow> pipe \<Rightarrow> filest" where
  "ex_files k ps p = \<lparr>pmem = pmem k, kend = kend k, freelist = freelist k, refcnt = refcnt k, procs = ps, cur = 0,
     bufs = [], lru = [], dsk = (\<lambda>_. []), wtrace = [], log_start = 2, log_outstanding = 0, log_committing = False, log_dev = 1,
     lh_n = 0, lh_block = [], sblk = \<lparr>sb_magic = 0, sb_size = 0, sb_nblocks = 0, sb_ninodes = 0, sb_nlog = 0, sb_logstart = 0,
     sb_inodestart = 0, sb_bmapstart = 0\<rparr>, itable = [], cons_buf = [], cons_r = 0, cons_w = 0, cons_e = 0, tx_busy = False,
     uart_w = [], panicked = False, pipes = (\<lambda>_. p), ftable = []\<rparr>"

text \<open>C23. A pipe is first-in first-out: whatever sequence of bytes is put (when the pipe is not full) and got
  (when it is not empty), what has been got, followed by what the buffer still holds, is what the buffer held at
  first, followed by what has been put.  The counters may wrap around any number of times.\<close>

theorem pipe_fifo:
  assumes "pipe_inv p" "fifo_run pipe_put pipe_get pipe_full pipe_empty ops p = (w, r, p')"
  shows "pipe_queue p @ w = r @ pipe_queue p' \<and> pipe_inv p'"
  using pq.run_fifo [OF assms] by simp

theorem pipe_fifo_witness:
  "\<exists>p'. fifo_run pipe_put pipe_get pipe_full pipe_empty [Put 65, Put 66, Get, Get, Get] ex_pipe = ([65, 66], [65, 66], p') \<and> pi_nread p' = 1 \<and> pipe_queue p' = []"
proof -
  have inv: "pipe_inv ex_pipe" by (simp add: pipe_inv_def ex_pipe_def)
  obtain p' where run: "fifo_run pipe_put pipe_get pipe_full pipe_empty [Put 65, Put 66, Get, Get, Get] ex_pipe = ([65, 66], [65, 66], p')" and "pi_nread p' = 1"
    by (simp add: ex_pipe_def pipe_full_def pipe_empty_def pipe_put_def pipe_get_def)
  moreover have "pipe_queue ex_pipe = []" by (simp add: pipe_queue_def ex_pipe_def)
  ultimately show ?thesis using pipe_fifo [OF inv run] by auto
qed





end
