(* ===== verification/Virtqueue.thy ===== *)
theory Virtqueue
  imports Virtio
begin

text \<open>
  The disk driver against a device that keeps to the virtio specification.  Any number of processes submit
  requests and wait, the device serves what has been submitted in any order, and the interrupt handler runs at
  any time.  The system refines the disk the buffer cache is written for, in which a transfer (\<open>disk_rw\<close>) is
  one step between the start and the end of the call; and no check of the driver ever fails.
\<close>

section \<open>Rings\<close>

text \<open>The entries of a ring between two 16-bit counters that run on and wrap around.\<close>

definition window :: "(nat \<Rightarrow> 'b) \<Rightarrow> u16 \<Rightarrow> u16 \<Rightarrow> 'b list" where
  "window f r w = map (\<lambda>k. f (unat (r + of_nat k) mod NUM)) [0..<unat (w - r)]"

lemma length_window [simp]: "length (window f r w) = unat (w - r)"
  by (simp add: window_def)

lemma window_empty [simp]: "window f r r = []"
  by (simp add: window_def)

lemma window_pop:
  assumes "r \<noteq> w"
  shows "window f r w = f (unat r mod NUM) # window f (r + 1) w"
proof -
  have ne: "w - r \<noteq> 0" using assms by simp
  have "unat (w - (r + 1)) = unat (w - r) - 1" using unat_minus_one [OF ne] by (simp add: diff_diff_eq)
  moreover have "0 < unat (w - r)" using ne by (simp add: unat_gt_0)
  ultimately have "[0..<unat (w - r)] = 0 # map Suc [0..<unat (w - (r + 1))]"
    by (cases "unat (w - r)") (simp_all add: map_Suc_upt upt_conv_Cons del: upt_Suc)
  then show ?thesis by (simp add: window_def ac_simps)
qed

lemma ring_slot: "unat ((r :: u16) + of_nat k) mod NUM = (unat r + k) mod NUM"
proof -
  have "unat (r + of_nat k) = (unat r + k) mod 2 ^ 16" by (simp add: unat_word_ariths unat_of_nat mod_simps take_bit_eq_mod)
  moreover have "(x mod 2 ^ 16) mod NUM = x mod NUM" for x :: nat by (rule mod_mod_cancel) simp
  ultimately show ?thesis by simp
qed

lemma window_push:
  assumes "unat (w - r) < NUM"
  shows "window (f(unat w mod NUM := x)) r (w + 1) = window f r w @ [x]"
proof -
  define n where "n = unat (w - r)"
  have w: "unat w mod NUM = (unat r + n) mod NUM" using ring_slot [of r n] by (simp add: n_def)
  have "unat ((w - r) + 1) = n + 1" using unat_plus_no_wrap [of "w - r" 1] assms by (simp add: n_def)
  then have len: "unat (w + 1 - r) = Suc n" by (simp add: add_diff_eq [symmetric] diff_add_eq)
  have other: "(unat r + k) mod NUM \<noteq> (unat r + n) mod NUM" if "k < n" for k
  proof
    assume "(unat r + k) mod NUM = (unat r + n) mod NUM"
    then have "NUM dvd n - k" using that mod_eq_dvd_iff_nat [of "unat r + k" "unat r + n" NUM] by simp
    with that assms have "NUM \<le> n - k" by (intro dvd_imp_le) (simp_all add: n_def)
    with that assms show False by (simp add: n_def)
  qed
  show ?thesis unfolding window_def len ring_slot w n_def [symmetric] using other by auto
qed

section \<open>The device\<close>

text \<open>What the virtio specification lets a block device do.  It keeps its own place \<open>pos\<close> in the available ring
  and the chains \<open>pend\<close> it has fetched.  Serving a chain, it follows the descriptors, moves the block
  between the buffer and the sector of the request, stores a zero status, and puts the head on the used ring.\<close>

definition transfer :: "u32 \<Rightarrow> u64 \<Rightarrow> u16 \<Rightarrow> nat \<Rightarrow> 'a vdiskst_scheme \<Rightarrow> 'a vdiskst_scheme" where
  "transfer ty sector flags b s =
     (let n = ucast (sector div 2) in
      if ty = VIRTIO_BLK_T_OUT
      then s\<lparr>dsk := (dsk s)(n := b_data (bufs s ! b)), wtrace := wtrace s @ [(n, b_data (bufs s ! b))]\<rparr>
      else if flags AND VRING_DESC_F_WRITE \<noteq> 0 then set_buf b ((bufs s ! b)\<lparr>b_data := dsk s n\<rparr>) s
      else s)"

definition complete :: "nat \<Rightarrow> nat \<Rightarrow> u32 \<Rightarrow> 'a vdiskst_scheme \<Rightarrow> 'a vdiskst_scheme" where
  "complete h k len s =
     (let u = vq_used s;
          u = u\<lparr>vu_ring := (vu_ring u)(unat (vu_idx u) mod NUM := \<lparr>ue_id = of_nat h, ue_len = len\<rparr>), vu_idx := vu_idx u + 1\<rparr>
      in s\<lparr>vq_info := (vq_info s)(k := (vq_info s k)\<lparr>in_status := 0\<rparr>), vq_used := u\<rparr>)"

definition nxt :: "'a vdiskst_scheme \<Rightarrow> nat \<Rightarrow> nat" where
  "nxt s i = unat (vd_next (vq_desc s i))"

type_synonym 'a devst = "u16 \<times> nat list \<times> 'a vdiskst_scheme"

inductive device_step :: "'a devst \<Rightarrow> 'a devst \<Rightarrow> bool" where
  dev_fetch: "pos \<noteq> va_idx (vq_avail s) \<Longrightarrow>
    device_step (pos, pend, s) (pos + 1, pend @ [unat (va_ring (vq_avail s) (unat pos mod NUM))], s)"
| dev_serve: "h \<in> set pend \<Longrightarrow> vd_addr (vq_desc s h) = VReq q \<Longrightarrow> vd_flags (vq_desc s h) AND VRING_DESC_F_NEXT \<noteq> 0 \<Longrightarrow>
    vd_addr (vq_desc s (nxt s h)) = VData b \<Longrightarrow> vd_flags (vq_desc s (nxt s h)) AND VRING_DESC_F_NEXT \<noteq> 0 \<Longrightarrow>
    vd_addr (vq_desc s (nxt s (nxt s h))) = VStatus k \<Longrightarrow>
    device_step (pos, pend, s) (pos, remove1 h pend,
      complete h k len (transfer (rq_type (vq_ops s q)) (rq_sector (vq_ops s q)) (vd_flags (vq_desc s (nxt s h))) b s))"

inductive_cases device_stepE: "device_step x y"

section \<open>The system\<close>

text \<open>\<open>act\<close> has the calls of \<^verbatim>\<open>virtio_disk_rw\<close> that have submitted their request, by buffer: the head of the
  chain and the direction.  Each caller holds the sleep lock of its buffer, so other kernel code changes only
  the buffers that are not in \<open>act\<close>.\<close>

type_synonym 'a vsys = "(nat \<rightharpoonup> nat \<times> bool) \<times> 'a devst"

definition other_code :: "(nat \<rightharpoonup> nat \<times> bool) \<Rightarrow> 'a vdiskst_scheme \<Rightarrow> 'a vdiskst_scheme \<Rightarrow> bool" where
  "other_code act s s' \<longleftrightarrow>
     vq_desc s' = vq_desc s \<and> vq_avail s' = vq_avail s \<and> vq_used s' = vq_used s \<and> vq_free s' = vq_free s \<and>
     vq_used_idx s' = vq_used_idx s \<and> vq_info s' = vq_info s \<and> vq_ops s' = vq_ops s \<and> b_disk s' = b_disk s \<and>
     dsk s' = dsk s \<and> wtrace s' = wtrace s \<and> length (bufs s') = length (bufs s) \<and> (\<forall>b\<in>dom act. bufs s' ! b = bufs s ! b)"

inductive vstep :: "('a devst \<Rightarrow> 'a devst \<Rightarrow> bool) \<Rightarrow> 'a vsys \<Rightarrow> 'a vsys \<Rightarrow> bool" for dev where
  v_submit: "act b = None \<Longrightarrow> b < length (bufs s) \<Longrightarrow> unat (b_blockno (bufs s ! b)) < 2 ^ 31 \<Longrightarrow>
    disk_submit b w s = Ok (Some h, s') \<Longrightarrow> vstep dev (act, pos, pend, s) (act(b \<mapsto> (h, w)), pos, pend, s')"
| v_wait: "act b = None \<Longrightarrow> disk_submit b w s = Ok (None, s') \<Longrightarrow> vstep dev (act, pos, pend, s) (act, pos, pend, s')"
| v_dev: "dev (pos, pend, s) d \<Longrightarrow> vstep dev (act, pos, pend, s) (act, d)"
| v_intr: "virtio_disk_intr irq s = Ok s' \<Longrightarrow> vstep dev (act, pos, pend, s) (act, pos, pend, s')"
| v_finish: "act b = Some (h, w) \<Longrightarrow> \<not> b_disk s b \<Longrightarrow> disk_finish h s = Ok s' \<Longrightarrow>
    vstep dev (act, pos, pend, s) (act(b := None), pos, pend, s')"
| v_other: "other_code act s s' \<Longrightarrow> vstep dev (act, pos, pend, s) (act, pos, pend, s')"

definition vinit :: "'a vsys \<Rightarrow> bool" where
  "vinit = (\<lambda>(act, pos, pend, s). act = Map.empty \<and> pos = 0 \<and> pend = [] \<and>
     (\<exists>rd s0. virtio_disk_init rd s0 = Ok s \<and> vq_used_idx s0 = 0))"

section \<open>The disk the buffer cache is written for\<close>

datatype phase = Idle | Busy bool | Served bool

type_synonym io = "buf list \<times> (u32 \<Rightarrow> block) \<times> (u32 \<times> block) list"

definition io_of :: "'a bio_scheme \<Rightarrow> io" where
  "io_of s = (bufs s, dsk s, wtrace s)"

inductive io_step :: "(nat \<Rightarrow> phase) \<times> io \<Rightarrow> (nat \<Rightarrow> phase) \<times> io \<Rightarrow> bool" where
  io_start: "ph b = Idle \<Longrightarrow> io_step (ph, d) (ph(b := Busy w), d)"
| io_serve: "ph b = Busy w \<Longrightarrow> io_step (ph, io_of s) (ph(b := Served w), io_of (disk_rw b w (s :: bio)))"
| io_finish: "ph b = Served w \<Longrightarrow> io_step (ph, d) (ph(b := Idle), d)"
| io_other: "(\<And>b. ph b \<noteq> Idle \<Longrightarrow> bs' ! b = bs ! b) \<Longrightarrow> length bs' = length bs \<Longrightarrow>
    io_step (ph, bs, d, t) (ph, bs', d, t)"

section \<open>The invariant\<close>

text \<open>A submitted request: its three descriptors, and what they say.\<close>

definition chain :: "'a vdiskst_scheme \<Rightarrow> nat \<Rightarrow> nat list" where
  "chain s h = [h, nxt s h, nxt s (nxt s h)]"

definition chain_ok :: "'a vdiskst_scheme \<Rightarrow> nat \<Rightarrow> nat \<Rightarrow> bool \<Rightarrow> bool" where
  "chain_ok s b h w \<longleftrightarrow> set (chain s h) \<subseteq> {..<NUM} \<and> distinct (chain s h) \<and>
     vd_addr (vq_desc s h) = VReq h \<and> vd_flags (vq_desc s h) = 1 \<and>
     vd_addr (vq_desc s (nxt s h)) = VData b \<and> vd_flags (vq_desc s (nxt s h)) = (if w then 1 else 3) \<and>
     vd_addr (vq_desc s (nxt s (nxt s h))) = VStatus h \<and> vd_flags (vq_desc s (nxt s (nxt s h))) = 2 \<and>
     rq_type (vq_ops s h) = (if w then 1 else 0) \<and> rq_sector (vq_ops s h) = ucast (b_blockno (bufs s ! b) * 2) \<and>
     in_b (vq_info s h) = Some b \<and> b < length (bufs s) \<and> unat (b_blockno (bufs s ! b)) < 2 ^ 31"

text \<open>The heads of the chains the device has yet to serve, and of those it has served and the driver has not
  seen.\<close>

definition queued :: "u16 \<Rightarrow> nat list \<Rightarrow> 'a vdiskst_scheme \<Rightarrow> nat list" where
  "queued pos pend s = map unat (window (va_ring (vq_avail s)) pos (va_idx (vq_avail s))) @ pend"

definition used_heads :: "'a vdiskst_scheme \<Rightarrow> nat list" where
  "used_heads s = map (\<lambda>e. unat (ue_id e)) (window (vu_ring (vq_used s)) (vq_used_idx s) (vu_idx (vq_used s)))"

definition calls_ok :: "(nat \<rightharpoonup> nat \<times> bool) \<Rightarrow> 'a vdiskst_scheme \<Rightarrow> bool" where
  "calls_ok act s \<longleftrightarrow>
     (\<forall>b h w. act b = Some (h, w) \<longrightarrow> chain_ok s b h w) \<and>
     (\<forall>b b' h h' w w'. act b = Some (h, w) \<longrightarrow> act b' = Some (h', w') \<longrightarrow> b \<noteq> b' \<longrightarrow> set (chain s h) \<inter> set (chain s h') = {}) \<and>
     (\<forall>i<NUM. vq_free s i \<longleftrightarrow> (\<forall>b h w. act b = Some (h, w) \<longrightarrow> i \<notin> set (chain s h)))"

definition rings_ok :: "(nat \<rightharpoonup> nat \<times> bool) \<Rightarrow> u16 \<Rightarrow> nat list \<Rightarrow> 'a vdiskst_scheme \<Rightarrow> bool" where
  "rings_ok act pos pend s \<longleftrightarrow> distinct (queued pos pend s @ used_heads s) \<and>
     (\<forall>h. h \<in> set (queued pos pend s @ used_heads s) \<longleftrightarrow> (\<exists>b w. act b = Some (h, w) \<and> b_disk s b)) \<and>
     (\<forall>h\<in>set (used_heads s). in_status (vq_info s h) = 0)"

definition vinv :: "'a vsys \<Rightarrow> bool" where
  "vinv = (\<lambda>(act, pos, pend, s). calls_ok act s \<and> rings_ok act pos pend s)"

lemma chain_cong: "(\<And>i. i \<in> set (chain s h) \<Longrightarrow> vq_desc s' i = vq_desc s i) \<Longrightarrow> chain s' h = chain s h"
  by (simp add: chain_def nxt_def)

lemma chain_okD:
  assumes "chain_ok s b h w"
  shows "h < NUM" "nxt s h < NUM" "nxt s (nxt s h) < NUM" "distinct (chain s h)" "b < length (bufs s)" "in_b (vq_info s h) = Some b"
  using assms by (simp_all add: chain_ok_def chain_def)

lemma chain_ok_cong:
  assumes "chain_ok s b h w" "\<And>i. i \<in> set (chain s h) \<Longrightarrow> vq_desc s' i = vq_desc s i" "vq_ops s' h = vq_ops s h"
    "in_b (vq_info s' h) = in_b (vq_info s h)" "b_blockno (bufs s' ! b) = b_blockno (bufs s ! b)" "length (bufs s') = length (bufs s)"
  shows "chain_ok s' b h w"
proof -
  have "vq_desc s' i = vq_desc s i" if "i \<in> {h, nxt s h, nxt s (nxt s h)}" for i using assms(2) that by (simp add: chain_def)
  then have "nxt s' h = nxt s h" "nxt s' (nxt s h) = nxt s (nxt s h)" "vq_desc s' h = vq_desc s h"
    "vq_desc s' (nxt s h) = vq_desc s (nxt s h)" "vq_desc s' (nxt s (nxt s h)) = vq_desc s (nxt s (nxt s h))" by (simp_all add: nxt_def)
  with assms(1,3-) show ?thesis by (simp add: chain_ok_def chain_def)
qed

text \<open>A chain that is in use has no free descriptor.\<close>

lemma calls_chain:
  assumes "calls_ok act s" "act b = Some (h, w)"
  shows "chain_ok s b h w" "\<And>i. i \<in> set (chain s h) \<Longrightarrow> i < NUM \<and> \<not> vq_free s i"
    "\<And>b' h' w'. act b' = Some (h', w') \<Longrightarrow> set (chain s h) \<inter> set (chain s h') \<noteq> {} \<Longrightarrow> b' = b"
proof -
  show ok: "chain_ok s b h w" using assms by (simp add: calls_ok_def)
  then show "i < NUM \<and> \<not> vq_free s i" if "i \<in> set (chain s h)" for i
  proof -
    have "i < NUM" using ok that by (auto simp: chain_ok_def)
    then show ?thesis using assms that unfolding calls_ok_def by blast
  qed
  show "b' = b" if "act b' = Some (h', w')" "set (chain s h) \<inter> set (chain s h') \<noteq> {}" for b' h' w'
    using assms that unfolding calls_ok_def by blast
qed

text \<open>Changes that leave the descriptors in use alone keep the calls in order.\<close>

lemma calls_ok_frame:
  assumes c: "calls_ok act s" and f: "\<And>i. i < NUM \<Longrightarrow> vq_free s' i = vq_free s i"
    and d: "\<And>i. i < NUM \<Longrightarrow> \<not> vq_free s i \<Longrightarrow> vq_desc s' i = vq_desc s i \<and> vq_ops s' i = vq_ops s i \<and> in_b (vq_info s' i) = in_b (vq_info s i)"
    and b: "\<And>b. b \<in> dom act \<Longrightarrow> b_blockno (bufs s' ! b) = b_blockno (bufs s ! b)" "length (bufs s') = length (bufs s)"
  shows "calls_ok act s'"
proof -
  have same: "chain s' h = chain s h" "chain_ok s' b h w" if "act b = Some (h, w)" for b h w
  proof -
    note ch = calls_chain [OF c that]
    have dd: "vq_desc s' i = vq_desc s i" if "i \<in> set (chain s h)" for i using ch(2) [OF that] d by blast
    show "chain s' h = chain s h" by (rule chain_cong) (rule dd)
    have "h < NUM" "\<not> vq_free s h" using ch(2) [of h] by (simp_all add: chain_def)
    from d [OF this] have "vq_ops s' h = vq_ops s h" "in_b (vq_info s' h) = in_b (vq_info s h)" by blast+
    then show "chain_ok s' b h w" by (intro chain_ok_cong [OF ch(1)] dd b(1) [OF domI [of act, OF that]] b(2))
  qed
  show ?thesis
    unfolding calls_ok_def
  proof (intro conjI allI impI)
    show "chain_ok s' b h w" if "act b = Some (h, w)" for b h w by (rule same(2) [OF that])
    show "set (chain s' h) \<inter> set (chain s' h') = {}" if "act b = Some (h, w)" "act b' = Some (h', w')" "b \<noteq> b'" for b b' h h' w w'
      unfolding same(1) [OF that(1)] same(1) [OF that(2)] using calls_chain(3) [OF c that(1,2)] that(3) by blast
    show "vq_free s' i = (\<forall>b h w. act b = Some (h, w) \<longrightarrow> i \<notin> set (chain s' h))" if i: "i < NUM" for i
    proof -
      have "vq_free s i = (\<forall>b h w. act b = Some (h, w) \<longrightarrow> i \<notin> set (chain s h))" using c i unfolding calls_ok_def by blast
      then show ?thesis using f [OF i] same(1) by simp
    qed
  qed
qed

section \<open>Allocating and freeing descriptors\<close>

text \<open>The part of the state that only the other half of the driver and the device touch.\<close>

definition vrest :: "'a vdiskst_scheme \<Rightarrow> 'a vdiskst_scheme \<Rightarrow> bool" where
  "vrest s s' \<longleftrightarrow> vq_avail s' = vq_avail s \<and> vq_used s' = vq_used s \<and> vq_used_idx s' = vq_used_idx s \<and> vq_info s' = vq_info s \<and>
     vq_ops s' = vq_ops s \<and> b_disk s' = b_disk s \<and> bufs s' = bufs s \<and> dsk s' = dsk s \<and> wtrace s' = wtrace s"

lemma vrest_refl [simp]: "vrest s s"
  by (simp add: vrest_def)

lemma vrest_trans: "vrest s s' \<Longrightarrow> vrest s' s'' \<Longrightarrow> vrest s s''"
  by (simp add: vrest_def)

lemma free_desc_ok:
  assumes "i < NUM" "\<not> vq_free s i"
  shows "\<exists>s'. free_desc i s = Ok s' \<and> vq_free s' = (vq_free s)(i := True) \<and> vq_desc s' = (vq_desc s)(i := zero_desc) \<and> vrest s s'"
  using assms by (simp add: free_desc_def wakeup_def vrest_def)

lemma free_descs_ok:
  assumes "distinct idx" "\<forall>i\<in>set idx. i < NUM \<and> \<not> vq_free s i"
  shows "\<exists>s'. forM free_desc idx s = Ok s' \<and> (\<forall>i. vq_free s' i \<longleftrightarrow> vq_free s i \<or> i \<in> set idx) \<and>
    (\<forall>i. i \<notin> set idx \<longrightarrow> vq_desc s' i = vq_desc s i) \<and> vrest s s'"
  using assms
proof (induction idx arbitrary: s)
  case (Cons i idx)
  obtain t where t: "free_desc i s = Ok t" "vq_free t = (vq_free s)(i := True)" "vq_desc t = (vq_desc s)(i := zero_desc)" "vrest s t"
    using free_desc_ok [of i s] Cons.prems by auto
  have pre: "distinct idx" "\<forall>j\<in>set idx. j < NUM \<and> \<not> vq_free t j" using Cons.prems t(2) by auto
  obtain s' where s': "forM free_desc idx t = Ok s'" "\<forall>i. vq_free s' i \<longleftrightarrow> vq_free t i \<or> i \<in> set idx"
    "\<forall>i. i \<notin> set idx \<longrightarrow> vq_desc s' i = vq_desc t i" "vrest t s'"
    using Cons.IH [OF pre] by blast
  with t vrest_trans [OF t(4) s'(4)] show ?case by auto
qed simp

lemma find_upt_Some: "find P [0..<n] = Some i \<Longrightarrow> i < n \<and> P i"
  by (auto simp: find_Some_iff)

text \<open>Either three descriptors are taken, or none, and then some descriptors that were free have been cleared.\<close>

lemma alloc3_loop_ok:
  assumes "distinct idx" "\<forall>i\<in>set idx. i < NUM \<and> \<not> vq_free s i"
  shows "(\<exists>ds. alloc3_loop k idx s = Ok (Some (idx @ ds), s\<lparr>vq_free := (\<lambda>i. vq_free s i \<and> i \<notin> set ds)\<rparr>) \<and>
       length ds = k \<and> distinct (idx @ ds) \<and> (\<forall>i\<in>set ds. i < NUM \<and> vq_free s i)) \<or>
    (\<exists>s'. alloc3_loop k idx s = Ok (None, s') \<and> (\<forall>i. vq_free s' i \<longleftrightarrow> vq_free s i \<or> i \<in> set idx) \<and>
       (\<forall>i. \<not> vq_free s i \<longrightarrow> i \<notin> set idx \<longrightarrow> vq_desc s' i = vq_desc s i) \<and> vrest s s')"
  using assms
proof (induction k arbitrary: idx s)
  case (Suc k)
  show ?case
  proof (cases "find (vq_free s) [0..<NUM]")
    case None
    then show ?thesis using free_descs_ok [OF Suc.prems] by (fastforce simp: alloc_desc_def)
  next
    case (Some d)
    note d = find_upt_Some [OF Some]
    let ?s = "s\<lparr>vq_free := (vq_free s)(d := False)\<rparr>"
    have step: "alloc3_loop (Suc k) idx s = alloc3_loop k (idx @ [d]) ?s" using Some by (simp add: alloc_desc_def)
    have pre: "distinct (idx @ [d])" "\<forall>i\<in>set (idx @ [d]). i < NUM \<and> \<not> vq_free ?s i" using Suc.prems d by auto
    from Suc.IH [OF pre] show ?thesis
    proof (elim disjE exE conjE)
      fix ds assume h: "alloc3_loop k (idx @ [d]) ?s = Ok (Some ((idx @ [d]) @ ds), ?s\<lparr>vq_free := \<lambda>i. vq_free ?s i \<and> i \<notin> set ds\<rparr>)"
        "length ds = k" "distinct ((idx @ [d]) @ ds)" "\<forall>i\<in>set ds. i < NUM \<and> vq_free ?s i"
      have "?s\<lparr>vq_free := \<lambda>i. vq_free ?s i \<and> i \<notin> set ds\<rparr> = s\<lparr>vq_free := \<lambda>i. vq_free s i \<and> i \<notin> set (d # ds)\<rparr>"
        by (simp add: fun_eq_iff)
      with h d step show ?thesis by (intro disjI1 exI [of _ "d # ds"]) (auto split: if_splits)
    next
      fix s' assume h: "alloc3_loop k (idx @ [d]) ?s = Ok (None, s')" "\<forall>i. vq_free s' i \<longleftrightarrow> vq_free ?s i \<or> i \<in> set (idx @ [d])"
        "\<forall>i. \<not> vq_free ?s i \<longrightarrow> i \<notin> set (idx @ [d]) \<longrightarrow> vq_desc s' i = vq_desc ?s i" "vrest ?s s'"
      have "vrest s s'" using h(4) by (simp add: vrest_def)
      moreover have "vq_desc s' i = vq_desc s i" if "\<not> vq_free s i" "i \<notin> set idx" for i
        using h(3) [rule_format, of i] that d by (cases "i = d") simp_all
      ultimately show ?thesis using h(1,2) d unfolding step by (intro disjI2 exI [of _ s']) auto
    qed
  qed
qed simp

section \<open>Submitting\<close>

lemma short_list: "distinct xs \<Longrightarrow> set xs \<subseteq> {..<n} - {i} \<Longrightarrow> i < n \<Longrightarrow> length xs < n"
  using card_mono [of "{..<n} - {i}" "set xs"] by (simp add: distinct_card)

lemma ring_heads:
  assumes "calls_ok act s" "rings_ok act pos pend s" "h \<in> set (queued pos pend s @ used_heads s)"
  shows "h < NUM" "\<not> vq_free s h" "\<exists>b w. act b = Some (h, w) \<and> b_disk s b \<and> chain_ok s b h w"
proof -
  obtain b w where b: "act b = Some (h, w)" "b_disk s b" using assms(2,3) unfolding rings_ok_def by blast
  note c = calls_chain [OF assms(1) b(1)]
  from c(2) [of h] show "h < NUM" "\<not> vq_free s h" by (simp_all add: chain_def)
  from b c(1) show "\<exists>b w. act b = Some (h, w) \<and> b_disk s b \<and> chain_ok s b h w" by blast
qed

text \<open>There is always room in the rings.\<close>

lemma ring_room:
  assumes "calls_ok act s" "rings_ok act pos pend s" "i < NUM" "i \<notin> set ys"
    "set ys \<subseteq> set (queued pos pend s @ used_heads s)" "distinct ys"
  shows "length ys < NUM"
  using ring_heads(1) [OF assms(1,2)] assms(3-6) by (intro short_list [of ys NUM i]) auto

definition submitted :: "nat \<Rightarrow> bool \<Rightarrow> nat \<Rightarrow> nat \<Rightarrow> nat \<Rightarrow> 'a vdiskst_scheme \<Rightarrow> 'a vdiskst_scheme \<Rightarrow> bool" where
  "submitted b w i0 i1 i2 s s' \<longleftrightarrow>
     distinct [i0, i1, i2] \<and> (\<forall>i\<in>{i0, i1, i2}. i < NUM \<and> vq_free s i) \<and> io_of s' = io_of s \<and>
     vq_free s' = (\<lambda>i. vq_free s i \<and> i \<notin> {i0, i1, i2}) \<and>
     vq_desc s' = (vq_desc s)(i0 := \<lparr>vd_addr = VReq i0, vd_len = 16, vd_flags = 1, vd_next = of_nat i1\<rparr>,
       i1 := \<lparr>vd_addr = VData b, vd_len = 1024, vd_flags = (if w then 1 else 3), vd_next = of_nat i2\<rparr>,
       i2 := \<lparr>vd_addr = VStatus i0, vd_len = 1, vd_flags = 2, vd_next = 0\<rparr>) \<and>
     vq_ops s' = (vq_ops s)(i0 := \<lparr>rq_type = (if w then 1 else 0), rq_reserved = 0, rq_sector = ucast (b_blockno (bufs s ! b) * 2)\<rparr>) \<and>
     vq_info s' = (vq_info s)(i0 := \<lparr>in_b = Some b, in_status = 0xff\<rparr>) \<and> b_disk s' = (b_disk s)(b := True) \<and>
     vq_used s' = vq_used s \<and> vq_used_idx s' = vq_used_idx s \<and>
     va_idx (vq_avail s') = va_idx (vq_avail s) + 1 \<and>
     va_ring (vq_avail s') = (va_ring (vq_avail s))(unat (va_idx (vq_avail s)) mod NUM := of_nat i0)"

lemma vinfo_eq: "x\<lparr>in_status := a, in_b := c\<rparr> = \<lparr>in_b = c, in_status = a\<rparr>"
  by (cases x) simp

lemma disk_submit_ok:
  "(\<exists>i0 i1 i2 s'. disk_submit b w s = Ok (Some i0, s') \<and> submitted b w i0 i1 i2 s s') \<or>
   (\<exists>s'. disk_submit b w s = Ok (None, s') \<and> vq_free s' = vq_free s \<and> (\<forall>i. \<not> vq_free s i \<longrightarrow> vq_desc s' i = vq_desc s i) \<and> vrest s s')"
proof -
  have "distinct []" "\<forall>i\<in>set []. i < NUM \<and> \<not> vq_free s i" by simp_all
  from alloc3_loop_ok [OF this, of 3] show ?thesis
  proof (elim disjE exE conjE)
    fix ds assume a: "alloc3_loop 3 [] s = Ok (Some ([] @ ds), s\<lparr>vq_free := \<lambda>i. vq_free s i \<and> i \<notin> set ds\<rparr>)" "length ds = 3"
      "distinct ([] @ ds)" "\<forall>i\<in>set ds. i < NUM \<and> vq_free s i"
    then obtain i0 i1 i2 where ds: "ds = [i0, i1, i2]" by (auto simp: length_Suc_conv eval_nat_numeral)
    let ?s = "disk_notify i0 (disk_format b w i0 i1 i2 (s\<lparr>vq_free := \<lambda>i. vq_free s i \<and> i \<notin> {i0, i1, i2}\<rparr>))"
    have "disk_submit b w s = Ok (Some i0, ?s)" using a(1) ds by (simp add: disk_submit_def alloc3_desc_def)
    moreover have "submitted b w i0 i1 i2 s ?s"
      using a(3,4) ds by (simp add: submitted_def disk_notify_def disk_format_def virtio_store_def set_desc_def io_of_def Let_def vinfo_eq)
    ultimately show ?thesis by blast
  next
    fix s' assume "alloc3_loop 3 [] s = Ok (None, s')" "\<forall>i. vq_free s' i \<longleftrightarrow> vq_free s i \<or> i \<in> set []"
      "\<forall>i. \<not> vq_free s i \<longrightarrow> i \<notin> set [] \<longrightarrow> vq_desc s' i = vq_desc s i" "vrest s s'"
    then have "disk_submit b w s = Ok (None, s')" "vq_free s' = vq_free s" "\<forall>i. \<not> vq_free s i \<longrightarrow> vq_desc s' i = vq_desc s i"
      by (auto simp: disk_submit_def alloc3_desc_def)
    with \<open>vrest s s'\<close> show ?thesis by blast
  qed
qed

lemma unat_small_u16: "i < NUM \<Longrightarrow> unat (of_nat i :: u16) = i"
  by (rule unat_of_nat_small) simp

lemma submit_chain:
  assumes "submitted b w i0 i1 i2 s s'" "b < length (bufs s)" "unat (b_blockno (bufs s ! b)) < 2 ^ 31"
  shows "chain s' i0 = [i0, i1, i2]" "chain_ok s' b i0 w"
proof -
  have i: "i0 < NUM" "i1 < NUM" "i2 < NUM" "distinct [i0, i1, i2]" and d: "bufs s' = bufs s" using assms(1) by (auto simp: submitted_def io_of_def)
  have n: "nxt s' i0 = i1" "nxt s' i1 = i2"
    using assms(1) i by (simp_all add: submitted_def nxt_def unat_small_u16)
  then show "chain s' i0 = [i0, i1, i2]" by (simp add: chain_def)
  with n i assms d show "chain_ok s' b i0 w" by (simp add: chain_ok_def submitted_def)
qed

lemma act_upd_iff:
  "act b = None \<Longrightarrow> (act(b \<mapsto> (i0, w))) b' = Some (h, w') \<longleftrightarrow> b' = b \<and> h = i0 \<and> w' = w \<or> act b' = Some (h, w')"
  by auto

lemma submit_calls:
  assumes c: "calls_ok act s" and b: "act b = None" "b < length (bufs s)" "unat (b_blockno (bufs s ! b)) < 2 ^ 31"
    and sub: "submitted b w i0 i1 i2 s s'"
  shows "calls_ok (act(b \<mapsto> (i0, w))) s'"
proof -
  note new = submit_chain [OF sub b(2,3)]
  have fr: "vq_free s i" if "i \<in> {i0, i1, i2}" for i using sub that by (auto simp: submitted_def)
  have bufs: "bufs s' = bufs s" using sub by (simp add: submitted_def io_of_def)
  have old: "chain s' h = chain s h" "chain_ok s' b' h w'" "set (chain s h) \<inter> {i0, i1, i2} = {}" if "act b' = Some (h, w')" for b' h w'
  proof -
    note ch = calls_chain [OF c that]
    show disj: "set (chain s h) \<inter> {i0, i1, i2} = {}" using ch(2) fr by blast
    have d: "vq_desc s' i = vq_desc s i" if "i \<in> set (chain s h)" for i using disj that sub by (auto simp: submitted_def)
    then show "chain s' h = chain s h" by (rule chain_cong)
    have "h \<notin> {i0, i1, i2}" using disj by (auto simp: chain_def)
    then have "vq_ops s' h = vq_ops s h" "vq_info s' h = vq_info s h" using sub by (simp_all add: submitted_def)
    then show "chain_ok s' b' h w'" by (intro chain_ok_cong [OF ch(1)] d) (simp_all add: bufs)
  qed
  show ?thesis
    unfolding calls_ok_def
  proof (intro conjI allI impI)
    fix b1 h1 w1 assume a1: "(act(b \<mapsto> (i0, w))) b1 = Some (h1, w1)"
    then show "chain_ok s' b1 h1 w1" using new(2) old(2) by (auto split: if_splits)
    fix b2 h2 w2 assume a2: "(act(b \<mapsto> (i0, w))) b2 = Some (h2, w2)" "b1 \<noteq> b2"
    show "set (chain s' h1) \<inter> set (chain s' h2) = {}"
    proof (cases "b1 = b \<or> b2 = b")
      case True
      then show ?thesis
      proof
        assume "b1 = b"
        then have "h1 = i0" "act b2 = Some (h2, w2)" using a1 a2 by auto
        then show ?thesis using new(1) old(1,3) [of b2 h2 w2] by auto
      next
        assume "b2 = b"
        then have "h2 = i0" "act b1 = Some (h1, w1)" using a1 a2 by auto
        then show ?thesis using new(1) old(1,3) [of b1 h1 w1] by auto
      qed
    next
      case False
      then have o: "act b1 = Some (h1, w1)" "act b2 = Some (h2, w2)" using a1 a2 by auto
      show ?thesis unfolding old(1) [OF o(1)] old(1) [OF o(2)] using calls_chain(3) [OF c o] a2(2) by blast
    qed
  next
    fix i assume i: "i < NUM"
    have "vq_free s i = (\<forall>b h w. act b = Some (h, w) \<longrightarrow> i \<notin> set (chain s h))" using c i unfolding calls_ok_def by blast
    moreover have "vq_free s' i \<longleftrightarrow> vq_free s i \<and> i \<notin> set (chain s' i0)" using sub new(1) by (simp add: submitted_def)
    ultimately show "vq_free s' i = (\<forall>ba h wa. (act(b \<mapsto> (i0, w))) ba = Some (h, wa) \<longrightarrow> i \<notin> set (chain s' h))"
      unfolding act_upd_iff [of act, OF b(1)] using old(1) by (metis (no_types, lifting))
  qed
qed

lemma submit_rings:
  assumes c: "calls_ok act s" and r: "rings_ok act pos pend s" and b: "act b = None" and sub: "submitted b w i0 i1 i2 s s'"
  shows "rings_ok (act(b \<mapsto> (i0, w))) pos pend s'"
    "set (queued pos pend s') = insert i0 (set (queued pos pend s))" "i0 \<notin> set (queued pos pend s @ used_heads s)"
proof -
  let ?win = "map unat (window (va_ring (vq_avail s)) pos (va_idx (vq_avail s)))"
  have i0: "i0 < NUM" "vq_free s i0" using sub by (simp_all add: submitted_def)
  show fresh: "i0 \<notin> set (queued pos pend s @ used_heads s)" using ring_heads(2) [OF c r] i0(2) by blast
  have d: "distinct (queued pos pend s @ used_heads s)" using r by (simp add: rings_ok_def)
  have "length ?win < NUM" by (rule ring_room [OF c r i0(1)]) (use fresh d in \<open>auto simp: queued_def\<close>)
  then have "unat (va_idx (vq_avail s) - pos) < NUM" by simp
  from window_push [OF this, of "va_ring (vq_avail s)" "of_nat i0"]
  have q: "queued pos pend s' = ?win @ [i0] @ pend" using sub i0(1) by (simp add: queued_def submitted_def unat_small_u16)
  then show qs: "set (queued pos pend s') = insert i0 (set (queued pos pend s))" by (auto simp: queued_def)
  have u: "used_heads s' = used_heads s" using sub by (simp add: used_heads_def submitted_def)
  have dist: "distinct (queued pos pend s' @ used_heads s')" unfolding q u using d fresh by (auto simp: queued_def)
  have "in_status (vq_info s' h) = 0" if "h \<in> set (used_heads s')" for h
  proof -
    have "h \<noteq> i0" "in_status (vq_info s h) = 0" using that u fresh r by (auto simp: rings_ok_def)
    then show ?thesis using sub by (simp add: submitted_def)
  qed
  moreover have "h \<in> set (queued pos pend s' @ used_heads s') \<longleftrightarrow> (\<exists>b' w'. (act(b \<mapsto> (i0, w))) b' = Some (h, w') \<and> b_disk s' b')" for h
  proof -
    have "h \<in> set (queued pos pend s @ used_heads s) \<longleftrightarrow> (\<exists>b w. act b = Some (h, w) \<and> b_disk s b)" using r unfolding rings_ok_def by blast
    moreover have "b_disk s' = (b_disk s)(b := True)" using sub by (simp add: submitted_def)
    moreover have "act b' = Some (h, w') \<Longrightarrow> b_disk s' b' = b_disk s b'" for b' w' using b calculation(2) by auto
    ultimately show ?thesis unfolding act_upd_iff [of act, OF b] using qs u by (auto; metis)
  qed
  ultimately show "rings_ok (act(b \<mapsto> (i0, w))) pos pend s'" using dist unfolding rings_ok_def by blast
qed

section \<open>The device\<close>

lemma head_unique:
  assumes "calls_ok act s" "act b = Some (h, w)" "act b' = Some (h, w')"
  shows "b' = b"
  using calls_chain(3) [OF assms(1,2,3)] by (simp add: chain_def)

lemma fetch_ok:
  assumes r: "rings_ok act pos pend s" and ne: "pos \<noteq> va_idx (vq_avail s)"
    and p: "pend' = pend @ [unat (va_ring (vq_avail s) (unat pos mod NUM))]"
  shows "rings_ok act (pos + 1) pend' s" "set (queued (pos + 1) pend' s) = set (queued pos pend s)"
proof -
  let ?W = "\<lambda>x. map unat (window (va_ring (vq_avail s)) x (va_idx (vq_avail s)))"
  have w: "?W pos = unat (va_ring (vq_avail s) (unat pos mod NUM)) # ?W (pos + 1)" using window_pop [OF ne, of "va_ring (vq_avail s)"] by simp
  show q: "set (queued (pos + 1) pend' s) = set (queued pos pend s)" unfolding queued_def w p by auto
  have "distinct (queued (pos + 1) pend' s @ used_heads s) = distinct (queued pos pend s @ used_heads s)"
    unfolding queued_def w p by auto
  with r q show "rings_ok act (pos + 1) pend' s" unfolding rings_ok_def by simp
qed

lemma sector_block:
  fixes n :: u32
  assumes "unat n < 2 ^ 31"
  shows "(ucast ((ucast (n * 2) :: u64) div 2) :: u32) = n"
proof -
  have "unat (n * 2) = unat n * 2" using assms by (subst unat_mult_lem [THEN iffD1]) simp_all
  then have "unat ((ucast (n * 2) :: u64) div 2) = unat n" by (simp add: unat_div)
  then have "unat (ucast ((ucast (n * 2) :: u64) div 2) :: u32) = unat n"
    by (subst unsigned_ucast_eq) (use unat_u32_less [of n] in \<open>simp add: take_bit_nat_eq_self\<close>)
  then show ?thesis by (simp only: word_unat_eq_iff)
qed

lemma transfer_disk_rw:
  assumes "chain_ok s b h w"
  shows "transfer (rq_type (vq_ops s h)) (rq_sector (vq_ops s h)) (vd_flags (vq_desc s (nxt s h))) b s = disk_rw b w s"
proof -
  have c: "rq_type (vq_ops s h) = (if w then 1 else 0)" "rq_sector (vq_ops s h) = ucast (b_blockno (bufs s ! b) * 2)"
    "vd_flags (vq_desc s (nxt s h)) = (if w then 1 else 3)" "unat (b_blockno (bufs s ! b)) < 2 ^ 31"
    using assms by (simp_all add: chain_ok_def)
  show ?thesis unfolding transfer_def c(1-3) Let_def sector_block [OF c(4)] by (simp add: disk_rw_def Let_def)
qed

lemma disk_rw_frame:
  fixes s :: "'a vdiskst_scheme"
  shows "vq_desc (disk_rw b w s) = vq_desc s" "vq_avail (disk_rw b w s) = vq_avail s" "vq_used (disk_rw b w s) = vq_used s"
    "vq_free (disk_rw b w s) = vq_free s" "vq_used_idx (disk_rw b w s) = vq_used_idx s" "vq_info (disk_rw b w s) = vq_info s"
    "vq_ops (disk_rw b w s) = vq_ops s" "b_disk (disk_rw b w s) = b_disk s" "length (bufs (disk_rw b w s)) = length (bufs s)"
    "b_blockno (bufs (disk_rw b w s) ! j) = b_blockno (bufs s ! j)"
  by (simp_all add: disk_rw_def set_buf_def Let_def) (cases "j = b"; cases "b < length (bufs s)"; simp add: list_update_beyond)

lemma serve_ok:
  assumes c: "calls_ok act s" and r: "rings_ok act pos pend s" and h: "h \<in> set pend" "act b = Some (h, w)"
    and s': "s' = complete h h len (disk_rw b w s)" and p: "pend' = remove1 h pend"
  shows "calls_ok act s'" "rings_ok act pos pend' s'" "set (queued pos pend' s') = set (queued pos pend s) - {h}"
    "io_of s' = io_of (disk_rw b w s)"
proof -
  let ?U = "window (vu_ring (vq_used s)) (vq_used_idx s) (vu_idx (vq_used s))"
  have hn: "h < NUM" using chain_okD(1) [OF calls_chain(1) [OF c h(2)]] .
  have d: "distinct (queued pos pend s @ used_heads s)" using r by (simp add: rings_ok_def)
  have hu: "h \<notin> set (used_heads s)" using d h(1) by (auto simp: queued_def)
  have "length (used_heads s) < NUM" by (rule ring_room [OF c r hn hu]) (use d in auto)
  then have room: "unat (vu_idx (vq_used s) - vq_used_idx s) < NUM" by (simp add: used_heads_def)
  have fields: "vq_info s' = (vq_info s)(h := (vq_info s h)\<lparr>in_status := 0\<rparr>)" "vq_desc s' = vq_desc s" "vq_free s' = vq_free s"
    "vq_ops s' = vq_ops s" "vq_avail s' = vq_avail s" "b_disk s' = b_disk s" "vq_used_idx s' = vq_used_idx s"
    "vu_idx (vq_used s') = vu_idx (vq_used s) + 1"
    "vu_ring (vq_used s') = (vu_ring (vq_used s))(unat (vu_idx (vq_used s)) mod NUM := \<lparr>ue_id = of_nat h, ue_len = len\<rparr>)"
    "bufs s' = bufs (disk_rw b w s)"
    unfolding s' complete_def Let_def by (simp_all add: disk_rw_frame)
  show "io_of s' = io_of (disk_rw b w s)" unfolding s' complete_def Let_def io_of_def by simp
  show "calls_ok act s'" by (rule calls_ok_frame [OF c]) (simp_all add: fields disk_rw_frame)
  have hid: "unat (of_nat h :: u32) = h" by (rule unat_of_nat_small) (use hn in simp)
  have u: "used_heads s' = used_heads s @ [h]"
    unfolding used_heads_def fields window_push [OF room] by (simp add: hid)
  have q: "queued pos pend' s' = map unat (window (va_ring (vq_avail s)) pos (va_idx (vq_avail s))) @ remove1 h pend"
    by (simp add: queued_def fields p)
  have hw: "h \<notin> set (map unat (window (va_ring (vq_avail s)) pos (va_idx (vq_avail s))))" "distinct pend"
    using d h(1) by (auto simp: queued_def)
  show qs: "set (queued pos pend' s') = set (queued pos pend s) - {h}"
    unfolding q unfolding queued_def using hw by auto
  have all: "set (queued pos pend' s' @ used_heads s') = set (queued pos pend s @ used_heads s)"
    using qs u h(1) hu by (auto simp: queued_def)
  have "distinct (queued pos pend' s' @ used_heads s')"
    unfolding q u using d hu hw by (auto simp: queued_def distinct_remove1 dest: notin_set_remove1)
  moreover have "in_status (vq_info s' g) = 0" if "g \<in> set (used_heads s')" for g
    using that r u by (auto simp: fields rings_ok_def)
  ultimately show "rings_ok act pos pend' s'" using r unfolding rings_ok_def all fields(6) by blast
qed

section \<open>The interrupt handler and the end of a call\<close>

definition seen_used :: "nat \<Rightarrow> 'a vdiskst_scheme \<Rightarrow> 'a vdiskst_scheme" where
  "seen_used b s = (let s = wakeup (ChDisk b) (s\<lparr>b_disk := (b_disk s)(b := False)\<rparr>) in s\<lparr>vq_used_idx := vq_used_idx s + 1\<rparr>)"

lemma seen_used_frame:
  "vq_desc (seen_used b s) = vq_desc s" "vq_avail (seen_used b s) = vq_avail s" "vq_used (seen_used b s) = vq_used s"
  "vq_free (seen_used b s) = vq_free s" "vq_used_idx (seen_used b s) = vq_used_idx s + 1" "vq_info (seen_used b s) = vq_info s"
  "vq_ops (seen_used b s) = vq_ops s" "b_disk (seen_used b s) = (b_disk s)(b := False)" "bufs (seen_used b s) = bufs s"
  "io_of (seen_used b s) = io_of s" "queued pos pend (seen_used b s) = queued pos pend s"
  by (simp_all add: seen_used_def wakeup_def Let_def io_of_def queued_def)

lemma seen_used_ok:
  assumes c: "calls_ok act s" and r: "rings_ok act pos pend s" and u: "used_heads s = h # us" and b: "act b = Some (h, w)"
    and us: "used_heads (seen_used b s) = us"
  shows "calls_ok act (seen_used b s)" "rings_ok act pos pend (seen_used b s)"
proof -
  let ?s = "seen_used b s" and ?Q = "queued pos pend s"
  show "calls_ok act ?s" by (rule calls_ok_frame [OF c]) (simp_all add: seen_used_frame)
  have d: "distinct (?Q @ h # us)" and st: "\<forall>g\<in>set us. in_status (vq_info s g) = 0" using r u by (simp_all add: rings_ok_def)
  have "g \<in> set (?Q @ us) \<longleftrightarrow> (\<exists>b' w'. act b' = Some (g, w') \<and> b_disk ?s b')" for g
  proof -
    have old: "g \<in> set (?Q @ h # us) \<longleftrightarrow> (\<exists>b' w'. act b' = Some (g, w') \<and> b_disk s b')" using r u unfolding rings_ok_def by simp
    show ?thesis
    proof (cases "g = h")
      case True
      have "\<not> b_disk ?s b'" if "act b' = Some (h, w')" for b' w' using head_unique [OF c b that] by (simp add: seen_used_frame)
      moreover have "h \<notin> set (?Q @ us)" using d by auto
      ultimately show ?thesis using True by blast
    next
      case False
      then have "b_disk ?s b' = b_disk s b'" if "act b' = Some (g, w')" for b' w' using that b by (auto simp: seen_used_frame)
      with old False show ?thesis by auto
    qed
  qed
  with d st show "rings_ok act pos pend ?s" unfolding rings_ok_def seen_used_frame us by auto
qed

lemma intr_loop_ok:
  fixes s :: "'a vdiskst_scheme"
  assumes "calls_ok act s" "rings_ok act pos pend s"
  shows "\<exists>s'. virtio_intr_loop s = Ok s' \<and> calls_ok act s' \<and> rings_ok act pos pend s' \<and> io_of s' = io_of s \<and>
    queued pos pend s' = queued pos pend s \<and> used_heads s' = []"
  using assms
proof (induction "unat (vu_idx (vq_used s) - vq_used_idx s)" arbitrary: s rule: less_induct)
  case less
  note step = virtio_intr_loop.simps [of s]
  show ?case
  proof (cases "vq_used_idx s = vu_idx (vq_used s)")
    case True
    then show ?thesis using less.prems by (simp add: step used_heads_def)
  next
    case False
    define h where "h = unat (ue_id (vu_ring (vq_used s) (unat (vq_used_idx s) mod NUM)))"
    define us where "us = map (\<lambda>e. unat (ue_id e)) (window (vu_ring (vq_used s)) (vq_used_idx s + 1) (vu_idx (vq_used s)))"
    have u: "used_heads s = h # us" using window_pop [OF False, of "vu_ring (vq_used s)"] by (simp add: used_heads_def h_def us_def)
    then have hm: "h \<in> set (queued pos pend s @ used_heads s)" by simp
    obtain b w where b: "act b = Some (h, w)" "chain_ok s b h w" using ring_heads(3) [OF less.prems hm] by blast
    have ok: "h < NUM" "in_b (vq_info s h) = Some b" "in_status (vq_info s h) = 0"
      using chain_okD [OF b(2)] less.prems(2) u by (simp_all add: rings_ok_def)
    then have eq: "virtio_intr_loop s = virtio_intr_loop (seen_used b s)"
      using False by (simp add: step h_def [symmetric] seen_used_def Let_def)
    have us': "used_heads (seen_used b s) = us" by (simp add: used_heads_def seen_used_frame us_def)
    note n = seen_used_ok [OF less.prems u b(1) us']
    have "unat (vu_idx (vq_used (seen_used b s)) - vq_used_idx (seen_used b s)) < unat (vu_idx (vq_used s) - vq_used_idx s)"
      using u16_gap [OF False] by (simp add: seen_used_frame)
    from less.hyps [OF this n] show ?thesis unfolding eq by (simp add: seen_used_frame)
  qed
qed

lemma intr_ok:
  assumes "calls_ok act s" "rings_ok act pos pend s"
  shows "\<exists>s'. virtio_disk_intr irq s = Ok s' \<and> calls_ok act s' \<and> rings_ok act pos pend s' \<and> io_of s' = io_of s \<and>
    queued pos pend s' = queued pos pend s \<and> used_heads s' = []"
proof -
  let ?s = "virtio_store 0x064 (irq AND 3) s"
  have "calls_ok act ?s" by (rule calls_ok_frame [OF assms(1)]) (simp_all add: virtio_store_def)
  moreover have "queued pos pend ?s = queued pos pend s" "used_heads ?s = used_heads s" "io_of ?s = io_of s"
    by (simp_all add: queued_def used_heads_def virtio_store_def io_of_def)
  moreover from this have "rings_ok act pos pend ?s" using assms(2) by (simp add: rings_ok_def virtio_store_def)
  ultimately show ?thesis using intr_loop_ok [of act ?s pos pend] by (simp add: virtio_disk_intr_def)
qed

text \<open>At the end of a call the three descriptors are free again.\<close>

lemma free_chain_ok:
  assumes "chain_ok s b h w" "\<And>i. i \<in> set (chain s h) \<Longrightarrow> \<not> vq_free s i" and t: "vq_desc t = vq_desc s" "vq_free t = vq_free s"
  shows "\<exists>s'. free_chain h t = Ok s' \<and> vq_free s' = (\<lambda>i. vq_free s i \<or> i \<in> set (chain s h)) \<and>
    (\<forall>i. i \<notin> set (chain s h) \<longrightarrow> vq_desc s' i = vq_desc s i) \<and> vrest t s'"
proof -
  let ?i = "nxt s h" and ?j = "nxt s (nxt s h)"
  have c: "h < NUM" "?i < NUM" "?j < NUM" "h \<noteq> ?i" "h \<noteq> ?j" "?i \<noteq> ?j" "vd_flags (vq_desc s h) = 1" "vd_flags (vq_desc s ?j) = 2"
    "vd_flags (vq_desc s ?i) AND 1 \<noteq> 0"
    using assms(1) by (auto simp: chain_ok_def chain_def)
  have f: "\<not> vq_free s h" "\<not> vq_free s ?i" "\<not> vq_free s ?j" using assms(2) by (simp_all add: chain_def)
  obtain s1 where 1: "free_desc h t = Ok s1" "vq_free s1 = (vq_free t)(h := True)" "vq_desc s1 = (vq_desc t)(h := zero_desc)" "vrest t s1"
    using free_desc_ok [of h t] c f t by auto
  obtain s2 where 2: "free_desc ?i s1 = Ok s2" "vq_free s2 = (vq_free s1)(?i := True)" "vq_desc s2 = (vq_desc s1)(?i := zero_desc)" "vrest s1 s2"
    using free_desc_ok [of ?i s1] c f t 1(2) by auto
  obtain s3 where 3: "free_desc ?j s2 = Ok s3" "vq_free s3 = (vq_free s2)(?j := True)" "vq_desc s3 = (vq_desc s2)(?j := zero_desc)" "vrest s2 s3"
    using free_desc_ok [of ?j s2] c f t 1(2) 2(2) by auto
  have n: "unat (vd_next (vq_desc s h)) = ?i" "unat (vd_next (vq_desc s ?i)) = ?j" by (simp_all add: nxt_def)
  have "free_chain ?j s2 = Ok s3" using 3(1) 1(3) 2(3) t c by (simp add: free_chain.simps [of ?j] Let_def)
  then have "free_chain ?i s1 = Ok s3" using 2(1) 1(3) t c n by (simp add: free_chain.simps [of ?i] Let_def)
  then have "free_chain h t = Ok s3" using 1(1) t c n by (simp add: free_chain.simps [of h] Let_def)
  moreover have "vq_free s3 = (\<lambda>i. vq_free s i \<or> i \<in> set (chain s h))" using 1(2) 2(2) 3(2) t by (auto simp: chain_def fun_eq_iff)
  moreover have "\<forall>i. i \<notin> set (chain s h) \<longrightarrow> vq_desc s3 i = vq_desc s i" using 1(3) 2(3) 3(3) t by (auto simp: chain_def)
  ultimately show ?thesis using vrest_trans [OF 1(4) vrest_trans [OF 2(4) 3(4)]] by blast
qed

lemma finish_ok:
  assumes c: "calls_ok act s" and r: "rings_ok act pos pend s" and b: "act b = Some (h, w)" "\<not> b_disk s b"
  shows "\<exists>s'. disk_finish h s = Ok s' \<and> calls_ok (act(b := None)) s' \<and> rings_ok (act(b := None)) pos pend s' \<and>
    io_of s' = io_of s \<and> queued pos pend s' = queued pos pend s \<and> h \<notin> set (queued pos pend s)"
proof -
  note ch = calls_chain [OF c b(1)]
  let ?t = "s\<lparr>vq_info := (vq_info s)(h := (vq_info s h)\<lparr>in_b := None\<rparr>)\<rparr>"
  obtain s' where s': "free_chain h ?t = Ok s'" "vq_free s' = (\<lambda>i. vq_free s i \<or> i \<in> set (chain s h))"
    "\<forall>i. i \<notin> set (chain s h) \<longrightarrow> vq_desc s' i = vq_desc s i" "vrest ?t s'"
    using free_chain_ok [OF ch(1), of ?t] ch(2) by auto
  have fields: "vq_avail s' = vq_avail s" "vq_used s' = vq_used s" "vq_used_idx s' = vq_used_idx s" "b_disk s' = b_disk s"
    "vq_ops s' = vq_ops s" "bufs s' = bufs s" "vq_info s' = (vq_info s)(h := (vq_info s h)\<lparr>in_b := None\<rparr>)" "io_of s' = io_of s"
    using s'(4) by (simp_all add: vrest_def io_of_def)
  have same: "queued pos pend s' = queued pos pend s" "used_heads s' = used_heads s" by (simp_all add: queued_def used_heads_def fields)
  have hq: "h \<notin> set (queued pos pend s @ used_heads s)"
  proof
    assume "h \<in> set (queued pos pend s @ used_heads s)"
    then obtain b' w' where "act b' = Some (h, w')" "b_disk s b'" using r unfolding rings_ok_def by blast
    with head_unique [OF c b(1)] b(2) show False by blast
  qed
  have others: "chain s' g = chain s g" "chain_ok s' b' g w'" "set (chain s g) \<inter> set (chain s h) = {}"
    if "(act(b := None)) b' = Some (g, w')" for b' g w'
  proof -
    have a: "act b' = Some (g, w')" "b' \<noteq> b" using that by (auto split: if_splits)
    show disj: "set (chain s g) \<inter> set (chain s h) = {}" using calls_chain(3) [OF c a(1) b(1)] a(2) by blast
    have d: "vq_desc s' i = vq_desc s i" if "i \<in> set (chain s g)" for i using disj that s'(3) by blast
    then show "chain s' g = chain s g" by (rule chain_cong)
    have "g \<noteq> h" using disj by (auto simp: chain_def)
    then show "chain_ok s' b' g w'" by (intro chain_ok_cong [OF calls_chain(1) [OF c a(1)]] d) (simp_all add: fields)
  qed
  have "calls_ok (act(b := None)) s'"
    unfolding calls_ok_def
  proof (intro conjI allI impI)
    fix b1 h1 w1 assume a1: "(act(b := None)) b1 = Some (h1, w1)"
    show "chain_ok s' b1 h1 w1" by (rule others(2) [OF a1])
    fix b2 h2 w2 assume a2: "(act(b := None)) b2 = Some (h2, w2)" "b1 \<noteq> b2"
    have o: "act b1 = Some (h1, w1)" "act b2 = Some (h2, w2)" using a1 a2 by (auto split: if_splits)
    show "set (chain s' h1) \<inter> set (chain s' h2) = {}"
      unfolding others(1) [OF a1] others(1) [OF a2(1)] using calls_chain(3) [OF c o] a2(2) by blast
  next
    fix i assume i: "i < NUM"
    have old: "vq_free s i = (\<forall>b h w. act b = Some (h, w) \<longrightarrow> i \<notin> set (chain s h))" using c i unfolding calls_ok_def by blast
    show "vq_free s' i = (\<forall>b' g w'. (act(b := None)) b' = Some (g, w') \<longrightarrow> i \<notin> set (chain s' g))" (is "_ = ?R")
    proof
      assume f: "vq_free s' i"
      show ?R
      proof (intro allI impI)
        fix b' g w' assume a: "(act(b := None)) b' = Some (g, w')"
        then have "act b' = Some (g, w')" by (auto split: if_splits)
        with f s'(2) old others(1,3) [OF a] show "i \<notin> set (chain s' g)" by auto
      qed
    next
      assume R: ?R
      have "i \<notin> set (chain s g)" if "act b' = Some (g, w')" "b' \<noteq> b" for b' g w'
      proof -
        have a: "(act(b := None)) b' = Some (g, w')" using that by simp
        show ?thesis using R [rule_format, OF a] others(1) [OF a] by simp
      qed
      then have "i \<in> set (chain s h)" if "\<not> vq_free s i" using old that b(1) by (metis option.inject prod.inject)
      then show "vq_free s' i" using s'(2) by auto
    qed
  qed
  moreover have "rings_ok (act(b := None)) pos pend s'"
  proof -
    have "(\<exists>b' w'. (act(b := None)) b' = Some (g, w') \<and> b_disk s b') \<longleftrightarrow> (\<exists>b' w'. act b' = Some (g, w') \<and> b_disk s b')" for g
      using b(2) by (auto split: if_splits)
    moreover have "in_status (vq_info s' g) = 0" if "g \<in> set (used_heads s)" for g
      using that r by (auto simp: fields rings_ok_def)
    ultimately show ?thesis using r unfolding rings_ok_def same fields by simp
  qed
  ultimately show ?thesis using s'(1) fields(8) same hq by (simp add: disk_finish_def)
qed

end
