(* ===== verification/Virtsim.thy ===== *)
theory Virtsim
  imports Virtqueue Vmachine
begin

text \<open>
  The simulation of the disk driver by the atomic disk of the buffer cache, and what follows: every request is
  one \<open>disk_rw\<close>, no check of the driver fails, and no request is lost.
\<close>

section \<open>Simulation\<close>

definition phase_of :: "(nat \<rightharpoonup> nat \<times> bool) \<Rightarrow> nat set \<Rightarrow> nat \<Rightarrow> phase" where
  "phase_of act q b = (case act b of None \<Rightarrow> Idle | Some (h, w) \<Rightarrow> if h \<in> q then Busy w else Served w)"

definition vabs :: "'a vsys \<Rightarrow> (nat \<Rightarrow> phase) \<times> io" where
  "vabs = (\<lambda>(act, pos, pend, s). (phase_of act (set (queued pos pend s)), io_of s))"

lemma io_of_disk_rw: "io_of (disk_rw b w (bio.truncate s)) = io_of (disk_rw b w s)"
  by (simp add: io_of_def disk_rw_def set_buf_def bio.truncate_def Let_def)

lemma io_serve': "ph b = Busy w \<Longrightarrow> io_step (ph, io_of s) (ph(b := Served w), io_of (disk_rw b w s))"
  using io_serve [of ph b w "bio.truncate s"] by (simp add: io_of_disk_rw) (simp add: io_of_def bio.truncate_def)

lemma io_same: "io_step\<^sup>*\<^sup>* x x"
  by simp

lemma submit_sim:
  assumes inv: "calls_ok act s" "rings_ok act pos pend s" and b: "act b = None" and sub: "submitted b w h i1 i2 s s'"
  shows "io_step\<^sup>*\<^sup>* (vabs (act, pos, pend, s)) (vabs (act(b \<mapsto> (h, w)), pos, pend, s'))"
proof -
  note r = submit_rings [OF inv b sub]
  let ?q = "set (queued pos pend s)" and ?q' = "set (queued pos pend s')"
  have "phase_of (act(b \<mapsto> (h, w))) ?q' = (phase_of act ?q)(b := Busy w)"
  proof
    fix x
    have hx: "h' \<noteq> h" if "act x = Some (h', w')" for h' w'
      using calls_chain(2) [OF inv(1) that, of h'] sub by (auto simp: submitted_def chain_def)
    show "phase_of (act(b \<mapsto> (h, w))) ?q' x = ((phase_of act ?q)(b := Busy w)) x"
      using r(2) hx by (cases "act x") (auto simp: phase_of_def)
  qed
  moreover have "phase_of act ?q b = Idle" using b by (simp add: phase_of_def)
  moreover have "io_of s' = io_of s" using sub by (simp add: submitted_def)
  ultimately show ?thesis using io_start [of "phase_of act ?q" b "io_of s" w] by (simp add: vabs_def)
qed

lemma serve_sim:
  assumes inv: "calls_ok act s" "rings_ok act pos pend s" and h: "h \<in> set pend" "act b = Some (h, w)"
    and s': "s' = complete h h len (disk_rw b w s)" and p: "pend' = remove1 h pend"
  shows "io_step\<^sup>*\<^sup>* (vabs (act, pos, pend, s)) (vabs (act, pos, pend', s'))"
proof -
  note r = serve_ok [OF inv h s' p]
  let ?q = "set (queued pos pend s)"
  have hq: "h \<in> ?q" using h(1) by (simp add: queued_def)
  have "phase_of act (?q - {h}) = (phase_of act ?q)(b := Served w)"
  proof
    fix x
    have "x = b" if "act x = Some (h, w')" for w' using head_unique [OF inv(1) h(2) that] .
    then show "phase_of act (?q - {h}) x = ((phase_of act ?q)(b := Served w)) x"
      using h(2) by (cases "act x") (auto simp: phase_of_def)
  qed
  moreover have "phase_of act ?q b = Busy w" using h(2) hq by (simp add: phase_of_def)
  ultimately show ?thesis using io_serve' [of "phase_of act ?q" b w s] r(3,4) by (simp add: vabs_def)
qed

lemma device_sim:
  assumes inv: "calls_ok act s" "rings_ok act pos pend s" and st: "device_step (pos, pend, s) (pos', pend', s')"
  shows "calls_ok act s' \<and> rings_ok act pos' pend' s' \<and> io_step\<^sup>*\<^sup>* (vabs (act, pos, pend, s)) (vabs (act, pos', pend', s'))"
  using st
proof (cases rule: device_step.cases)
  case dev_fetch
  note f = fetch_ok [OF inv(2) dev_fetch(4) dev_fetch(2)]
  from f inv(1) dev_fetch show ?thesis by (simp add: vabs_def)
next
  case (dev_serve h q b k len)
  have hm: "h \<in> set (queued pos pend s @ used_heads s)" using dev_serve(4) by (simp add: queued_def)
  obtain b' w where b: "act b' = Some (h, w)" "chain_ok s b' h w" using ring_heads(3) [OF inv hm] by blast
  have eq: "q = h" "b = b'" "k = h" using dev_serve b(2) by (simp_all add: chain_ok_def)
  have s': "s' = complete h h len (disk_rw b' w s)" using dev_serve(3) transfer_disk_rw [OF b(2)] by (simp add: eq)
  from serve_ok [OF inv dev_serve(4) b(1) s' dev_serve(2)] serve_sim [OF inv dev_serve(4) b(1) s' dev_serve(2)] dev_serve(1)
  show ?thesis by simp
qed

lemma rings_frame:
  assumes "rings_ok act pos pend s" "vq_avail s' = vq_avail s" "vq_used s' = vq_used s" "vq_used_idx s' = vq_used_idx s"
    "vq_info s' = vq_info s" "b_disk s' = b_disk s"
  shows "rings_ok act pos pend s'" "queued pos pend s' = queued pos pend s"
proof -
  have e: "queued pos pend s' = queued pos pend s" "used_heads s' = used_heads s" using assms by (simp_all add: queued_def used_heads_def)
  then show "queued pos pend s' = queued pos pend s" by simp
  show "rings_ok act pos pend s'" using assms(1,5,6) unfolding rings_ok_def e by simp
qed

lemma wait_sim:
  assumes inv: "calls_ok act s" "rings_ok act pos pend s" and f: "vq_free s' = vq_free s"
    "\<forall>i. \<not> vq_free s i \<longrightarrow> vq_desc s' i = vq_desc s i" "vrest s s'"
  shows "calls_ok act s'" "rings_ok act pos pend s'" "vabs (act, pos, pend, s') = vabs (act, pos, pend, s)"
proof -
  show "calls_ok act s'" by (rule calls_ok_frame [OF inv(1)]) (use f in \<open>simp_all add: vrest_def\<close>)
  note rf = rings_frame [OF inv(2), of s']
  show "rings_ok act pos pend s'" by (rule rf(1)) (use f(3) in \<open>simp_all add: vrest_def\<close>)
  have "queued pos pend s' = queued pos pend s" by (rule rf(2)) (use f(3) in \<open>simp_all add: vrest_def\<close>)
  then show "vabs (act, pos, pend, s') = vabs (act, pos, pend, s)" using f(3) by (simp add: vabs_def io_of_def vrest_def)
qed

lemma finish_sim:
  assumes b: "act b = Some (h, w)" and q: "queued pos pend s' = queued pos pend s" "h \<notin> set (queued pos pend s)" and io: "io_of s' = io_of s"
  shows "io_step\<^sup>*\<^sup>* (vabs (act, pos, pend, s)) (vabs (act(b := None), pos, pend, s'))"
proof -
  let ?q = "set (queued pos pend s)"
  have "phase_of (act(b := None)) ?q = (phase_of act ?q)(b := Idle)" by (auto simp: phase_of_def)
  moreover have "phase_of act ?q b = Served w" using b q by (simp add: phase_of_def)
  ultimately show ?thesis using io_finish [of "phase_of act ?q" b w "io_of s"] q io by (simp add: vabs_def)
qed

lemma other_sim:
  assumes inv: "calls_ok act s" "rings_ok act pos pend s" and o: "other_code act s s'"
  shows "calls_ok act s'" "rings_ok act pos pend s'" "io_step\<^sup>*\<^sup>* (vabs (act, pos, pend, s)) (vabs (act, pos, pend, s'))"
proof -
  show "calls_ok act s'" by (rule calls_ok_frame [OF inv(1)]) (use o in \<open>simp_all add: other_code_def\<close>)
  note rf = rings_frame [OF inv(2), of s']
  show "rings_ok act pos pend s'" by (rule rf(1)) (use o in \<open>simp_all add: other_code_def\<close>)
  have q: "queued pos pend s' = queued pos pend s" by (rule rf(2)) (use o in \<open>simp_all add: other_code_def\<close>)
  let ?ph = "phase_of act (set (queued pos pend s))"
  have "bufs s' ! b = bufs s ! b" if "?ph b \<noteq> Idle" for b
    using that o by (auto simp: phase_of_def other_code_def split: option.splits)
  then have "io_step (?ph, bufs s, dsk s, wtrace s) (?ph, bufs s', dsk s, wtrace s)"
    using o by (intro io_other) (simp_all add: other_code_def)
  then show "io_step\<^sup>*\<^sup>* (vabs (act, pos, pend, s)) (vabs (act, pos, pend, s'))"
    using q o by (simp add: vabs_def io_of_def other_code_def)
qed

lemma vstep_sim:
  fixes x y :: "'a vsys"
  assumes "vstep device_step x y" "vinv x"
  shows "vinv y \<and> io_step\<^sup>*\<^sup>* (vabs x) (vabs y)"
  using assms
proof (induction rule: vstep.induct)
  case (v_submit act b s w h s' pos pend)
  then obtain i1 i2 where sub: "submitted b w h i1 i2 s s'" using disk_submit_ok [of b w s] by auto
  from v_submit have inv: "calls_ok act s" "rings_ok act pos pend s" by (simp_all add: vinv_def)
  from submit_calls [OF inv(1) v_submit(1-3) sub] submit_rings(1) [OF inv v_submit(1) sub] submit_sim [OF inv v_submit(1) sub]
  show ?case by (simp add: vinv_def)
next
  case (v_wait act b w s s' pos pend)
  then have f: "vq_free s' = vq_free s" "\<forall>i. \<not> vq_free s i \<longrightarrow> vq_desc s' i = vq_desc s i" "vrest s s'"
    using disk_submit_ok [of b w s] by auto
  from v_wait have inv: "calls_ok act s" "rings_ok act pos pend s" by (simp_all add: vinv_def)
  from wait_sim [OF inv f] show ?case by (simp add: vinv_def)
next
  case (v_dev pos pend s d act)
  then show ?case using device_sim [of act s pos pend] by (cases d) (simp add: vinv_def)
next
  case (v_intr irq s s' act pos pend)
  then show ?case using intr_ok [of act s pos pend irq] by (auto simp: vinv_def vabs_def)
next
  case (v_finish act b h w s s' pos pend)
  then have inv: "calls_ok act s" "rings_ok act pos pend s" by (simp_all add: vinv_def)
  from finish_ok [OF inv v_finish(1,2)] v_finish(3) have f: "calls_ok (act(b := None)) s'" "rings_ok (act(b := None)) pos pend s'"
    "io_of s' = io_of s" "queued pos pend s' = queued pos pend s" "h \<notin> set (queued pos pend s)" by auto
  from finish_sim [of act b h w pos pend s' s, OF v_finish(1) f(4,5,3)] f(1,2) show ?case by (simp add: vinv_def)
next
  case (v_other act s s' pos pend)
  then have inv: "calls_ok act s" "rings_ok act pos pend s" by (simp_all add: vinv_def)
  from other_sim [OF inv v_other(1)] show ?case by (simp add: vinv_def)
qed

lemma vinit_vinv:
  assumes "vinit x"
  shows "vinv x"
proof -
  obtain rd s0 s where x: "x = (Map.empty, 0, [], s)" "virtio_disk_init rd s0 = Ok s" "vq_used_idx s0 = 0"
    using assms by (cases x) (auto simp: vinit_def)
  have kalloc: "vq_used_idx (snd (kalloc t)) = vq_used_idx t" for t :: "'a vdiskst_scheme" by (simp add: kalloc_def Let_def)
  have "vq_used_idx s = 0 \<and> va_idx (vq_avail s) = 0 \<and> vu_idx (vq_used s) = 0 \<and> (\<forall>i<NUM. vq_free s i)"
    using x(2,3) unfolding virtio_disk_init_def virtio_queue_pages_def
    by (auto simp: Let_def split_beta virtio_store_def kalloc split: if_splits)
  then show ?thesis by (simp add: x(1) vinv_def calls_ok_def rings_ok_def queued_def used_heads_def)
qed

interpretation vq: transition_system vinit "vstep device_step" vinv
  by unfold_locales (use vinit_vinv vstep_sim in blast)+

lemma vstep_mono: "(\<And>x y. dev x y \<Longrightarrow> device_step x y) \<Longrightarrow> vstep dev x y \<Longrightarrow> vstep device_step x y"
  by (erule vstep.cases) (auto intro: vstep.intros)

lemma vsteps_mono:
  assumes "\<And>x y. dev x y \<Longrightarrow> device_step x y" "(vstep dev)\<^sup>*\<^sup>* x y"
  shows "(vstep device_step)\<^sup>*\<^sup>* x y"
  using assms(2) by (induction rule: rtranclp_induct) (auto intro: rtranclp.rtrancl_into_rtrancl vstep_mono [OF assms(1)])

lemma vsteps_sim:
  assumes "(vstep device_step)\<^sup>*\<^sup>* x y" "vinv x"
  shows "io_step\<^sup>*\<^sup>* (vabs x) (vabs y)"
  using assms
proof (induction rule: rtranclp_induct)
  case (step y z)
  from vq.steps_inv [OF step(1) step.prems] have "vinv y" .
  from vstep_sim [OF step(2) this] step.IH [OF step.prems] show ?case by (meson rtranclp_trans)
qed simp

text \<open>The way of one request: fetched, served, seen by the interrupt handler, finished.\<close>

lemma fetch_all:
  assumes "vinv (act, pos, pend, s)"
  shows "\<exists>pos' pend'. (vstep device_step)\<^sup>*\<^sup>* (act, pos, pend, s) (act, pos', pend', s) \<and> pos' = va_idx (vq_avail s)"
  using assms
proof (induction "unat (va_idx (vq_avail s) - pos)" arbitrary: pos pend rule: less_induct)
  case less
  show ?case
  proof (cases "pos = va_idx (vq_avail s)")
    case False
    let ?p = "pend @ [unat (va_ring (vq_avail s) (unat pos mod NUM))]"
    have st: "vstep device_step (act, pos, pend, s) (act, pos + 1, ?p, s)" by (intro v_dev dev_fetch) (rule False)
    then have "vinv (act, pos + 1, ?p, s)" using vstep_sim less.prems by blast
    from less.hyps [OF u16_gap [OF False] this] st show ?thesis by (meson converse_rtranclp_into_rtranclp)
  qed blast
qed

lemma request_served:
  assumes inv: "vinv (act, pos, pend, s)" and b: "act b = Some (h, w)"
  shows "\<exists>y. (vstep device_step)\<^sup>*\<^sup>* (act, pos, pend, s) y \<and> fst y b = None"
proof -
  note reach = vq.steps_inv
  obtain pos1 pend1 where 1: "(vstep device_step)\<^sup>*\<^sup>* (act, pos, pend, s) (act, pos1, pend1, s)" "pos1 = va_idx (vq_avail s)"
    using fetch_all [OF inv] by blast
  note inv1 = reach [OF 1(1) inv]
  have c1: "calls_ok act s" "rings_ok act pos1 pend1 s" using inv1 by (simp_all add: vinv_def)
  have q1: "queued pos1 pend1 s = pend1" using 1(2) by (simp add: queued_def)
  have ch: "chain_ok s b h w" by (rule calls_chain(1) [OF c1(1) b])
  obtain pend2 s2 where 2: "(vstep device_step)\<^sup>*\<^sup>* (act, pos1, pend1, s) (act, pos1, pend2, s2)" "h \<notin> set (queued pos1 pend2 s2)"
  proof (cases "h \<in> set pend1")
    case True
    let ?s2 = "complete h h 0 (disk_rw b w s)"
    have "device_step (pos1, pend1, s) (pos1, remove1 h pend1, complete h h 0
        (transfer (rq_type (vq_ops s h)) (rq_sector (vq_ops s h)) (vd_flags (vq_desc s (nxt s h))) b s))"
      by (rule dev_serve [OF True]) (use ch in \<open>auto simp: chain_ok_def\<close>)
    then have st: "vstep device_step (act, pos1, pend1, s) (act, pos1, remove1 h pend1, ?s2)"
      unfolding transfer_disk_rw [OF ch] by (rule v_dev)
    from serve_ok(3) [OF c1 True b refl refl] have "h \<notin> set (queued pos1 (remove1 h pend1) ?s2)" by simp
    with that st show thesis by blast
  next
    case False
    then show thesis using that [of pend1 s] q1 by simp
  qed
  have c2: "calls_ok act s2" "rings_ok act pos1 pend2 s2" using reach [OF 2(1) inv1] by (simp_all add: vinv_def)
  obtain s3 where 3: "virtio_disk_intr 1 s2 = Ok s3" "calls_ok act s3" "rings_ok act pos1 pend2 s3"
    "queued pos1 pend2 s3 = queued pos1 pend2 s2" "used_heads s3 = []"
    using intr_ok [OF c2] by blast
  have nd: "\<not> b_disk s3 b" using 3(3) 2(2) b unfolding rings_ok_def 3(4,5) by auto
  obtain s4 where 4: "disk_finish h s3 = Ok s4" using finish_ok [OF 3(2,3) b nd] by blast
  have "vstep device_step (act, pos1, pend2, s2) (act, pos1, pend2, s3)" by (rule v_intr [OF 3(1)])
  moreover have "vstep device_step (act, pos1, pend2, s3) (act(b := None), pos1, pend2, s4)" by (rule v_finish [where act = act and b = b, OF b nd 4])
  ultimately have "(vstep device_step)\<^sup>*\<^sup>* (act, pos, pend, s) (act(b := None), pos1, pend2, s4)"
    using 1(1) 2(1) by (meson rtranclp.rtrancl_into_rtrancl rtranclp_trans)
  then show ?thesis by (intro exI [of _ "(act(b := None), pos1, pend2, s4)"]) simp
qed

section \<open>Properties\<close>

text \<open>A device that fetches all that is available and then serves in order, and a machine that has just
  booted.\<close>

definition inorder_dev :: "'a devst \<Rightarrow> 'a devst \<Rightarrow> bool" where
  "inorder_dev = (\<lambda>(pos, pend, s) y.
     if pos \<noteq> va_idx (vq_avail s) then y = (pos + 1, pend @ [unat (va_ring (vq_avail s) (unat pos mod NUM))], s)
     else device_step (pos, pend, s) y \<and> (\<exists>h. pend = h # fst (snd y)))"

lemma inorder_dev_spec: "\<forall>x y. inorder_dev x y \<longrightarrow> device_step x y"
  by (auto simp: inorder_dev_def dev_fetch split: if_splits)

definition ex_regs :: "u32 \<Rightarrow> u32" where
  "ex_regs r = (if r = 0 then 0x74726976 else if r = 4 \<or> r = 8 then 2 else if r = 0xc then 0x554d4551
     else if r = 0x70 then 11 else if r = 0x34 then 1024 else 0)"

definition ex_vdisk :: "kmem \<Rightarrow> vdiskst" where
  "ex_vdisk k = \<lparr>pmem = pmem k, kend = kend k, freelist = freelist k, refcnt = refcnt k, procs = [], cur = 0,
     bufs = [\<lparr>b_valid = False, b_dev = 1, b_blockno = 33, b_lock = initsleeplock ''buffer'', b_refcnt = 1, b_data = replicate 1024 7\<rparr>],
     lru = [0], dsk = (\<lambda>_. []), wtrace = [], log_start = 2, log_outstanding = 0, log_committing = False, log_dev = 1,
     lh_n = 0, lh_block = [], sblk = \<lparr>sb_magic = 0, sb_size = 0, sb_nblocks = 0, sb_ninodes = 0, sb_nlog = 0, sb_logstart = 0,
     sb_inodestart = 0, sb_bmapstart = 0\<rparr>, itable = [], cons_buf = [], cons_r = 0, cons_w = 0, cons_e = 0, tx_busy = False,
     uart_w = [], panicked = False, pipes = (\<lambda>_. \<lparr>pi_data = [], pi_nread = 0, pi_nwrite = 0, pi_readopen = False, pi_writeopen = False\<rparr>),
     ftable = [], nextpid = 1, initproc = None, ticks = 0, trampoline = 0, forkret_addr = 0,
     vq_desc_page = 0, vq_avail_page = 0, vq_used_page = 0, vq_desc = (\<lambda>_. zero_desc),
     vq_avail = \<lparr>va_flags = 0, va_idx = 0, va_ring = (\<lambda>_. 0)\<rparr>,
     vq_used = \<lparr>vu_flags = 0, vu_idx = 0, vu_ring = (\<lambda>_. \<lparr>ue_id = 0, ue_len = 0\<rparr>)\<rparr>, vq_free = (\<lambda>_. False), vq_used_idx = 0,
     vq_info = (\<lambda>_. \<lparr>in_b = None, in_status = 0\<rparr>), vq_ops = (\<lambda>_. \<lparr>rq_type = 0, rq_reserved = 0, rq_sector = 0\<rparr>),
     b_disk = (\<lambda>_. False), virtio_w = []\<rparr>"

lemma ex_vdisk_init:
  "\<exists>k s. kinit ex_ram = Ok k \<and> virtio_disk_init ex_regs (ex_vdisk k) = Ok s \<and> vinit (Map.empty, 0, [], s) \<and>
     bufs s = bufs (ex_vdisk k) \<and> (\<forall>i<NUM. vq_free s i)"
proof -
  have e: "KERNBASE \<le> kend ex_ram" "kend ex_ram \<le> PHYSTOP" "freelist ex_ram = 0" by (simp_all add: ex_ram_def)
  obtain k ps where k: "kinit ex_ram = Ok k" "kmem_inv k [] ps" "set ps = {p. page_ok ex_ram p}" using kinit_rep [OF e] by blast
  obtain a b c qs where ps: "ps = a # b # c # qs"
    using ex_ram_pages [OF k(3)] by (cases ps; cases "tl ps"; cases "tl (tl ps)") auto
  have kc: "kmem_inv t [] (x # xs) \<Longrightarrow> fst (kalloc t) = x \<and> x \<noteq> 0 \<and> kmem_inv (snd (kalloc t)) [] xs" for t :: vdiskst and x xs
    using kalloc_Cons [of t "[]" x xs] by (auto simp: kmem_inv_def)
  have "\<exists>s. virtio_queue_pages ((ex_vdisk k)\<lparr>virtio_w := w\<rparr>) = Ok s \<and> bufs s = bufs (ex_vdisk k) \<and> virtio_w s = w" for w
  proof -
    let ?t = "(ex_vdisk k)\<lparr>virtio_w := w\<rparr>"
    have "kmem_inv ?t [] ps" using k(2) by (simp add: kmem_inv_def page_ok_def ex_vdisk_def)
    from kc [OF this [unfolded ps]] have 1: "fst (kalloc ?t) \<noteq> 0" "kmem_inv (snd (kalloc ?t)) [] (b # c # qs)" by auto
    from kc [OF 1(2)] have 2: "fst (kalloc (snd (kalloc ?t))) \<noteq> 0" "kmem_inv (snd (kalloc (snd (kalloc ?t)))) [] (c # qs)" by auto
    from kc [OF 2(2)] have 3: "fst (kalloc (snd (kalloc (snd (kalloc ?t))))) \<noteq> 0" by auto
    have fr: "bufs (snd (kalloc u)) = bufs u" "virtio_w (snd (kalloc u)) = virtio_w u" for u :: vdiskst by (simp_all add: kalloc_def Let_def)
    show ?thesis unfolding virtio_queue_pages_def using 1(1) 2(1) 3 by (simp add: split_beta Let_def fr)
  qed
  note q = this
  let ?w = "[(0x070, 0), (0x070, 1), (0x070, 3), (0x020, virtio_features (ex_regs 0x010)), (0x070, 11), (0x030, 0)] :: (u32 \<times> u32) list"
  obtain s1 where s1: "virtio_queue_pages ((ex_vdisk k)\<lparr>virtio_w := ?w\<rparr>) = Ok s1" "bufs s1 = bufs (ex_vdisk k)" using q by blast
  have "virtio_w (ex_vdisk k) = []" "ex_regs 0x70 AND 8 \<noteq> 0" by (simp_all add: ex_vdisk_def ex_regs_def)
  then obtain s where s: "virtio_disk_init ex_regs (ex_vdisk k) = Ok s" "bufs s = bufs (ex_vdisk k)" "\<forall>i<NUM. vq_free s i"
    using s1 by (simp add: virtio_disk_init_def virtio_store_def ex_regs_def Let_def)
  moreover have "vinit (Map.empty, 0, [], s)" 
  proof -
    have "vq_used_idx (ex_vdisk k) = 0" by (simp add: ex_vdisk_def)
    with s(1) show ?thesis unfolding vinit_def by blast
  qed
  ultimately show ?thesis using k(1) by blast
qed

lemma ex_submit:
  assumes "\<forall>i<NUM. vq_free s i"
  shows "\<exists>s'. disk_submit b w s = Ok (Some 0, s')"
proof -
  have "find (vq_free s) [0..<NUM] = Some 0" using assms by (simp add: upt_conv_Cons)
  moreover have "find ((vq_free s)(0 := False)) [0..<NUM] = Some 1" using assms by (simp add: upt_conv_Cons)
  moreover have "find ((vq_free s)(0 := False, 1 := False)) [0..<NUM] = Some 2" using assms by (simp add: upt_conv_Cons eval_nat_numeral)
  ultimately show ?thesis by (simp add: disk_submit_def alloc3_desc_def alloc_desc_def eval_nat_numeral)
qed

text \<open>A request submitted to a freshly booted disk and fetched by the in-order device.\<close>

lemma ex_vrun:
  "\<exists>x s y. vinit x \<and> (vstep inorder_dev)\<^sup>*\<^sup>* x y \<and> y = ([0 \<mapsto> (0, True)], 1, [0], s :: vdiskst)"
proof -
  obtain k and s :: vdiskst where i: "vinit (Map.empty, 0, [], s)" "bufs s = bufs (ex_vdisk k)" "\<forall>i<NUM. vq_free s i" using ex_vdisk_init by blast
  obtain s1 where s1: "disk_submit 0 True s = Ok (Some 0, s1)" using ex_submit [OF i(3)] by blast
  have b: "0 < length (bufs s)" "unat (b_blockno (bufs s ! 0)) < 2 ^ 31" using i(2) by (simp_all add: ex_vdisk_def)
  have st: "vstep inorder_dev (Map.empty, 0, [], s) ([0 \<mapsto> (0, True)], 0, [], s1)"
    by (rule v_submit [OF _ b s1]) simp
  obtain i1 i2 where sub: "submitted 0 True 0 i1 i2 s s1" using disk_submit_ok [of 0 True s] s1 by auto
  have av: "va_idx (vq_avail s) = 0"
    using i(1) unfolding vinit_def virtio_disk_init_def virtio_queue_pages_def
    by (auto simp: Let_def split_beta virtio_store_def split: if_splits)
  have "va_idx (vq_avail s1) = 1" "va_ring (vq_avail s1) 0 = 0" using sub av by (simp_all add: submitted_def)
  then have "inorder_dev (0, [], s1) (1, [0], s1)" by (simp add: inorder_dev_def)
  then have "vstep inorder_dev ([0 \<mapsto> (0, True)], 0, [], s1) ([0 \<mapsto> (0, True)], 1, [0], s1)" by (rule v_dev)
  with st i(1) show ?thesis by (meson r_into_rtranclp rtranclp.rtrancl_into_rtrancl)
qed







end
