(* ===== verification/Sleepwake.thy ===== *)
theory Sleepwake
  imports Trap
begin

text \<open>
  Sleeping and waking up (\<^verbatim>\<open>sleep\<close>, \<^verbatim>\<open>wakeup\<close>, \<^verbatim>\<open>kkill\<close> and \<^verbatim>\<open>scheduler\<close> of \<^verbatim>\<open>kernel/proc.c\<close>) at the
  granularity of their locks.  Any number of processes wait for a condition in a loop, others make it true
  and wake them up, and the schedulers of the harts run what is runnable.  The condition is guarded by the lock
  \<open>lk\<close> that is passed to \<^verbatim>\<open>sleep\<close>; the state of a process is guarded by its own lock.
\<close>

section \<open>The parts of the code\<close>

text \<open>What \<^verbatim>\<open>sleep\<close> does to the process before and after it gives up the processor, what \<^verbatim>\<open>scheduler\<close> does to
  the one it runs, and what \<^verbatim>\<open>kkill\<close> does to a sleeping one.\<close>

definition sleep_mark :: "chan \<Rightarrow> proc \<Rightarrow> proc" where
  "sleep_mark ch p = p\<lparr>p_chan := ch, p_state := SLEEPING\<rparr>"

definition sleep_tidy :: "proc \<Rightarrow> proc" where
  "sleep_tidy p = p\<lparr>p_chan := ChNone\<rparr>"

definition sched_run :: "proc \<Rightarrow> proc" where
  "sched_run p = p\<lparr>p_state := RUNNING\<rparr>"

definition kill_mark :: "proc \<Rightarrow> proc" where
  "kill_mark p = (let p = p\<lparr>p_killed := 1\<rparr> in if p_state p = SLEEPING then p\<lparr>p_state := RUNNABLE\<rparr> else p)"

lemma sleep_parts:
  "sleep ch s = sched True 1 False (set_myproc (sleep_mark ch (myproc s)) s)"
  "sleep_done s = set_myproc (sleep_tidy (myproc s)) s"
  by (simp_all add: sleep_def sleep_mark_def sleep_done_def sleep_tidy_def)

section \<open>Interleaving\<close>

text \<open>Where a process is.  A waiter has \<open>lk\<close> and tests the condition (\<open>Test\<close>), has found it false and calls
  \<^verbatim>\<open>sleep\<close> (\<open>Sleep1\<close>), has its own lock as well (\<open>Sleep2\<close>), has released \<open>lk\<close> (\<open>Sleep3\<close>), has given up
  the processor (\<open>Asleep\<close>), runs again (\<open>Woken\<close>), and has released its own lock and wants \<open>lk\<close>
  (\<open>Again\<close>).  A waker has \<open>lk\<close>, has made the condition true, and its loop over the process table is
  about to look at process \<open>j\<close> (\<open>Scan j\<close>) or has the lock of process \<open>j\<close> (\<open>Look j\<close>).\<close>

datatype swpc = Away | Test | Sleep1 | Sleep2 | Sleep3 | Asleep | Woken | Again | Scan nat | Look nat

text \<open>Who holds the lock of a process: a process, or a hart in its scheduler.\<close>

datatype holder = Nobody | ByProc nat | BySched

record sw =
  sw_pc :: "nat \<Rightarrow> swpc"
  sw_lk :: "nat option"
  sw_plk :: "nat \<Rightarrow> holder"
  sw_proc :: "nat \<Rightarrow> proc"
  sw_cond :: bool

definition goto :: "nat \<Rightarrow> swpc \<Rightarrow> sw \<Rightarrow> sw" where
  "goto i c s = s\<lparr>sw_pc := (sw_pc s)(i := c)\<rparr>"

definition plock :: "nat \<Rightarrow> holder \<Rightarrow> sw \<Rightarrow> sw" where
  "plock i h s = s\<lparr>sw_plk := (sw_plk s)(i := h)\<rparr>"

definition upd_proc :: "nat \<Rightarrow> proc \<Rightarrow> sw \<Rightarrow> sw" where
  "upd_proc i p s = s\<lparr>sw_proc := (sw_proc s)(i := p)\<rparr>"

definition lk_to :: "nat option \<Rightarrow> sw \<Rightarrow> sw" where
  "lk_to h s = s\<lparr>sw_lk := h\<rparr>"

inductive sw_step :: "chan \<Rightarrow> sw \<Rightarrow> sw \<Rightarrow> bool" for ch where
  sw_acquire: "sw_pc s i = Away \<Longrightarrow> i < NPROC \<Longrightarrow> sw_lk s = None \<Longrightarrow> p_state (sw_proc s i) = RUNNING \<Longrightarrow>
    sw_step ch s (goto i Test (lk_to (Some i) s))"
| sw_false: "sw_pc s i = Test \<Longrightarrow> \<not> sw_cond s \<Longrightarrow> sw_step ch s (goto i Sleep1 s)"
| sw_true: "sw_pc s i = Test \<Longrightarrow> sw_cond s \<Longrightarrow> sw_step ch s (goto i Away (lk_to None (s\<lparr>sw_cond := c\<rparr>)))"
| sw_set: "sw_pc s i = Test \<Longrightarrow> sw_step ch s (goto i (Scan 0) (s\<lparr>sw_cond := True\<rparr>))"
| sw_own: "sw_pc s i = Sleep1 \<Longrightarrow> sw_plk s i = Nobody \<Longrightarrow> sw_step ch s (goto i Sleep2 (plock i (ByProc i) s))"
| sw_release: "sw_pc s i = Sleep2 \<Longrightarrow> sw_step ch s (goto i Sleep3 (lk_to None s))"
| sw_mark: "sw_pc s i = Sleep3 \<Longrightarrow>
    sw_step ch s (goto i Asleep (plock i BySched (upd_proc i (sleep_mark ch (sw_proc s i)) s)))"
| sw_sched_release: "sw_plk s i = BySched \<Longrightarrow> sw_step ch s (plock i Nobody s)"
| sw_sched_run: "sw_plk s i = Nobody \<Longrightarrow> sw_pc s i = Asleep \<Longrightarrow> p_state (sw_proc s i) = RUNNABLE \<Longrightarrow>
    sw_step ch s (goto i Woken (plock i (ByProc i) (upd_proc i (sched_run (sw_proc s i)) s)))"
| sw_tidy: "sw_pc s i = Woken \<Longrightarrow> sw_step ch s (goto i Again (plock i Nobody (upd_proc i (sleep_tidy (sw_proc s i)) s)))"
| sw_again: "sw_pc s i = Again \<Longrightarrow> sw_lk s = None \<Longrightarrow> sw_step ch s (goto i Test (lk_to (Some i) s))"
| sw_skip: "sw_pc s i = Scan i \<Longrightarrow> sw_step ch s (goto i (Scan (Suc i)) s)"
| sw_look: "sw_pc s i = Scan j \<Longrightarrow> j < NPROC \<Longrightarrow> j \<noteq> i \<Longrightarrow> sw_plk s j = Nobody \<Longrightarrow>
    sw_step ch s (goto i (Look j) (plock j (ByProc i) s))"
| sw_wake: "sw_pc s i = Look j \<Longrightarrow>
    sw_step ch s (goto i (Scan (Suc j)) (plock j Nobody (upd_proc j (wakeup_proc ch i j (sw_proc s j)) s)))"
| sw_done: "sw_pc s i = Scan NPROC \<Longrightarrow> sw_step ch s (goto i Away (lk_to None s))"
| sw_kill: "sw_plk s i = Nobody \<Longrightarrow> sw_step ch s (upd_proc i (kill_mark (sw_proc s i)) s)"

text \<open>At the start nobody is at work and nobody sleeps on the channel.\<close>

definition sw_init :: "chan \<Rightarrow> sw \<Rightarrow> bool" where
  "sw_init ch s \<longleftrightarrow> sw_lk s = None \<and> (\<forall>i. sw_pc s i = Away \<and> sw_plk s i = Nobody \<and> \<not> (p_state (sw_proc s i) = SLEEPING \<and> p_chan (sw_proc s i) = ch))"

section \<open>The invariant\<close>

definition has_lk :: "swpc \<Rightarrow> bool" where
  "has_lk c \<longleftrightarrow> (case c of Test \<Rightarrow> True | Sleep1 \<Rightarrow> True | Sleep2 \<Rightarrow> True | Scan j \<Rightarrow> True | Look j \<Rightarrow> True | _ \<Rightarrow> False)"

text \<open>A process that sleeps on the channel is at \<open>Asleep\<close>; one that is about to is at \<open>Sleep3\<close>.  If then the
  condition is true, there is a waker that has not yet come by.\<close>

definition dozing :: "chan \<Rightarrow> sw \<Rightarrow> nat \<Rightarrow> bool" where
  "dozing ch s i \<longleftrightarrow> sw_pc s i = Sleep3 \<or> p_state (sw_proc s i) = SLEEPING \<and> p_chan (sw_proc s i) = ch"

definition coming :: "sw \<Rightarrow> nat \<Rightarrow> bool" where
  "coming s i \<longleftrightarrow> (\<exists>k j. (sw_pc s k = Scan j \<or> sw_pc s k = Look j) \<and> j \<le> i)"

definition lk_inv :: "sw \<Rightarrow> bool" where
  "lk_inv s \<longleftrightarrow> (\<forall>i. has_lk (sw_pc s i) \<longleftrightarrow> sw_lk s = Some i)"

definition plk_inv :: "sw \<Rightarrow> bool" where
  "plk_inv s \<longleftrightarrow> (\<forall>i. sw_pc s i \<in> {Sleep2, Sleep3, Woken} \<longrightarrow> sw_plk s i = ByProc i) \<and>
     (\<forall>k j. sw_pc s k = Look j \<longrightarrow> sw_plk s j = ByProc k \<and> k \<noteq> j)"

definition cond_inv :: "sw \<Rightarrow> bool" where
  "cond_inv s \<longleftrightarrow> (\<forall>i. sw_pc s i \<in> {Sleep1, Sleep2} \<longrightarrow> \<not> sw_cond s)"

definition proc_inv :: "chan \<Rightarrow> sw \<Rightarrow> bool" where
  "proc_inv ch s \<longleftrightarrow> (\<forall>i. (sw_pc s i \<noteq> Away \<longrightarrow> i < NPROC) \<and>
     (p_state (sw_proc s i) = SLEEPING \<and> p_chan (sw_proc s i) = ch \<longrightarrow> sw_pc s i = Asleep) \<and>
     (sw_pc s i = Woken \<longrightarrow> p_state (sw_proc s i) = RUNNING))"

definition wake_inv :: "chan \<Rightarrow> sw \<Rightarrow> bool" where
  "wake_inv ch s \<longleftrightarrow> (sw_cond s \<longrightarrow> (\<forall>i. dozing ch s i \<longrightarrow> coming s i))"

definition sw_inv :: "chan \<Rightarrow> sw \<Rightarrow> bool" where
  "sw_inv ch s \<longleftrightarrow> lk_inv s \<and> plk_inv s \<and> cond_inv s \<and> proc_inv ch s \<and> wake_inv ch s"

lemmas sw_defs = goto_def plock_def upd_proc_def lk_to_def

lemma lk_step: "sw_step ch s t \<Longrightarrow> lk_inv s \<Longrightarrow> lk_inv t"
  by (erule sw_step.cases) (auto simp: lk_inv_def sw_defs has_lk_def split: swpc.splits)

lemma has_lk_simps [simp]: "has_lk Test" "has_lk Sleep1" "has_lk Sleep2" "has_lk (Scan j)" "has_lk (Look j)"
  by (simp_all add: has_lk_def)

lemma lk_unique: "lk_inv s \<Longrightarrow> has_lk (sw_pc s i) \<Longrightarrow> has_lk (sw_pc s k) \<Longrightarrow> k = i"
  by (auto simp: lk_inv_def)

lemma look_unique: "plk_inv s \<Longrightarrow> sw_pc s i = Look j \<Longrightarrow> sw_pc s k = Look j \<Longrightarrow> k = i"
  unfolding plk_inv_def by (metis holder.inject)

lemma plk_step: "sw_step ch s t \<Longrightarrow> plk_inv s \<Longrightarrow> plk_inv t"
proof (induction rule: sw_step.induct)
  case (sw_wake s i j)
  have "\<forall>k. k \<noteq> i \<longrightarrow> sw_pc s k \<noteq> Look j" using look_unique [OF sw_wake(2,1)] by blast
  with sw_wake show ?case by (auto simp: plk_inv_def sw_defs)
qed (auto simp: plk_inv_def sw_defs)

lemma cond_step: "sw_step ch s t \<Longrightarrow> lk_inv s \<Longrightarrow> cond_inv s \<Longrightarrow> cond_inv t"
proof (induction rule: sw_step.induct)
  case (sw_set s i)
  have "\<not> has_lk (sw_pc s k)" if "k \<noteq> i" for k using lk_unique [OF sw_set(2), of i k] sw_set(1) that by (auto simp: has_lk_def)
  then have "k = i \<or> sw_pc s k \<noteq> Sleep1 \<and> sw_pc s k \<noteq> Sleep2" for k by (metis has_lk_simps(2,3))
  then show ?case by (auto simp: cond_inv_def sw_defs)
next
  case (sw_true s i c)
  have "\<not> has_lk (sw_pc s k)" if "k \<noteq> i" for k using lk_unique [OF sw_true(3), of i k] sw_true(1) that by (auto simp: has_lk_def)
  then have "k = i \<or> sw_pc s k \<noteq> Sleep1 \<and> sw_pc s k \<noteq> Sleep2" for k by (metis has_lk_simps(2,3))
  then show ?case by (auto simp: cond_inv_def sw_defs)
qed (auto simp: cond_inv_def sw_defs)

lemma proc_step: "sw_step ch s t \<Longrightarrow> plk_inv s \<Longrightarrow> proc_inv ch s \<Longrightarrow> proc_inv ch t"
proof (induction rule: sw_step.induct)
  case (sw_wake s i j)
  then show ?case by (auto simp: proc_inv_def plk_inv_def sw_defs wakeup_proc_def)
next
  case (sw_kill s i)
  then show ?case by (auto simp: proc_inv_def plk_inv_def sw_defs kill_mark_def Let_def)
next
  case (sw_mark s i)
  then show ?case by (auto simp: proc_inv_def plk_inv_def sw_defs sleep_mark_def)
next
  case (sw_tidy s i)
  then show ?case by (auto simp: proc_inv_def plk_inv_def sw_defs sleep_tidy_def)
next
  case (sw_sched_run s i)
  then show ?case by (auto simp: proc_inv_def plk_inv_def sw_defs sched_run_def)
qed (auto simp: proc_inv_def sw_defs)

lemma coming_goto: "coming s i \<Longrightarrow> (\<And>j. sw_pc s k \<noteq> Scan j \<and> sw_pc s k \<noteq> Look j) \<Longrightarrow> sw_pc t = (sw_pc s)(k := c) \<Longrightarrow> coming t i"
  unfolding coming_def by (metis fun_upd_other)

lemma wake_other:
  assumes w: "wake_inv ch s" and pc: "sw_pc t = (sw_pc s)(k := c)" "\<And>j. sw_pc s k \<noteq> Scan j \<and> sw_pc s k \<noteq> Look j"
    and cond: "sw_cond t \<Longrightarrow> sw_cond s" and d: "\<And>i. sw_cond s \<Longrightarrow> dozing ch t i \<Longrightarrow> dozing ch s i"
  shows "wake_inv ch t"
  using assms(1,4,5) coming_goto [OF _ pc(2,1)] unfolding wake_inv_def by blast

text \<open>A waker that moves on leaves only processes behind it.\<close>

lemma wake_advance:
  assumes w: "wake_inv ch s" and pc: "sw_pc t = (sw_pc s)(k := c)" "sw_pc s k = Scan j \<or> sw_pc s k = Look j" "c = Scan j' \<or> c = Look j'"
    and cond: "sw_cond t = sw_cond s" and d: "\<And>i. dozing ch t i \<Longrightarrow> dozing ch s i \<and> (j \<le> i \<longrightarrow> j' \<le> i)"
  shows "wake_inv ch t"
  unfolding wake_inv_def
proof (intro impI allI)
  fix i assume "sw_cond t" "dozing ch t i"
  then have "coming s i" and j: "j \<le> i \<longrightarrow> j' \<le> i" using w cond d by (auto simp: wake_inv_def)
  then obtain k0 j0 where k: "sw_pc s k0 = Scan j0 \<or> sw_pc s k0 = Look j0" "j0 \<le> i" by (auto simp: coming_def)
  show "coming t i"
  proof (cases "k0 = k")
    case True
    then have "j0 = j" using k pc(2) by auto
    then show ?thesis using k(2) j pc(1,3) unfolding coming_def by (intro exI [of _ k] exI [of _ j']) auto
  next
    case False
    then show ?thesis using k pc(1) unfolding coming_def by (intro exI [of _ k0] exI [of _ j0]) auto
  qed
qed

lemma dozing_cases: "proc_inv ch s \<Longrightarrow> dozing ch s i \<Longrightarrow> sw_pc s i = Sleep3 \<or> sw_pc s i = Asleep"
  by (auto simp: dozing_def proc_inv_def)

lemma wake_step:
  assumes "sw_step ch s t" "lk_inv s" "plk_inv s" "cond_inv s" "proc_inv ch s" "wake_inv ch s"
  shows "wake_inv ch t"
  using assms
proof (induction rule: sw_step.induct)
  case (sw_set s i)
  have "coming (goto i (Scan 0) (s\<lparr>sw_cond := True\<rparr>)) k" for k
    unfolding coming_def by (intro exI [of _ i] exI [of _ 0]) (simp add: sw_defs)
  then show ?case by (simp add: wake_inv_def)
next
  case (sw_release s i)
  then have "\<not> sw_cond s" by (auto simp: cond_inv_def)
  then show ?case by (simp add: wake_inv_def sw_defs)
next
  case (sw_mark s i)
  show ?case
    by (rule wake_other [OF sw_mark(6), where k = i and c = Asleep]) (use sw_mark in \<open>auto simp: sw_defs dozing_def split: if_splits\<close>)
next
  case (sw_skip s i)
  have "\<not> dozing ch s i" using dozing_cases [OF sw_skip(5), of i] sw_skip(1) by auto
  then show ?case
    by (intro wake_advance [OF sw_skip(6), where k = i and c = "Scan (Suc i)" and j = i and j' = "Suc i"])
      (auto simp: sw_skip(1) sw_defs dozing_def Suc_le_eq le_less split: if_splits)
next
  case (sw_look s i j)
  then show ?case
    by (intro wake_advance [OF sw_look(9), where k = i and c = "Look j" and j = j and j' = j])
      (auto simp: sw_defs dozing_def split: if_splits)
next
  case (sw_wake s i j)
  let ?t = "goto i (Scan (Suc j)) (plock j Nobody (upd_proc j (wakeup_proc ch i j (sw_proc s j)) s))"
  have j: "sw_plk s j = ByProc i" "i \<noteq> j" using sw_wake(1,3) by (auto simp: plk_inv_def)
  then have "sw_pc s j \<noteq> Sleep3" using sw_wake(3) by (auto simp: plk_inv_def)
  then have nd: "\<not> dozing ch ?t j" using j(2) by (auto simp: sw_defs dozing_def wakeup_proc_def)
  have "dozing ch s k \<and> (j \<le> k \<longrightarrow> Suc j \<le> k)" if "dozing ch ?t k" for k
  proof (cases "k = j")
    case True
    then show ?thesis using nd that by simp
  next
    case False
    then show ?thesis using that by (auto simp: sw_defs dozing_def split: if_splits)
  qed
  then show ?case
    by (intro wake_advance [OF sw_wake(6), where k = i and c = "Scan (Suc j)" and j = j and j' = "Suc j"])
      (simp_all add: sw_wake(1) sw_defs)
next
  case (sw_done s i)
  let ?t = "goto i Away (lk_to None s)"
  show ?case unfolding wake_inv_def
  proof (intro impI allI)
    fix k assume c: "sw_cond ?t" "dozing ch ?t k"
    then have d: "sw_cond s" "dozing ch s k" by (auto simp: sw_defs dozing_def split: if_splits)
    from dozing_cases [OF sw_done(5) d(2)] have "sw_pc s k \<noteq> Away" by auto
    then have "k < NPROC" using sw_done(5) by (simp add: proc_inv_def)
    moreover obtain k0 j0 where k: "sw_pc s k0 = Scan j0 \<or> sw_pc s k0 = Look j0" "j0 \<le> k"
      using sw_done(6) d unfolding wake_inv_def coming_def by blast
    ultimately have "k0 \<noteq> i" using sw_done(1) by auto
    with k show "coming ?t k" unfolding coming_def by (intro exI [of _ k0] exI [of _ j0]) (simp add: sw_defs)
  qed
next
  case (sw_sched_release s i)
  then show ?case by (simp add: wake_inv_def coming_def dozing_def sw_defs)
next
  case (sw_kill s i)
  have "dozing ch s k" if "dozing ch (upd_proc i (kill_mark (sw_proc s i)) s) k" for k
    using that by (auto simp: sw_defs dozing_def kill_mark_def Let_def split: if_splits)
  then show ?case using sw_kill(6) by (auto simp: wake_inv_def coming_def sw_defs)
next
  case (sw_sched_run s i)
  then show ?case
    by (intro wake_other [OF sw_sched_run(8), where k = i and c = Woken])
      (auto simp: sw_defs dozing_def sched_run_def split: if_splits)
next
  case (sw_tidy s i)
  then show ?case
    by (intro wake_other [OF sw_tidy(6), where k = i and c = Again])
      (auto simp: sw_defs dozing_def sleep_tidy_def proc_inv_def split: if_splits)
next
  case (sw_acquire s i)
  then show ?case by (intro wake_other [OF sw_acquire(9), where k = i and c = Test]) (auto simp: sw_defs dozing_def split: if_splits)
next
  case (sw_false s i)
  then show ?case by (intro wake_other [OF sw_false(7), where k = i and c = Sleep1]) (auto simp: sw_defs dozing_def split: if_splits)
next
  case (sw_true s i c)
  then show ?case by (intro wake_other [OF sw_true(7), where k = i and c = Away]) (auto simp: sw_defs dozing_def split: if_splits)
next
  case (sw_own s i)
  then show ?case by (intro wake_other [OF sw_own(7), where k = i and c = Sleep2]) (auto simp: sw_defs dozing_def split: if_splits)
next
  case (sw_again s i)
  then show ?case by (intro wake_other [OF sw_again(7), where k = i and c = Test]) (auto simp: sw_defs dozing_def split: if_splits)
qed

lemma sw_step_inv: "sw_step ch s t \<Longrightarrow> sw_inv ch s \<Longrightarrow> sw_inv ch t"
  unfolding sw_inv_def using lk_step plk_step cond_step proc_step wake_step by blast

lemma sw_init_inv: "sw_init ch s \<Longrightarrow> sw_inv ch s"
  by (auto simp: sw_init_def sw_inv_def lk_inv_def plk_inv_def cond_inv_def proc_inv_def wake_inv_def dozing_def has_lk_def)

interpretation sw: transition_system "sw_init ch" "sw_step ch" "sw_inv ch"
  by unfold_locales (auto intro: sw_init_inv sw_step_inv)

section \<open>No wakeup is lost\<close>

text \<open>C28. No wakeup is lost.  In every interleaving of waiters, wakers, schedulers and kills, once the condition is
  true and every waker has finished its loop, no process sleeps on the channel, and none is on its way to.\<close>

theorem no_lost_wakeup:
  assumes "sw_init ch s0" "(sw_step ch)\<^sup>*\<^sup>* s0 s" "sw_cond s" "\<And>k j. sw_pc s k \<noteq> Scan j \<and> sw_pc s k \<noteq> Look j"
  shows "\<not> (p_state (sw_proc s i) = SLEEPING \<and> p_chan (sw_proc s i) = ch) \<and> sw_pc s i \<notin> {Sleep1, Sleep2, Sleep3}"
proof -
  have inv: "sw_inv ch s" by (rule sw.reach_inv [OF assms(1,2)])
  then have "\<not> dozing ch s i" using assms(3,4) unfolding sw_inv_def wake_inv_def coming_def by blast
  then show ?thesis using inv assms(3) by (auto simp: dozing_def sw_inv_def cond_inv_def)
qed

text \<open>An example: process 0 goes to sleep, process 1 makes the condition true and wakes it up.\<close>

definition ex_sw :: sw where
  "ex_sw = \<lparr>sw_pc = (\<lambda>_. Away), sw_lk = None, sw_plk = (\<lambda>_. Nobody),
     sw_proc = (\<lambda>i. \<lparr>p_state = RUNNING, p_chan = ChNone, p_killed = 0, p_xstate = 0, p_pid = int i, p_parent = None, p_kstack = 0,
       p_sz = 0, p_pagetable = 0, p_trapframe = 0, p_context = zero_ctx, p_ofile = replicate 16 None, p_cwd = None, p_name = []\<rparr>),
     sw_cond = False\<rparr>"

lemma scan_run:
  assumes "sw_pc s i = Scan j" "j \<le> NPROC" "\<forall>k. sw_plk s k = Nobody"
  shows "\<exists>t. (sw_step ch)\<^sup>*\<^sup>* s t \<and> sw_pc t = (sw_pc s)(i := Scan NPROC) \<and> sw_cond t = sw_cond s"
  using assms
proof (induction "NPROC - j" arbitrary: s j)
  case 0
  then have "j = NPROC" by simp
  with 0 show ?case by (intro exI [of _ s]) auto
next
  case (Suc d)
  then have j: "j < NPROC" "d = NPROC - Suc j" by simp_all
  obtain u where u: "(sw_step ch)\<^sup>*\<^sup>* s u" "sw_pc u = (sw_pc s)(i := Scan (Suc j))" "sw_cond u = sw_cond s" "\<forall>k. sw_plk u k = Nobody"
  proof (cases "j = i")
    case True
    have "sw_step ch s (goto i (Scan (Suc i)) s)" by (rule sw_skip) (use Suc.prems True in simp)
    with that [of "goto i (Scan (Suc i)) s"] True Suc.prems show thesis by (auto simp: sw_defs)
  next
    case False
    let ?v = "goto i (Look j) (plock j (ByProc i) s)"
    let ?u = "goto i (Scan (Suc j)) (plock j Nobody (upd_proc j (wakeup_proc ch i j (sw_proc ?v j)) ?v))"
    have v: "sw_step ch s ?v" by (rule sw_look) (use Suc.prems j False in auto)
    have "sw_step ch ?v ?u" by (rule sw_wake) (simp add: sw_defs)
    with v have "(sw_step ch)\<^sup>*\<^sup>* s ?u" by (meson r_into_rtranclp rtranclp.rtrancl_into_rtrancl)
    moreover have "sw_pc ?u = (sw_pc s)(i := Scan (Suc j))" "sw_cond ?u = sw_cond s" "\<forall>k. sw_plk ?u k = Nobody"
      using Suc.prems by (simp_all add: sw_defs)
    ultimately show thesis by (rule that)
  qed
  have pc: "sw_pc u i = Scan (Suc j)" "Suc j \<le> NPROC" using u(2) j(1) by simp_all
  from Suc.hyps(1) [OF j(2) pc u(4)] obtain t where "(sw_step ch)\<^sup>*\<^sup>* u t" "sw_pc t = (sw_pc u)(i := Scan NPROC)" "sw_cond t = sw_cond u" by blast
  with u show ?case by (metis fun_upd_upd rtranclp_trans)
qed

theorem no_lost_wakeup_witness:
  "\<exists>s. (sw_step ChTicks)\<^sup>*\<^sup>* ex_sw s \<and> sw_cond s \<and> sw_pc s 0 = Asleep \<and>
     \<not> (p_state (sw_proc s 0) = SLEEPING \<and> p_chan (sw_proc s 0) = ChTicks)"
proof -
  let ?ch = ChTicks
  let ?s1 = "goto 0 Test (lk_to (Some 0) ex_sw)" let ?s2 = "goto 0 Sleep1 ?s1" let ?s3 = "goto 0 Sleep2 (plock 0 (ByProc 0) ?s2)"
  let ?s4 = "goto 0 Sleep3 (lk_to None ?s3)"
  let ?s5 = "goto 0 Asleep (plock 0 BySched (upd_proc 0 (sleep_mark ?ch (sw_proc ?s4 0)) ?s4))"
  let ?s6 = "plock 0 Nobody ?s5" let ?s7 = "goto 1 Test (lk_to (Some 1) ?s6)" let ?s8 = "goto 1 (Scan 0) (?s7\<lparr>sw_cond := True\<rparr>)"
  note defs = sw_defs ex_sw_def sleep_mark_def
  have init: "sw_init ?ch ex_sw" by (simp add: sw_init_def ex_sw_def)
  have "sw_step ?ch ex_sw ?s1" by (rule sw_acquire) (simp_all add: defs)
  moreover have "sw_step ?ch ?s1 ?s2" by (rule sw_false) (simp_all add: defs)
  moreover have "sw_step ?ch ?s2 ?s3" by (rule sw_own) (simp_all add: defs)
  moreover have "sw_step ?ch ?s3 ?s4" by (rule sw_release) (simp add: defs)
  moreover have "sw_step ?ch ?s4 ?s5" by (rule sw_mark) (simp add: defs)
  moreover have "sw_step ?ch ?s5 ?s6" by (rule sw_sched_release) (simp add: defs)
  moreover have "sw_step ?ch ?s6 ?s7" by (rule sw_acquire) (simp_all add: defs)
  moreover have "sw_step ?ch ?s7 ?s8" by (rule sw_set) (simp add: defs)
  ultimately have r8: "(sw_step ?ch)\<^sup>*\<^sup>* ex_sw ?s8" by (meson r_into_rtranclp rtranclp.rtrancl_into_rtrancl)
  have "sw_pc ?s8 1 = Scan 0" "0 \<le> NPROC" "\<forall>k. sw_plk ?s8 k = Nobody" by (simp_all add: defs)
  from scan_run [OF this, of ?ch] obtain t where t: "(sw_step ?ch)\<^sup>*\<^sup>* ?s8 t" "sw_pc t = (sw_pc ?s8)(1 := Scan NPROC)" "sw_cond t = sw_cond ?s8" by blast
  let ?u = "goto 1 Away (lk_to None t)"
  have "sw_step ?ch t ?u" by (rule sw_done) (simp add: t(2))
  then have run: "(sw_step ?ch)\<^sup>*\<^sup>* ex_sw ?u" using r8 t(1) by (meson rtranclp.rtrancl_into_rtrancl rtranclp_trans)
  have pc: "sw_pc ?u = (\<lambda>_. Away)(0 := Asleep)" and cond: "sw_cond ?u" using t(2,3) by (auto simp: defs fun_eq_iff)
  have "sw_pc ?u k \<noteq> Scan j \<and> sw_pc ?u k \<noteq> Look j" for k j unfolding pc by simp
  from no_lost_wakeup [OF init run cond this, of 0] run cond pc show ?thesis by (intro exI [of _ ?u]) (simp add: pc)
qed

end
