(* ===== verification/Proctable.thy ===== *)
theory Proctable
  imports Trap Pipefifo
begin

text \<open>
  Properties of the process table (\<^verbatim>\<open>kernel/proc.c\<close>): what its slots hold, that process ids are unique,
  and that no process is left with a parent that has exited.
\<close>

section \<open>Frames\<close>

lemma more_uvmcreate: "kmem.more (snd (uvmcreate s)) = kmem.more s"
  by (simp add: uvmcreate_def split_beta Let_def more_kalloc_snd)

lemma more_uvmunmap_loop: "uvmunmap_loop f pt a e d s = Ok s' \<Longrightarrow> kmem.more s' = kmem.more s"
proof (induction f arbitrary: a s)
  case 0
  then show ?case by (simp split: if_splits)
next
  case (Suc f)
  show ?case
  proof (cases "a < e")
    case True
    with Suc.prems obtain p t where w: "walk pt a False s = Ok (p, t)" by (auto simp: andThen_eq_Ok)
    have t: "kmem.more t = kmem.more s" by (rule more_walk [OF w])
    have k: "kmem.more u = kmem.more t" if "(if d then kfree (PTE2PA (load64 (pmem t) p)) t else Ok t) = Ok u" for u
      using that more_kfree by (auto split: if_splits)
    show ?thesis
    proof (cases "p = 0 \<or> load64 (pmem t) p AND PTE_V = 0")
      case True': True
      then have "uvmunmap_loop f pt (a + PGSIZE) e d t = Ok s'" using Suc.prems True w by (cases "p = 0") simp_all
      with Suc.IH t show ?thesis by simp
    next
      case False
      then obtain u where u: "(if d then kfree (PTE2PA (load64 (pmem t) p)) t else Ok t) = Ok u"
        "uvmunmap_loop f pt (a + PGSIZE) e d (u\<lparr>pmem := store64 (pmem u) p 0\<rparr>) = Ok s'"
        using Suc.prems True w by (auto simp: andThen_eq_Ok)
      from Suc.IH [OF u(2)] k [OF u(1)] t show ?thesis by simp
    qed
  next
    case False
    then show ?thesis using Suc.prems by simp
  qed
qed

lemma more_uvmunmap: "uvmunmap pt va n d s = Ok s' \<Longrightarrow> kmem.more s' = kmem.more s"
  by (auto simp: uvmunmap_def dest: more_uvmunmap_loop split: if_splits)

lemma more_freewalk:
  shows "freewalk_f d pt s = Ok s' \<Longrightarrow> kmem.more s' = kmem.more s"
    and "freewalk_loop d k pt s = Ok s' \<Longrightarrow> kmem.more s' = kmem.more s"
proof (induction d pt s and d k pt s arbitrary: s' and s' rule: freewalk_f_freewalk_loop.induct)
  case (2 d pt s)
  then obtain t where "freewalk_loop d 512 pt s = Ok t" "kfree pt t = Ok s'" by (auto simp: andThen_eq_Ok)
  with 2 more_kfree show ?case by metis
next
  case (4 d k pt s)
  let ?pte = "slot pt (of_nat (511 - k))"
  consider (child) t where "load64 (pmem s) ?pte AND PTE_V \<noteq> 0 \<and> load64 (pmem s) ?pte AND (PTE_R OR PTE_W OR PTE_X) = 0"
      "freewalk_f d (PTE2PA (load64 (pmem s) ?pte)) s = Ok t" "freewalk_loop d k pt (t\<lparr>pmem := store64 (pmem t) ?pte 0\<rparr>) = Ok s'"
    | (skip) "\<not> (load64 (pmem s) ?pte AND PTE_V \<noteq> 0 \<and> load64 (pmem s) ?pte AND (PTE_R OR PTE_W OR PTE_X) = 0)"
      "\<not> load64 (pmem s) ?pte AND PTE_V \<noteq> 0" "freewalk_loop d k pt s = Ok s'"
    using "4.prems" by (simp only: freewalk_loop.simps Let_def andThen_eq_Ok split: if_splits) blast+
  then show ?case
  proof cases
    case child
    from "4.IH"(1) [OF refl refl child(1,2)] "4.IH"(2) [OF refl refl child(1,2,3)] show ?thesis by simp
  next
    case skip
    from "4.IH"(3) [OF refl refl skip] show ?thesis .
  qed
qed simp_all

lemma more_uvmfree: "uvmfree pt sz s = Ok s' \<Longrightarrow> kmem.more s' = kmem.more s"
  by (auto simp: uvmfree_def freewalk_def andThen_eq_Ok dest!: more_uvmunmap more_freewalk(1) split: if_splits)

lemma more_proc_freepagetable: "proc_freepagetable pt sz s = Ok s' \<Longrightarrow> kmem.more s' = kmem.more s"
  by (auto simp: proc_freepagetable_def andThen_eq_Ok dest!: more_uvmunmap more_uvmfree)

lemma more_uvmcopy_loop: "uvmcopy_loop f old new i sz s = Ok (r, s') \<Longrightarrow> kmem.more s' = kmem.more s"
proof (induction f arbitrary: i s)
  case 0
  then show ?case by (simp split: if_splits)
next
  case (Suc f)
  show ?case
  proof (cases "i < sz")
    case True
    with Suc.prems obtain p t where w: "walk old i False s = Ok (p, t)" by (auto simp: andThen_eq_Ok)
    have t: "kmem.more t = kmem.more s" by (rule more_walk [OF w])
    show ?thesis
    proof (cases "p = 0 \<or> load64 (pmem t) p AND PTE_V = 0")
      case True': True
      then have "uvmcopy_loop f old new (i + PGSIZE) sz t = Ok (r, s')" using Suc.prems True w by (cases "p = 0") simp_all
      with Suc.IH t show ?thesis by simp
    next
      case False
      let ?u = "if load64 (pmem t) p AND PTE_W \<noteq> 0 then t\<lparr>pmem := store64 (pmem t) p ((load64 (pmem t) p AND NOT PTE_W) OR PTE_COW)\<rparr> else t"
      obtain q v where v: "mappages new i PGSIZE (PTE2PA (load64 (pmem t) p)) (PTE_FLAGS (load64 (pmem ?u) p)) ?u = Ok (q, v)"
        "(if q \<noteq> 0 then andThen (uvmunmap new 0 (i div PGSIZE) True v) (\<lambda>s. Ok (- 1, s))
          else uvmcopy_loop f old new (i + PGSIZE) sz (inc_refcnt (PTE2PA (load64 (pmem t) p)) v)) = Ok (r, s')"
        using Suc.prems True w False by (auto simp: andThen_eq_Ok Let_def)
      have "kmem.more v = kmem.more t" using more_mappages [OF v(1)] by simp
      then show ?thesis using v(2) t more_uvmunmap Suc.IH
        by (cases "q = 0") (fastforce simp: andThen_eq_Ok inc_refcnt_def)+
    qed
  next
    case False
    then show ?thesis using Suc.prems by simp
  qed
qed

lemma more_uvmcopy: "uvmcopy old new sz s = Ok (r, s') \<Longrightarrow> kmem.more s' = kmem.more s"
  unfolding uvmcopy_def by (rule more_uvmcopy_loop)

lemma sys_frame:
  fixes s s' :: "'a sysst_scheme"
  assumes "kmem.more s' = kmem.more s"
  shows "procs s' = procs s" "cur s' = cur s" "nextpid s' = nextpid s" "initproc s' = initproc s" "forkret_addr s' = forkret_addr s"
  using assms by (cases s; cases s'; simp)+

lemma more_proc_pagetable: "proc_pagetable tf s = Ok (pt, s') \<Longrightarrow> kmem.more s' = kmem.more s"
proof -
  assume a: "proc_pagetable tf s = Ok (pt, s')"
  obtain q t where c: "uvmcreate s = (q, t)" by (cases "uvmcreate s")
  have t: "kmem.more t = kmem.more s" using more_uvmcreate [of s] c by simp
  from a c t show ?thesis
    by (auto simp: proc_pagetable_def andThen_eq_Ok dest!: more_mappages more_uvmunmap more_uvmfree split: if_splits)
qed

section \<open>What the operations do to the table\<close>

lemma set_proc_simps [simp]:
  "procs (set_proc i p s) = (procs s)[i := p]" "cur (set_proc i p s) = cur s"
  by (simp_all add: set_proc_def)

lemma set_proc_sys [simp]:
  fixes s :: "'a sysst_scheme"
  shows "nextpid (set_proc i p s) = nextpid s" "initproc (set_proc i p s) = initproc s" "forkret_addr (set_proc i p s) = forkret_addr s"
  by (simp_all add: set_proc_def)

lemma freeproc_table:
  assumes "freeproc i s = Ok s'" "i < length (procs s)"
  shows "\<exists>p. procs s' = (procs s)[i := p] \<and> p_state p = UNUSED \<and> p_pid p = 0 \<and> p_killed p = 0 \<and> p_parent p = None" "nextpid s' = nextpid s" "initproc s' = initproc s" "cur s' = cur s"
proof -
  let ?tf = "p_trapframe (procs s ! i)"
  obtain t where t: "(if ?tf \<noteq> 0 then kfree ?tf s else Ok s) = Ok t" using assms(1) by (auto simp: freeproc_def andThen_eq_Ok)
  have "kmem.more t = kmem.more s" using t more_kfree by (auto split: if_splits)
  note f1 = sys_frame [OF this]
  let ?u = "set_proc i ((procs t ! i)\<lparr>p_trapframe := 0\<rparr>) t"
  obtain v where v: "(if p_pagetable (procs ?u ! i) \<noteq> 0 then proc_freepagetable (p_pagetable (procs ?u ! i)) (p_sz (procs ?u ! i)) ?u else Ok ?u) = Ok v"
    "s' = set_proc i ((procs v ! i)\<lparr>p_pagetable := 0, p_sz := 0, p_pid := 0, p_parent := None,
             p_name := (p_name (procs v ! i))[0 := 0], p_chan := ChNone, p_killed := 0, p_xstate := 0, p_state := UNUSED\<rparr>) v"
    using assms(1) t by (auto simp: freeproc_def andThen_eq_Ok Let_def)
  have "kmem.more v = kmem.more ?u" using v(1) more_proc_freepagetable by (auto split: if_splits)
  note f2 = sys_frame [OF this]
  show "\<exists>p. procs s' = (procs s)[i := p] \<and> p_state p = UNUSED \<and> p_pid p = 0 \<and> p_killed p = 0 \<and> p_parent p = None"
    unfolding v(2) using f1 f2 assms(2)
    by (intro exI [of _ "(procs v ! i)\<lparr>p_pagetable := 0, p_sz := 0, p_pid := 0, p_parent := None,
             p_name := (p_name (procs v ! i))[0 := 0], p_chan := ChNone, p_killed := 0, p_xstate := 0, p_state := UNUSED\<rparr>"]) simp
  show "nextpid s' = nextpid s" "initproc s' = initproc s" "cur s' = cur s" unfolding v(2) using f1 f2 by simp_all
qed

lemma allocproc_table:
  assumes "allocproc s = Ok (r, s')"
  shows "initproc s' = initproc s \<and> cur s' = cur s \<and> (case r of
      None \<Rightarrow> procs s' = procs s \<and> nextpid s' = nextpid s \<or>
        (\<exists>i p. i < length (procs s) \<and> p_state (procs s ! i) = UNUSED \<and> procs s' = (procs s)[i := p] \<and> p_state p = UNUSED \<and> p_pid p = 0 \<and>
           p_parent p = None \<and> nextpid s' = nextpid s + 1)
    | Some i \<Rightarrow> i < length (procs s) \<and> p_state (procs s ! i) = UNUSED \<and> (\<forall>j<i. p_state (procs s ! j) \<noteq> UNUSED) \<and>
        nextpid s' = nextpid s + 1 \<and> (\<exists>p. procs s' = (procs s)[i := p] \<and> p_state p = USED \<and> p_pid p = nextpid s \<and>
          p_killed p = p_killed (procs s ! i) \<and> p_parent p = p_parent (procs s ! i)))"
proof (cases "find (\<lambda>i. p_state (procs s ! i) = UNUSED) [0..<length (procs s)]")
  case None
  then show ?thesis using assms by (simp add: allocproc_def)
next
  case (Some i)
  then have i: "i < length (procs s)" "p_state (procs s ! i) = UNUSED" "\<forall>j<i. p_state (procs s ! j) \<noteq> UNUSED"
    by (auto simp: find_Some_iff)
  let ?s1 = "set_proc i ((procs s ! i)\<lparr>p_pid := nextpid s, p_state := USED\<rparr>) (s\<lparr>nextpid := nextpid s + 1\<rparr>)"
  obtain tf t where k: "kalloc ?s1 = (tf, t)" by (cases "kalloc ?s1")
  note f1 = sys_frame [OF more_kalloc [OF k]]
  let ?s2 = "set_proc i ((procs t ! i)\<lparr>p_trapframe := tf\<rparr>) t"
  have eq: "(if tf = 0 then andThen (freeproc i ?s2) (\<lambda>s. Ok (None, s))
      else andThen (proc_pagetable tf ?s2) (\<lambda>(pagetable, s).
        let s = set_proc i ((procs s ! i)\<lparr>p_pagetable := pagetable\<rparr>) s in
        if pagetable = 0 then andThen (freeproc i s) (\<lambda>s. Ok (None, s))
        else Ok (Some i, set_proc i ((procs s ! i)\<lparr>p_context := zero_ctx\<lparr>c_ra := forkret_addr s,
               c_sp := p_kstack (procs s ! i) + PGSIZE\<rparr>\<rparr>) s))) = Ok (r, s')"
    using assms Some k by (simp add: allocproc_def allocpid_def Let_def)
  have p2: "procs ?s2 = (procs s)[i := (procs s ! i)\<lparr>p_pid := nextpid s, p_state := USED, p_trapframe := tf\<rparr>]" "nextpid ?s2 = nextpid s + 1"
      "initproc ?s2 = initproc s" "cur ?s2 = cur s"
    using f1 i(1) by simp_all
  have freed: "r = None \<Longrightarrow> \<exists>p. procs s' = (procs s)[i := p] \<and> p_state p = UNUSED \<and> p_pid p = 0 \<and> p_parent p = None \<and> nextpid s' = nextpid s + 1 \<and> initproc s' = initproc s \<and> cur s' = cur s"
    if "freeproc i u = Ok s'" "procs u = (procs s)[i := q]" "nextpid u = nextpid s + 1" "initproc u = initproc s" "cur u = cur s" for u q
    using freeproc_table [OF that(1)] that i(1) by auto
  show ?thesis
  proof (cases "tf = 0")
    case True
    then have "freeproc i ?s2 = Ok s'" "r = None" using eq by (auto simp: andThen_eq_Ok)
    from freed [OF this(1) p2 this(2)] this(2) i show ?thesis by auto
  next
    case False
    then obtain pt u where u: "proc_pagetable tf ?s2 = Ok (pt, u)"
      "(let s = set_proc i ((procs u ! i)\<lparr>p_pagetable := pt\<rparr>) u in
        if pt = 0 then andThen (freeproc i s) (\<lambda>s. Ok (None, s))
        else Ok (Some i, set_proc i ((procs s ! i)\<lparr>p_context := zero_ctx\<lparr>c_ra := forkret_addr s,
               c_sp := p_kstack (procs s ! i) + PGSIZE\<rparr>\<rparr>) s)) = Ok (r, s')"
      using eq by (auto simp: andThen_eq_Ok)
    note f2 = sys_frame [OF more_proc_pagetable [OF u(1)]]
    let ?v = "set_proc i ((procs u ! i)\<lparr>p_pagetable := pt\<rparr>) u"
    have v: "procs ?v = (procs s)[i := (procs s ! i)\<lparr>p_pid := nextpid s, p_state := USED, p_trapframe := tf, p_pagetable := pt\<rparr>]"
      "nextpid ?v = nextpid s + 1" "initproc ?v = initproc s" "cur ?v = cur s" using f2 p2 i(1) by simp_all
    show ?thesis
    proof (cases "pt = 0")
      case True
      then have "freeproc i ?v = Ok s'" "r = None" using u(2) by (auto simp: andThen_eq_Ok Let_def)
      from freed [OF this(1) v this(2)] this(2) i show ?thesis by auto
    next
      case False
      then have "r = Some i" "s' = set_proc i ((procs ?v ! i)\<lparr>p_context := zero_ctx\<lparr>c_ra := forkret_addr ?v, c_sp := p_kstack (procs ?v ! i) + PGSIZE\<rparr>\<rparr>) ?v"
        using u(2) by (simp_all add: Let_def)
      then show ?thesis using v i by (simp del: set_proc_simps(1) add: set_proc_simps(1) [of i _ ?v]) (intro exI conjI, rule refl, simp_all)
    qed
  qed
qed

section \<open>The well-formed table\<close>

definition alive :: "proc \<Rightarrow> bool" where
  "alive p \<longleftrightarrow> p_state p \<noteq> UNUSED \<and> p_state p \<noteq> ZOMBIE"

text \<open>Process identifiers: a slot has pid 0 exactly when it is unused, and the others are distinct and
  below \<open>nextpid\<close>.\<close>

definition pids_ok :: "proc list \<Rightarrow> int \<Rightarrow> bool" where
  "pids_ok ps n \<longleftrightarrow> 0 < n \<and> (\<forall>i<length ps. (p_state (ps ! i) = UNUSED \<longleftrightarrow> p_pid (ps ! i) = 0) \<and> 0 \<le> p_pid (ps ! i) \<and> p_pid (ps ! i) < n) \<and>
     (\<forall>i<length ps. \<forall>j<length ps. i \<noteq> j \<longrightarrow> p_pid (ps ! i) = p_pid (ps ! j) \<longrightarrow> p_pid (ps ! i) = 0)"

text \<open>The process tree: a parent is a process that can still wait for its children, and \<^verbatim>\<open>init\<close>, which
  adopts them, is one.\<close>

definition tree_ok :: "proc list \<Rightarrow> nat option \<Rightarrow> bool" where
  "tree_ok ps ip \<longleftrightarrow> (\<exists>k<length ps. ip = Some k \<and> alive (ps ! k)) \<and>
     (\<forall>i<length ps. p_state (ps ! i) = UNUSED \<longrightarrow> p_parent (ps ! i) = None) \<and>
     (\<forall>i<length ps. \<forall>j. p_parent (ps ! i) = Some j \<longrightarrow> j < length ps \<and> alive (ps ! j))"

definition ptab_ok :: "'a sysst_scheme \<Rightarrow> bool" where
  "ptab_ok s \<longleftrightarrow> pids_ok (procs s) (nextpid s) \<and> tree_ok (procs s) (initproc s)"

lemma pids_upd:
  assumes "pids_ok ps n" "i < length ps" "(p_state p = UNUSED) = (p_pid p = 0)" "n \<le> m"
    "p_pid p = 0 \<or> p_pid p = p_pid (ps ! i) \<or> n \<le> p_pid p \<and> p_pid p < m"
  shows "pids_ok (ps[i := p]) m"
proof -
  have lt: "p_pid (ps ! j) < n" "0 \<le> p_pid (ps ! j)" if "j < length ps" for j using assms(1) that by (simp_all add: pids_ok_def)
  have uniq: "p_pid (ps ! j) = 0" if "p_pid (ps ! j) = p_pid (ps ! k)" "j < length ps" "k < length ps" "j \<noteq> k" for j k
    using assms(1) that by (simp add: pids_ok_def)
  have new: "p_pid p = 0" if "p_pid (ps ! j) = p_pid p" "j < length ps" "j \<noteq> i" for j
    using assms(5) uniq [of j i] lt [of j] that assms(2) by auto
  have "0 < n" using assms(1) by (simp add: pids_ok_def)
  have bound: "0 \<le> p_pid p" "p_pid p < m" using assms(4,5) lt [OF assms(2)] \<open>0 < n\<close> by auto
  have "0 \<le> p_pid (ps[i := p] ! j) \<and> p_pid (ps[i := p] ! j) < m \<and> (p_state (ps[i := p] ! j) = UNUSED \<longleftrightarrow> p_pid (ps[i := p] ! j) = 0)"
    if "j < length ps" for j
    using that bound assms(1,3,4) lt [OF that] by (cases "j = i") (auto simp: pids_ok_def)
  moreover have "p_pid (ps[i := p] ! j) = 0"
    if "p_pid (ps[i := p] ! j) = p_pid (ps[i := p] ! k)" "j < length ps" "k < length ps" "j \<noteq> k" for j k
    using that new [of j] new [of k] uniq [of j k] by (cases "j = i"; cases "k = i") auto
  ultimately show ?thesis using assms(4) \<open>0 < n\<close> by (simp add: pids_ok_def)
qed

definition childless :: "proc list \<Rightarrow> nat option \<Rightarrow> nat \<Rightarrow> bool" where
  "childless ps ip i \<longleftrightarrow> ip \<noteq> Some i \<and> (\<forall>k<length ps. p_parent (ps ! k) \<noteq> Some i)"

lemma dead_childless: "tree_ok ps ip \<Longrightarrow> \<not> alive (ps ! i) \<Longrightarrow> childless ps ip i"
  by (auto simp: tree_ok_def childless_def)

lemma tree_upd:
  assumes "tree_ok ps ip" "i < length ps" "p_state p = UNUSED \<Longrightarrow> p_parent p = None"
    "p_parent p = None \<or> p_parent p = p_parent (ps ! i) \<or> (\<exists>j<length ps. p_parent p = Some j \<and> alive (ps ! j))"
    "alive p \<or> childless ps ip i \<and> p_parent p = None"
  shows "tree_ok (ps[i := p]) ip"
proof -
  have al: "alive (ps ! j) \<Longrightarrow> alive (ps[i := p] ! j)" if "j < length ps" "j = i \<longrightarrow> alive p" for j
    using that by (cases "j = i") auto
  have par: "j < length ps \<and> alive (ps[i := p] ! j)" if "p_parent (ps[i := p] ! k) = Some j" "k < length ps" for j k
    using that assms(1,2,4,5) al [of j] by (cases "k = i") (auto simp: tree_ok_def childless_def)
  have un: "p_parent (ps[i := p] ! k) = None" if "p_state (ps[i := p] ! k) = UNUSED" "k < length ps" for k
    using that assms(1,3) by (cases "k = i") (auto simp: tree_ok_def)
  obtain z where "ip = Some z" "z < length ps" "alive (ps ! z)" using assms(1) by (auto simp: tree_ok_def)
  moreover from this have "alive (ps[i := p] ! z)" using al [of z] assms(5) by (auto simp: childless_def)
  ultimately show ?thesis using par un by (auto simp: tree_ok_def)
qed

text \<open>What keeps the slots in the same state and the same family keeps the table well-formed.\<close>

lemma ptab_upd_alive:
  assumes "ptab_ok s" "i < length (procs s)" "alive (procs s ! i)" "alive p" "p_pid p = p_pid (procs s ! i)"
    "p_parent p = p_parent (procs s ! i) \<or> (\<exists>j<length (procs s). p_parent p = Some j \<and> alive (procs s ! j))"
  shows "pids_ok ((procs s)[i := p]) (nextpid s)" "tree_ok ((procs s)[i := p]) (initproc s)"
proof -
  have "p_pid (procs s ! i) \<noteq> 0" using assms(1-3) by (auto simp: ptab_ok_def pids_ok_def alive_def)
  then show "pids_ok ((procs s)[i := p]) (nextpid s)"
    using assms by (intro pids_upd [where n = "nextpid s"]) (auto simp: ptab_ok_def alive_def)
  show "tree_ok ((procs s)[i := p]) (initproc s)"
    using assms by (intro tree_upd) (auto simp: ptab_ok_def alive_def)
qed

section \<open>Waking and reparenting\<close>

text \<open>The same process, except that it may have been woken.\<close>

definition same_id :: "proc \<Rightarrow> proc \<Rightarrow> bool" where
  "same_id p q \<longleftrightarrow> p_pid q = p_pid p \<and> (p_state q = p_state p \<or> p_state p = SLEEPING \<and> p_state q = RUNNABLE)"

lemma same_id_refl [simp]: "same_id p p" by (simp add: same_id_def)

lemma same_id_trans: "same_id p q \<Longrightarrow> same_id q r \<Longrightarrow> same_id p r" by (auto simp: same_id_def)

lemma same_id_alive: "same_id p q \<Longrightarrow> alive q = alive p" "same_id p q \<Longrightarrow> (p_state q = UNUSED) = (p_state p = UNUSED)" "same_id p q \<Longrightarrow> p_pid q = p_pid p"
  by (auto simp: same_id_def alive_def)

lemma wakeup_simps [simp]:
  fixes s :: "'a sysst_scheme"
  shows "length (procs (wakeup ch s)) = length (procs s)" "cur (wakeup ch s) = cur s" "nextpid (wakeup ch s) = nextpid s" "initproc (wakeup ch s) = initproc s"
  by (simp_all add: wakeup_def)

lemma wakeup_kin:
  assumes "k < length (procs s)"
  shows "same_id (procs s ! k) (procs (wakeup ch s) ! k)" "p_parent (procs (wakeup ch s) ! k) = p_parent (procs s ! k)"
  using assms by (auto simp: wakeup_def wakeup_proc_def same_id_def)

lemma wakeup_me: "cur s < length (procs s) \<Longrightarrow> procs (wakeup ch s) ! cur s = procs s ! cur s"
  by (simp add: wakeup_def wakeup_proc_def)

lemma reparent_loop:
  fixes s :: "'a sysst_scheme"
  shows "\<exists>s'. forM (reparent_proc p) ks s = Ok s' \<and> length (procs s') = length (procs s) \<and>
    nextpid s' = nextpid s \<and> initproc s' = initproc s \<and> cur s' = cur s \<and>
    (\<forall>k<length (procs s). same_id (procs s ! k) (procs s' ! k) \<and> p_parent (procs s' ! k) =
       (if k \<in> set ks \<and> p_parent (procs s ! k) = Some p then initproc s else p_parent (procs s ! k)))"
proof (induction ks arbitrary: s)
  case (Cons a ks)
  show ?case
  proof (cases "p_parent (procs s ! a) = Some p")
    case True
    let ?t = "wakeup (proc_chan (initproc s)) (set_proc a ((procs s ! a)\<lparr>p_parent := initproc s\<rparr>) s)"
    have t: "same_id (procs s ! k) (procs ?t ! k)" "p_parent (procs ?t ! k) = (if k = a then initproc s else p_parent (procs s ! k))"
      if "k < length (procs s)" for k
      using that wakeup_kin [of k "set_proc a ((procs s ! a)\<lparr>p_parent := initproc s\<rparr>) s" "proc_chan (initproc s)"]
      by (cases "k = a"; auto simp: same_id_def)+
    obtain s' where s': "forM (reparent_proc p) ks ?t = Ok s'" "length (procs s') = length (procs s)"
      "nextpid s' = nextpid s" "initproc s' = initproc s" "cur s' = cur s"
      "\<forall>k<length (procs s). same_id (procs ?t ! k) (procs s' ! k) \<and> p_parent (procs s' ! k) =
         (if k \<in> set ks \<and> p_parent (procs ?t ! k) = Some p then initproc s else p_parent (procs ?t ! k))"
      using Cons.IH [of ?t] by auto
    have "forM (reparent_proc p) (a # ks) s = Ok s'" using True s'(1) by (simp add: reparent_proc_def)
    moreover have "same_id (procs s ! k) (procs s' ! k)" if "k < length (procs s)" for k
      using same_id_trans [OF t(1)] s'(6) that by blast
    ultimately show ?thesis using s' t(2) True by (intro exI [of _ s']) auto
  next
    case False
    then show ?thesis using Cons.IH [of s] by (auto simp: reparent_proc_def)
  qed
qed simp

lemma reparent_spec:
  fixes s :: "'a sysst_scheme"
  obtains s' where "reparent p s = Ok s'" "length (procs s') = length (procs s)" "nextpid s' = nextpid s" "initproc s' = initproc s" "cur s' = cur s"
    "\<forall>k<length (procs s). same_id (procs s ! k) (procs s' ! k) \<and>
       p_parent (procs s' ! k) = (if p_parent (procs s ! k) = Some p then initproc s else p_parent (procs s ! k))"
  using reparent_loop [of p "[0..<length (procs s)]" s] that by (auto simp: reparent_def)

lemma pids_same:
  assumes "pids_ok ps n" "length qs = length ps" "\<forall>k<length ps. same_id (ps ! k) (qs ! k)"
  shows "pids_ok qs n"
proof -
  have "p_pid (qs ! k) = p_pid (ps ! k)" "(p_state (qs ! k) = UNUSED) = (p_state (ps ! k) = UNUSED)" if "k < length ps" for k
    using assms(3) that same_id_alive by blast+
  then show ?thesis using assms(1,2) by (simp add: pids_ok_def)
qed

lemma tree_same:
  assumes "tree_ok ps ip" "length qs = length ps" "\<forall>k<length ps. same_id (ps ! k) (qs ! k)"
    "\<forall>k<length ps. p_parent (qs ! k) = p_parent (ps ! k)"
  shows "tree_ok qs ip"
proof -
  have "alive (qs ! k) = alive (ps ! k)" "(p_state (qs ! k) = UNUSED) = (p_state (ps ! k) = UNUSED)" if "k < length ps" for k
    using assms(3) that same_id_alive by blast+
  then show ?thesis using assms(1,2,4) by (auto simp: tree_ok_def)
qed

lemma wakeup_ok: "ptab_ok s \<Longrightarrow> ptab_ok (wakeup ch s)"
  using pids_same [of "procs s" _ "procs (wakeup ch s)"] tree_same [of "procs s" _ "procs (wakeup ch s)"] wakeup_kin [of _ s ch]
  by (simp add: ptab_ok_def)

text \<open>An exiting process leaves no child behind, so that it may become a zombie.\<close>

lemma kexit_zombie_ok:
  assumes ok: "ptab_ok s" and me: "cur s < length (procs s)" "alive (procs s ! cur s)" and ni: "initproc s \<noteq> Some (cur s)"
  shows "\<exists>s'. kexit_zombie st s = Ok s' \<and> ptab_ok s' \<and> length (procs s') = length (procs s) \<and>
    p_state (procs s' ! cur s) = ZOMBIE \<and> p_xstate (procs s' ! cur s) = st \<and>
    (\<forall>k<length (procs s). p_pid (procs s' ! k) = p_pid (procs s ! k) \<and>
       p_parent (procs s' ! k) = (if p_parent (procs s ! k) = Some (cur s) then initproc s else p_parent (procs s ! k)))"
proof -
  obtain t where t: "reparent (cur s) s = Ok t" "length (procs t) = length (procs s)" "nextpid t = nextpid s" "initproc t = initproc s" "cur t = cur s"
    "\<forall>k<length (procs s). same_id (procs s ! k) (procs t ! k) \<and>
       p_parent (procs t ! k) = (if p_parent (procs s ! k) = Some (cur s) then initproc s else p_parent (procs s ! k))"
    by (rule reparent_spec)
  let ?u = "wakeup (proc_chan (p_parent (myproc t))) t"
  let ?q = "(procs ?u ! cur s)\<lparr>p_xstate := st, p_state := ZOMBIE\<rparr>"
  let ?v = "set_myproc ?q ?u"
  have run: "kexit_zombie st s = Ok ?v" by (simp add: kexit_zombie_def t(1,5) myproc_def Let_def)
  have procs: "procs ?v = (procs ?u)[cur s := ?q]" "nextpid ?v = nextpid s" "initproc ?v = initproc s"
    by (simp_all add: set_myproc_def t)
  have len: "length (procs ?u) = length (procs s)" using t(2) by simp
  have same: "same_id (procs s ! k) (procs ?u ! k)" if "k < length (procs s)" for k
    using t(2,6) that same_id_trans [OF _ wakeup_kin(1) [of k t]] by auto
  have par: "p_parent (procs ?u ! k) = (if p_parent (procs s ! k) = Some (cur s) then initproc s else p_parent (procs s ! k))" if "k < length (procs s)" for k
    using t(2,6) that wakeup_kin(2) [of k t] by simp
  have al: "alive (procs ?u ! k) = alive (procs s ! k)" if "k < length (procs s)" for k
    using same_id_alive(1) [OF same [OF that]] .
  have tree: "tree_ok (procs s) (initproc s)" "pids_ok (procs s) (nextpid s)" using ok by (simp_all add: ptab_ok_def)
  have pu: "pids_ok (procs ?u) (nextpid s)" using pids_same [OF tree(2) len] same by simp
  have "p_pid (procs ?u ! cur s) \<noteq> 0" using pu al [OF me(1)] me len by (auto simp: pids_ok_def alive_def)
  then have "pids_ok (procs ?v) (nextpid s)" unfolding procs using pu me(1) len by (intro pids_upd [where n = "nextpid s"]) auto
  moreover have nc: "p_parent (procs ?v ! k) \<noteq> Some (cur s)" if "k < length (procs s)" for k
    unfolding procs using par [OF that] ni len that by (cases "k = cur s") auto
  moreover have "tree_ok (procs ?v) (initproc s)"
  proof -
    obtain z where z: "initproc s = Some z" "z < length (procs s)" "alive (procs s ! z)" using tree(1) by (auto simp: tree_ok_def)
    have al': "alive (procs ?v ! k)" if "alive (procs s ! k)" "k < length (procs s)" "k \<noteq> cur s" for k
      using that al [of k] procs(1) by simp
    have pv: "p_parent (procs ?v ! k) = p_parent (procs ?u ! k)" if "k < length (procs s)" for k
      unfolding procs using that len by (cases "k = cur s") auto
    have un: "p_state (procs ?v ! k) = UNUSED \<Longrightarrow> p_state (procs s ! k) = UNUSED" if "k < length (procs s)" for k
      unfolding procs using that len same_id_alive(2) [OF same [OF that]] by (cases "k = cur s") auto
    have "j < length (procs s) \<and> alive (procs ?v ! j)" if "p_parent (procs ?v ! k) = Some j" "k < length (procs s)" for j k
      using that nc [OF that(2)] pv [OF that(2)] par [OF that(2)] tree(1) z al' [of j] ni by (auto simp: tree_ok_def split: if_splits)
    moreover have "p_parent (procs ?v ! k) = None" if "p_state (procs ?v ! k) = UNUSED" "k < length (procs s)" for k
      using un [OF that(2,1)] that pv [OF that(2)] par [OF that(2)] tree(1) by (auto simp: tree_ok_def)
    ultimately show ?thesis using z al' [of z] ni procs(1) len by (auto simp: tree_ok_def)
  qed
  moreover have "p_pid (procs ?v ! k) = p_pid (procs s ! k)" if "k < length (procs s)" for k
    using same_id_alive(3) [OF same [OF that]] procs(1) len that by (cases "k = cur s") simp_all
  moreover have "p_parent (procs ?v ! k) = (if p_parent (procs s ! k) = Some (cur s) then initproc s else p_parent (procs s ! k))"
    if "k < length (procs s)" for k
    using par [OF that] procs(1) len that by (cases "k = cur s") simp_all
  ultimately show ?thesis using run procs me(1) len by (intro exI [of _ ?v]) (simp add: ptab_ok_def)
qed

section \<open>Fork and wait\<close>

definition core :: "proc \<Rightarrow> procstate \<times> int \<times> nat option" where
  "core p = (p_state p, p_pid p, p_parent p)"

definition same_core :: "'a sysst_scheme \<Rightarrow> 'a sysst_scheme \<Rightarrow> bool" where
  "same_core s t \<longleftrightarrow> map core (procs t) = map core (procs s) \<and> nextpid t = nextpid s \<and> initproc t = initproc s \<and> cur t = cur s"

lemma same_core_nth:
  assumes "same_core s t"
  shows "length (procs t) = length (procs s)"
    and "k < length (procs s) \<Longrightarrow> p_state (procs t ! k) = p_state (procs s ! k) \<and> p_pid (procs t ! k) = p_pid (procs s ! k) \<and> p_parent (procs t ! k) = p_parent (procs s ! k)"
proof -
  show len: "length (procs t) = length (procs s)" using assms unfolding same_core_def by (metis length_map)
  assume "k < length (procs s)"
  then have "map core (procs t) ! k = core (procs t ! k)" "map core (procs s) ! k = core (procs s ! k)" using len by simp_all
  then show "p_state (procs t ! k) = p_state (procs s ! k) \<and> p_pid (procs t ! k) = p_pid (procs s ! k) \<and> p_parent (procs t ! k) = p_parent (procs s ! k)"
    using assms by (simp add: same_core_def core_def)
qed

lemma same_core_refl [simp]: "same_core s s" by (simp add: same_core_def)

lemma same_core_trans: "same_core s t \<Longrightarrow> same_core t u \<Longrightarrow> same_core s u" by (simp add: same_core_def)

lemma same_core_ok: "same_core s t \<Longrightarrow> ptab_ok s \<Longrightarrow> ptab_ok t"
proof -
  assume c: "same_core s t" and ok: "ptab_ok s"
  have n: "k < length (procs s) \<Longrightarrow> same_id (procs s ! k) (procs t ! k)" "k < length (procs s) \<Longrightarrow> p_parent (procs t ! k) = p_parent (procs s ! k)" for k
    using same_core_nth(2) [OF c, of k] by (simp_all add: same_id_def)
  have "nextpid t = nextpid s" "initproc t = initproc s" using c by (simp_all add: same_core_def)
  then show "ptab_ok t" using pids_same [OF _ same_core_nth(1) [OF c]] tree_same [OF _ same_core_nth(1) [OF c]] n ok by (simp add: ptab_ok_def)
qed

lemma same_core_frame: "procs t = procs s \<Longrightarrow> nextpid t = nextpid s \<Longrightarrow> initproc t = initproc s \<Longrightarrow> cur t = cur s \<Longrightarrow> same_core s t"
  by (simp add: same_core_def)

lemma same_core_more: "kmem.more t = kmem.more s \<Longrightarrow> same_core s t"
  by (rule same_core_frame) (simp_all add: sys_frame [of t s])

lemma same_core_upd:
  "core p = core (procs s ! i) \<Longrightarrow> same_core s (set_proc i p s)"
  by (cases "i < length (procs s)") (simp_all add: same_core_def map_update list_update_same_conv list_update_beyond)

lemma same_core_dup_ofile: "forM (dup_ofile np) ks s = Ok s' \<Longrightarrow> same_core s s'"
proof (induction ks arbitrary: s)
  case (Cons i ks)
  obtain t where t: "dup_ofile np i s = Ok t" "forM (dup_ofile np) ks t = Ok s'" using Cons.prems by (auto simp: andThen_eq_Ok)
  have "same_core s t"
  proof (cases "p_ofile (myproc s) ! i")
    case None
    then show ?thesis using t(1) by (simp add: dup_ofile_def)
  next
    case (Some f)
    let ?u = "set_file f ((ftable s ! f)\<lparr>f_ref := f_ref (ftable s ! f) + 1\<rparr>) s"
    have "t = set_proc np ((procs ?u ! np)\<lparr>p_ofile := (p_ofile (procs ?u ! np))[i := Some f]\<rparr>) ?u"
      using t(1) Some by (auto simp: dup_ofile_def filedup_def split: if_splits)
    moreover have "same_core s ?u" by (rule same_core_frame) (simp_all add: set_file_def)
    moreover have "same_core ?u (set_proc np ((procs ?u ! np)\<lparr>p_ofile := (p_ofile (procs ?u ! np))[i := Some f]\<rparr>) ?u)"
      by (rule same_core_upd) (simp add: core_def)
    ultimately show ?thesis using same_core_trans by blast
  qed
  then show ?case using Cons.IH [OF t(2)] same_core_trans by blast
qed simp

lemma freeproc_ok:
  assumes ok: "ptab_ok s" and i: "i < length (procs s)" "childless (procs s) (initproc s) i" and run: "freeproc i s = Ok s'"
  shows "ptab_ok s'" "p_state (procs s' ! i) = UNUSED" "\<And>k. k \<noteq> i \<Longrightarrow> procs s' ! k = procs s ! k" "length (procs s') = length (procs s)"
proof -
  obtain p where p: "procs s' = (procs s)[i := p]" "p_state p = UNUSED" "p_pid p = 0" "p_parent p = None"
    using freeproc_table(1) [OF run i(1)] by blast
  have f: "nextpid s' = nextpid s" "initproc s' = initproc s" using freeproc_table(2,3) [OF run i(1)] by simp_all
  have "pids_ok (procs s') (nextpid s)" unfolding p(1) using ok i p by (intro pids_upd [where n = "nextpid s"]) (auto simp: ptab_ok_def)
  moreover have "tree_ok (procs s') (initproc s)" unfolding p(1) using ok i p by (intro tree_upd) (auto simp: ptab_ok_def)
  ultimately show "ptab_ok s'" by (simp add: ptab_ok_def f)
  show "p_state (procs s' ! i) = UNUSED" "\<And>k. k \<noteq> i \<Longrightarrow> procs s' ! k = procs s ! k" "length (procs s') = length (procs s)"
    using p i(1) by simp_all
qed

text \<open>A new process has a fresh identifier and no family yet; a failed allocation leaves the table
  well-formed.\<close>

lemma allocproc_ok:
  assumes ok: "ptab_ok s" and run: "allocproc s = Ok (r, s')"
  shows "ptab_ok s'" "length (procs s') = length (procs s)" "initproc s' = initproc s \<and> cur s' = cur s"
    and "r = Some i \<Longrightarrow> i < length (procs s) \<and> p_state (procs s ! i) = UNUSED \<and> p_pid (procs s' ! i) = nextpid s \<and> alive (procs s' ! i) \<and>
      p_parent (procs s' ! i) = None \<and> childless (procs s') (initproc s') i \<and> (\<forall>k. k \<noteq> i \<longrightarrow> procs s' ! k = procs s ! k)"
proof -
  have t: "pids_ok (procs s) (nextpid s)" "tree_ok (procs s) (initproc s)" using ok by (simp_all add: ptab_ok_def)
  have f: "initproc s' = initproc s" "cur s' = cur s" using allocproc_table [OF run] by simp_all
  have fresh: "pids_ok ((procs s)[i := p]) (nextpid s + 1)" "tree_ok ((procs s)[i := p]) (initproc s)"
    if "i < length (procs s)" "p_state (procs s ! i) = UNUSED" "p_parent p = None"
      "p_state p = UNUSED \<and> p_pid p = 0 \<or> p_state p = USED \<and> p_pid p = nextpid s" for i p
  proof -
    have "0 < nextpid s" using t(1) by (simp add: pids_ok_def)
    then show "pids_ok ((procs s)[i := p]) (nextpid s + 1)" using t(1) that by (intro pids_upd [where n = "nextpid s"]) auto
    have "childless (procs s) (initproc s) i" using dead_childless [OF t(2)] that(2) by (simp add: alive_def)
    then show "tree_ok ((procs s)[i := p]) (initproc s)" using t(2) that by (intro tree_upd) auto
  qed
  have tab: "procs s' = procs s \<and> nextpid s' = nextpid s \<and> r = None \<or>
    (\<exists>i p. i < length (procs s) \<and> p_state (procs s ! i) = UNUSED \<and> procs s' = (procs s)[i := p] \<and> p_parent p = None \<and> nextpid s' = nextpid s + 1 \<and>
       (r = None \<and> p_state p = UNUSED \<and> p_pid p = 0 \<or> r = Some i \<and> p_state p = USED \<and> p_pid p = nextpid s))"
  proof (cases r)
    case (Some i)
    then obtain p where "i < length (procs s)" "p_state (procs s ! i) = UNUSED" "procs s' = (procs s)[i := p]" "nextpid s' = nextpid s + 1"
      "p_state p = USED" "p_pid p = nextpid s" "p_parent p = p_parent (procs s ! i)"
      using allocproc_table [OF run] by auto
    moreover from this have "p_parent p = None" using t(2) by (simp add: tree_ok_def)
    ultimately show ?thesis using Some by blast
  qed (use allocproc_table [OF run] in auto)
  then show "ptab_ok s'" "length (procs s') = length (procs s)" using ok fresh by (auto simp: ptab_ok_def f)
  show "initproc s' = initproc s \<and> cur s' = cur s" using f by simp
  assume "r = Some i"
  then obtain p where p: "i < length (procs s)" "p_state (procs s ! i) = UNUSED" "procs s' = (procs s)[i := p]" "p_parent p = None" "p_state p = USED" "p_pid p = nextpid s"
    using tab by auto
  have "childless (procs s) (initproc s) i" using dead_childless [OF t(2)] p(2) by (simp add: alive_def)
  then have "childless (procs s') (initproc s') i" using p by (auto simp: childless_def f nth_list_update)
  then show "i < length (procs s) \<and> p_state (procs s ! i) = UNUSED \<and> p_pid (procs s' ! i) = nextpid s \<and> alive (procs s' ! i) \<and>
      p_parent (procs s' ! i) = None \<and> childless (procs s') (initproc s') i \<and> (\<forall>k. k \<noteq> i \<longrightarrow> procs s' ! k = procs s ! k)"
    using p by (simp add: alive_def)
qed

text \<open>\<open>kfork\<close>: on success the child is runnable, carries the identifier that is returned and is a
  child of the caller; on failure its slot is unused again.\<close>

lemma kfork_finish:
  assumes ok: "ptab_ok s" and np: "np < length (procs s)" "alive (procs s ! np)" and me: "cur s < length (procs s)" "alive (procs s ! cur s)"
    and run: "andThen (forM (dup_ofile np) ks s) (\<lambda>s. case p_cwd (myproc s) of None \<Rightarrow> Panic ''undefined: null pointer''
      | Some cwd \<Rightarrow> (let (cwd, s) = idup cwd s;
            np' = (procs s ! np)\<lparr>p_cwd := Some cwd, p_name := safestrcpy_list (p_name (procs s ! np)) (p_name (myproc s)) 16,
                    p_parent := Some (cur s), p_state := RUNNABLE\<rparr>
          in Ok (p_pid np', set_proc np np' s))) = Ok (r, s')"
  shows "ptab_ok s' \<and> r = p_pid (procs s ! np) \<and> map core (procs s') = (map core (procs s))[np := (RUNNABLE, r, Some (cur s))]"
proof -
  obtain t where t: "forM (dup_ofile np) ks s = Ok t" using run by (auto simp: andThen_eq_Ok)
  obtain c where c: "p_cwd (myproc t) = Some c" using run t by (cases "p_cwd (myproc t)") auto
  let ?u = "snd (idup c t)"
  let ?n = "(procs ?u ! np)\<lparr>p_cwd := Some c, p_name := safestrcpy_list (p_name (procs ?u ! np)) (p_name (myproc ?u)) 16,
                    p_parent := Some (cur ?u), p_state := RUNNABLE\<rparr>"
  have r: "r = p_pid (procs ?u ! np)" "s' = set_proc np ?n ?u" using run t c by (auto simp: idup_def Let_def)
  have "same_core t ?u" by (rule same_core_frame) (simp_all add: idup_def set_inode_def)
  with same_core_dup_ofile [OF t] have su: "same_core s ?u" by (rule same_core_trans)
  note n = same_core_nth [OF su]
  have cu: "cur ?u = cur s" "map core (procs ?u) = map core (procs s)" using su by (simp_all add: same_core_def)
  have oku: "ptab_ok ?u" by (rule same_core_ok [OF su ok])
  have "alive (procs ?u ! np)" "alive (procs ?u ! cur s)" using n(2) [OF np(1)] n(2) [OF me(1)] np me by (simp_all add: alive_def)
  then have "pids_ok ((procs ?u)[np := ?n]) (nextpid ?u)" "tree_ok ((procs ?u)[np := ?n]) (initproc ?u)"
    using oku np(1) me(1) n(1) cu by (intro ptab_upd_alive; auto simp: alive_def)+
  then have "ptab_ok s'" by (simp add: r(2) ptab_ok_def)
  moreover have "map core (procs s') = (map core (procs s))[np := (RUNNABLE, r, Some (cur s))]"
    by (simp add: r map_update cu core_def)
  ultimately show ?thesis using n(2) [OF np(1)] r(1) by simp
qed

lemma kfork_ok:
  assumes ok: "ptab_ok s" and me: "cur s < length (procs s)" "alive (procs s ! cur s)" and run: "kfork s = Ok (r, s')"
  shows "ptab_ok s' \<and> (r = - 1 \<or> r = nextpid s \<and> (\<exists>i<length (procs s). p_state (procs s ! i) = UNUSED \<and>
    map core (procs s') = (map core (procs s))[i := (RUNNABLE, r, Some (cur s))]))"
proof -
  obtain q t where a: "allocproc s = Ok (q, t)" using run by (auto simp: kfork_def andThen_eq_Ok)
  note al = allocproc_ok [OF ok a]
  show ?thesis
  proof (cases q)
    case None
    then show ?thesis using run a al(1) by (simp add: kfork_def)
  next
    case (Some np)
    note np = al(4) [OF Some]
    obtain c u where u: "uvmcopy (p_pagetable (myproc t)) (p_pagetable (procs t ! np)) (p_sz (myproc t)) t = Ok (c, u)"
      using run a Some by (auto simp: kfork_def andThen_eq_Ok)
    have su: "same_core t u" by (rule same_core_more [OF more_uvmcopy [OF u]])
    have oku: "ptab_ok u" by (rule same_core_ok [OF su al(1)])
    note nu = same_core_nth [OF su]
    show ?thesis
    proof (cases "c < 0")
      case True
      then obtain v where v: "freeproc np u = Ok v" "r = - 1" "s' = v" using run a Some u by (auto simp: kfork_def andThen_eq_Ok)
      have "childless (procs u) (initproc u) np" using np nu su by (auto simp: childless_def same_core_def)
      then have "ptab_ok v" using freeproc_ok(1) [OF oku _ _ v(1)] np nu(1) al(2) by simp
      then show ?thesis using v by simp
    next
      case False
      let ?v = "set_proc np ((procs u ! np)\<lparr>p_sz := p_sz (myproc u)\<rparr>) u"
      let ?w = "?v\<lparr>pmem := put_bytes (pmem ?v) (p_trapframe (procs ?v ! np)) (get_bytes (pmem ?v) (p_trapframe (myproc ?v)) trapframe_size)\<rparr>"
      let ?x = "?w\<lparr>pmem := store64 (pmem ?w) (p_trapframe (procs ?v ! np) + tf_a0) 0\<rparr>"
      have fin: "andThen (forM (dup_ofile np) [0..<NOFILE] ?x) (\<lambda>s. case p_cwd (myproc s) of None \<Rightarrow> Panic ''undefined: null pointer''
          | Some cwd \<Rightarrow> (let (cwd, s) = idup cwd s;
            np' = (procs s ! np)\<lparr>p_cwd := Some cwd, p_name := safestrcpy_list (p_name (procs s ! np)) (p_name (myproc s)) 16,
                    p_parent := Some (cur s), p_state := RUNNABLE\<rparr>
          in Ok (p_pid np', set_proc np np' s))) = Ok (r, s')"
        using run a Some u False by (simp only: kfork_def andThen.simps option.case split if_False Let_def)
      have "same_core u ?v" by (rule same_core_upd) (simp add: core_def)
      moreover have "same_core ?v ?x" by (rule same_core_frame) simp_all
      ultimately have sx: "same_core t ?x" using su same_core_trans by blast
      note nx = same_core_nth [OF sx]
      have okx: "ptab_ok ?x" by (rule same_core_ok [OF sx al(1)])
      have cx: "cur ?x = cur s" "map core (procs ?x) = map core (procs t)" using sx al(3) by (simp_all add: same_core_def)
      have ne: "cur s \<noteq> np" using np me(2) by (auto simp: alive_def)
      have pid: "p_pid (procs ?x ! np) = nextpid s" and alx: "alive (procs ?x ! np)" "alive (procs ?x ! cur s)"
        using nx(2) [of np] nx(2) [of "cur s"] np me al(2) ne by (simp_all add: alive_def)
      have len: "np < length (procs ?x)" "cur ?x < length (procs ?x)" using np nx(1) al(2) cx me(1) by simp_all
      have "ptab_ok s' \<and> r = p_pid (procs ?x ! np) \<and> map core (procs s') = (map core (procs ?x))[np := (RUNNABLE, r, Some (cur ?x))]"
        by (rule kfork_finish [OF okx len(1) alx(1) len(2) _ fin]) (simp only: cx alx)
      moreover have "(map core (procs t))[np := y] = (map core (procs s))[np := y]" for y
        using np al(2) by (intro nth_equalityI) (auto simp: nth_list_update)
      ultimately show ?thesis using pid cx np by auto
    qed
  qed
qed

lemma kwait_scan_ok:
  assumes "ptab_ok s" "kwait_scan a ks h s = Ok (r, s')" "\<forall>k\<in>set ks. k < length (procs s)"
  shows "ptab_ok s' \<and> (r = - 1 \<or> (\<exists>k\<in>set ks. p_state (procs s ! k) = ZOMBIE \<and> p_parent (procs s ! k) = Some (cur s) \<and> r = p_pid (procs s ! k) \<and>
    p_state (procs s' ! k) = UNUSED \<and> map core (procs s') = (map core (procs s))[k := (UNUSED, 0, None)]))"
  using assms
proof (induction ks arbitrary: h)
  case Nil
  then show ?case by (simp split: if_splits)
next
  case (Cons k ks)
  show ?case
  proof (cases "p_parent (procs s ! k) = Some (cur s) \<and> p_state (procs s ! k) = ZOMBIE")
    case True
    then obtain c t where t: "(if a \<noteq> 0 then copyout (p_sz (myproc s)) (p_pagetable (myproc s)) a
          (le_bytes 4 (word_of_int (p_xstate (procs s ! k)) :: u32)) s else Ok (0, s)) = Ok (c, t)"
      "(if c < 0 then Ok (- 1, t) else andThen (freeproc k t) (\<lambda>u. Ok (p_pid (procs s ! k), u))) = Ok (r, s')"
      using Cons.prems(2) by (auto simp: andThen_eq_Ok)
    have st: "same_core s t" using t(1) more_copyout by (intro same_core_more) (auto split: if_splits)
    note n = same_core_nth [OF st]
    have okt: "ptab_ok t" by (rule same_core_ok [OF st Cons.prems(1)])
    have k: "k < length (procs t)" using Cons.prems(3) n(1) by simp
    show ?thesis
    proof (cases "c < 0")
      case False
      then obtain v where v: "freeproc k t = Ok v" "r = p_pid (procs s ! k)" "s' = v" using t(2) by (auto simp: andThen_eq_Ok)
      have "\<not> alive (procs t ! k)" using n(2) [of k] True k n(1) by (simp add: alive_def)
      then have "childless (procs t) (initproc t) k" using okt dead_childless by (auto simp: ptab_ok_def)
      note f = freeproc_ok [OF okt k this v(1)]
      obtain p where p: "procs v = (procs t)[k := p]" "p_state p = UNUSED" "p_pid p = 0" "p_parent p = None"
        using freeproc_table(1) [OF v(1) k] by blast
      have "map core (procs v) = (map core (procs s))[k := (UNUSED, 0, None)]" using p st by (simp add: map_update core_def same_core_def)
      then show ?thesis using f v True by auto
    qed (use t(2) okt in simp)
  next
    case False
    then have "\<exists>h'. kwait_scan a ks h' s = Ok (r, s')" using Cons.prems(2) by (auto split: if_splits)
    then show ?thesis using Cons.IH Cons.prems(1,3) by fastforce
  qed
qed

section \<open>The system of processes\<close>

definition running :: "'a sysst_scheme \<Rightarrow> bool" where
  "running s \<longleftrightarrow> cur s < length (procs s) \<and> p_state (procs s ! cur s) = RUNNING"

lemma running_alive: "running s \<Longrightarrow> cur s < length (procs s) \<and> alive (procs s ! cur s)" by (simp add: running_def alive_def)

text \<open>The table after boot: \<^verbatim>\<open>init\<close> alone.\<close>

definition ptab_boot :: "'a sysst_scheme \<Rightarrow> bool" where
  "ptab_boot s \<longleftrightarrow> nextpid s = 2 \<and> (\<exists>k<length (procs s). initproc s = Some k \<and> core (procs s ! k) = (RUNNABLE, 1, None) \<and>
     (\<forall>i<length (procs s). i \<noteq> k \<longrightarrow> core (procs s ! i) = (UNUSED, 0, None)))"

text \<open>What happens to the table, one call at a time and on any hart: \<open>cur\<close> is the process of the hart
  that acts.  \<open>ps_fields\<close> is the rest of the kernel, which changes other fields of a process
  (\<^verbatim>\<open>exec\<close>, \<^verbatim>\<open>sbrk\<close>, \<^verbatim>\<open>open\<close>, \<open>sleep_done\<close>), \<open>ps_other\<close> what does not touch the table.\<close>

inductive ptab_step :: "'a sysst_scheme \<Rightarrow> 'a sysst_scheme \<Rightarrow> bool" where
  ps_fork: "running s \<Longrightarrow> kfork s = Ok (r, t) \<Longrightarrow> ptab_step s t"
| ps_wait: "running s \<Longrightarrow> kwait a s = Ok (r, t) \<Longrightarrow> ptab_step s t"
| ps_exit: "running s \<Longrightarrow> initproc s \<noteq> Some (cur s) \<Longrightarrow> kexit_zombie st s = Ok t \<Longrightarrow> ptab_step s t"
| ps_kill: "kkill pid s = (r, t) \<Longrightarrow> ptab_step s t"
| ps_setkilled: "ptab_step s (setkilled i s)"
| ps_wakeup: "ptab_step s (wakeup ch s)"
| ps_yield: "running s \<Longrightarrow> yield s = Ok t \<Longrightarrow> ptab_step s t"
| ps_sleep: "running s \<Longrightarrow> sleep ch s = Ok t \<Longrightarrow> ptab_step s t"
| ps_sched: "i < length (procs s) \<Longrightarrow> ptab_step s (scheduler_pick i s)"
| ps_fields: "core p = core (procs s ! i) \<Longrightarrow> ptab_step s (set_proc i p s)"
| ps_other: "procs t = procs s \<Longrightarrow> nextpid t = nextpid s \<Longrightarrow> initproc t = initproc s \<Longrightarrow> ptab_step s t"

lemma ptab_set_alive:
  assumes "ptab_ok s" "i < length (procs s)" "alive (procs s ! i)" "alive p" "p_pid p = p_pid (procs s ! i)" "p_parent p = p_parent (procs s ! i)"
    "procs t = (procs s)[i := p]" "nextpid t = nextpid s" "initproc t = initproc s"
  shows "ptab_ok t"
  using ptab_upd_alive [OF assms(1-5)] assms(6-9) by (simp add: ptab_ok_def)

lemma set_proc_alive:
  "ptab_ok s \<Longrightarrow> i < length (procs s) \<Longrightarrow> alive (procs s ! i) \<Longrightarrow> alive p \<Longrightarrow> p_pid p = p_pid (procs s ! i) \<Longrightarrow>
    p_parent p = p_parent (procs s ! i) \<Longrightarrow> ptab_ok (set_proc i p s)"
  by (rule ptab_set_alive [OF _ _ _ _ _ _ set_proc_simps(1) set_proc_sys(1,2)])

lemma set_myproc_set_proc: "set_myproc p s = set_proc (cur s) p s" by (simp add: set_myproc_def set_proc_def)

lemma kkill_ok:
  assumes "ptab_ok s" "kkill pid s = (r, t)" shows "ptab_ok t"
proof (cases "find (\<lambda>i. p_pid (procs s ! i) = pid) [0..<length (procs s)]")
  case (Some i)
  then have i: "i < length (procs s)" by (auto simp: find_Some_iff)
  show ?thesis
  proof (cases "p_state (procs s ! i) = SLEEPING")
    case True
    then have t: "t = set_proc i ((procs s ! i)\<lparr>p_killed := 1, p_state := RUNNABLE\<rparr>) s" using assms(2) Some by (simp add: kkill_def Let_def)
    have "alive (procs s ! i)" using True by (simp add: alive_def)
    then show ?thesis unfolding t by (rule set_proc_alive [OF assms(1) i]) (simp_all add: alive_def)
  next
    case False
    then have "t = set_proc i ((procs s ! i)\<lparr>p_killed := 1\<rparr>) s" using assms(2) Some by (simp add: kkill_def Let_def)
    then show ?thesis using same_core_ok [OF same_core_upd assms(1)] by (simp add: core_def)
  qed
qed (use assms in \<open>simp add: kkill_def\<close>)

lemma ptab_step_ok: "ptab_step s t \<Longrightarrow> ptab_ok s \<Longrightarrow> ptab_ok t"
proof (induction rule: ptab_step.induct)
  case (ps_wait s a r t)
  then show ?case using kwait_scan_ok [of s a "[0..<length (procs s)]" False r t] by (simp add: kwait_def)
next
  case (ps_exit s st t)
  then show ?case using kexit_zombie_ok [of s st] running_alive [of s] by auto
next
  case (ps_setkilled s i)
  show ?case unfolding setkilled_def by (rule same_core_ok [OF same_core_upd ps_setkilled]) (simp add: core_def)
next
  case (ps_yield s t)
  then have t: "t = set_proc (cur s) ((procs s ! cur s)\<lparr>p_state := RUNNABLE\<rparr>) s"
    by (simp add: yield_def sched_def set_myproc_set_proc myproc_def split: if_splits)
  show ?case unfolding t by (rule set_proc_alive) (use ps_yield running_alive [of s] in \<open>simp_all add: alive_def\<close>)
next
  case (ps_sleep s ch t)
  then have t: "t = set_proc (cur s) ((procs s ! cur s)\<lparr>p_chan := ch, p_state := SLEEPING\<rparr>) s"
    by (simp add: sleep_def sched_def set_myproc_set_proc myproc_def split: if_splits)
  show ?case unfolding t by (rule set_proc_alive) (use ps_sleep running_alive [of s] in \<open>simp_all add: alive_def\<close>)
next
  case (ps_sched i s)
  show ?case
  proof (cases "p_state (procs s ! i) = RUNNABLE")
    case True
    have "ptab_ok (set_proc i ((procs s ! i)\<lparr>p_state := RUNNING\<rparr>) s)"
      by (rule set_proc_alive) (use ps_sched True in \<open>simp_all add: alive_def\<close>)
    then show ?thesis using True by (simp add: scheduler_pick_def ptab_ok_def)
  qed (use ps_sched in \<open>simp add: scheduler_pick_def\<close>)
next
  case (ps_fields p s i)
  then show ?case using same_core_ok [OF same_core_upd] by blast
next
  case (ps_other t s)
  then show ?case by (simp add: ptab_ok_def)
next
  case (ps_fork s r t)
  then show ?case using kfork_ok [of s r t] running_alive [of s] by simp
next
  case (ps_kill pid s r t)
  then show ?case using kkill_ok [of s pid r t] by simp
next
  case (ps_wakeup s ch)
  then show ?case by (rule wakeup_ok)
qed

lemma ptab_boot_ok: "ptab_boot s \<Longrightarrow> ptab_ok s"
proof -
  assume "ptab_boot s"
  then obtain k where k: "nextpid s = 2" "k < length (procs s)" "initproc s = Some k" "core (procs s ! k) = (RUNNABLE, 1, None)"
    "\<forall>i<length (procs s). i \<noteq> k \<longrightarrow> core (procs s ! i) = (UNUSED, 0, None)" by (auto simp: ptab_boot_def)
  have c: "p_state (procs s ! i) = (if i = k then RUNNABLE else UNUSED)" "p_pid (procs s ! i) = (if i = k then 1 else 0)" "p_parent (procs s ! i) = None"
    if "i < length (procs s)" for i using k(4,5) that by (auto simp: core_def)
  then have "pids_ok (procs s) (nextpid s)" unfolding k(1) pids_ok_def by simp
  moreover have "tree_ok (procs s) (initproc s)" unfolding k(3) tree_ok_def using c k(2) by (simp add: alive_def)
  ultimately show ?thesis by (simp add: ptab_ok_def)
qed

interpretation ptab: transition_system ptab_boot ptab_step ptab_ok
  by unfold_locales (fact ptab_boot_ok, fact ptab_step_ok)

lemma namei_root:
  fixes s :: "'a sysst_scheme"
  assumes "namei [slash] s = Ok (c, t)"
  shows "procs t = procs s" "nextpid t = nextpid s" "initproc t = initproc s"
proof -
  have sk: "skipelem [slash] = None" by (simp add: skipelem_def)
  obtain ip where ip: "iget ROOTDEV ROOTINO s = Ok (ip, t)"
    using assms by (auto simp: namei_def namex_def andThen_eq_Ok namex_loop.simps [of _ "[slash]"] sk)
  then show "procs t = procs s" "nextpid t = nextpid s" "initproc t = initproc s"
    by (auto simp: iget_def set_inode_def split: option.splits)
qed

text \<open>\<open>userinit\<close> makes \<^verbatim>\<open>init\<close> the only process of an empty table.\<close>

lemma userinit_boot:
  assumes blank: "\<forall>p\<in>set (procs s). core p = (UNUSED, 0, None)" "nextpid s = 1" and run: "userinit s = Ok t"
  shows "ptab_boot t"
proof -
  obtain q u where a: "allocproc s = Ok (q, u)" using run by (auto simp: userinit_def andThen_eq_Ok)
  obtain k where k: "q = Some k" using run a by (cases q) (auto simp: userinit_def)
  obtain p where p: "k < length (procs s)" "procs u = (procs s)[k := p]" "p_pid p = 1" "p_parent p = p_parent (procs s ! k)" "nextpid u = 2"
    using allocproc_table [OF a] k blank(2) by auto
  obtain c v where v: "namei [slash] (u\<lparr>initproc := Some k\<rparr>) = Ok (c, v)" "t = set_proc k ((procs v ! k)\<lparr>p_cwd := c, p_state := RUNNABLE\<rparr>) v"
    using run a k by (auto simp: userinit_def andThen_eq_Ok Let_def)
  have pv: "procs v = (procs s)[k := p]" "nextpid v = 2" "initproc v = Some k" using namei_root [OF v(1)] p by simp_all
  have pk: "core (procs s ! i) = (UNUSED, 0, None)" if "i < length (procs s)" for i using blank(1) that by simp
  then have "p_parent p = None" using p(1,4) by (simp add: core_def)
  then show ?thesis unfolding ptab_boot_def v(2) using pv p pk by (auto simp: core_def intro!: exI [of _ k])
qed

definition ex_kmem :: kmem where
  "ex_kmem = \<lparr>pmem = (\<lambda>_. 0), kend = 0x80030000, freelist = 0, refcnt = (\<lambda>_. 0)\<rparr>"

definition ex_slot :: "procstate \<Rightarrow> int \<Rightarrow> nat option \<Rightarrow> proc" where
  "ex_slot st pid par = (ex_proc 0 0)\<lparr>p_state := st, p_pid := pid, p_parent := par\<rparr>"

definition ex_sys :: "proc list \<Rightarrow> int \<Rightarrow> nat \<Rightarrow> sysst" where
  "ex_sys ps n c = filest.extend ((ex_files ex_kmem ps ex_pipe)\<lparr>cur := c\<rparr>) (sysst.fields n (Some 0) 0 0 0)"

lemma ex_sys_simps [simp]:
  "procs (ex_sys ps n c) = ps" "cur (ex_sys ps n c) = c" "nextpid (ex_sys ps n c) = n" "initproc (ex_sys ps n c) = Some 0"
  by (simp_all add: ex_sys_def ex_files_def filest.defs sysst.defs)

lemma ex_slot_simps [simp]:
  "p_state (ex_slot st pid par) = st" "p_pid (ex_slot st pid par) = pid" "p_parent (ex_slot st pid par) = par" "p_killed (ex_slot st pid par) = 0"
  "p_trapframe (ex_slot st pid par) = 0" "p_pagetable (ex_slot st pid par) = 0"
  "core (ex_slot st pid par) = (st, pid, par)"
  by (simp_all add: ex_slot_def ex_proc_def core_def)



text \<open>C15. A process that exits becomes a zombie with its exit status and its identifier, and leaves no children:
  they are given to \<^verbatim>\<open>init\<close>, and nothing else in the table changes but that sleepers may be woken.\<close>

theorem exit_adopts_children:
  assumes "ptab_ok s" "running s" "initproc s = Some k" "k \<noteq> cur s"
  shows "\<exists>t. kexit_zombie st s = Ok t \<and> ptab_ok t \<and> length (procs t) = length (procs s) \<and>
    p_state (procs t ! cur s) = ZOMBIE \<and> p_xstate (procs t ! cur s) = st \<and>
    (\<forall>i<length (procs s). p_pid (procs t ! i) = p_pid (procs s ! i) \<and>
       p_parent (procs t ! i) = (if p_parent (procs s ! i) = Some (cur s) then Some k else p_parent (procs s ! i)))"
proof -
  have "cur s < length (procs s)" "alive (procs s ! cur s)" "initproc s \<noteq> Some (cur s)" using running_alive [OF assms(2)] assms(3,4) by simp_all
  from kexit_zombie_ok [OF assms(1) this, of st, unfolded assms(3)] show ?thesis .
qed

theorem exit_adopts_children_witness:
  "\<exists>t. kexit_zombie 3 (ex_sys [ex_slot SLEEPING 1 None, ex_slot RUNNING 2 (Some 0), ex_slot RUNNABLE 3 (Some 1)] 4 1) = Ok t \<and>
     p_state (procs t ! 1) = ZOMBIE \<and> p_xstate (procs t ! 1) = 3 \<and> p_parent (procs t ! 2) = Some 0"
proof -
  let ?ps = "[ex_slot SLEEPING 1 None, ex_slot RUNNING 2 (Some 0), ex_slot RUNNABLE 3 (Some 1)]"
  have "ptab_ok (ex_sys ?ps 4 1)" "running (ex_sys ?ps 4 1)"
    by (auto simp: ptab_ok_def pids_ok_def tree_ok_def running_def alive_def less_Suc_eq numeral_3_eq_3)
  from exit_adopts_children [OF this, of 0 3] show ?thesis by (auto simp: numeral_2_eq_2)
qed

text \<open>C16. \<^verbatim>\<open>wait\<close> returns -1, or the identifier of a child of the caller that has exited; in that case the child's
  slot, and no other, is free again.\<close>

theorem wait_reaps_child:
  assumes "ptab_ok s" "kwait a s = Ok (r, t)" "r \<noteq> - 1"
  shows "\<exists>k<length (procs s). p_state (procs s ! k) = ZOMBIE \<and> p_parent (procs s ! k) = Some (cur s) \<and> r = p_pid (procs s ! k) \<and>
    map core (procs t) = (map core (procs s))[k := (UNUSED, 0, None)] \<and> ptab_ok t"
  using kwait_scan_ok [OF assms(1), of a "[0..<length (procs s)]" False r t] assms(2,3) by (auto simp: kwait_def)

theorem wait_reaps_child_witness:
  "\<exists>t. kwait 0 (ex_sys [ex_slot RUNNING 1 None, ex_slot ZOMBIE 2 (Some 0)] 3 0) = Ok (2, t) \<and>
     map core (procs t) = [(RUNNING, 1, None), (UNUSED, 0, None)]"
proof -
  let ?s = "ex_sys [ex_slot RUNNING 1 None, ex_slot ZOMBIE 2 (Some 0)] 3 0"
  have ok: "ptab_ok ?s" by (auto simp: ptab_ok_def pids_ok_def tree_ok_def alive_def less_Suc_eq)
  obtain t where t: "kwait 0 ?s = Ok (2, t)" by (simp add: kwait_def upt_rec freeproc_def)
  from wait_reaps_child [OF ok t] show ?thesis using t by (auto simp: less_Suc_eq)
qed

text \<open>C17. \<^verbatim>\<open>kill(0)\<close> does not fail: the identifier of an unused slot is 0, so that it succeeds and marks the first
  unused slot as killed, and the process that is next created there is born killed.\<close>

theorem kill_zero_kills_unborn:
  assumes "ptab_ok s" "i < length (procs s)" "p_state (procs s ! i) = UNUSED" "\<forall>j<i. p_state (procs s ! j) \<noteq> UNUSED"
  shows "fst (kkill 0 s) = 0 \<and>
    (\<forall>k t. allocproc (snd (kkill 0 s)) = Ok (Some k, t) \<longrightarrow> k = i \<and> p_killed (procs t ! k) = 1 \<and> p_pid (procs t ! k) = nextpid s)"
proof -
  have pid: "(p_pid (procs s ! j) = 0) = (p_state (procs s ! j) = UNUSED)" if "j < length (procs s)" for j
    using assms(1) that by (simp add: ptab_ok_def pids_ok_def)
  have "find (\<lambda>j. p_pid (procs s ! j) = 0) [0..<length (procs s)] = Some i"
    unfolding find_Some_iff using assms(2-4) pid by (intro exI [of _ i]) auto
  then have kill: "kkill 0 s = (0, set_proc i ((procs s ! i)\<lparr>p_killed := 1\<rparr>) s)" (is "_ = (0, ?s)") using assms(3) by (simp add: kkill_def)
  have "k = i \<and> p_killed (procs t ! k) = 1 \<and> p_pid (procs t ! k) = nextpid s" if a: "allocproc ?s = Ok (Some k, t)" for k t
  proof -
    obtain p where p: "k < length (procs s)" "p_state (procs ?s ! k) = UNUSED" "\<forall>j<k. p_state (procs ?s ! j) \<noteq> UNUSED"
      "procs t = (procs ?s)[k := p]" "p_pid p = nextpid s" "p_killed p = p_killed (procs ?s ! k)"
      using allocproc_table [OF a] by auto
    have st: "p_state (procs ?s ! j) = p_state (procs s ! j)" if "j < length (procs s)" for j using that by (cases "j = i") auto
    have "\<not> i < k" using p(3) st [OF assms(2)] assms(3) by auto
    moreover have "\<not> k < i" using assms(4) p(1,2) st by auto
    ultimately show ?thesis using p by auto
  qed
  then show ?thesis by (simp add: kill)
qed

theorem kill_zero_kills_unborn_witness:
  "fst (kkill 0 (ex_sys [ex_slot RUNNING 1 None, ex_slot UNUSED 0 None] 2 0)) = 0"
proof -
  let ?s = "ex_sys [ex_slot RUNNING 1 None, ex_slot UNUSED 0 None] 2 0"
  have "ptab_ok ?s" by (auto simp: ptab_ok_def pids_ok_def tree_ok_def alive_def less_Suc_eq)
  from kill_zero_kills_unborn [OF this, of 1] show ?thesis by simp
qed

end
