(* ===== verification/Ulib.thy ===== *)
theory Ulib
  imports Kstring
begin

text \<open>
  The C library of user programs (\<^verbatim>\<open>user/ulib.c\<close>), on the byte-addressed memory of a process.  A
  function whose name the kernel also has carries the suffix \<open>_u\<close>.  A loop that ends at a NUL byte
  has the value \<open>None\<close> when there is none; a pointer result that is only the first argument
  is not returned.  System calls are arguments of the functions that make them: \<open>rd n w\<close> is
  \<^verbatim>\<open>read\<close> of \<open>n\<close> bytes from a descriptor in the world \<open>w\<close>, with result \<open>None\<close> for -1.
\<close>

section \<open>Strings\<close>

partial_function (option) strcpy_u :: "mem \<Rightarrow> u64 \<Rightarrow> u64 \<Rightarrow> mem option" where
  "strcpy_u m s t =
     (let m' = m(s := m t) in if m t \<noteq> 0 then strcpy_u m' (s + 1) (t + 1) else Some m')"

partial_function (option) strcmp_u :: "mem \<Rightarrow> u64 \<Rightarrow> u64 \<Rightarrow> int option" where
  "strcmp_u m p q =
     (if m p \<noteq> 0 \<and> m p = m q then strcmp_u m (p + 1) (q + 1) else Some (uint (m p) - uint (m q)))"

partial_function (option) strlen_u_loop :: "mem \<Rightarrow> u64 \<Rightarrow> nat \<Rightarrow> nat option" where
  "strlen_u_loop m s n = (if m (s + of_nat n) \<noteq> 0 then strlen_u_loop m s (n + 1) else Some n)"

definition strlen_u :: "mem \<Rightarrow> u64 \<Rightarrow> u32 option" where
  "strlen_u m s = map_option of_nat (strlen_u_loop m s 0)"

partial_function (option) strchr_u :: "mem \<Rightarrow> u64 \<Rightarrow> u8 \<Rightarrow> u64 option" where
  "strchr_u m s c = (if m s = 0 then Some 0 else if m s = c then Some s else strchr_u m (s + 1) c)"

text \<open>\<open>atoi\<close>: an overflow of the \<^verbatim>\<open>int\<close> is undefined in C.\<close>

abbreviation INT_MAX :: int where "INT_MAX \<equiv> 2147483647"

partial_function (option) atoi_loop :: "mem \<Rightarrow> u64 \<Rightarrow> int \<Rightarrow> int kres option" where
  "atoi_loop m s n =
     (if 48 \<le> m s \<and> m s \<le> 57
      then let n' = n * 10 + uint (m s) in
           if n' > INT_MAX then Some (Panic ''undefined: integer overflow'') else atoi_loop m (s + 1) (n' - 48)
      else Some (Ok n))"

definition atoi :: "mem \<Rightarrow> u64 \<Rightarrow> int kres option" where
  "atoi m s = atoi_loop m s 0"

section \<open>Memory\<close>

definition memset_u :: "mem \<Rightarrow> u64 \<Rightarrow> u32 \<Rightarrow> u32 \<Rightarrow> mem" where
  "memset_u m dst c n = memset_loop m dst (ucast c) 0 (unat n)"

definition memmove_u :: "mem \<Rightarrow> u64 \<Rightarrow> u64 \<Rightarrow> int \<Rightarrow> mem" where
  "memmove_u m vdst vsrc n =
     (if vsrc > vdst then copy_up m vdst vsrc (nat n)
      else copy_down m (vdst + word_of_int n) (vsrc + word_of_int n) (nat n))"

definition memcmp_u :: "mem \<Rightarrow> u64 \<Rightarrow> u64 \<Rightarrow> u32 \<Rightarrow> int" where
  "memcmp_u m s1 s2 n = memcmp_loop m s1 s2 (unat n)"

definition memcpy_u :: "mem \<Rightarrow> u64 \<Rightarrow> u64 \<Rightarrow> u32 \<Rightarrow> mem" where
  "memcpy_u m dst src n = memmove_u m dst src (sint n)"

section \<open>Functions that make system calls\<close>

function gets_loop :: "(nat \<Rightarrow> 'w \<Rightarrow> u8 list option \<times> 'w) \<Rightarrow> u64 \<Rightarrow> int \<Rightarrow> int \<Rightarrow> mem \<Rightarrow> 'w \<Rightarrow> int \<times> mem \<times> 'w" where
  "gets_loop rd buf mx i m w =
     (if i + 1 < mx
      then case rd 1 w of
             (Some (c # _), w) \<Rightarrow>
               let m = m(buf + word_of_int i := c) in
               if c = 10 \<or> c = 13 then (i + 1, m, w) else gets_loop rd buf mx (i + 1) m w
           | (_, w) \<Rightarrow> (i, m, w)
      else (i, m, w))"
  by pat_completeness auto
termination
  by (relation "measure (\<lambda>(rd, buf, mx, i, m, w). nat (mx - i))") auto

definition gets :: "(nat \<Rightarrow> 'w \<Rightarrow> u8 list option \<times> 'w) \<Rightarrow> u64 \<Rightarrow> int \<Rightarrow> mem \<Rightarrow> 'w \<Rightarrow> mem \<times> 'w" where
  "gets rd buf mx m w = (let (i, m, w) = gets_loop rd buf mx 0 m w in (m(buf + word_of_int i := 0), w))"

definition stat_u :: "('w \<Rightarrow> int \<times> 'w) \<Rightarrow> (int \<Rightarrow> 'w \<Rightarrow> int \<times> 'w) \<Rightarrow> (int \<Rightarrow> 'w \<Rightarrow> 'w) \<Rightarrow> 'w \<Rightarrow> int \<times> 'w" where
  "stat_u open_n fstat close w =
     (let (fd, w) = open_n w in
      if fd < 0 then (- 1, w) else let (r, w) = fstat fd w in (r, close fd w))"

text \<open>\<^verbatim>\<open>SBRK_EAGER\<close> is 1, \<^verbatim>\<open>SBRK_LAZY\<close> is 2.\<close>

definition sbrk_u :: "(int \<Rightarrow> int \<Rightarrow> 'w \<Rightarrow> u64 \<times> 'w) \<Rightarrow> int \<Rightarrow> 'w \<Rightarrow> u64 \<times> 'w" where
  "sbrk_u sys n w = sys n 1 w"

definition sbrklazy_u :: "(int \<Rightarrow> int \<Rightarrow> 'w \<Rightarrow> u64 \<times> 'w) \<Rightarrow> int \<Rightarrow> 'w \<Rightarrow> u64 \<times> 'w" where
  "sbrklazy_u sys n w = sys n 2 w"

declare gets_loop.simps [simp del]

section \<open>The string at an address\<close>

lemma strlen_u_loop_at: "str_at m (s + of_nat n) xs \<Longrightarrow> strlen_u_loop m s n = Some (n + length xs)"
proof (induction xs arbitrary: n)
  case Nil
  then show ?case by (simp add: strlen_u_loop.simps)
next
  case (Cons x xs)
  then have "strlen_u_loop m s (n + 1) = Some (n + 1 + length xs)" by (intro Cons.IH) (simp add: algebra_simps)
  then show ?case using Cons.prems by (subst strlen_u_loop.simps) simp
qed

lemma strcmp_u_at:
  "str_at m p xs \<Longrightarrow> str_at m q ys \<Longrightarrow> \<exists>r. strcmp_u m p q = Some r \<and> (r = 0 \<longleftrightarrow> xs = ys)"
proof (induction xs arbitrary: p q ys)
  case Nil
  then show ?case by (subst strcmp_u.simps) (cases ys, auto simp: uint_0_iff)
next
  case (Cons x xs)
  show ?case
  proof (cases ys)
    case Nil
    then show ?thesis using Cons.prems by (subst strcmp_u.simps) (auto simp: uint_0_iff)
  next
    case (Cons y zs)
    show ?thesis
    proof (cases "x = y")
      case True
      have "\<exists>r. strcmp_u m (p + 1) (q + 1) = Some r \<and> (r = 0 \<longleftrightarrow> xs = zs)"
        using Cons.IH [of "p + 1" "q + 1" zs] Cons.prems Cons by simp
      then show ?thesis using True Cons Cons.prems by (subst strcmp_u.simps) simp
    next
      case False
      then show ?thesis using Cons Cons.prems by (subst strcmp_u.simps) (auto dest: unsigned_word_eqI)
    qed
  qed
qed

lemma str_at_frame: "str_at m s xs \<Longrightarrow> \<forall>i\<le>length xs. m' (s + of_nat i) = m (s + of_nat i) \<Longrightarrow> str_at m' s xs"
proof (induction xs arbitrary: s)
  case (Cons x xs)
  have "\<forall>i\<le>length xs. m' (s + 1 + of_nat i) = m (s + 1 + of_nat i)"
  proof (intro allI impI)
    fix i assume "i \<le> length xs"
    then show "m' (s + 1 + of_nat i) = m (s + 1 + of_nat i)" using Cons.prems(2) [rule_format, of "Suc i"] by (simp add: algebra_simps)
  qed
  moreover have "m' s = m s" using Cons.prems(2) [rule_format, of 0] by simp
  ultimately show ?case using Cons.IH [of "s + 1"] Cons.prems(1) by simp
qed simp

text \<open>Two strings of a memory do not overlap: no byte of the one, its NUL included, is a byte of the other.\<close>

definition apart :: "u64 \<Rightarrow> nat \<Rightarrow> u64 \<Rightarrow> nat \<Rightarrow> bool" where
  "apart s k t l \<longleftrightarrow> (\<forall>i\<le>k. \<forall>j\<le>l. s + of_nat i \<noteq> t + of_nat j)"

lemma apart_Suc: "apart s (Suc k) t (Suc l) \<Longrightarrow> apart (s + 1) k (t + 1) l"
  unfolding apart_def
proof (intro allI impI)
  fix i j assume a: "\<forall>i\<le>Suc k. \<forall>j\<le>Suc l. s + of_nat i \<noteq> t + of_nat j" "i \<le> k" "j \<le> l"
  from a(1) [rule_format, of "Suc i" "Suc j"] a(2,3) show "s + 1 + of_nat i \<noteq> t + 1 + of_nat j" by (simp add: algebra_simps)
qed

lemma strcpy_u_at:
  assumes "str_at m t xs" "apart s (length xs) t (length xs)" "length xs < 2 ^ 32"
  shows "\<exists>m'. strcpy_u m s t = Some m' \<and> str_at m' s xs \<and> (\<forall>x. (\<forall>i\<le>length xs. x \<noteq> s + of_nat i) \<longrightarrow> m' x = m x)"
  using assms
proof (induction xs arbitrary: m s t)
  case Nil
  then show ?case by (subst strcpy_u.simps) (auto simp: Let_def)
next
  case (Cons x xs)
  let ?m = "m(s := m t)"
  have ap: "apart (s + 1) (length xs) (t + 1) (length xs)" using Cons.prems(2) by (simp add: apart_Suc)
  have nt: "t + 1 + of_nat i \<noteq> s" if "i \<le> length xs" for i
    using Cons.prems(2) that Cons.prems(2) [unfolded apart_def, rule_format, of 0 "Suc i"] by (auto simp: algebra_simps)
  have "str_at m (t + 1) xs" using Cons.prems(1) by simp
  then have "str_at ?m (t + 1) xs" by (rule str_at_frame) (simp add: nt)
  have len: "length xs < 2 ^ 32" using Cons.prems(3) by simp
  from Cons.IH [OF \<open>str_at ?m (t + 1) xs\<close> ap len] obtain m' where m': "strcpy_u ?m (s + 1) (t + 1) = Some m'" "str_at m' (s + 1) xs"
    "\<forall>x. (\<forall>i\<le>length xs. x \<noteq> s + 1 + of_nat i) \<longrightarrow> m' x = ?m x" by blast
  have "s \<noteq> s + 1 + of_nat i" if "i \<le> length xs" for i
    using word_eq_base_iff [of "Suc i" s s] that len by (simp add: algebra_simps)
  then have "m' s = x" using m'(3) Cons.prems(1) by simp
  then have "str_at m' s (x # xs)" using m'(2) Cons.prems(1) by simp
  moreover have "m' y = m y" if "\<forall>i\<le>length (x # xs). y \<noteq> s + of_nat i" for y
  proof -
    have "y \<noteq> s" using that [rule_format, of 0] by simp
    moreover have "y \<noteq> s + 1 + of_nat i" if "i \<le> length xs" for i
      using \<open>\<forall>i\<le>length (x # xs). y \<noteq> s + of_nat i\<close> [rule_format, of "Suc i"] that by (simp add: algebra_simps)
    ultimately show ?thesis using m'(3) by simp
  qed
  moreover have "strcpy_u m s t = Some m'" using m'(1) Cons.prems(1) by (subst strcpy_u.simps) (simp add: Let_def)
  ultimately show ?case by blast
qed

lemma strchr_u_at:
  "str_at m s xs \<Longrightarrow> c \<noteq> 0 \<Longrightarrow>
    strchr_u m s c = Some (if c \<in> set xs then s + of_nat (length (takeWhile (\<lambda>x. x \<noteq> c) xs)) else 0)"
proof (induction xs arbitrary: s)
  case Nil
  then show ?case by (subst strchr_u.simps) simp
next
  case (Cons x xs)
  then show ?case by (subst strchr_u.simps) (auto simp: algebra_simps)
qed

text \<open>\<open>atoi\<close> on the bytes of a string.\<close>

fun atoi_digits :: "u8 list \<Rightarrow> int \<Rightarrow> int kres" where
  "atoi_digits [] n = Ok n"
| "atoi_digits (c # cs) n =
     (if 48 \<le> c \<and> c \<le> 57
      then if n * 10 + uint c > INT_MAX then Panic ''undefined: integer overflow'' else atoi_digits cs (n * 10 + uint c - 48)
      else Ok n)"

lemma atoi_loop_at: "str_at m s xs \<Longrightarrow> atoi_loop m s n = Some (atoi_digits xs n)"
proof (induction xs arbitrary: s n)
  case Nil
  then show ?case by (subst atoi_loop.simps) simp
next
  case (Cons x xs)
  then show ?case by (subst atoi_loop.simps) (simp add: Let_def)
qed

lemma atoi_at: "str_at m s xs \<Longrightarrow> atoi m s = Some (atoi_digits xs 0)"
  by (simp add: atoi_def atoi_loop_at)



text \<open>C39. The library's \<open>memmove\<close> agrees with the kernel's: both copy any two regions that do not wrap around the
  address space correctly, overlapping or not, although they choose the direction of the copy differently.\<close>

theorem memmove_agrees:
  assumes "0 \<le> n" "n < 2 ^ 31" "uint src + n < 2 ^ 64" "uint dst + n < 2 ^ 64"
  shows "memmove_u m dst src n = memmove m dst src (word_of_int n) \<and> memmove_u m dst src n = mem_copy m dst src (nat n)"
proof -
  have n: "unat (word_of_int n :: u32) = nat n" using assms(1,2) by (simp add: unat_eq_nat_uint uint_word_of_int)
  have "int (unat src + nat n) = uint src + n" "int (unat dst + nat n) = uint dst + n" using assms(1) by simp_all
  then have "int (unat src + nat n) < 2 ^ 64" "int (unat dst + nat n) < 2 ^ 64" using assms(3,4) by (simp_all only:)
  then have s: "unat src + nat n < 2 ^ 64" "unat dst + nat n < 2 ^ 64" by (simp_all only: of_nat_less_numeral_power_cancel_iff)
  have "memmove_u m dst src n = mem_copy m dst src (nat n)"
  proof (cases "src > dst")
    case True
    then have "dst \<le> src" by simp
    then show ?thesis using True copy_up_copy [of src "nat n" dst m] s by (simp add: memmove_u_def)
  next
    case False
    have "(word_of_int n :: u64) = of_nat (nat n)" using assms(1) by simp
    then show ?thesis using False copy_down_copy [of src "nat n" dst m] s by (simp add: memmove_u_def)
  qed
  moreover have "memmove m dst src (word_of_int n) = mem_copy m dst src (nat n)" using memmove_copy [of src "word_of_int n" dst m] s n by simp
  ultimately show ?thesis by simp
qed

theorem memmove_agrees_witness:
  "memmove_u (\<lambda>_. 7) 4100 4096 16 = mem_copy (\<lambda>_. 7) 4100 4096 (nat 16)"
  by (rule memmove_agrees [THEN conjunct2]) simp_all

section \<open>Reading from a descriptor\<close>

text \<open>What a program may rely on when it reads a file or a pipe: \<open>rem w\<close> is what is still to be read; a
  read returns a piece of its beginning, of at most the length asked for, and nothing only at the end.\<close>

definition reads :: "(nat \<Rightarrow> 'w \<Rightarrow> u8 list option \<times> 'w) \<Rightarrow> ('w \<Rightarrow> u8 list) \<Rightarrow> bool" where
  "reads rd rem \<longleftrightarrow> (\<forall>n w. \<exists>bs w'. rd n w = (Some bs, w') \<and> length bs \<le> n \<and> rem w = bs @ rem w' \<and> (0 < n \<and> rem w \<noteq> [] \<longrightarrow> bs \<noteq> []))"

lemma readsE:
  assumes "reads rd rem"
  obtains bs w' where "rd n w = (Some bs, w')" "length bs \<le> n" "rem w = bs @ rem w'" "0 < n \<Longrightarrow> rem w \<noteq> [] \<Longrightarrow> bs \<noteq> []"
  using assms unfolding reads_def by blast

text \<open>A reader: a list of bytes, at most three of which are delivered at a time.\<close>

definition read3 :: "nat \<Rightarrow> u8 list \<Rightarrow> u8 list option \<times> u8 list" where
  "read3 n xs = (Some (take (min n 3) xs), drop (min n 3) xs)"

lemma read3_reads: "reads read3 (\<lambda>xs. xs)"
  unfolding reads_def
proof (intro allI)
  fix n :: nat and w :: "u8 list"
  show "\<exists>bs w'. read3 n w = (Some bs, w') \<and> length bs \<le> n \<and> w = bs @ w' \<and> (0 < n \<and> w \<noteq> [] \<longrightarrow> bs \<noteq> [])"
    by (intro exI [of _ "take (min n 3) w"] exI [of _ "drop (min n 3) w"]) (simp add: read3_def)
qed

end
