(* ===== verification/Grep.thy ===== *)
theory Grep
  imports Ulib
begin

text \<open>
  The pattern matcher and the line loop of \<^verbatim>\<open>user/grep.c\<close>.  A C string is the list of its
  bytes before the NUL; a buffer is the list of the bytes read into it.  The matcher is shown to
  decide the language its pattern denotes, and the line loop to put out the matching lines, however
  the reads cut the input into pieces.
\<close>

abbreviation CARET :: u8 where "CARET \<equiv> 94"
abbreviation DOLLAR :: u8 where "DOLLAR \<equiv> 36"
abbreviation ASTERISK :: u8 where "ASTERISK \<equiv> 42"
abbreviation DOT :: u8 where "DOT \<equiv> 46"
abbreviation NEWLINE :: u8 where "NEWLINE \<equiv> 10"

section \<open>The matcher\<close>

function matchhere :: "u8 list \<Rightarrow> u8 list \<Rightarrow> bool"
  and matchstar :: "u8 \<Rightarrow> u8 list \<Rightarrow> u8 list \<Rightarrow> bool" where
  "matchhere [] tx = True"
| "matchhere (r # re) tx =
     (if re \<noteq> [] \<and> hd re = ASTERISK then matchstar r (tl re) tx
      else if r = DOLLAR \<and> re = [] then tx = []
      else if tx \<noteq> [] \<and> (r = DOT \<or> r = hd tx) then matchhere re (tl tx)
      else False)"
| "matchstar c re tx =
     (if matchhere re tx then True
      else if tx \<noteq> [] \<and> (hd tx = c \<or> c = DOT) then matchstar c re (tl tx)
      else False)"
  by pat_completeness auto
termination
  by (relation "measure (\<lambda>x. case x of Inl (re, t) \<Rightarrow> 2 * (length re + length t) | Inr (c, re, t) \<Rightarrow> 2 * (length re + length t) + 1)")
    (auto simp: neq_Nil_conv)

fun match_loop :: "u8 list \<Rightarrow> u8 list \<Rightarrow> bool" where
  "match_loop re tx =
     (if matchhere re tx then True
      else case tx of [] \<Rightarrow> False | _ # tx \<Rightarrow> match_loop re tx)"

declare match_loop.simps [simp del]

definition match :: "u8 list \<Rightarrow> u8 list \<Rightarrow> bool" where
  "match re tx = (if re \<noteq> [] \<and> hd re = CARET then matchhere (tl re) tx else match_loop re tx)"

section \<open>Patterns and their language\<close>

datatype atom = Any | Lit u8
datatype item = One atom | Many atom

fun accepts :: "atom \<Rightarrow> u8 \<Rightarrow> bool" where
  "accepts Any c = True"
| "accepts (Lit a) c = (c = a)"

fun lang :: "item list \<Rightarrow> u8 list set" where
  "lang [] = {[]}"
| "lang (One a # is) = {c # w | c w. accepts a c \<and> w \<in> lang is}"
| "lang (Many a # is) = {v @ w | v w. (\<forall>c\<in>set v. accepts a c) \<and> w \<in> lang is}"

definition atom_of :: "u8 \<Rightarrow> atom" where
  "atom_of r = (if r = DOT then Any else Lit r)"

text \<open>The items of a pattern, and whether it ends in the anchor \<^verbatim>\<open>$\<close>.\<close>

fun items :: "u8 list \<Rightarrow> item list \<times> bool" where
  "items [] = ([], False)"
| "items [r] = (if r = DOLLAR then ([], True) else ([One (atom_of r)], False))"
| "items (r # q # re) =
     (if q = ASTERISK then (let (is, e) = items re in (Many (atom_of r) # is, e))
      else (let (is, e) = items (q # re) in (One (atom_of r) # is, e)))"

text \<open>The text begins with a word of the language; at an anchored end it is that word.\<close>

definition begins :: "item list \<times> bool \<Rightarrow> u8 list \<Rightarrow> bool" where
  "begins p tx \<longleftrightarrow> (\<exists>v w. tx = v @ w \<and> v \<in> lang (fst p) \<and> (snd p \<longrightarrow> w = []))"

lemma accepts_atom_of: "accepts (atom_of r) c \<longleftrightarrow> r = DOT \<or> c = r"
  by (simp add: atom_of_def)

lemma begins_nil: "begins ([], e) tx \<longleftrightarrow> (e \<longrightarrow> tx = [])"
  by (auto simp: begins_def)

lemma beginsI: "v \<in> lang is \<Longrightarrow> (e \<longrightarrow> w = []) \<Longrightarrow> begins (is, e) (v @ w)"
  unfolding begins_def fst_conv snd_conv by blast

lemma beginsE:
  assumes "begins (is, e) tx"
  obtains v w where "tx = v @ w" "v \<in> lang is" "e \<longrightarrow> w = []"
  using assms unfolding begins_def fst_conv snd_conv by blast

lemma begins_one: "begins (One a # is, e) tx \<longleftrightarrow> tx \<noteq> [] \<and> accepts a (hd tx) \<and> begins (is, e) (tl tx)"
proof
  assume "begins (One a # is, e) tx"
  then obtain v w where t: "tx = v @ w" "v \<in> lang (One a # is)" "e \<longrightarrow> w = []" by (rule beginsE)
  from t(2) obtain c u where "v = c # u" "accepts a c" "u \<in> lang is" by auto
  then show "tx \<noteq> [] \<and> accepts a (hd tx) \<and> begins (is, e) (tl tx)" using t(1) beginsI [OF _ t(3)] by simp
next
  assume a: "tx \<noteq> [] \<and> accepts a (hd tx) \<and> begins (is, e) (tl tx)"
  then obtain v w where t: "tl tx = v @ w" "v \<in> lang is" "e \<longrightarrow> w = []" by (blast elim: beginsE)
  have "hd tx # v \<in> lang (One a # is)" using a t(2) by simp
  from beginsI [OF this t(3)] have "begins (One a # is, e) (hd tx # tl tx)" using t(1) by simp
  then show "begins (One a # is, e) tx" using a by simp
qed

lemma lang_manyI: "\<forall>c\<in>set x. accepts a c \<Longrightarrow> u \<in> lang is \<Longrightarrow> x @ u \<in> lang (Many a # is)"
  unfolding lang.simps by blast

lemma begins_many: "begins (Many a # is, e) tx \<longleftrightarrow>
    begins (is, e) tx \<or> tx \<noteq> [] \<and> accepts a (hd tx) \<and> begins (Many a # is, e) (tl tx)"
proof
  assume "begins (Many a # is, e) tx"
  then obtain v w where t: "tx = v @ w" "v \<in> lang (Many a # is)" "e \<longrightarrow> w = []" by (rule beginsE)
  from t(2) obtain x u where x: "v = x @ u" "\<forall>c\<in>set x. accepts a c" "u \<in> lang is" by auto
  show "begins (is, e) tx \<or> tx \<noteq> [] \<and> accepts a (hd tx) \<and> begins (Many a # is, e) (tl tx)"
  proof (cases x)
    case Nil
    then show ?thesis using beginsI [OF x(3) t(3)] t(1) x(1) by simp
  next
    case (Cons c y)
    then have "y @ u \<in> lang (Many a # is)" using x by auto
    from beginsI [OF this t(3)] show ?thesis using t(1) x(1,2) Cons by simp
  qed
next
  assume "begins (is, e) tx \<or> tx \<noteq> [] \<and> accepts a (hd tx) \<and> begins (Many a # is, e) (tl tx)"
  then show "begins (Many a # is, e) tx"
  proof
    assume "begins (is, e) tx"
    then obtain v w where t: "tx = v @ w" "v \<in> lang is" "e \<longrightarrow> w = []" by (rule beginsE)
    have "[] @ v \<in> lang (Many a # is)" by (rule lang_manyI [OF _ t(2)]) simp
    from beginsI [OF this t(3)] show ?thesis using t(1) by simp
  next
    assume a: "tx \<noteq> [] \<and> accepts a (hd tx) \<and> begins (Many a # is, e) (tl tx)"
    then obtain v w where t: "tl tx = v @ w" "v \<in> lang (Many a # is)" "e \<longrightarrow> w = []" by (blast elim: beginsE)
    from t(2) obtain x u where x: "v = x @ u" "\<forall>c\<in>set x. accepts a c" "u \<in> lang is" by auto
    have "(hd tx # x) @ u \<in> lang (Many a # is)" by (rule lang_manyI [OF _ x(3)]) (use a x(2) in simp)
    from beginsI [OF this t(3)] have "begins (Many a # is, e) (hd tx # tl tx)" using t(1) x(1) by simp
    then show ?thesis using a by simp
  qed
qed

lemma match_items:
  "matchhere re tx \<longleftrightarrow> begins (items re) tx"
  "matchstar c re tx \<longleftrightarrow> begins (Many (atom_of c) # fst (items re), snd (items re)) tx"
proof (induction re tx and c re tx rule: matchhere_matchstar.induct)
  case (1 tx)
  show ?case by (simp add: begins_nil)
next
  case (2 r re tx)
  show ?case
  proof (cases re)
    case Nil
    then show ?thesis using 2(2) by (auto simp: begins_nil begins_one accepts_atom_of)
  next
    case (Cons q rs)
    then show ?thesis using 2 by (auto simp: begins_one accepts_atom_of split: prod.splits)
  qed
next
  case (3 c re tx)
  show ?case unfolding matchstar.simps [of c re tx] using 3
    by (auto simp: begins_many [of _ _ _ tx] accepts_atom_of)
qed

lemma match_loop_items: "match_loop re tx \<longleftrightarrow> (\<exists>u t. tx = u @ t \<and> begins (items re) t)"
proof (induction tx)
  case Nil
  then show ?case by (simp add: match_loop.simps match_items)
next
  case (Cons c tx)
  then show ?case unfolding match_loop.simps [of re "c # tx"] by (auto simp: match_items Cons_eq_append_conv)
qed

definition pattern_start :: "u8 list \<Rightarrow> bool" where
  "pattern_start re \<longleftrightarrow> re \<noteq> [] \<and> hd re = CARET"

definition pattern_items :: "u8 list \<Rightarrow> item list" where
  "pattern_items re = fst (items (if pattern_start re then tl re else re))"

definition pattern_end :: "u8 list \<Rightarrow> bool" where
  "pattern_end re \<longleftrightarrow> snd (items (if pattern_start re then tl re else re))"

text \<open>C29. The matcher decides the language of its pattern: \<open>match\<close> finds \<open>re\<close> in a line exactly if some
  part of the line is a word of the language of the items of the pattern, at the beginning of the line if the pattern
  starts with \<^verbatim>\<open>^\<close> and at its end if it ends in \<^verbatim>\<open>$\<close>.\<close>

theorem match_correct:
  "match re tx \<longleftrightarrow> (\<exists>u v w. tx = u @ v @ w \<and> v \<in> lang (pattern_items re) \<and>
     (pattern_start re \<longrightarrow> u = []) \<and> (pattern_end re \<longrightarrow> w = []))"
  unfolding match_def pattern_items_def pattern_end_def match_items match_loop_items begins_def
  by (cases "pattern_start re") (auto simp: pattern_start_def)

theorem match_correct_witness:
  "\<exists>u v w. [120, 97, 97, 98] = u @ v @ w \<and> v \<in> lang (pattern_items [97, ASTERISK, 98, DOLLAR]) \<and> w = []"
proof -
  have "match [97, ASTERISK, 98, DOLLAR] [120, 97, 97, 98]" by (simp add: match_def match_loop.simps)
  moreover have "pattern_end [97, ASTERISK, 98, DOLLAR]" by (simp add: pattern_end_def pattern_start_def)
  ultimately show ?thesis using match_correct [of "[97, ASTERISK, 98, DOLLAR]" "[120, 97, 97, 98]"] by auto
qed

section \<open>The line loop\<close>

text \<open>The inner loop: \<open>b\<close> is the buffer from \<^verbatim>\<open>p\<close> on.  \<^verbatim>\<open>strchr\<close> stops at a NUL.  The result is what is
  written to descriptor 1, and the buffer from where \<^verbatim>\<open>p\<close> ends up.\<close>

function grep_lines :: "u8 list \<Rightarrow> u8 list \<Rightarrow> u8 list list \<times> u8 list" where
  "grep_lines pattern b =
     (let line = takeWhile (\<lambda>c. c \<noteq> NEWLINE \<and> c \<noteq> 0) b; rest = drop (length line) b in
      if rest \<noteq> [] \<and> hd rest = NEWLINE
      then let (ws, e) = grep_lines pattern (tl rest)
           in (if match pattern line then (line @ [NEWLINE]) # ws else ws, e)
      else ([], b))"
  by pat_completeness auto
termination
proof (relation "measure (\<lambda>(pattern, b). length b)", goal_cases)
  case (2 pattern b x xa)
  have "length xa \<le> length b" unfolding 2 by simp
  then show ?case using 2(3) by (cases xa) auto
qed simp

declare grep_lines.simps [simp del]

text \<open>The outer loop: \<open>b\<close> is what \<^verbatim>\<open>buf\<close> holds, \<^verbatim>\<open>m\<close> its length.\<close>

partial_function (option) grep_loop :: "(nat \<Rightarrow> 'w \<Rightarrow> u8 list option \<times> 'w) \<Rightarrow> u8 list \<Rightarrow> u8 list \<Rightarrow> 'w \<Rightarrow> (u8 list list \<times> 'w) option" where
  "grep_loop rd pattern b w =
     (case rd (1024 - length b - 1) w of
        (None, w) \<Rightarrow> Some ([], w)
      | (Some bs, w) \<Rightarrow>
         if bs = [] then Some ([], w)
         else let (ws, b) = grep_lines pattern (b @ bs)
              in Option.bind (grep_loop rd pattern b w) (\<lambda>(vs, w). Some (ws @ vs, w)))"

definition grep :: "(nat \<Rightarrow> 'w \<Rightarrow> u8 list option \<times> 'w) \<Rightarrow> u8 list \<Rightarrow> 'w \<Rightarrow> (u8 list list \<times> 'w) option" where
  "grep rd pattern w = grep_loop rd pattern [] w"

section \<open>Lines\<close>

text \<open>The lines of a file that end in a newline, and what follows the last of them.\<close>

fun lines :: "u8 list \<Rightarrow> u8 list list" where
  "lines [] = []"
| "lines (c # cs) = (if c = NEWLINE then [] # lines cs else case lines cs of [] \<Rightarrow> [] | l # ls \<Rightarrow> (c # l) # ls)"

fun tail :: "u8 list \<Rightarrow> u8 list" where
  "tail [] = []"
| "tail (c # cs) = (if NEWLINE \<in> set (c # cs) then tail cs else c # cs)"

lemma lines_none: "NEWLINE \<notin> set b \<Longrightarrow> lines b = []"
  by (induction b) auto

lemma lines_Nil_iff: "lines b = [] \<longleftrightarrow> NEWLINE \<notin> set b"
  by (induction b) (auto split: list.splits)

lemma lines_line: "NEWLINE \<notin> set l \<Longrightarrow> lines (l @ NEWLINE # b) = l # lines b"
  by (induction l) auto

lemma tail_none: "NEWLINE \<notin> set b \<Longrightarrow> tail b = b"
  by (cases b) auto

lemma tail_line: "tail (l @ NEWLINE # b) = tail b"
  by (induction l) auto

lemma tail_no_newline: "NEWLINE \<notin> set (tail b)"
  by (induction b) auto

lemma split_line: "NEWLINE \<in> set b \<Longrightarrow> \<exists>l r. b = l @ NEWLINE # r \<and> NEWLINE \<notin> set l"
  by (rule split_list_first)

lemma takeWhile_until: "x \<notin> set l \<Longrightarrow> takeWhile (\<lambda>c. c \<noteq> x) (l @ x # r) = l"
  by (induction l) auto

lemma lines_append: "lines (b @ d) = lines b @ lines (tail b @ d)"
proof (induction b rule: length_induct)
  case (1 b)
  show ?case
  proof (cases "NEWLINE \<in> set b")
    case True
    then obtain l r where "b = l @ NEWLINE # r" "NEWLINE \<notin> set l" using split_line by blast
    then show ?thesis using 1 [rule_format, of r] by (simp add: lines_line tail_line)
  qed (simp add: lines_none tail_none)
qed

lemma grep_lines_none:
  assumes "NEWLINE \<notin> set b"
  shows "grep_lines pattern b = ([], b)"
proof -
  have "hd (drop k b) \<noteq> NEWLINE" if "drop k b \<noteq> []" for k
    using hd_in_set [OF that] set_drop_subset [of k b] assms by auto
  then have "\<not> (drop k b \<noteq> [] \<and> hd (drop k b) = NEWLINE)" for k by blast
  then show ?thesis by (subst grep_lines.simps) (simp only: Let_def if_False)
qed

lemma grep_lines_spec:
  "0 \<notin> set b \<Longrightarrow> grep_lines pattern b = (map (\<lambda>l. l @ [NEWLINE]) (filter (match pattern) (lines b)), tail b)"
proof (induction b rule: length_induct)
  case (1 b)
  have tw: "takeWhile (\<lambda>c. c \<noteq> NEWLINE \<and> c \<noteq> 0) b = takeWhile (\<lambda>c. c \<noteq> NEWLINE) b"
    by (rule takeWhile_cong) (use 1(2) in auto)
  show ?case
  proof (cases "NEWLINE \<in> set b")
    case True
    then obtain l r where b: "b = l @ NEWLINE # r" "NEWLINE \<notin> set l" using split_line by blast
    have "takeWhile (\<lambda>c. c \<noteq> NEWLINE) b = l" unfolding b(1) by (rule takeWhile_until [OF b(2)])
    then show ?thesis using 1(1) [rule_format, of r] 1(2) b tw
      by (subst grep_lines.simps) (simp add: Let_def lines_line tail_line)
  next
    case False
    then show ?thesis by (simp add: grep_lines_none lines_none tail_none)
  qed
qed

lemma set_tail: "set (tail b) \<subseteq> set b"
  by (induction b) auto

lemma line_of_tail: "NEWLINE \<notin> set b \<Longrightarrow> NEWLINE \<in> set d \<Longrightarrow> \<exists>l \<in> set (lines (b @ d)). length b \<le> length l"
proof -
  assume b: "NEWLINE \<notin> set b" and "NEWLINE \<in> set d"
  then obtain l r where "d = l @ NEWLINE # r" "NEWLINE \<notin> set l" using split_line by blast
  then have "lines (b @ d) = (b @ l) # lines r" using lines_line [of "b @ l" r] b by simp
  then show ?thesis by simp
qed

lemma grep_loop_spec:
  assumes rd: "reads rd rem"
  shows "NEWLINE \<notin> set b \<Longrightarrow> 0 \<notin> set b \<Longrightarrow> 0 \<notin> set (rem w) \<Longrightarrow> \<forall>l\<in>set (lines (b @ rem w)). length l \<le> 1022 \<Longrightarrow>
    \<exists>w'. grep_loop rd pattern b w = Some (map (\<lambda>l. l @ [NEWLINE]) (filter (match pattern) (lines (b @ rem w))), w')"
proof (induction "length (rem w)" arbitrary: b w rule: less_induct)
  case less
  obtain bs v where r: "rd (1024 - length b - 1) w = (Some bs, v)" "rem w = bs @ rem v"
    "0 < 1024 - length b - 1 \<longrightarrow> rem w \<noteq> [] \<longrightarrow> bs \<noteq> []" using readsE [OF rd, of "1024 - length b - 1" w] by metis
  show ?case
  proof (cases "bs = []")
    case True
    have "NEWLINE \<notin> set (rem w)"
    proof
      assume nl: "NEWLINE \<in> set (rem w)"
      then have "length b \<le> 1022" using line_of_tail [OF less.prems(1) nl] less.prems(4) by (meson order_trans)
      then show False using r(3) nl True by auto
    qed
    then have "lines (b @ rem w) = []" using less.prems(1) by (simp add: lines_none)
    then show ?thesis using r(1) True by (subst grep_loop.simps) simp
  next
    case False
    have z: "0 \<notin> set (b @ bs)" "0 \<notin> set (rem v)" using less.prems(2,3) r(2) by auto
    have eq: "lines (b @ rem w) = lines (b @ bs) @ lines (tail (b @ bs) @ rem v)"
      unfolding r(2) append_assoc [symmetric] by (rule lines_append)
    have "\<exists>w'. grep_loop rd pattern (tail (b @ bs)) v =
        Some (map (\<lambda>l. l @ [NEWLINE]) (filter (match pattern) (lines (tail (b @ bs) @ rem v))), w')"
    proof (rule less.hyps)
      show "length (rem v) < length (rem w)" using r(2) False by simp
      show "NEWLINE \<notin> set (tail (b @ bs))" by (rule tail_no_newline)
      show "0 \<notin> set (tail (b @ bs))" using z(1) set_tail by blast
      show "0 \<notin> set (rem v)" by (rule z(2))
      show "\<forall>l\<in>set (lines (tail (b @ bs) @ rem v)). length l \<le> 1022" using less.prems(4) eq by simp
    qed
    then show ?thesis using r(1) False grep_lines_spec [OF z(1)] eq by (subst grep_loop.simps) auto
  qed
qed

text \<open>C30. \<open>grep\<close> puts out the matching lines: reading from a file with no NUL in it and no line of more than
  1022 bytes it ends, whatever pieces the reads deliver, and has written those lines of the file, in order and with
  their newlines, in which the pattern matches.  A last line without a newline is not looked at.\<close>

theorem grep_selects_lines:
  assumes "reads rd rem" "0 \<notin> set (rem w)" "\<forall>l\<in>set (lines (rem w)). length l \<le> 1022"
  shows "\<exists>w'. grep rd pattern w = Some (map (\<lambda>l. l @ [NEWLINE]) (filter (match pattern) (lines (rem w))), w')"
  using grep_loop_spec [OF assms(1), of "[]" w pattern] assms(2,3) by (simp add: grep_def)

theorem grep_selects_lines_witness:
  "\<exists>w'. grep read3 [97] [98, 10, 99, 97, 98, 97, 10, 97] = Some ([[99, 97, 98, 97, 10]], w')"
proof -
  let ?f = "[98, 10, 99, 97, 98, 97, 10, 97]"
  have l: "lines ?f = [[98], [99, 97, 98, 97]]" by simp
  have "filter (match [97]) (lines ?f) = [[99, 97, 98, 97]]" unfolding l by (simp add: match_def match_loop.simps)
  then show ?thesis using grep_selects_lines [OF read3_reads, of ?f "[97]"] l by simp
qed

text \<open>C31. A line that fills the buffer ends the search: when the first 1023 bytes of a file hold no newline \<open>grep\<close>
  stops without reading on, and no line after them is searched.\<close>

theorem grep_stops_at_long_line:
  assumes "rd 1023 w = (Some b, v)" "length b = 1023" "NEWLINE \<notin> set b" "rd 0 v = (Some [], v)"
  shows "grep rd pattern w = Some ([], v)"
proof -
  have "grep_lines pattern b = ([], b)" by (rule grep_lines_none [OF assms(3)])
  moreover have "b \<noteq> []" using assms(2) by auto
  moreover have "grep_loop rd pattern b v = Some ([], v)" using assms(2,4) by (subst grep_loop.simps) simp
  ultimately show ?thesis unfolding grep_def using assms(1) by (subst grep_loop.simps) simp
qed

theorem grep_stops_at_long_line_witness:
  "grep (\<lambda>n xs. (Some (take n xs), drop n xs)) [97] (replicate 1023 98 @ [10, 97, 10]) = Some ([], [10, 97, 10])"
  by (rule grep_stops_at_long_line [where b = "replicate 1023 98"]) simp_all

end
