(* ===== verification/Uprog.thy ===== *)
theory Uprog
  imports Ulib Grep Printf
begin

text \<open>
  Programs of user space: \<^verbatim>\<open>cat\<close>, \<^verbatim>\<open>wc\<close>, \<^verbatim>\<open>echo\<close>, \<^verbatim>\<open>grep\<close>, \<^verbatim>\<open>kill\<close>, \<^verbatim>\<open>rm\<close>, \<^verbatim>\<open>ln\<close> and
  \<^verbatim>\<open>mkdir\<close>.  A program is a function of the system calls, a record of functions on the world
  outside the process, and of its arguments; it has the value \<open>None\<close> if it runs forever.  \<open>Inl\<close> is the
  exit of the process in the middle of a function, \<open>Inr\<close> its return.
\<close>

record 'w os =
  os_open :: "u8 list \<Rightarrow> int \<Rightarrow> 'w \<Rightarrow> int \<times> 'w"
  os_read :: "int \<Rightarrow> nat \<Rightarrow> 'w \<Rightarrow> u8 list option \<times> 'w"
  os_write :: "int \<Rightarrow> u8 list \<Rightarrow> 'w \<Rightarrow> int \<times> 'w"
  os_close :: "int \<Rightarrow> 'w \<Rightarrow> 'w"
  os_unlink :: "u8 list \<Rightarrow> 'w \<Rightarrow> int \<times> 'w"
  os_mkdir :: "u8 list \<Rightarrow> 'w \<Rightarrow> int \<times> 'w"
  os_link :: "u8 list \<Rightarrow> u8 list \<Rightarrow> 'w \<Rightarrow> int \<times> 'w"
  os_kill :: "int \<Rightarrow> 'w \<Rightarrow> int \<times> 'w"

definition str :: "string \<Rightarrow> u8 list" where
  "str s = map of_char s"

section \<open>Output\<close>

definition putc :: "'w os \<Rightarrow> int \<Rightarrow> u8 \<Rightarrow> 'w \<Rightarrow> 'w" where
  "putc os fd c w = snd (os_write os fd [c] w)"

text \<open>\<open>vprintf\<close> gives the characters; an argument list that does not fit the format, which no caller passes, gives none.\<close>

definition fprintf :: "'w os \<Rightarrow> int \<Rightarrow> u8 list \<Rightarrow> arg list \<Rightarrow> 'w \<Rightarrow> 'w" where
  "fprintf os fd fmt ap w = (case vprintf fmt ap of None \<Rightarrow> w | Some bs \<Rightarrow> fold (putc os fd) bs w)"

definition printf_u :: "'w os \<Rightarrow> u8 list \<Rightarrow> arg list \<Rightarrow> 'w \<Rightarrow> 'w" where
  "printf_u os fmt ap w = fprintf os 1 fmt ap w"

abbreviation AString :: "u8 list \<Rightarrow> arg" where "AString s \<equiv> AStr (Some s)"

section \<open>cat\<close>

partial_function (option) cat :: "'w os \<Rightarrow> int \<Rightarrow> 'w \<Rightarrow> (int \<times> 'w + 'w) option" where
  "cat os fd w =
     (case os_read os fd 512 w of
        (None, w) \<Rightarrow> Some (Inl (1, fprintf os 2 (str ''cat: read error'' @ [10]) [] w))
      | (Some bs, w) \<Rightarrow>
         if bs = [] then Some (Inr w)
         else let (r, w) = os_write os 1 bs w in
              if r \<noteq> int (length bs) then Some (Inl (1, fprintf os 2 (str ''cat: write error'' @ [10]) [] w))
              else cat os fd w)"

fun cat_files :: "'w os \<Rightarrow> u8 list list \<Rightarrow> 'w \<Rightarrow> (int \<times> 'w) option" where
  "cat_files os [] w = Some (0, w)"
| "cat_files os (a # as) w =
     (let (fd, w) = os_open os a 0 w in
      if fd < 0 then Some (1, fprintf os 2 (str ''cat: cannot open %s'' @ [10]) [AString a] w)
      else Option.bind (cat os fd w) (\<lambda>r. case r of Inl e \<Rightarrow> Some e | Inr w \<Rightarrow> cat_files os as (os_close os fd w)))"

definition cat_main :: "'w os \<Rightarrow> u8 list list \<Rightarrow> 'w \<Rightarrow> (int \<times> 'w) option" where
  "cat_main os argv w =
     (if length argv \<le> 1
      then Option.bind (cat os 0 w) (\<lambda>r. case r of Inl e \<Rightarrow> Some e | Inr w \<Rightarrow> Some (0, w))
      else cat_files os (tl argv) w)"

section \<open>wc\<close>

record counts =
  wc_l :: int
  wc_w :: int
  wc_c :: int
  inword :: bool

text \<open>The characters of \<^verbatim>\<open>" \r\t\n\v"\<close>.  The library's \<^verbatim>\<open>strchr\<close> does not find a NUL.\<close>

definition wc_space :: "u8 \<Rightarrow> bool" where
  "wc_space c \<longleftrightarrow> c \<in> {32, 13, 9, 10, 11}"

definition wc_byte :: "u8 \<Rightarrow> counts \<Rightarrow> counts" where
  "wc_byte b k =
     (let k = k\<lparr>wc_c := wc_c k + 1\<rparr>;
          k = (if b = 10 then k\<lparr>wc_l := wc_l k + 1\<rparr> else k)
      in if wc_space b then k\<lparr>inword := False\<rparr>
         else if \<not> inword k then k\<lparr>wc_w := wc_w k + 1, inword := True\<rparr> else k)"

partial_function (option) wc_loop :: "'w os \<Rightarrow> int \<Rightarrow> counts \<Rightarrow> 'w \<Rightarrow> (counts option \<times> 'w) option" where
  "wc_loop os fd k w =
     (case os_read os fd 512 w of
        (None, w) \<Rightarrow> Some (None, w)
      | (Some bs, w) \<Rightarrow> if bs = [] then Some (Some k, w) else wc_loop os fd (fold wc_byte bs k) w)"

definition wc :: "'w os \<Rightarrow> int \<Rightarrow> u8 list \<Rightarrow> 'w \<Rightarrow> (int \<times> 'w + 'w) option" where
  "wc os fd name w =
     Option.bind (wc_loop os fd \<lparr>wc_l = 0, wc_w = 0, wc_c = 0, inword = False\<rparr> w) (\<lambda>(r, w).
       case r of
         None \<Rightarrow> Some (Inl (1, printf_u os (str ''wc: read error'' @ [10]) [] w))
       | Some k \<Rightarrow> Some (Inr (printf_u os (str ''%d %d %d %s'' @ [10])
           [AInt (word_of_int (wc_l k)), AInt (word_of_int (wc_w k)), AInt (word_of_int (wc_c k)), AString name] w)))"

fun wc_files :: "'w os \<Rightarrow> u8 list list \<Rightarrow> 'w \<Rightarrow> (int \<times> 'w) option" where
  "wc_files os [] w = Some (0, w)"
| "wc_files os (a # as) w =
     (let (fd, w) = os_open os a 0 w in
      if fd < 0 then Some (1, printf_u os (str ''wc: cannot open %s'' @ [10]) [AString a] w)
      else Option.bind (wc os fd a w) (\<lambda>r. case r of Inl e \<Rightarrow> Some e | Inr w \<Rightarrow> wc_files os as (os_close os fd w)))"

definition wc_main :: "'w os \<Rightarrow> u8 list list \<Rightarrow> 'w \<Rightarrow> (int \<times> 'w) option" where
  "wc_main os argv w =
     (if length argv \<le> 1
      then Option.bind (wc os 0 [] w) (\<lambda>r. case r of Inl e \<Rightarrow> Some e | Inr w \<Rightarrow> Some (0, w))
      else wc_files os (tl argv) w)"

section \<open>grep\<close>

text \<open>What \<open>grep\<close> writes to descriptor 1 is the list in its result.\<close>

fun grep_files :: "'w os \<Rightarrow> u8 list \<Rightarrow> u8 list list \<Rightarrow> 'w \<Rightarrow> (u8 list list \<times> int \<times> 'w) option" where
  "grep_files os pattern [] w = Some ([], 0, w)"
| "grep_files os pattern (a # as) w =
     (let (fd, w) = os_open os a 0 w in
      if fd < 0 then Some ([], 1, printf_u os (str ''grep: cannot open %s'' @ [10]) [AString a] w)
      else Option.bind (grep (os_read os fd) pattern w) (\<lambda>(ws, w).
           Option.bind (grep_files os pattern as (os_close os fd w)) (\<lambda>(vs, e, w). Some (ws @ vs, e, w))))"

definition grep_main :: "'w os \<Rightarrow> u8 list list \<Rightarrow> 'w \<Rightarrow> (u8 list list \<times> int \<times> 'w) option" where
  "grep_main os argv w =
     (if length argv \<le> 1 then Some ([], 1, fprintf os 2 (str ''usage: grep pattern [file ...]'' @ [10]) [] w)
      else if length argv \<le> 2 then map_option (\<lambda>(ws, w). (ws, 0, w)) (grep (os_read os 0) (argv ! 1) w)
      else grep_files os (argv ! 1) (drop 2 argv) w)"

section \<open>echo, kill, rm, mkdir, ln\<close>

fun echo_args :: "'w os \<Rightarrow> u8 list list \<Rightarrow> 'w \<Rightarrow> 'w" where
  "echo_args os [] w = w"
| "echo_args os (a # as) w =
     echo_args os as (snd (os_write os 1 (if as \<noteq> [] then [32] else [10]) (snd (os_write os 1 a w))))"

definition echo_main :: "'w os \<Rightarrow> u8 list list \<Rightarrow> 'w \<Rightarrow> int \<times> 'w" where
  "echo_main os argv w = (0, echo_args os (tl argv) w)"

fun kill_args :: "'w os \<Rightarrow> u8 list list \<Rightarrow> 'w \<Rightarrow> 'w kres" where
  "kill_args os [] w = Ok w"
| "kill_args os (a # as) w = andThen (atoi_digits a 0) (\<lambda>pid. kill_args os as (snd (os_kill os pid w)))"

definition kill_main :: "'w os \<Rightarrow> u8 list list \<Rightarrow> 'w \<Rightarrow> (int \<times> 'w) kres" where
  "kill_main os argv w =
     (if length argv < 2 then Ok (1, fprintf os 2 (str ''usage: kill pid...'' @ [10]) [] w)
      else andThen (kill_args os (tl argv) w) (\<lambda>w. Ok (0, w)))"

fun each_until :: "('a \<Rightarrow> 'w \<Rightarrow> int \<times> 'w) \<Rightarrow> ('a \<Rightarrow> 'w \<Rightarrow> 'w) \<Rightarrow> 'a list \<Rightarrow> 'w \<Rightarrow> 'w" where
  "each_until f complain [] w = w"
| "each_until f complain (a # as) w =
     (let (r, w) = f a w in if r < 0 then complain a w else each_until f complain as w)"

definition rm_main :: "'w os \<Rightarrow> u8 list list \<Rightarrow> 'w \<Rightarrow> int \<times> 'w" where
  "rm_main os argv w =
     (if length argv < 2 then (1, fprintf os 2 (str ''Usage: rm files...'' @ [10]) [] w)
      else (0, each_until (os_unlink os) (\<lambda>a. fprintf os 2 (str ''rm: %s failed to delete'' @ [10]) [AString a]) (tl argv) w))"

definition mkdir_main :: "'w os \<Rightarrow> u8 list list \<Rightarrow> 'w \<Rightarrow> int \<times> 'w" where
  "mkdir_main os argv w =
     (if length argv < 2 then (1, fprintf os 2 (str ''Usage: mkdir files...'' @ [10]) [] w)
      else (0, each_until (os_mkdir os) (\<lambda>a. fprintf os 2 (str ''mkdir: %s failed to create'' @ [10]) [AString a]) (tl argv) w))"

definition ln_main :: "'w os \<Rightarrow> u8 list list \<Rightarrow> 'w \<Rightarrow> int \<times> 'w" where
  "ln_main os argv w =
     (if length argv \<noteq> 3 then (1, fprintf os 2 (str ''Usage: ln old new'' @ [10]) [] w)
      else let (r, w) = os_link os (argv ! 1) (argv ! 2) w in
           (0, if r < 0 then fprintf os 2 (str ''link %s %s: failed'' @ [10]) [AString (argv ! 1), AString (argv ! 2)] w else w))"

section \<open>What cat and wc do\<close>

text \<open>A descriptor to which everything that is written goes: \<open>out w\<close> is what has been written so far, and
  writing does not disturb what is still to be read.\<close>

definition writes :: "(u8 list \<Rightarrow> 'w \<Rightarrow> int \<times> 'w) \<Rightarrow> ('w \<Rightarrow> u8 list) \<Rightarrow> ('w \<Rightarrow> u8 list) \<Rightarrow> bool" where
  "writes wr out rem \<longleftrightarrow> (\<forall>bs w. \<exists>w'. wr bs w = (int (length bs), w') \<and> out w' = out w @ bs \<and> rem w' = rem w)"

definition keeps :: "(nat \<Rightarrow> 'w \<Rightarrow> u8 list option \<times> 'w) \<Rightarrow> ('w \<Rightarrow> u8 list) \<Rightarrow> bool" where
  "keeps rd out \<longleftrightarrow> (\<forall>n w. out (snd (rd n w)) = out w)"

text \<open>A world with an input and an output.\<close>

definition ex_os :: "(u8 list \<times> u8 list) os" where
  "ex_os = \<lparr>os_open = (\<lambda>_ _ w. (- 1, w)), os_read = (\<lambda>_ n (i, o'). case read3 n i of (r, i) \<Rightarrow> (r, i, o')),
     os_write = (\<lambda>_ bs (i, o'). (int (length bs), i, o' @ bs)), os_close = (\<lambda>_ w. w), os_unlink = (\<lambda>_ w. (- 1, w)),
     os_mkdir = (\<lambda>_ w. (- 1, w)), os_link = (\<lambda>_ _ w. (- 1, w)), os_kill = (\<lambda>_ w. (- 1, w))\<rparr>"

lemma ex_os_reads: "reads (os_read ex_os 0) fst" "keeps (os_read ex_os 0) snd" "writes (os_write ex_os 1) snd fst"
proof -
  show "reads (os_read ex_os 0) fst"
    using read3_reads unfolding reads_def by (auto simp: ex_os_def split: prod.splits) (metis Pair_inject)
  show "keeps (os_read ex_os 0) snd" by (simp add: keeps_def ex_os_def split: prod.splits)
  show "writes (os_write ex_os 1) snd fst" by (auto simp: writes_def ex_os_def)
qed

text \<open>C38. \<open>cat\<close> copies: reading a descriptor until its end, whatever pieces the reads deliver, it returns, and has
  written to descriptor 1 exactly the bytes it read.\<close>

theorem cat_copies:
  assumes rd: "reads (os_read os fd) rem" and k: "keeps (os_read os fd) out" and wr: "writes (os_write os 1) out rem"
  shows "\<exists>w'. cat os fd w = Some (Inr w') \<and> out w' = out w @ rem w \<and> rem w' = []"
proof (induction "length (rem w)" arbitrary: w rule: less_induct)
  case less
  obtain bs v where r: "os_read os fd 512 w = (Some bs, v)" "rem w = bs @ rem v" "rem w \<noteq> [] \<longrightarrow> bs \<noteq> []"
    using readsE [OF rd, of 512 w] by (metis zero_less_numeral)
  have o: "out v = out w" using k r(1) unfolding keeps_def by (metis snd_conv)
  show ?case
  proof (cases "bs = []")
    case True
    have "cat os fd w = Some (Inr v)" by (subst cat.simps) (simp add: r(1) True)
    moreover have "rem w = []" using r(3) True by blast
    ultimately show ?thesis using r(2) o True by simp
  next
    case False
    obtain u where u: "os_write os 1 bs v = (int (length bs), u)" "out u = out v @ bs" "rem u = rem v"
      using wr unfolding writes_def by blast
    have "length (rem u) < length (rem w)" using r(2) u(3) False by simp
    from less.hyps [OF this] obtain w' where "cat os fd u = Some (Inr w')" "out w' = out u @ rem u" "rem w' = []" by blast
    moreover have "cat os fd w = cat os fd u" by (subst cat.simps) (simp add: r(1) u(1) False)
    ultimately show ?thesis using r(2) u o by simp
  qed
qed

theorem cat_copies_witness:
  "\<exists>w'. cat ex_os 0 ([1, 2, 3, 4, 5], []) = Some (Inr w') \<and> snd w' = [1, 2, 3, 4, 5]"
  using cat_copies [OF ex_os_reads, of "([1, 2, 3, 4, 5], [])"] by auto

text \<open>The words of a text: the places where a word begins.\<close>

definition word_starts :: "u8 list \<Rightarrow> nat set" where
  "word_starts xs = {i. i < length xs \<and> \<not> wc_space (xs ! i) \<and> (i = 0 \<or> wc_space (xs ! (i - 1)))}"

lemma word_starts_snoc:
  "word_starts (xs @ [b]) = (if \<not> wc_space b \<and> (xs = [] \<or> wc_space (last xs)) then insert (length xs) (word_starts xs) else word_starts xs)"
proof (rule set_eqI)
  fix i
  consider "i < length xs" | "i = length xs" | "length xs < i" by linarith
  then show "i \<in> word_starts (xs @ [b]) \<longleftrightarrow>
      i \<in> (if \<not> wc_space b \<and> (xs = [] \<or> wc_space (last xs)) then insert (length xs) (word_starts xs) else word_starts xs)"
  proof cases
    case 1
    then show ?thesis by (auto simp: word_starts_def nth_append)
  next
    case 2
    then show ?thesis by (cases "xs = []") (auto simp: word_starts_def nth_append last_conv_nth)
  next
    case 3
    then show ?thesis by (simp add: word_starts_def)
  qed
qed

lemma word_starts_Nil: "word_starts [] = {}"
  by (simp add: word_starts_def)

lemma word_starts_finite: "finite (word_starts xs)" "length xs \<notin> word_starts xs"
  by (simp_all add: word_starts_def)

lemma wc_byte_eq:
  "wc_byte b k = \<lparr>wc_l = wc_l k + (if b = 10 then 1 else 0), wc_w = wc_w k + (if \<not> wc_space b \<and> \<not> inword k then 1 else 0),
     wc_c = wc_c k + 1, inword = (\<not> wc_space b)\<rparr>"
  by (cases k) (simp add: wc_byte_def Let_def)

lemma wc_fold:
  "fold wc_byte xs \<lparr>wc_l = 0, wc_w = 0, wc_c = 0, inword = False\<rparr> =
     \<lparr>wc_l = int (count_list xs 10), wc_w = int (card (word_starts xs)), wc_c = int (length xs), inword = (xs \<noteq> [] \<and> \<not> wc_space (last xs))\<rparr>"
proof (induction xs rule: rev_induct)
  case Nil
  then show ?case by (simp add: word_starts_def)
next
  case (snoc b xs)
  then show ?case by (simp add: wc_byte_eq word_starts_snoc word_starts_finite count_list_append)
qed

lemma wc_loop_spec:
  assumes rd: "reads (os_read os fd) rem"
  shows "\<exists>w'. wc_loop os fd k w = Some (Some (fold wc_byte (rem w) k), w') \<and> rem w' = []"
proof (induction "length (rem w)" arbitrary: w k rule: less_induct)
  case less
  obtain bs v where r: "os_read os fd 512 w = (Some bs, v)" "rem w = bs @ rem v" "rem w \<noteq> [] \<longrightarrow> bs \<noteq> []"
    using readsE [OF rd, of 512 w] by (metis zero_less_numeral)
  show ?case
  proof (cases "bs = []")
    case True
    have "wc_loop os fd k w = Some (Some k, v)" by (subst wc_loop.simps) (simp add: r(1) True)
    moreover have "rem w = []" using r(3) True by blast
    ultimately show ?thesis using r(2) True by simp
  next
    case False
    then have "length (rem v) < length (rem w)" using r(2) by simp
    from less.hyps [OF this, of "fold wc_byte bs k"] show ?thesis
      using r(2) by (subst wc_loop.simps) (simp add: r(1) False)
  qed
qed

text \<open>C37. \<open>wc\<close> counts: reading a descriptor until its end it returns and prints the number of newlines, of words and of
  bytes of what it read, whatever pieces the reads deliver; a word begins at a byte that is not white space and
  follows white space or nothing.\<close>

theorem wc_counts:
  assumes "reads (os_read os fd) rem"
  shows "\<exists>w'. rem w' = [] \<and> wc os fd name w = Some (Inr (printf_u os (str ''%d %d %d %s'' @ [10])
    [AInt (of_nat (count_list (rem w) 10)), AInt (of_nat (card (word_starts (rem w)))), AInt (of_nat (length (rem w))), AString name] w'))"
proof -
  let ?k = "\<lparr>wc_l = 0, wc_w = 0, wc_c = 0, inword = False\<rparr>"
  obtain w' where w': "wc_loop os fd ?k w = Some (Some (fold wc_byte (rem w) ?k), w')" "rem w' = []"
    using wc_loop_spec [OF assms, of ?k w] by blast
  show ?thesis using w' by (intro exI [of _ w']) (simp add: wc_def wc_fold)
qed

theorem wc_counts_witness:
  "\<exists>w'. fst w' = [] \<and> wc ex_os 0 [] ([97, 98, 32, 10, 99], []) = Some (Inr (printf_u ex_os (str ''%d %d %d %s'' @ [10])
     [AInt 1, AInt 2, AInt 5, AString []] w'))"
proof -
  have "card (word_starts [97, 98, 32, 10, 99]) = 2"
    using word_starts_snoc [of "[97, 98, 32, 10]" 99] word_starts_snoc [of "[97, 98, 32]" 10] word_starts_snoc [of "[97, 98]" 32]
      word_starts_snoc [of "[97]" 98] word_starts_snoc [of "[]" 97] by (simp add: wc_space_def word_starts_Nil)
  then show ?thesis using wc_counts [OF ex_os_reads(1), of "[]" "([97, 98, 32, 10, 99], [])"] by simp
qed

end
