(* ===== verification/Sh.thy ===== *)
theory Sh
  imports Uprog
begin

text \<open>
  The parser of the shell (\<^verbatim>\<open>user/sh.c\<close>).  A pointer into the command line is the string from it to
  the end \<^verbatim>\<open>es\<close> of the line, whose NUL reads as 0; \<^verbatim>\<open>panic\<close>, which ends the process that parses, is
  \<open>Panic\<close>.  The recursive descent is bounded by fuel, shown to suffice for every line.
\<close>

section \<open>Commands\<close>

text \<open>A counted string is the pair of its pointers \<^verbatim>\<open>q\<close> and \<^verbatim>\<open>eq\<close>.\<close>

type_synonym ptr = "u8 list"
type_synonym redir = "ptr \<times> ptr \<times> int \<times> int"

datatype cmd =
    EXEC "(ptr \<times> ptr) list"
  | REDIR cmd ptr ptr int int
  | PIPE cmd cmd
  | LIST cmd cmd
  | BACK cmd

abbreviation MAXARGS :: nat where "MAXARGS \<equiv> 10"

section \<open>Tokens\<close>

definition whitespace :: "u8 list" where "whitespace = [32, 9, 13, 10, 11]"
definition symbols :: "u8 list" where "symbols = [60, 124, 62, 38, 59, 40, 41]"

definition is_space :: "u8 \<Rightarrow> bool" where "is_space c \<longleftrightarrow> c \<in> set whitespace"
definition is_word :: "u8 \<Rightarrow> bool" where "is_word c \<longleftrightarrow> \<not> is_space c \<and> c \<notin> set symbols"

definition deref :: "ptr \<Rightarrow> u8" where "deref s = (if s = [] then 0 else hd s)"

definition skip_space :: "ptr \<Rightarrow> ptr" where "skip_space s = dropWhile is_space s"

text \<open>\<open>gettoken\<close>: the kind of the token, its two pointers, and where the next one starts.\<close>

definition gettoken :: "ptr \<Rightarrow> u8 \<times> ptr \<times> ptr \<times> ptr" where
  "gettoken ps =
     (let s = skip_space ps; q = s; c = deref s;
          (ret, s) =
            (if c = 0 then (0, s)
             else if c \<in> {124, 40, 41, 59, 38, 60} then (c, tl s)
             else if c = 62 then (if deref (tl s) = 62 then (43, tl (tl s)) else (62, tl s))
             else (97, dropWhile is_word s))
      in (ret, q, s, skip_space s))"

definition peek :: "ptr \<Rightarrow> u8 list \<Rightarrow> bool \<times> ptr" where
  "peek ps toks = (let s = skip_space ps in (deref s \<noteq> 0 \<and> deref s \<in> set toks, s))"

definition next_token :: "ptr \<Rightarrow> ptr" where
  "next_token ps = (let (ret, q, e, s) = gettoken ps in s)"

lemma skip_space_le [simp]: "length (skip_space s) \<le> length s"
  by (simp add: skip_space_def length_dropWhile_le)

lemma gettoken_le: "gettoken ps = (ret, q, e, s) \<Longrightarrow> length s \<le> length ps \<and> (ret \<noteq> 0 \<longrightarrow> length s < length ps)"
proof -
  assume g: "gettoken ps = (ret, q, e, s)"
  let ?t = "skip_space ps"
  have t: "length ?t \<le> length ps" by simp
  have d: "?t \<noteq> []" if "ret \<noteq> 0" using g that by (auto simp: gettoken_def deref_def Let_def)
  have w: "length (dropWhile is_word ?t) < length ?t" if a: "deref ?t \<noteq> 0" "deref ?t \<notin> {124, 40, 41, 59, 38, 60}" "deref ?t \<noteq> 62"
  proof -
    obtain c r where c: "?t = c # r" using a(1) by (cases ?t) (auto simp: deref_def)
    have "\<not> is_space c" using c hd_dropWhile [of is_space ps] unfolding skip_space_def by (metis list.distinct(1) list.sel(1))
    then have "is_word c" using a c by (auto simp: is_word_def symbols_def deref_def)
    then show ?thesis using c length_dropWhile_le [of is_word r] by simp
  qed
  have "length e \<le> length ?t \<and> (ret \<noteq> 0 \<longrightarrow> length e < length ?t) \<and> s = skip_space e"
    using g d w length_dropWhile_le [of is_word ?t] by (auto simp: gettoken_def Let_def split: if_splits)
  then show ?thesis using t skip_space_le [of e] by (auto simp del: skip_space_le)
qed

lemma skip_skip [simp]: "skip_space (skip_space s) = skip_space s"
  unfolding skip_space_def by (induction s) auto

lemma peek_le: "peek ps toks = (b, s) \<Longrightarrow> length s \<le> length ps \<and> (b \<longrightarrow> s \<noteq> [] \<and> skip_space s = s \<and> deref s \<in> set toks \<and> deref s \<noteq> 0)"
  by (auto simp: peek_def Let_def deref_def split: if_splits)

lemma next_token_less: "peek ps toks = (True, s) \<Longrightarrow> length (next_token s) < length ps"
proof -
  assume p: "peek ps toks = (True, s)"
  obtain ret q e r where g: "gettoken s = (ret, q, e, r)" by (cases "gettoken s")
  have "ret \<noteq> 0" using peek_le [OF p] g by (auto simp: gettoken_def Let_def split: if_splits)
  then show ?thesis using gettoken_le [OF g] peek_le [OF p] g by (simp add: next_token_def)
qed

section \<open>The parser\<close>

text \<open>The loop of \<open>parseline\<close> over \<^verbatim>\<open>&\<close>.\<close>

function parse_backs :: "cmd \<Rightarrow> ptr \<Rightarrow> cmd \<times> ptr" where
  "parse_backs c ps =
     (case peek ps [38] of
        (True, s) \<Rightarrow> parse_backs (BACK c) (next_token s)
      | (False, s) \<Rightarrow> (c, s))"
  by pat_completeness auto
termination
  by (relation "measure (\<lambda>(c, ps). length ps)") (auto intro: next_token_less [OF sym])

text \<open>\<open>parseredirs\<close> wraps a command in its redirections.  In \<open>parseexec\<close> the command inside goes on
  collecting arguments afterwards, so that the redirections are returned here, and applied by \<open>redirs\<close>.\<close>

function parseredirs :: "ptr \<Rightarrow> (redir list \<times> ptr) kres" where
  "parseredirs ps =
     (case peek ps [60, 62] of
        (True, s) \<Rightarrow>
          (case gettoken s of (tok, _, _, s1) \<Rightarrow>
             (case gettoken s1 of (tok2, q, e, s2) \<Rightarrow>
                if tok2 \<noteq> 97 then Panic ''missing file for redirection''
                else andThen (if length s2 < length ps then parseredirs s2 else Spin) (\<lambda>(rs, s3).
                  Ok ((if tok = 60 then [(q, e, 0x000, 0)]
                       else if tok = 62 then [(q, e, 0x601, 1)]
                       else if tok = 43 then [(q, e, 0x201, 1)] else []) @ rs, s3))))
      | (False, s) \<Rightarrow> Ok ([], s))"
  by pat_completeness auto
termination
  by (relation "measure length") auto

fun redirs :: "redir list \<Rightarrow> cmd \<Rightarrow> cmd" where
  "redirs [] c = c"
| "redirs ((q, e, mode, fd) # rs) c = redirs rs (REDIR c q e mode fd)"

text \<open>The loop of \<open>parseexec\<close>.\<close>

function parse_args :: "(ptr \<times> ptr) list \<Rightarrow> redir list \<Rightarrow> ptr \<Rightarrow> ((ptr \<times> ptr) list \<times> redir list \<times> ptr) kres" where
  "parse_args args rs ps =
     (case peek ps [124, 41, 38, 59] of
        (True, s) \<Rightarrow> Ok (args, rs, s)
      | (False, s) \<Rightarrow>
          (case gettoken s of (tok, q, e, s1) \<Rightarrow>
             if tok = 0 then Ok (args, rs, s1)
             else if tok \<noteq> 97 then Panic ''syntax''
             else if length (args @ [(q, e)]) \<ge> MAXARGS then Panic ''too many args''
             else andThen (parseredirs s1) (\<lambda>(rs', s2).
               if length s2 < length ps then parse_args (args @ [(q, e)]) (rs @ rs') s2 else Spin)))"
  by pat_completeness auto
termination
  by (relation "measure (\<lambda>(args, rs, ps). length ps)") auto

declare parse_backs.simps [simp del] parseredirs.simps [simp del] parse_args.simps [simp del]

fun parseline :: "nat \<Rightarrow> ptr \<Rightarrow> (cmd \<times> ptr) kres"
  and parsepipe :: "nat \<Rightarrow> ptr \<Rightarrow> (cmd \<times> ptr) kres"
  and parseblock :: "nat \<Rightarrow> ptr \<Rightarrow> (cmd \<times> ptr) kres"
  and parseexec :: "nat \<Rightarrow> ptr \<Rightarrow> (cmd \<times> ptr) kres" where
  "parseline 0 ps = Spin"
| "parseline (Suc f) ps =
     andThen (parsepipe f ps) (\<lambda>(c, s).
       let (c, s) = parse_backs c s in
       case peek s [59] of
         (True, s) \<Rightarrow> andThen (parseline f (next_token s)) (\<lambda>(d, s). Ok (LIST c d, s))
       | (False, s) \<Rightarrow> Ok (c, s))"
| "parsepipe 0 ps = Spin"
| "parsepipe (Suc f) ps =
     andThen (parseexec f ps) (\<lambda>(c, s).
       case peek s [124] of
         (True, s) \<Rightarrow> andThen (parsepipe f (next_token s)) (\<lambda>(d, s). Ok (PIPE c d, s))
       | (False, s) \<Rightarrow> Ok (c, s))"
| "parseblock 0 ps = Spin"
| "parseblock (Suc f) ps =
     (case peek ps [40] of
        (False, s) \<Rightarrow> Panic ''parseblock''
      | (True, s) \<Rightarrow>
         andThen (parseline f (next_token s)) (\<lambda>(c, s).
           case peek s [41] of
             (False, s) \<Rightarrow> Panic ''syntax - missing )''
           | (True, s) \<Rightarrow> andThen (parseredirs (next_token s)) (\<lambda>(rs, s). Ok (redirs rs c, s))))"
| "parseexec 0 ps = Spin"
| "parseexec (Suc f) ps =
     (case peek ps [40] of
        (True, s) \<Rightarrow> parseblock f s
      | (False, s) \<Rightarrow>
         andThen (parseredirs s) (\<lambda>(rs, s).
         andThen (parse_args [] rs s) (\<lambda>(args, rs, s).
           Ok (redirs rs (EXEC args), s))))"

text \<open>\<open>nulterminate\<close> writes a NUL at the end of every counted string; \<open>n\<close> is the length of the line, \<open>buf\<close>
  holds it and its NUL.\<close>

fun nulterminate :: "nat \<Rightarrow> cmd \<Rightarrow> u8 list \<Rightarrow> u8 list" where
  "nulterminate n (EXEC args) buf = fold (\<lambda>(q, e) b. b[n - length e := 0]) args buf"
| "nulterminate n (REDIR c q e mode fd) buf = (nulterminate n c buf)[n - length e := 0]"
| "nulterminate n (PIPE l r) buf = nulterminate n r (nulterminate n l buf)"
| "nulterminate n (LIST l r) buf = nulterminate n r (nulterminate n l buf)"
| "nulterminate n (BACK c) buf = nulterminate n c buf"

definition parsecmd :: "u8 list \<Rightarrow> (cmd \<times> u8 list) kres" where
  "parsecmd s =
     andThen (parseline (4 * length s + 4) s) (\<lambda>(c, p).
       case peek p [] of (_, p) \<Rightarrow>
         if p \<noteq> [] then Panic ''syntax'' else Ok (c, nulterminate (length s) c (s @ [0])))"

end
