(* ===== verification/Shparse.thy ===== *)
theory Shparse
  imports Sh Bytes
begin

text \<open>
  Properties of the shell's parser: it ends on every line, it reads back every command that can be
  written down, and the strings of a parsed command are the words of the line.
\<close>

section \<open>The loops without their guards\<close>

lemma gettoken_skip: "gettoken (skip_space s) = gettoken s"
  by (simp add: gettoken_def)

lemma peek_skip: "peek (skip_space s) toks = peek s toks"
  by (simp add: peek_def)

lemma parseredirs_le: "parseredirs ps \<noteq> Spin \<and> (\<forall>rs s. parseredirs ps = Ok (rs, s) \<longrightarrow> length s \<le> length ps)"
proof (induction ps rule: parseredirs.induct)
  case (1 ps)
  obtain b s where p: "peek ps [60, 62] = (b, s)" by (cases "peek ps [60, 62]")
  obtain tok q1 e1 s1 where g1: "gettoken s = (tok, q1, e1, s1)" by (cases "gettoken s")
  obtain tok2 q e s2 where g2: "gettoken s1 = (tok2, q, e, s2)" by (cases "gettoken s1")
  have len: "length s \<le> length ps" "length s1 \<le> length s" "tok2 = 97 \<longrightarrow> length s2 < length s1"
    using peek_le [OF p] gettoken_le [OF g1] gettoken_le [OF g2] by auto
  show ?case
  proof (cases "b \<and> tok2 = 97")
    case True
    then have lt: "length s2 < length ps" using len by simp
    have ih: "parseredirs s2 \<noteq> Spin \<and> (\<forall>rs s. parseredirs s2 = Ok (rs, s) \<longrightarrow> length s \<le> length s2)"
      using 1 [of True s tok "(q1, e1, s1)" q1 "(e1, s1)" e1 s1 tok2 "(q, e, s2)" q "(e, s2)" e s2] True p g1 g2 lt by simp
    then show ?thesis using True lt
      by (subst parseredirs.simps, cases "parseredirs s2") (auto simp: p g1 g2 parseredirs.simps [of ps] andThen_eq_Ok)
  next
    case False
    then show ?thesis using len(1) by (subst (1 2) parseredirs.simps) (cases b, auto simp: p g1 g2)
  qed
qed

lemma parseredirs_unfold:
  "parseredirs ps =
     (case peek ps [60, 62] of
        (True, s) \<Rightarrow>
          (case gettoken s of (tok, _, _, s1) \<Rightarrow>
             (case gettoken s1 of (tok2, q, e, s2) \<Rightarrow>
                if tok2 \<noteq> 97 then Panic ''missing file for redirection''
                else andThen (parseredirs s2) (\<lambda>(rs, s3).
                  Ok ((if tok = 60 then [(q, e, 0x000, 0)]
                       else if tok = 62 then [(q, e, 0x601, 1)]
                       else if tok = 43 then [(q, e, 0x201, 1)] else []) @ rs, s3))))
      | (False, s) \<Rightarrow> Ok ([], s))"
proof -
  obtain b s where p: "peek ps [60, 62] = (b, s)" by (cases "peek ps [60, 62]")
  obtain tok q1 e1 s1 where g1: "gettoken s = (tok, q1, e1, s1)" by (cases "gettoken s")
  obtain tok2 q e s2 where g2: "gettoken s1 = (tok2, q, e, s2)" by (cases "gettoken s1")
  have "tok2 = 97 \<longrightarrow> length s2 < length ps" using peek_le [OF p] gettoken_le [OF g1] gettoken_le [OF g2] by auto
  then show ?thesis by (subst parseredirs.simps) (cases b, auto simp: p g1 g2)
qed

lemma parseredirs_skip: "parseredirs (skip_space ps) = parseredirs ps"
  by (subst (1 2) parseredirs_unfold) (simp add: peek_skip)

lemma parse_args_unfold:
  "parse_args args rs ps =
     (case peek ps [124, 41, 38, 59] of
        (True, s) \<Rightarrow> Ok (args, rs, s)
      | (False, s) \<Rightarrow>
          (case gettoken s of (tok, q, e, s1) \<Rightarrow>
             if tok = 0 then Ok (args, rs, s1)
             else if tok \<noteq> 97 then Panic ''syntax''
             else if length (args @ [(q, e)]) \<ge> MAXARGS then Panic ''too many args''
             else andThen (parseredirs s1) (\<lambda>(rs', s2). parse_args (args @ [(q, e)]) (rs @ rs') s2)))"
proof -
  obtain b s where p: "peek ps [124, 41, 38, 59] = (b, s)" by (cases "peek ps [124, 41, 38, 59]")
  obtain tok q e s1 where g: "gettoken s = (tok, q, e, s1)" by (cases "gettoken s")
  have lt: "tok \<noteq> 0 \<longrightarrow> length s1 < length ps" using peek_le [OF p] gettoken_le [OF g] by auto
  have "andThen (parseredirs s1) (\<lambda>(rs', s2). if length s2 < length ps then parse_args (args @ [(q, e)]) (rs @ rs') s2 else Spin) =
      andThen (parseredirs s1) (\<lambda>(rs', s2). parse_args (args @ [(q, e)]) (rs @ rs') s2)" if "tok \<noteq> 0"
    using parseredirs_le [of s1] lt that by (cases "parseredirs s1") auto
  then show ?thesis by (subst parse_args.simps) (cases b, auto simp: p g)
qed

lemma parse_args_skip: "parse_args args rs (skip_space ps) = parse_args args rs ps"
  by (subst (1 2) parse_args_unfold) (simp add: peek_skip)

lemma parse_args_le: "parse_args args rs ps \<noteq> Spin \<and> (\<forall>a r s. parse_args args rs ps = Ok (a, r, s) \<longrightarrow> length s \<le> length ps)"
proof (induction "length ps" arbitrary: args rs ps rule: less_induct)
  case less
  obtain b s where p: "peek ps [124, 41, 38, 59] = (b, s)" by (cases "peek ps [124, 41, 38, 59]")
  obtain tok q e s1 where g: "gettoken s = (tok, q, e, s1)" by (cases "gettoken s")
  have len: "length s \<le> length ps" "length s1 \<le> length ps" "tok \<noteq> 0 \<longrightarrow> length s1 < length ps"
    using peek_le [OF p] gettoken_le [OF g] by auto
  show ?case
  proof (cases "b \<or> tok = 0 \<or> tok \<noteq> 97 \<or> length (args @ [(q, e)]) \<ge> MAXARGS")
    case True
    then show ?thesis using len by (subst (1 2) parse_args_unfold) (cases b, auto simp: p g)
  next
    case False
    then have eq: "parse_args args rs ps = andThen (parseredirs s1) (\<lambda>(rs', s2). parse_args (args @ [(q, e)]) (rs @ rs') s2)"
      by (subst parse_args_unfold) (simp add: p g)
    show ?thesis
    proof (cases "parseredirs s1")
      case (Ok x)
      obtain r2 s2 where x: "x = (r2, s2)" by (cases x)
      have lt: "length s2 < length ps" using parseredirs_le [of s1] Ok x len False by auto
      from less.hyps [OF lt, of "args @ [(q, e)]" "rs @ r2"] show ?thesis unfolding eq Ok x using lt by auto
    qed (use eq parseredirs_le [of s1] in auto)
  qed
qed

section \<open>Enough fuel\<close>

lemma next_token_le: "length (next_token s) \<le> length s"
  using gettoken_le [of s] by (cases "gettoken s") (auto simp: next_token_def)

lemma parse_backs_le: "length (snd (parse_backs c ps)) \<le> length ps"
proof (induction "length ps" arbitrary: c ps rule: less_induct)
  case less
  obtain b s where p: "peek ps [38] = (b, s)" by (cases "peek ps [38]")
  show ?case
  proof (cases b)
    case True
    then have lt: "length (next_token s) < length ps" using next_token_less [of ps "[38]" s] p by simp
    then have "length (snd (parse_backs (BACK c) (next_token s))) \<le> length (next_token s)" by (rule less.hyps)
    then show ?thesis using True p lt by (subst parse_backs.simps) simp
  next
    case False
    then show ?thesis using p peek_le [OF p] by (subst parse_backs.simps) simp
  qed
qed

text \<open>A call of a parser returns, and does not lengthen the rest.\<close>

definition ends :: "ptr \<Rightarrow> (cmd \<times> ptr) kres \<Rightarrow> bool" where
  "ends ps r \<longleftrightarrow> r \<noteq> Spin \<and> (\<forall>c s. r = Ok (c, s) \<longrightarrow> length s \<le> length ps)"

lemma ends_Panic [simp]: "ends ps (Panic m)" by (simp add: ends_def)

lemma ends_Ok [simp]: "ends ps (Ok (c, s)) \<longleftrightarrow> length s \<le> length ps" by (simp add: ends_def)

lemma ends_andThen:
  "ends ps r \<Longrightarrow> (\<And>c s. r = Ok (c, s) \<Longrightarrow> length s \<le> length ps \<Longrightarrow> ends ps (f (c, s))) \<Longrightarrow> ends ps (andThen r f)"
  by (cases r) (auto simp: ends_def)

lemma ends_mono: "ends qs r \<Longrightarrow> length qs \<le> length ps \<Longrightarrow> ends ps r"
  by (auto simp: ends_def)

lemma parse_ends:
  "4 * length ps + 3 < f \<Longrightarrow> ends ps (parseline f ps)"
  "4 * length ps + 2 < f \<Longrightarrow> ends ps (parsepipe f ps)"
  "4 * length ps < f \<Longrightarrow> ends ps (parseblock f ps)"
  "4 * length ps + 1 < f \<Longrightarrow> ends ps (parseexec f ps)"
proof (induction f ps and f ps and f ps and f ps rule: parseline_parsepipe_parseblock_parseexec.induct)
  case (2 f ps)
  have "ends ps (parsepipe f ps)" using 2 by simp
  then show ?case unfolding parseline.simps
  proof (rule ends_andThen, unfold split)
    fix c :: cmd and s :: ptr assume ok: "parsepipe f ps = Ok (c, s)" and s: "length s \<le> length ps"
    obtain c' s' where b: "parse_backs c s = (c', s')" by (cases "parse_backs c s")
    obtain t r where p: "peek s' [59] = (t, r)" by (cases "peek s' [59]")
    have len: "length s' \<le> length ps" "length r \<le> length ps" using parse_backs_le [of c s] b s peek_le [OF p] by auto
    have "ends ps (andThen (parseline f (next_token r)) (\<lambda>(d, s). Ok (LIST c' d, s)))" if t
    proof -
      have lt: "length (next_token r) < length ps" using next_token_less [of s' "[59]" r] p that len(1) by simp
      then have "ends (next_token r) (parseline f (next_token r))" using 2(2) [of "(c, s)" c s "(c', s')" c' s' t r] 2(3) ok b p that by simp
      then have "ends ps (parseline f (next_token r))" using lt by (auto intro: ends_mono)
      then show ?thesis by (rule ends_andThen) simp
    qed
    then show "ends ps (let (c, s) = parse_backs c s in case peek s [59] of
        (True, s) \<Rightarrow> andThen (parseline f (next_token s)) (\<lambda>(d, s). Ok (LIST c d, s)) | (False, s) \<Rightarrow> Ok (c, s))"
      using b p len by (cases t) simp_all
  qed
next
  case (4 f ps)
  have "ends ps (parseexec f ps)" using 4 by simp
  then show ?case unfolding parsepipe.simps
  proof (rule ends_andThen, unfold split)
    fix c :: cmd and s :: ptr assume ok: "parseexec f ps = Ok (c, s)" and s: "length s \<le> length ps"
    obtain t r where p: "peek s [124] = (t, r)" by (cases "peek s [124]")
    have "ends ps (andThen (parsepipe f (next_token r)) (\<lambda>(d, s). Ok (PIPE c d, s)))" if t
    proof -
      have lt: "length (next_token r) < length ps" using next_token_less [of s "[124]" r] p that s by simp
      then have "ends (next_token r) (parsepipe f (next_token r))" using 4(2) [of "(c, s)" c s t r] 4(3) ok p that by simp
      then have "ends ps (parsepipe f (next_token r))" using lt by (auto intro: ends_mono)
      then show ?thesis by (rule ends_andThen) simp
    qed
    then show "ends ps (case peek s [124] of
        (True, s) \<Rightarrow> andThen (parsepipe f (next_token s)) (\<lambda>(d, s). Ok (PIPE c d, s)) | (False, s) \<Rightarrow> Ok (c, s))"
      using p peek_le [OF p] s by (cases t) simp_all
  qed
next
  case (6 f ps)
  obtain t r where p: "peek ps [40] = (t, r)" by (cases "peek ps [40]")
  show ?case
  proof (cases t)
    case True
    then have lt: "length (next_token r) < length ps" using next_token_less [of ps "[40]" r] p by simp
    then have "ends (next_token r) (parseline f (next_token r))" using 6(1) [of t r] 6(2) p True by simp
    then have "ends ps (parseline f (next_token r))" using lt by (auto intro: ends_mono)
    then have "ends ps (andThen (parseline f (next_token r)) (\<lambda>(c, s). case peek s [41] of
        (False, s) \<Rightarrow> Panic ''syntax - missing )''
      | (True, s) \<Rightarrow> andThen (parseredirs (next_token s)) (\<lambda>(rs, s). Ok (redirs rs c, s))))"
    proof (rule ends_andThen, unfold split)
      fix c :: cmd and s :: ptr assume s: "length s \<le> length ps"
      obtain t' r' where p': "peek s [41] = (t', r')" by (cases "peek s [41]")
      have "length (next_token r') \<le> length ps" using next_token_le [of r'] peek_le [OF p'] s by linarith
      then have "ends ps (andThen (parseredirs (next_token r')) (\<lambda>(rs, s). Ok (redirs rs c, s)))"
        using parseredirs_le [of "next_token r'"] by (cases "parseredirs (next_token r')") auto
      then show "ends ps (case peek s [41] of (False, s) \<Rightarrow> Panic ''syntax - missing )''
          | (True, s) \<Rightarrow> andThen (parseredirs (next_token s)) (\<lambda>(rs, s). Ok (redirs rs c, s)))"
        using p' by (cases t') simp_all
    qed
    then show ?thesis using True p by simp
  qed (use p in simp)
next
  case (8 f ps)
  obtain t r where p: "peek ps [40] = (t, r)" by (cases "peek ps [40]")
  have r: "length r \<le> length ps" using peek_le [OF p] by simp
  show ?case
  proof (cases t)
    case True
    then have "ends r (parseblock f r)" using 8(1) [of t r] 8(2) p r by simp
    then show ?thesis using True p r by (auto intro: ends_mono)
  next
    case False
    have "ends ps (andThen (parseredirs r) (\<lambda>(rs, s). andThen (parse_args [] rs s) (\<lambda>(args, rs, s). Ok (redirs rs (EXEC args), s))))"
    proof (cases "parseredirs r")
      case (Ok x)
      obtain rs s where x: "x = (rs, s)" by (cases x)
      have "length s \<le> length ps" using parseredirs_le [of r] Ok x r by auto
      then show ?thesis unfolding Ok x using parse_args_le [of "[]" rs s] by (cases "parse_args [] rs s") auto
    qed (use parseredirs_le [of r] in auto)
    then show ?thesis using False p by simp
  qed
qed simp_all

section \<open>More fuel\<close>

lemma andThen_mono:
  "andThen r g \<noteq> Spin \<Longrightarrow> (r \<noteq> Spin \<Longrightarrow> r' = r) \<Longrightarrow> (\<And>x. r = Ok x \<Longrightarrow> g x \<noteq> Spin \<Longrightarrow> g' x = g x) \<Longrightarrow> andThen r' g' = andThen r g"
  by (cases r) auto

lemma parse_mono:
  "parseline f ps \<noteq> Spin \<Longrightarrow> parseline (Suc f) ps = parseline f ps"
  "parsepipe f ps \<noteq> Spin \<Longrightarrow> parsepipe (Suc f) ps = parsepipe f ps"
  "parseblock f ps \<noteq> Spin \<Longrightarrow> parseblock (Suc f) ps = parseblock f ps"
  "parseexec f ps \<noteq> Spin \<Longrightarrow> parseexec (Suc f) ps = parseexec f ps"
proof (induction f ps and f ps and f ps and f ps rule: parseline_parsepipe_parseblock_parseexec.induct)
  case (2 f ps)
  show ?case unfolding parseline.simps(2) [of "Suc f" ps] parseline.simps(2) [of f ps] using 2(3) [unfolded parseline.simps(2)]
  proof (rule andThen_mono)
    show "parsepipe (Suc f) ps = parsepipe f ps" if "parsepipe f ps \<noteq> Spin" using 2(1) that .
    fix x assume x: "parsepipe f ps = Ok x"
      "(case x of (c, s) \<Rightarrow> let (c, s) = parse_backs c s in case peek s [59] of
        (True, s) \<Rightarrow> andThen (parseline f (next_token s)) (\<lambda>(d, s). Ok (LIST c d, s)) | (False, s) \<Rightarrow> Ok (c, s)) \<noteq> Spin"
    obtain c s where cs: "x = (c, s)" by (cases x)
    obtain c' s' where b: "parse_backs c s = (c', s')" by (cases "parse_backs c s")
    obtain t r where p: "peek s' [59] = (t, r)" by (cases "peek s' [59]")
    have "parseline (Suc f) (next_token r) = parseline f (next_token r)" if t
    proof -
      have t: "t = True" and ns: "parseline f (next_token r) \<noteq> Spin" using x(2) cs b p that by auto
      show ?thesis by (rule 2(2) [OF x(1) cs [symmetric] b [symmetric] refl p [symmetric] t ns])
    qed
    then show "(case x of (c, s) \<Rightarrow> let (c, s) = parse_backs c s in case peek s [59] of
        (True, s) \<Rightarrow> andThen (parseline (Suc f) (next_token s)) (\<lambda>(d, s). Ok (LIST c d, s)) | (False, s) \<Rightarrow> Ok (c, s)) =
      (case x of (c, s) \<Rightarrow> let (c, s) = parse_backs c s in case peek s [59] of
        (True, s) \<Rightarrow> andThen (parseline f (next_token s)) (\<lambda>(d, s). Ok (LIST c d, s)) | (False, s) \<Rightarrow> Ok (c, s))"
      using cs b p by (cases t) (simp_all del: parseline.simps)
  qed
next
  case (4 f ps)
  show ?case unfolding parsepipe.simps(2) [of "Suc f" ps] parsepipe.simps(2) [of f ps] using 4(3) [unfolded parsepipe.simps(2)]
  proof (rule andThen_mono)
    show "parseexec (Suc f) ps = parseexec f ps" if "parseexec f ps \<noteq> Spin" using 4(1) that .
    fix x assume x: "parseexec f ps = Ok x"
      "(case x of (c, s) \<Rightarrow> case peek s [124] of
        (True, s) \<Rightarrow> andThen (parsepipe f (next_token s)) (\<lambda>(d, s). Ok (PIPE c d, s)) | (False, s) \<Rightarrow> Ok (c, s)) \<noteq> Spin"
    obtain c s where cs: "x = (c, s)" by (cases x)
    obtain t r where p: "peek s [124] = (t, r)" by (cases "peek s [124]")
    have "parsepipe (Suc f) (next_token r) = parsepipe f (next_token r)" if t
    proof -
      have t: "t = True" and ns: "parsepipe f (next_token r) \<noteq> Spin" using x(2) cs p that by auto
      show ?thesis by (rule 4(2) [OF x(1) cs [symmetric] p [symmetric] t ns])
    qed
    then show "(case x of (c, s) \<Rightarrow> case peek s [124] of
        (True, s) \<Rightarrow> andThen (parsepipe (Suc f) (next_token s)) (\<lambda>(d, s). Ok (PIPE c d, s)) | (False, s) \<Rightarrow> Ok (c, s)) =
      (case x of (c, s) \<Rightarrow> case peek s [124] of
        (True, s) \<Rightarrow> andThen (parsepipe f (next_token s)) (\<lambda>(d, s). Ok (PIPE c d, s)) | (False, s) \<Rightarrow> Ok (c, s))"
      using cs p by (cases t) (simp_all del: parsepipe.simps)
  qed
next
  case (6 f ps)
  obtain t r where p: "peek ps [40] = (t, r)" by (cases "peek ps [40]")
  show ?case
  proof (cases t)
    case True
    then have t: "t = True" and ns: "parseline f (next_token r) \<noteq> Spin" using 6(2) p by auto
    have "parseline (Suc f) (next_token r) = parseline f (next_token r)" by (rule 6(1) [OF p [symmetric] t ns])
    then show ?thesis using p True by (simp del: parseline.simps)
  qed (use p in simp)
next
  case (8 f ps)
  obtain t r where p: "peek ps [40] = (t, r)" by (cases "peek ps [40]")
  show ?case
  proof (cases t)
    case True
    then have t: "t = True" and ns: "parseblock f r \<noteq> Spin" using 8(2) p by simp_all
    have "parseblock (Suc f) r = parseblock f r" by (rule 8(1) [OF p [symmetric] t ns])
    then show ?thesis using p True by (simp del: parseblock.simps)
  qed (use p in simp)
qed simp_all

lemma parse_more:
  assumes "f \<le> g"
  shows "parseline f ps \<noteq> Spin \<Longrightarrow> parseline g ps = parseline f ps"
    and "parsepipe f ps \<noteq> Spin \<Longrightarrow> parsepipe g ps = parsepipe f ps"
    and "parseblock f ps \<noteq> Spin \<Longrightarrow> parseblock g ps = parseblock f ps"
    and "parseexec f ps \<noteq> Spin \<Longrightarrow> parseexec g ps = parseexec f ps"
  using assms by (induction g rule: dec_induct) (simp_all add: parse_mono del: parseline.simps parsepipe.simps parseblock.simps parseexec.simps)

lemma parse_skip:
  "parseexec f (skip_space ps) = parseexec f ps" "parsepipe f (skip_space ps) = parsepipe f ps" "parseline f (skip_space ps) = parseline f ps"
proof -
  show e: "parseexec f (skip_space ps) = parseexec f ps" for f by (cases f) (simp_all add: peek_skip)
  show p: "parsepipe f (skip_space ps) = parsepipe f ps" for f by (cases f) (simp_all add: e)
  show "parseline f (skip_space ps) = parseline f ps" by (cases f) (simp_all add: p)
qed

section \<open>Commands as they are written\<close>

text \<open>A command with its words in place of the pointers.\<close>

datatype scmd = SExec "u8 list list" | SRedir scmd "u8 list" int int | SPipe scmd scmd | SList scmd scmd | SBack scmd

definition counted :: "ptr \<times> ptr \<Rightarrow> u8 list" where
  "counted t = take (length (fst t) - length (snd t)) (fst t)"

fun strs :: "cmd \<Rightarrow> scmd" where
  "strs (EXEC args) = SExec (map counted args)"
| "strs (REDIR c q e mode fd) = SRedir (strs c) (counted (q, e)) mode fd"
| "strs (PIPE l r) = SPipe (strs l) (strs r)"
| "strs (LIST l r) = SList (strs l) (strs r)"
| "strs (BACK c) = SBack (strs c)"

text \<open>What can be written down: words of the right characters, at most 9 of them, and the three redirections.\<close>

definition sword :: "u8 list \<Rightarrow> bool" where
  "sword w \<longleftrightarrow> w \<noteq> [] \<and> (\<forall>c\<in>set w. is_word c \<and> c \<noteq> 0)"

fun swf :: "scmd \<Rightarrow> bool" where
  "swf (SExec args) \<longleftrightarrow> length args < MAXARGS \<and> (\<forall>w\<in>set args. sword w)"
| "swf (SRedir c w mode fd) \<longleftrightarrow> swf c \<and> sword w \<and> (mode, fd) \<in> {(0x000, 0), (0x601, 1), (0x201, 1)}"
| "swf (SPipe l r) \<longleftrightarrow> swf l \<and> swf r"
| "swf (SList l r) \<longleftrightarrow> swf l \<and> swf r"
| "swf (SBack c) \<longleftrightarrow> swf c"

definition show_redir :: "u8 list \<times> int \<times> int \<Rightarrow> u8 list" where
  "show_redir r = (case r of (w, mode, fd) \<Rightarrow> (if fd = 0 then [60] else if mode = 0x601 then [62] else [62, 62]) @ w @ [32])"

text \<open>The line of a command, with parentheses where the grammar needs them.\<close>

function show_line :: "scmd \<Rightarrow> u8 list" and show_backs :: "scmd \<Rightarrow> u8 list" and show_pipe :: "scmd \<Rightarrow> u8 list" and show_exec :: "scmd \<Rightarrow> u8 list" where
  "show_line t = (case t of SList l r \<Rightarrow> show_backs l @ [59] @ show_line r | _ \<Rightarrow> show_backs t)"
| "show_backs t = (case t of SBack c \<Rightarrow> show_backs c @ [38] | _ \<Rightarrow> show_pipe t)"
| "show_pipe t = (case t of SPipe l r \<Rightarrow> show_exec l @ [124] @ show_pipe r | _ \<Rightarrow> show_exec t)"
| "show_exec t =
     (case t of
        SExec args \<Rightarrow> concat (map (\<lambda>w. w @ [32]) args)
      | SRedir c w mode fd \<Rightarrow> show_exec c @ show_redir (w, mode, fd)
      | SPipe l r \<Rightarrow> [40] @ (show_exec l @ [124] @ show_pipe r) @ [41]
      | SList l r \<Rightarrow> [40] @ (show_backs l @ [59] @ show_line r) @ [41]
      | SBack c \<Rightarrow> [40] @ (show_backs c @ [38]) @ [41])"
  by pat_completeness auto
termination
  by (relation "measure (\<lambda>x. case x of Inl (Inl t) \<Rightarrow> 4 * size t + 3 | Inl (Inr t) \<Rightarrow> 4 * size t + 2 | Inr (Inl t) \<Rightarrow> 4 * size t + 1 | Inr (Inr t) \<Rightarrow> 4 * size t)") auto

declare show_line.simps [simp del] show_backs.simps [simp del] show_pipe.simps [simp del] show_exec.simps [simp del]

section \<open>Reading tokens back\<close>

lemma word_char: "is_word c \<Longrightarrow> \<not> is_space c \<and> c \<notin> {60, 124, 62, 38, 59, 40, 41}"
  by (simp add: is_word_def symbols_def)

lemma skip_word [simp]: "\<not> is_space c \<Longrightarrow> skip_space (c # s) = c # s"
  by (simp add: skip_space_def)

lemma skip_blank [simp]: "skip_space (32 # s) = skip_space s" "skip_space [] = []"
  by (simp_all add: skip_space_def is_space_def whitespace_def)

lemma symbol_not_space: "\<not> is_space 60" "\<not> is_space 124" "\<not> is_space 62" "\<not> is_space 38" "\<not> is_space 59" "\<not> is_space 40" "\<not> is_space 41"
  by (simp_all add: is_space_def whitespace_def)

lemma sword_Cons: "sword w \<Longrightarrow> \<exists>c v. w = c # v \<and> is_word c \<and> c \<noteq> 0"
  by (cases w) (auto simp: sword_def)

lemma gettoken_word:
  assumes "sword w"
  shows "gettoken (w @ 32 # r) = (97, w @ 32 # r, 32 # r, skip_space r)"
proof -
  obtain c v where w: "w = c # v" "is_word c" "c \<noteq> 0" using sword_Cons [OF assms] by blast
  have "dropWhile is_word (w @ 32 # r) = 32 # r"
    using assms by (subst dropWhile_append2) (auto simp: sword_def is_word_def is_space_def whitespace_def)
  moreover have "skip_space (w @ 32 # r) = w @ 32 # r" using w word_char by simp
  ultimately show ?thesis using w word_char [OF w(2)] by (simp add: gettoken_def deref_def)
qed

lemma counted_append [simp]: "counted (w @ e, e) = w"
  by (simp add: counted_def)

lemma peek_word: "sword w \<Longrightarrow> set toks \<subseteq> {60, 124, 62, 38, 59, 40, 41} \<Longrightarrow> peek (w @ r) toks = (False, w @ r)"
proof -
  assume "sword w" and toks: "set toks \<subseteq> {60, 124, 62, 38, 59, 40, 41}"
  then obtain c v where w: "w = c # v" "is_word c" using sword_Cons by blast
  have "c \<notin> set toks" using word_char [OF w(2)] toks by blast
  then show ?thesis using w word_char [OF w(2)] by (simp add: peek_def deref_def)
qed

text \<open>What may follow a command: the end of the line, or one of some symbols.\<close>

definition stops :: "u8 list \<Rightarrow> ptr \<Rightarrow> bool" where
  "stops ts r \<longleftrightarrow> skip_space r = [] \<or> deref (skip_space r) \<in> set ts \<and> deref (skip_space r) \<noteq> 0"

lemma stops_mono: "stops ts r \<Longrightarrow> set ts \<subseteq> set us \<Longrightarrow> stops us r" by (auto simp: stops_def)

lemma stops_skip [simp]: "stops ts (skip_space r) = stops ts r" by (simp add: stops_def)

lemma stops_Cons [simp]: "\<not> is_space c \<Longrightarrow> stops ts (c # r) \<longleftrightarrow> c \<in> set ts \<and> c \<noteq> 0"
  by (simp add: stops_def deref_def)

lemma peek_stops: "stops ts r \<Longrightarrow> set ts \<inter> set toks = {} \<Longrightarrow> peek r toks = (False, skip_space r)"
  by (cases "skip_space r") (auto simp: stops_def peek_def deref_def)

lemma peek_symbol: "\<not> is_space c \<Longrightarrow> c \<noteq> 0 \<Longrightarrow> peek (c # r) toks = (c \<in> set toks, c # r)"
  by (simp add: peek_def deref_def)

lemma next_token_symbol: "c \<in> {124, 40, 41, 59, 38} \<Longrightarrow> next_token (c # r) = skip_space r"
  using symbol_not_space by (auto simp: next_token_def gettoken_def deref_def)

definition wf_redir :: "u8 list \<times> int \<times> int \<Rightarrow> bool" where
  "wf_redir r \<longleftrightarrow> (case r of (w, mode, fd) \<Rightarrow> sword w \<and> (mode, fd) \<in> {(0x000, 0), (0x601, 1), (0x201, 1)})"

definition redir_str :: "redir \<Rightarrow> u8 list \<times> int \<times> int" where
  "redir_str r = (case r of (q, e, mode, fd) \<Rightarrow> (counted (q, e), mode, fd))"

lemma parseredirs_show:
  assumes "stops ts r" "60 \<notin> set ts" "62 \<notin> set ts"
  shows "\<forall>x\<in>set xs. wf_redir x \<Longrightarrow> \<exists>rs. parseredirs (concat (map show_redir xs) @ r) = Ok (rs, skip_space r) \<and> map redir_str rs = xs"
proof (induction xs)
  case Nil
  then show ?case using peek_stops [OF assms(1), of "[60, 62]"] assms(2,3) by (subst parseredirs_unfold) auto
next
  case (Cons x xs)
  let ?X = "concat (map show_redir xs) @ r"
  obtain w mode fd where x: "x = (w, mode, fd)" "sword w" "(mode, fd) \<in> {(0x000, 0), (0x601, 1), (0x201, 1)}"
    using Cons.prems by (cases x) (auto simp: wf_redir_def)
  obtain c v where w: "w = c # v" "is_word c" "c \<noteq> 0" using sword_Cons [OF x(2)] by blast
  have sk: "skip_space (w @ 32 # ?X) = w @ 32 # ?X" "c \<noteq> 62" using w word_char [OF w(2)] by auto
  obtain rs where rs: "parseredirs ?X = Ok (rs, skip_space r)" "map redir_str rs = xs" using Cons by auto
  have g2: "gettoken (w @ 32 # ?X) = (97, w @ 32 # ?X, 32 # ?X, skip_space ?X)" by (rule gettoken_word [OF x(2)])
  have "\<exists>tok q e p. peek (show_redir x @ ?X) [60, 62] = (True, show_redir x @ ?X) \<and> gettoken (show_redir x @ ?X) = (tok, q, e, w @ 32 # ?X) \<and>
      (if tok = 60 then (0x000, 0) else if tok = 62 then (0x601, 1) else if tok = 43 then (0x201, 1) else p) = (mode, fd) \<and> tok \<in> {60, 62, 43}"
    using x(3) sk w by (auto simp: x(1) show_redir_def peek_def gettoken_def deref_def symbol_not_space)
  then obtain tok q e p where g1: "peek (show_redir x @ ?X) [60, 62] = (True, show_redir x @ ?X)" "gettoken (show_redir x @ ?X) = (tok, q, e, w @ 32 # ?X)"
    "(if tok = 60 then (0x000, 0) else if tok = 62 then (0x601, 1) else if tok = 43 then (0x201, 1) else p) = (mode, fd)" "tok \<in> {60, 62, 43}" by blast
  have "parseredirs (show_redir x @ ?X) = Ok ((w @ 32 # ?X, 32 # ?X, mode, fd) # rs, skip_space r)"
    using g1 g2 rs(1) by (subst parseredirs_unfold) (auto simp: parseredirs_skip)
  moreover have "redir_str (w @ 32 # ?X, 32 # ?X, mode, fd) = x" using x(1) by (simp add: redir_str_def)
  ultimately show ?case using rs(2) by simp
qed

abbreviation show_words :: "u8 list list \<Rightarrow> u8 list" where
  "show_words ws \<equiv> concat (map (\<lambda>w. w @ [32]) ws)"

lemma parse_args_stops: "stops [124, 41, 38, 59] r \<Longrightarrow> parse_args args rs r = Ok (args, rs, skip_space r)"
  by (subst parse_args_unfold) (auto simp: stops_def peek_def gettoken_def deref_def)

lemma parse_args_show:
  assumes r: "stops [124, 41, 38, 59] r" and xs: "\<forall>x\<in>set xs. wf_redir x"
  shows "\<forall>w\<in>set ws. sword w \<Longrightarrow> length args + length ws < MAXARGS \<Longrightarrow> ws \<noteq> [] \<Longrightarrow>
    \<exists>A R. parse_args args rs (show_words ws @ concat (map show_redir xs) @ r) = Ok (args @ A, rs @ R, skip_space r) \<and>
      map counted A = ws \<and> map redir_str R = xs"
proof (induction ws arbitrary: args rs)
  case (Cons w ws)
  let ?X = "show_words ws @ concat (map show_redir xs) @ r"
  let ?t = "(w @ 32 # ?X, 32 # ?X)"
  have w: "sword w" using Cons.prems(1) by simp
  have step: "parse_args args rs (show_words (w # ws) @ concat (map show_redir xs) @ r) =
      andThen (parseredirs ?X) (\<lambda>(rs', s2). parse_args (args @ [?t]) (rs @ rs') s2)"
    using peek_word [OF w, of "[124, 41, 38, 59]" "32 # ?X"] gettoken_word [OF w, of ?X] Cons.prems(2)
    by (subst parse_args_unfold) (simp add: parseredirs_skip)
  show ?case
  proof (cases ws)
    case Nil
    obtain R where R: "parseredirs (concat (map show_redir xs) @ r) = Ok (R, skip_space r)" "map redir_str R = xs"
      using parseredirs_show [OF r _ _ xs] by auto
    have "parse_args (args @ [?t]) (rs @ R) (skip_space r) = Ok (args @ [?t], rs @ R, skip_space r)"
      using parse_args_stops [of "skip_space r"] r by simp
    then show ?thesis unfolding step using R Nil by (intro exI [of _ "[?t]"] exI [of _ R]) (simp add: parse_args_skip)
  next
    case (Cons v vs)
    then have v: "sword v" using Cons.prems(1) by simp
    have "parseredirs ?X = Ok ([], ?X)"
      using peek_word [OF v, of "[60, 62]"] Cons by (subst parseredirs_unfold) simp
    moreover obtain A R where "parse_args (args @ [?t]) rs ?X = Ok ((args @ [?t]) @ A, rs @ R, skip_space r)" "map counted A = ws" "map redir_str R = xs"
      using Cons.IH [of "args @ [?t]" rs] Cons.prems Cons by auto
    ultimately show ?thesis unfolding step by (intro exI [of _ "?t # A"] exI [of _ R]) simp
  qed
qed simp

fun swrap :: "(u8 list \<times> int \<times> int) list \<Rightarrow> scmd \<Rightarrow> scmd" where
  "swrap [] c = c"
| "swrap ((w, mode, fd) # xs) c = swrap xs (SRedir c w mode fd)"

lemma strs_redirs: "strs (redirs rs c) = swrap (map redir_str rs) (strs c)"
proof (induction rs arbitrary: c)
  case (Cons r rs)
  then show ?case by (cases r) (simp add: redir_str_def)
qed simp

lemma parseexec_words:
  assumes r: "stops [124, 41, 38, 59] r" and xs: "\<forall>x\<in>set xs. wf_redir x" and ws: "\<forall>w\<in>set ws. sword w" "length ws < MAXARGS"
  shows "\<exists>c. parseexec (Suc f) (show_words ws @ concat (map show_redir xs) @ r) = Ok (c, skip_space r) \<and> strs c = swrap xs (SExec ws)"
proof (cases ws)
  case Nil
  obtain R where R: "parseredirs (concat (map show_redir xs) @ r) = Ok (R, skip_space r)" "map redir_str R = xs"
    using parseredirs_show [OF r _ _ xs] by auto
  have "\<exists>s. peek (concat (map show_redir xs) @ r) [40] = (False, s) \<and> s = skip_space (concat (map show_redir xs) @ r)"
  proof (cases xs)
    case Nil
    then show ?thesis using peek_stops [OF r, of "[40]"] by simp
  next
    case (Cons x ys)
    then show ?thesis by (cases x) (auto simp: show_redir_def peek_def deref_def symbol_not_space)
  qed
  then show ?thesis using R Nil parse_args_stops [of "skip_space r" "[]" R] r
    by (intro exI [of _ "redirs R (EXEC [])"]) (auto simp: parseredirs_skip strs_redirs parse_args_skip)
next
  case (Cons w vs)
  then have w: "sword w" using ws by simp
  let ?p = "show_words ws @ concat (map show_redir xs) @ r"
  have "peek ?p [40] = (False, ?p)" using peek_word [OF w, of "[40]"] Cons by simp
  moreover have "parseredirs ?p = Ok ([], ?p)" using peek_word [OF w, of "[60, 62]"] Cons by (subst parseredirs_unfold) simp
  moreover obtain A R where "parse_args [] [] ?p = Ok (A, R, skip_space r)" "map counted A = ws" "map redir_str R = xs"
    using parse_args_show [OF r xs ws(1), of "[]" "[]"] ws(2) Cons by auto
  ultimately show ?thesis by (intro exI [of _ "redirs R (EXEC A)"]) (simp add: strs_redirs)
qed

text \<open>A command and the redirections around it.\<close>

fun core_of :: "scmd \<Rightarrow> scmd" where
  "core_of (SRedir c w mode fd) = core_of c"
| "core_of c = c"

fun redirs_of :: "scmd \<Rightarrow> (u8 list \<times> int \<times> int) list" where
  "redirs_of (SRedir c w mode fd) = redirs_of c @ [(w, mode, fd)]"
| "redirs_of c = []"

lemma swrap_append: "swrap (xs @ ys) c = swrap ys (swrap xs c)"
  by (induction xs arbitrary: c) auto

lemma swrap_core: "swrap (redirs_of t) (core_of t) = t"
  by (induction t) (simp_all add: swrap_append)

lemma core_wf: "swf t \<Longrightarrow> swf (core_of t) \<and> (\<forall>x\<in>set (redirs_of t). wf_redir x)"
  by (induction t) (auto simp: wf_redir_def)

lemma core_size: "size (core_of t) \<le> size t"
  by (induction t) auto

lemma core_not_redir: "core_of t \<noteq> SRedir c w mode fd"
  by (induction t) auto

lemma show_exec_core: "show_exec t = show_exec (core_of t) @ concat (map show_redir (redirs_of t))"
proof (induction t)
  case (SRedir c w mode fd)
  then show ?case by (subst show_exec.simps) simp
qed simp_all

lemma show_eqs:
  "show_line (SList l r) = show_backs l @ 59 # show_line r" "\<not> (\<exists>l r. t = SList l r) \<Longrightarrow> show_line t = show_backs t"
  "show_backs (SBack l) = show_backs l @ [38]" "\<not> (\<exists>l. t = SBack l) \<Longrightarrow> show_backs t = show_pipe t"
  "show_pipe (SPipe l r) = show_exec l @ 124 # show_pipe r" "\<not> (\<exists>l r. t = SPipe l r) \<Longrightarrow> show_pipe t = show_exec t"
  "show_exec (SExec ws) = show_words ws"
  by (subst show_line.simps show_backs.simps show_pipe.simps show_exec.simps, cases t; simp)+

lemma show_exec_block: "c = SPipe l r \<or> c = SList l r \<or> c = SBack l \<Longrightarrow> show_exec c = 40 # show_line c @ [41]"
  by (subst show_exec.simps) (auto simp: show_eqs)

section \<open>Reading commands back\<close>

text \<open>That a written command is read back, at the four levels of the grammar.\<close>

definition reads_line :: "scmd \<Rightarrow> bool" where
  "reads_line t \<longleftrightarrow> (\<forall>r. stops [41] r \<longrightarrow> (\<exists>f c. parseline f (show_line t @ r) = Ok (c, skip_space r) \<and> strs c = t))"

definition reads_backs :: "scmd \<Rightarrow> bool" where
  "reads_backs t \<longleftrightarrow> (\<forall>r. stops [41, 59, 38] r \<longrightarrow> (\<exists>f c0 s0 c. parsepipe f (show_backs t @ r) = Ok (c0, s0) \<and>
     parse_backs c0 s0 = parse_backs c (skip_space r) \<and> strs c = t))"

definition reads_pipe :: "scmd \<Rightarrow> bool" where
  "reads_pipe t \<longleftrightarrow> (\<forall>r. stops [41, 59, 38] r \<longrightarrow> (\<exists>f c. parsepipe f (show_pipe t @ r) = Ok (c, skip_space r) \<and> strs c = t))"

definition reads_exec :: "scmd \<Rightarrow> bool" where
  "reads_exec t \<longleftrightarrow> (\<forall>r. stops [124, 41, 38, 59] r \<longrightarrow> (\<exists>f c. parseexec f (show_exec t @ r) = Ok (c, skip_space r) \<and> strs c = t))"

lemmas parser_simps_off = parseline.simps parsepipe.simps parseblock.simps parseexec.simps

lemma parse_lift:
  "parseline f ps = Ok x \<Longrightarrow> f \<le> g \<Longrightarrow> parseline g ps = Ok x"
  "parsepipe f ps = Ok x \<Longrightarrow> f \<le> g \<Longrightarrow> parsepipe g ps = Ok x"
  "parseexec f ps = Ok x \<Longrightarrow> f \<le> g \<Longrightarrow> parseexec g ps = Ok x"
  using parse_more [of f g ps] by (auto simp del: parser_simps_off)

lemma parse_backs_stop: "peek ps [38] = (False, s) \<Longrightarrow> parse_backs c ps = (c, s)"
  by (subst parse_backs.simps) simp

lemma parse_backs_more: "parse_backs c (38 # r) = parse_backs (BACK c) (skip_space r)"
  using peek_symbol [of 38 r "[38]"] by (subst parse_backs.simps) (simp add: next_token_symbol symbol_not_space)

lemma reads_backs_back: "reads_backs l \<Longrightarrow> reads_backs (SBack l)"
  unfolding reads_backs_def
proof (intro allI impI)
  fix r assume l: "\<forall>r. stops [41, 59, 38] r \<longrightarrow> (\<exists>f c0 s0 c. parsepipe f (show_backs l @ r) = Ok (c0, s0) \<and>
     parse_backs c0 s0 = parse_backs c (skip_space r) \<and> strs c = l)" and r: "stops [41, 59, 38] r"
  have "stops [41, 59, 38] (38 # r)" by (simp add: symbol_not_space)
  then obtain f c0 s0 c where "parsepipe f (show_backs l @ 38 # r) = Ok (c0, s0)" "parse_backs c0 s0 = parse_backs c (38 # r)" "strs c = l"
    using l [rule_format, of "38 # r"] by (auto simp: symbol_not_space simp del: parser_simps_off)
  then show "\<exists>f c0 s0 c. parsepipe f (show_backs (SBack l) @ r) = Ok (c0, s0) \<and> parse_backs c0 s0 = parse_backs c (skip_space r) \<and> strs c = SBack l"
    by (intro exI [of _ f] exI [of _ c0] exI [of _ s0] exI [of _ "BACK c"]) (simp add: show_eqs parse_backs_more del: parser_simps_off)
qed

lemma reads_backs_pipe: "reads_pipe t \<Longrightarrow> \<not> (\<exists>l. t = SBack l) \<Longrightarrow> reads_backs t"
  unfolding reads_backs_def reads_pipe_def by (simp add: show_eqs del: parser_simps_off) blast

lemma reads_line_backs:
  assumes "reads_backs t" "\<not> (\<exists>l r. t = SList l r)" shows "reads_line t"
  unfolding reads_line_def
proof (intro allI impI)
  fix r assume r: "stops [41] r"
  then have "stops [41, 59, 38] r" by (rule stops_mono) auto
  then obtain f c0 s0 c where p: "parsepipe f (show_backs t @ r) = Ok (c0, s0)" "parse_backs c0 s0 = parse_backs c (skip_space r)" "strs c = t"
    using assms(1) unfolding reads_backs_def by blast
  have pk: "peek (skip_space r) toks = (False, skip_space r)" if "41 \<notin> set toks" for toks using peek_stops [of "[41]" r] r that by (simp add: peek_skip)
  have "parse_backs c0 s0 = (c, skip_space r)" using p(2) parse_backs_stop [OF pk [of "[38]"]] by simp
  then have "parseline (Suc f) (show_line t @ r) = Ok (c, skip_space r)" using p(1) pk [of "[59]"] assms(2) by (simp add: show_eqs)
  then show "\<exists>f c. parseline f (show_line t @ r) = Ok (c, skip_space r) \<and> strs c = t" using p(3) by blast
qed

lemma reads_line_list:
  assumes "reads_backs l" "reads_line m" shows "reads_line (SList l m)"
  unfolding reads_line_def
proof (intro allI impI)
  fix r assume r: "stops [41] r"
  let ?q = "59 # show_line m @ r"
  have "stops [41, 59, 38] ?q" by (simp add: symbol_not_space)
  then obtain f c0 s0 c where p: "parsepipe f (show_backs l @ ?q) = Ok (c0, s0)" "parse_backs c0 s0 = parse_backs c ?q" "strs c = l"
    using assms(1) unfolding reads_backs_def by (metis skip_word symbol_not_space(5))
  obtain g d where d: "parseline g (show_line m @ r) = Ok (d, skip_space r)" "strs d = m" using assms(2) r unfolding reads_line_def by blast
  have pk: "peek ?q toks = (59 \<in> set toks, ?q)" for toks by (simp add: peek_symbol symbol_not_space)
  have "parse_backs c0 s0 = (c, ?q)" using p(2) parse_backs_stop [of ?q ?q] pk by simp
  moreover have "parsepipe (max f g) (show_backs l @ ?q) = Ok (c0, s0)" "parseline (max f g) (show_line m @ r) = Ok (d, skip_space r)"
    using parse_lift p(1) d(1) by (meson max.cobounded1 max.cobounded2)+
  ultimately have "parseline (Suc (max f g)) (show_line (SList l m) @ r) = Ok (LIST c d, skip_space r)"
    using pk [of "[59]"] by (simp add: show_eqs next_token_symbol parse_skip)
  then show "\<exists>f c. parseline f (show_line (SList l m) @ r) = Ok (c, skip_space r) \<and> strs c = SList l m" using p(3) d(2) by (metis strs.simps(4))
qed

lemma reads_pipe_exec:
  assumes "reads_exec t" "\<not> (\<exists>l r. t = SPipe l r)" shows "reads_pipe t"
  unfolding reads_pipe_def
proof (intro allI impI)
  fix r assume r: "stops [41, 59, 38] r"
  then have "stops [124, 41, 38, 59] r" by (rule stops_mono) auto
  then obtain f c where c: "parseexec f (show_exec t @ r) = Ok (c, skip_space r)" "strs c = t" using assms(1) unfolding reads_exec_def by blast
  have "peek (skip_space r) [124] = (False, skip_space r)" using peek_stops [of "[41, 59, 38]" r "[124]"] r by (simp add: peek_skip)
  then have "parsepipe (Suc f) (show_pipe t @ r) = Ok (c, skip_space r)" using c(1) assms(2) by (simp add: show_eqs)
  then show "\<exists>f c. parsepipe f (show_pipe t @ r) = Ok (c, skip_space r) \<and> strs c = t" using c(2) by blast
qed

lemma reads_pipe_pipe:
  assumes "reads_exec l" "reads_pipe m" shows "reads_pipe (SPipe l m)"
  unfolding reads_pipe_def
proof (intro allI impI)
  fix r assume r: "stops [41, 59, 38] r"
  let ?q = "124 # show_pipe m @ r"
  have "stops [124, 41, 38, 59] ?q" by (simp add: symbol_not_space)
  then obtain f c where c: "parseexec f (show_exec l @ ?q) = Ok (c, ?q)" "strs c = l"
    using assms(1) unfolding reads_exec_def by (metis skip_word symbol_not_space(2))
  obtain g d where d: "parsepipe g (show_pipe m @ r) = Ok (d, skip_space r)" "strs d = m" using assms(2) r unfolding reads_pipe_def by blast
  have pk: "peek ?q [124] = (True, ?q)" by (simp add: peek_symbol symbol_not_space)
  have "parseexec (max f g) (show_exec l @ ?q) = Ok (c, ?q)" "parsepipe (max f g) (show_pipe m @ r) = Ok (d, skip_space r)"
    using parse_lift c(1) d(1) by (meson max.cobounded1 max.cobounded2)+
  then have "parsepipe (Suc (max f g)) (show_pipe (SPipe l m) @ r) = Ok (PIPE c d, skip_space r)"
    using pk by (simp add: show_eqs next_token_symbol parse_skip)
  then show "\<exists>f c. parsepipe f (show_pipe (SPipe l m) @ r) = Ok (c, skip_space r) \<and> strs c = SPipe l m" using c(2) d(2) by (metis strs.simps(3))
qed

lemma reads_exec_block:
  assumes "reads_line (core_of t)" "core_of t = SPipe l m \<or> core_of t = SList l m \<or> core_of t = SBack l" "swf t"
  shows "reads_exec t"
  unfolding reads_exec_def
proof (intro allI impI)
  fix r assume r: "stops [124, 41, 38, 59] r"
  let ?X = "concat (map show_redir (redirs_of t)) @ r" let ?q = "41 # ?X" let ?l = "show_line (core_of t) @ ?q"
  have sh: "show_exec t @ r = 40 # ?l" using show_exec_core [of t] show_exec_block [OF assms(2)] by simp
  have "stops [41] ?q" by (simp add: symbol_not_space)
  then obtain f c where c: "parseline f ?l = Ok (c, ?q)" "strs c = core_of t"
    using assms(1) unfolding reads_line_def by (metis skip_word symbol_not_space(7))
  obtain R where R: "parseredirs ?X = Ok (R, skip_space r)" "map redir_str R = redirs_of t"
    using parseredirs_show [OF r] core_wf [OF assms(3)] by auto
  have "peek (40 # ?l) [40] = (True, 40 # ?l)" "peek ?q [41] = (True, ?q)" by (simp_all add: peek_symbol symbol_not_space)
  then have "parseexec (Suc (Suc f)) (show_exec t @ r) = Ok (redirs R c, skip_space r)"
    unfolding sh using c(1) R(1) by (simp add: next_token_symbol parse_skip parseredirs_skip)
  moreover have "strs (redirs R c) = t" using c(2) R(2) swrap_core [of t] by (simp add: strs_redirs)
  ultimately show "\<exists>f c. parseexec f (show_exec t @ r) = Ok (c, skip_space r) \<and> strs c = t" by blast
qed

lemma reads_exec_words:
  assumes "core_of t = SExec ws" "swf t" shows "reads_exec t"
  unfolding reads_exec_def
proof (intro allI impI)
  fix r assume r: "stops [124, 41, 38, 59] r"
  have "swf (SExec ws)" "\<forall>x\<in>set (redirs_of t). wf_redir x" using core_wf [OF assms(2)] assms(1) by simp_all
  then obtain c where "parseexec 1 (show_words ws @ concat (map show_redir (redirs_of t)) @ r) = Ok (c, skip_space r)"
    "strs c = swrap (redirs_of t) (SExec ws)" using parseexec_words [OF r, of "redirs_of t" ws 0] by auto
  then show "\<exists>f c. parseexec f (show_exec t @ r) = Ok (c, skip_space r) \<and> strs c = t"
    using show_exec_core [of t] swrap_core [of t] assms(1) by (intro exI [of _ 1] exI [of _ c]) (simp add: show_eqs del: parser_simps_off)
qed

lemma reads_all: "swf t \<Longrightarrow> reads_exec t \<and> reads_pipe t \<and> reads_backs t \<and> reads_line t"
proof (induction "size t" arbitrary: t rule: less_induct)
  case less
  have line: "reads_line c" if c: "swf c" "size c \<le> size t" "c = SPipe l m \<or> c = SList l m \<or> c = SBack l" for c l m
    using c(3)
  proof (elim disjE)
    assume "c = SPipe l m"
    then show ?thesis using less.hyps [of l] less.hyps [of m] c by (auto intro!: reads_line_backs reads_backs_pipe reads_pipe_pipe)
  next
    assume "c = SList l m"
    then show ?thesis using less.hyps [of l] less.hyps [of m] c by (auto intro!: reads_line_list)
  next
    assume "c = SBack l"
    then show ?thesis using less.hyps [of l] c by (auto intro!: reads_line_backs reads_backs_back)
  qed
  have e: "reads_exec t"
  proof (cases "core_of t")
    case (SExec ws)
    then show ?thesis using reads_exec_words less.prems by blast
  next
    case (SRedir c w mode fd)
    then show ?thesis using core_not_redir by blast
  qed (use reads_exec_block line core_wf [OF less.prems] core_size less.prems in blast)+
  have p: "reads_pipe t"
    using e less.hyps less.prems by (cases "\<exists>l r. t = SPipe l r") (auto intro: reads_pipe_exec reads_pipe_pipe)
  have b: "reads_backs t"
    using p less.hyps less.prems by (cases "\<exists>l. t = SBack l") (auto intro: reads_backs_pipe reads_backs_back)
  have "reads_line t"
    using b less.hyps less.prems by (cases "\<exists>l r. t = SList l r") (auto intro: reads_line_backs reads_line_list)
  then show ?case using e p b by blast
qed

section \<open>The words of the line\<close>

fun tokens :: "cmd \<Rightarrow> (ptr \<times> ptr) list" where
  "tokens (EXEC args) = args"
| "tokens (REDIR c q e mode fd) = tokens c @ [(q, e)]"
| "tokens (PIPE l r) = tokens l @ tokens r"
| "tokens (LIST l r) = tokens l @ tokens r"
| "tokens (BACK c) = tokens c"

definition suf :: "u8 list \<Rightarrow> ptr \<Rightarrow> bool" where
  "suf s ps \<longleftrightarrow> (\<exists>p. s = p @ ps)"

definition tok_ok :: "u8 list \<Rightarrow> ptr \<times> ptr \<Rightarrow> bool" where
  "tok_ok s t \<longleftrightarrow> (\<exists>p w. s = p @ fst t \<and> fst t = w @ snd t \<and> (\<forall>c\<in>set w. is_word c) \<and> (snd t = [] \<or> \<not> is_word (hd (snd t))))"

lemma suf_append: "suf s (p @ r) \<Longrightarrow> suf s r"
  unfolding suf_def by (metis append_assoc)

lemma suf_dropWhile: "suf s r \<Longrightarrow> suf s (dropWhile P r)"
  using suf_append [of s "takeWhile P r" "dropWhile P r"] by simp

lemma suf_tl: "suf s r \<Longrightarrow> suf s (tl r)"
  using suf_append [of s "[hd r]" "tl r"] by (cases r) auto

lemma suf_skip: "suf s r \<Longrightarrow> suf s (skip_space r)"
  by (simp add: skip_space_def suf_dropWhile)

lemmas suf_rules = suf_dropWhile suf_tl suf_skip

lemma gettoken_suf:
  assumes "suf s ps" "gettoken ps = (ret, q, e, r)"
  shows "suf s r \<and> (ret = 97 \<longrightarrow> tok_ok s (q, e))"
proof -
  let ?t = "skip_space ps"
  have t: "suf s ?t" using assms(1) by (rule suf_skip)
  have "suf s e" using assms(2) t by (auto simp: gettoken_def Let_def intro: suf_rules split: if_splits)
  moreover have "r = skip_space e" using assms(2) by (auto simp: gettoken_def Let_def split: if_splits)
  moreover have "tok_ok s (q, e)" if "ret = 97"
  proof -
    have qe: "q = ?t" "e = dropWhile is_word ?t" using assms(2) that by (auto simp: gettoken_def Let_def split: if_splits)
    obtain p where p: "s = p @ ?t" using t by (auto simp: suf_def)
    show ?thesis unfolding tok_ok_def qe fst_conv snd_conv using p hd_dropWhile [of is_word ?t]
      by (intro exI [of _ p] exI [of _ "takeWhile is_word ?t"]) (auto dest: set_takeWhileD)
  qed
  ultimately show ?thesis by (simp add: suf_skip)
qed

lemma peek_suf: "suf s ps \<Longrightarrow> peek ps toks = (b, r) \<Longrightarrow> suf s r"
  by (auto simp: peek_def Let_def intro: suf_skip)

lemma next_token_suf: "suf s ps \<Longrightarrow> suf s (next_token ps)"
  using gettoken_suf [of s ps] by (cases "gettoken ps") (simp add: next_token_def)

lemma parse_backs_suf: "suf s ps \<Longrightarrow> parse_backs c ps = (d, r) \<Longrightarrow> suf s r \<and> tokens d = tokens c"
proof (induction "length ps" arbitrary: c ps rule: less_induct)
  case less
  obtain b t where p: "peek ps [38] = (b, t)" by (cases "peek ps [38]")
  have t: "suf s t" using peek_suf [OF less.prems(1) p] .
  show ?case
  proof (cases b)
    case True
    then have lt: "length (next_token t) < length ps" using next_token_less [of ps "[38]" t] p by simp
    have "parse_backs (BACK c) (next_token t) = (d, r)" using less.prems(2) p True by (subst (asm) parse_backs.simps) simp
    from less.hyps [OF lt next_token_suf [OF t] this] show ?thesis by simp
  next
    case False
    then show ?thesis using less.prems(2) p t by (subst (asm) parse_backs.simps) simp
  qed
qed

definition rtok :: "redir \<Rightarrow> ptr \<times> ptr" where
  "rtok r = (fst r, fst (snd r))"

lemma parseredirs_suf: "suf s ps \<Longrightarrow> parseredirs ps = Ok (rs, r) \<Longrightarrow> suf s r \<and> (\<forall>x\<in>set rs. tok_ok s (rtok x))"
proof (induction "length ps" arbitrary: ps rs rule: less_induct)
  case less
  obtain b t where p: "peek ps [60, 62] = (b, t)" by (cases "peek ps [60, 62]")
  obtain tok q1 e1 s1 where g1: "gettoken t = (tok, q1, e1, s1)" by (cases "gettoken t")
  obtain tok2 q e s2 where g2: "gettoken s1 = (tok2, q, e, s2)" by (cases "gettoken s1")
  have t: "suf s t" by (rule peek_suf [OF less.prems(1) p])
  have s1: "suf s s1" using gettoken_suf [OF t g1] by simp
  note s2 = gettoken_suf [OF s1 g2]
  show ?case
  proof (cases b)
    case True
    then have tok2: "tok2 = 97" using less.prems(2) p g1 g2 by (subst (asm) parseredirs_unfold) (auto split: if_splits)
    let ?x = "if tok = 60 then [(q, e, 0x000, 0)] else if tok = 62 then [(q, e, 0x601, 1)] else if tok = 43 then [(q, e, 0x201, 1)] else []"
    have "andThen (parseredirs s2) (\<lambda>(rs, s3). Ok (?x @ rs, s3)) = Ok (rs, r)"
      using less.prems(2) [unfolded parseredirs_unfold [of ps]] p g1 g2 True tok2 by simp
    then obtain y where y: "parseredirs s2 = Ok y" "(case y of (rs, s3) \<Rightarrow> Ok (?x @ rs, s3)) = Ok (rs, r)" unfolding andThen_eq_Ok by blast
    then obtain rs' where rs: "parseredirs s2 = Ok (rs', r)" "rs = ?x @ rs'" by (cases y) auto
    have lt: "length s2 < length ps" using peek_le [OF p] gettoken_le [OF g1] gettoken_le [OF g2] tok2 by auto
    from less.hyps [OF lt _ rs(1)] s2 tok2 show ?thesis unfolding rs(2) by (auto simp: rtok_def)
  next
    case False
    then show ?thesis using less.prems(2) p t by (subst (asm) parseredirs_unfold) auto
  qed
qed

lemma parse_args_suf:
  "suf s ps \<Longrightarrow> parse_args args rs ps = Ok (as, rs', r) \<Longrightarrow> \<forall>t\<in>set args. tok_ok s t \<Longrightarrow> \<forall>x\<in>set rs. tok_ok s (rtok x) \<Longrightarrow>
     suf s r \<and> (\<forall>t\<in>set as. tok_ok s t) \<and> (\<forall>x\<in>set rs'. tok_ok s (rtok x))"
proof (induction "length ps" arbitrary: ps args rs rule: less_induct)
  case less
  obtain b t where p: "peek ps [124, 41, 38, 59] = (b, t)" by (cases "peek ps [124, 41, 38, 59]")
  obtain tok q e s1 where g: "gettoken t = (tok, q, e, s1)" by (cases "gettoken t")
  have t: "suf s t" by (rule peek_suf [OF less.prems(1) p])
  note s1 = gettoken_suf [OF t g]
  show ?case
  proof (cases "b \<or> tok = 0")
    case True
    then show ?thesis using less.prems p g t s1 by (subst (asm) parse_args_unfold) (cases b, auto)
  next
    case False
    then have tok: "tok = 97" using less.prems(2) p g by (subst (asm) parse_args_unfold) (auto split: if_splits)
    obtain R s2 where R: "parseredirs s1 = Ok (R, s2)" "parse_args (args @ [(q, e)]) (rs @ R) s2 = Ok (as, rs', r)"
      using less.prems(2) p g False tok by (subst (asm) parse_args_unfold) (auto simp: andThen_eq_Ok split: if_splits)
    have "suf s s1" using s1 by simp
    note s2 = parseredirs_suf [OF this R(1)]
    have lt: "length s2 < length ps" using peek_le [OF p] gettoken_le [OF g] parseredirs_le [of s1] R(1) tok by fastforce
    show ?thesis
    proof (rule less.hyps [OF lt _ R(2)])
      show "suf s s2" using s2 by simp
      show "\<forall>t\<in>set (args @ [(q, e)]). tok_ok s t" using less.prems(3) s1 tok by simp
      show "\<forall>x\<in>set (rs @ R). tok_ok s (rtok x)" using less.prems(4) s2 by auto
    qed
  qed
qed

lemma tokens_redirs: "set (tokens (redirs rs c)) = set (tokens c) \<union> rtok ` set rs"
proof (induction rs arbitrary: c)
  case (Cons x rs)
  then show ?case by (cases x) (auto simp: rtok_def)
qed simp

definition toks_ok :: "u8 list \<Rightarrow> (cmd \<times> ptr) kres \<Rightarrow> bool" where
  "toks_ok s x \<longleftrightarrow> (\<forall>c r. x = Ok (c, r) \<longrightarrow> suf s r \<and> (\<forall>t\<in>set (tokens c). tok_ok s t))"

lemma toks_ok_andThen:
  assumes "toks_ok s x" "\<And>c r. x = Ok (c, r) \<Longrightarrow> suf s r \<Longrightarrow> \<forall>t\<in>set (tokens c). tok_ok s t \<Longrightarrow> toks_ok s (f (c, r))"
  shows "toks_ok s (andThen x f)"
proof (cases x)
  case (Ok y)
  obtain c r where "y = (c, r)" by (cases y)
  then show ?thesis using assms Ok by (simp add: toks_ok_def)
qed (simp_all add: toks_ok_def)

lemma toks_ok_simps [simp]: "toks_ok s (Panic m)" "toks_ok s Spin" "toks_ok s (Ok (c, r)) \<longleftrightarrow> suf s r \<and> (\<forall>t\<in>set (tokens c). tok_ok s t)"
  by (simp_all add: toks_ok_def)

lemma toks_ok_redirs:
  assumes "suf s ps" "\<forall>t\<in>set (tokens c). tok_ok s t"
  shows "toks_ok s (andThen (parseredirs ps) (\<lambda>(rs, s). Ok (redirs rs c, s)))"
proof (cases "parseredirs ps")
  case (Ok x)
  obtain rs r where x: "x = (rs, r)" by (cases x)
  show ?thesis using parseredirs_suf [OF assms(1), of rs r] Ok x assms(2) by (auto simp: tokens_redirs)
qed simp_all

lemma parse_toks:
  "suf s ps \<Longrightarrow> toks_ok s (parseline f ps)"
  "suf s ps \<Longrightarrow> toks_ok s (parsepipe f ps)"
  "suf s ps \<Longrightarrow> toks_ok s (parseblock f ps)"
  "suf s ps \<Longrightarrow> toks_ok s (parseexec f ps)"
proof (induction f ps and f ps and f ps and f ps rule: parseline_parsepipe_parseblock_parseexec.induct)
  case (2 f ps)
  show ?case unfolding parseline.simps
  proof (rule toks_ok_andThen [OF 2(1) [OF 2(3)]], unfold split)
    fix c :: cmd and r :: ptr assume ok: "parsepipe f ps = Ok (c, r)" and r: "suf s r" "\<forall>t\<in>set (tokens c). tok_ok s t"
    obtain c' r' where b: "parse_backs c r = (c', r')" by (cases "parse_backs c r")
    obtain t v where p: "peek r' [59] = (t, v)" by (cases "peek r' [59]")
    have c': "suf s r'" "tokens c' = tokens c" using parse_backs_suf [OF r(1) b] by simp_all
    have v: "suf s v" by (rule peek_suf [OF c'(1) p])
    have "toks_ok s (andThen (parseline f (next_token v)) (\<lambda>(d, s). Ok (LIST c' d, s)))" if "t = True"
      by (rule toks_ok_andThen [OF 2(2) [OF ok refl b [symmetric] refl p [symmetric] that next_token_suf [OF v]]]) (use r(2) c'(2) in auto)
    then show "toks_ok s (let (c, s) = parse_backs c r in case peek s [59] of
        (True, s) \<Rightarrow> andThen (parseline f (next_token s)) (\<lambda>(d, s). Ok (LIST c d, s)) | (False, s) \<Rightarrow> Ok (c, s))"
      using b p v r(2) c'(2) by (cases t) simp_all
  qed
next
  case (4 f ps)
  show ?case unfolding parsepipe.simps
  proof (rule toks_ok_andThen [OF 4(1) [OF 4(3)]], unfold split)
    fix c :: cmd and r :: ptr assume ok: "parseexec f ps = Ok (c, r)" and r: "suf s r" "\<forall>t\<in>set (tokens c). tok_ok s t"
    obtain t v where p: "peek r [124] = (t, v)" by (cases "peek r [124]")
    have v: "suf s v" by (rule peek_suf [OF r(1) p])
    have "toks_ok s (andThen (parsepipe f (next_token v)) (\<lambda>(d, s). Ok (PIPE c d, s)))" if "t = True"
      by (rule toks_ok_andThen [OF 4(2) [OF ok refl p [symmetric] that next_token_suf [OF v]]]) (use r(2) in auto)
    then show "toks_ok s (case peek r [124] of
        (True, s) \<Rightarrow> andThen (parsepipe f (next_token s)) (\<lambda>(d, s). Ok (PIPE c d, s)) | (False, s) \<Rightarrow> Ok (c, s))"
      using p v r(2) by (cases t) simp_all
  qed
next
  case (6 f ps)
  obtain t v where p: "peek ps [40] = (t, v)" by (cases "peek ps [40]")
  have v: "suf s v" by (rule peek_suf [OF 6(2) p])
  have "toks_ok s (andThen (parseline f (next_token v)) (\<lambda>(c, s). case peek s [41] of
        (False, s) \<Rightarrow> Panic ''syntax - missing )''
      | (True, s) \<Rightarrow> andThen (parseredirs (next_token s)) (\<lambda>(rs, s). Ok (redirs rs c, s))))" if "t = True"
  proof (rule toks_ok_andThen [OF 6(1) [OF p [symmetric] that next_token_suf [OF v]]], unfold split)
    fix c :: cmd and r :: ptr assume r: "suf s r" "\<forall>t\<in>set (tokens c). tok_ok s t"
    obtain t' v' where p': "peek r [41] = (t', v')" by (cases "peek r [41]")
    have "suf s (next_token v')" by (rule next_token_suf [OF peek_suf [OF r(1) p']])
    from toks_ok_redirs [OF this r(2)] show "toks_ok s (case peek r [41] of (False, s) \<Rightarrow> Panic ''syntax - missing )''
          | (True, s) \<Rightarrow> andThen (parseredirs (next_token s)) (\<lambda>(rs, s). Ok (redirs rs c, s)))"
      using p' by (cases t') simp_all
  qed
  then show ?case using p by (cases t) simp_all
next
  case (8 f ps)
  obtain t v where p: "peek ps [40] = (t, v)" by (cases "peek ps [40]")
  have v: "suf s v" by (rule peek_suf [OF 8(2) p])
  show ?case
  proof (cases t)
    case True
    then have "toks_ok s (parseblock f v)" using 8(1) [OF p [symmetric] _ v] by simp
    then show ?thesis using p True by simp
  next
    case False
    have "toks_ok s (andThen (parseredirs v) (\<lambda>(rs, s). andThen (parse_args [] rs s) (\<lambda>(args, rs, s). Ok (redirs rs (EXEC args), s))))"
    proof (cases "parseredirs v")
      case (Ok x)
      obtain rs r where x: "x = (rs, r)" by (cases x)
      note r = parseredirs_suf [OF v Ok [unfolded x]]
      show ?thesis unfolding Ok x
      proof (simp, cases "parse_args [] rs r")
        case (Ok y)
        obtain as rs' r' where y: "y = (as, rs', r')" by (cases y)
        have "suf s r' \<and> (\<forall>t\<in>set as. tok_ok s t) \<and> (\<forall>x\<in>set rs'. tok_ok s (rtok x))"
          using parse_args_suf [OF _ Ok [unfolded y], of s] r by simp
        then show "toks_ok s (andThen (parse_args [] rs r) (\<lambda>(args, rs, s). Ok (redirs rs (EXEC args), s)))"
          unfolding Ok y by (auto simp: tokens_redirs)
      qed simp_all
    qed simp_all
    then show ?thesis using p False by simp
  qed
qed simp_all

section \<open>The NULs\<close>

definition nul_at :: "nat \<Rightarrow> (ptr \<times> ptr) list \<Rightarrow> u8 list \<Rightarrow> u8 list" where
  "nul_at n ts b = fold (\<lambda>(q, e) b. b[n - length e := 0]) ts b"

lemma nulterminate_nul_at: "nulterminate n c b = nul_at n (tokens c) b"
  by (induction n c b rule: nulterminate.induct) (simp_all add: nul_at_def)

lemma nul_at_nth:
  "i < length b \<Longrightarrow> nul_at n ts b ! i = (if \<exists>t\<in>set ts. i = n - length (snd t) then 0 else b ! i)"
  "length (nul_at n ts b) = length b"
proof (induction ts arbitrary: b)
  case (Cons t ts)
  {
    case 1
    then show ?case using Cons(1) [of "b[n - length (snd t) := 0]"] by (cases t) (auto simp: nul_at_def nth_list_update)
  next
    case 2
    then show ?case using Cons(2) [of "b[n - length (snd t) := 0]"] by (cases t) (simp add: nul_at_def)
  }
qed (simp_all add: nul_at_def)

lemma cstr_prefix:
  assumes "\<forall>i<length w. i < length b \<and> b ! i = w ! i" "length w < length b" "b ! length w = 0" "0 \<notin> set w"
  shows "cstr b = w"
proof -
  have "take (length w) b = w" using assms(1,2) by (intro nth_equalityI) auto
  then have "b = w @ 0 # drop (Suc (length w)) b" using assms(2,3) by (metis append_take_drop_id Cons_nth_drop_Suc)
  moreover have "takeWhile (\<lambda>c. c \<noteq> 0) (w @ 0 # r) = w" for r using assms(4) by (induction w) auto
  ultimately show ?thesis unfolding cstr_def by metis
qed

lemma nul_at_string:
  assumes "tok_ok s t" "t \<in> set ts" "\<forall>t\<in>set ts. tok_ok s t" "0 \<notin> set s"
  shows "cstr (drop (length s - length (fst t)) (nul_at (length s) ts (s @ [0]))) = counted t"
proof -
  obtain p w where w: "s = p @ fst t" "fst t = w @ snd t" "\<forall>c\<in>set w. is_word c" using assms(1) by (auto simp: tok_ok_def)
  let ?b = "nul_at (length s) ts (s @ [0])"
  have s: "s = p @ w @ snd t" using w by simp
  have len: "length ?b = Suc (length s)" by (simp add: nul_at_nth)
  have keep: "?b ! (length p + i) = w ! i" if i: "i < length w" for i
  proof -
    have "length p + i \<noteq> length s - length (snd t')" if t': "t' \<in> set ts" for t'
    proof
      assume eq: "length p + i = length s - length (snd t')"
      obtain p' w' where w': "s = p' @ w' @ snd t'" "snd t' = [] \<or> \<not> is_word (hd (snd t'))"
        using assms(3) t' by (fastforce simp: tok_ok_def)
      have pos: "length p + i = length (p' @ w')" using eq w'(1) by (metis length_append append_assoc add_diff_cancel_right')
      have "snd t' \<noteq> []"
      proof
        assume "snd t' = []"
        then have "length s = length p + i" using pos w'(1) by simp
        moreover have "length s = length p + length w + length (snd t)" using arg_cong [OF s, of length] by simp
        ultimately show False using i by simp
      qed
      then have "s ! (length p + i) = hd (snd t')" using w'(1) pos by (metis append_assoc hd_conv_nth nth_append_length_plus add_0_right)
      moreover have "s ! (length p + i) = w ! i" using s i by (simp add: nth_append)
      ultimately show False using w'(2) \<open>snd t' \<noteq> []\<close> w(3) i by (metis nth_mem)
    qed
    moreover have "length p + i < length (s @ [0])" "(s @ [0]) ! (length p + i) = w ! i" using s i by (simp_all add: nth_append)
    ultimately show ?thesis by (auto simp: nul_at_nth)
  qed
  have "length p + length w = length s - length (snd t)" using s by simp
  then have zero: "?b ! (length p + length w) = 0" using assms(2) s by (subst nul_at_nth) auto
  have off: "length s - length (fst t) = length p" using w(1) by simp
  have "cstr (drop (length p) ?b) = w"
  proof (rule cstr_prefix)
    show "0 \<notin> set w" using assms(4) s by auto
  qed (use keep zero len s in simp_all)
  then show ?thesis unfolding off using w(2) by (metis counted_append prod.collapse)
qed

section \<open>The theorems\<close>

text \<open>C33. The parser of the shell returns on every line: it parses a command or it reports an error.\<close>

theorem parsecmd_returns: "parsecmd s \<noteq> Spin"
proof -
  have "parseline (4 * length s + 4) s \<noteq> Spin" using parse_ends(1) [of s "4 * length s + 4"] by (simp add: ends_def del: parser_simps_off)
  then show ?thesis unfolding parsecmd_def
    by (cases "parseline (4 * length s + 4) s") (auto split: prod.splits simp del: parser_simps_off)
qed

text \<open>C32. Every command can be written and is read back: of words, redirections, pipes, lists and background commands,
  with parentheses where the grammar needs them, a line is made that the parser reads as that command, word by word.\<close>

theorem parse_roundtrip:
  assumes "swf t"
  shows "\<exists>c buf. parsecmd (show_line t) = Ok (c, buf) \<and> strs c = t"
proof -
  let ?s = "show_line t" let ?f = "4 * length (show_line t) + 4"
  have "stops [41] []" by (simp add: stops_def)
  then obtain g c where g: "parseline g (?s @ []) = Ok (c, skip_space [])" "strs c = t"
    using reads_all [OF assms] unfolding reads_line_def by blast
  have "parseline ?f ?s \<noteq> Spin" using parse_ends(1) [of ?s ?f] by (simp add: ends_def del: parser_simps_off)
  then have "parseline (max ?f g) ?s = parseline ?f ?s" by (intro parse_more(1)) simp_all
  moreover have "parseline (max ?f g) ?s = Ok (c, [])" using parse_lift(1) [OF g(1), of "max ?f g"] by (simp del: parser_simps_off)
  ultimately have "parseline ?f ?s = Ok (c, [])" by simp
  then have "parsecmd ?s = Ok (c, nulterminate (length ?s) c (?s @ [0]))"
    by (simp add: parsecmd_def peek_def deref_def del: parser_simps_off)
  then show ?thesis using g(2) by blast
qed

theorem parse_roundtrip_witness:
  "\<exists>c buf. parsecmd (show_line (SList (SPipe (SExec [[97]]) (SRedir (SExec [[98], [99]]) [100] 0x601 1)) (SBack (SExec [[101]])))) = Ok (c, buf) \<and>
     strs c = SList (SPipe (SExec [[97]]) (SRedir (SExec [[98], [99]]) [100] 0x601 1)) (SBack (SExec [[101]]))"
  by (rule parse_roundtrip) (simp add: sword_def is_word_def is_space_def whitespace_def symbols_def)

text \<open>C34. The strings of a parsed command are words of the line: when \<open>nulterminate\<close> has put a NUL after each of them, the
  string that starts at each pointer of the command is the text that the parser counted there, although all of them
  stand in the same buffer.\<close>

theorem parse_strings_terminated:
  assumes "parsecmd s = Ok (c, buf)" "0 \<notin> set s" "t \<in> set (tokens c)"
  shows "cstr (drop (length s - length (fst t)) buf) = counted t"
proof -
  obtain d r where d: "parseline (4 * length s + 4) s = Ok (d, r)" using assms(1) by (auto simp: parsecmd_def andThen_eq_Ok simp del: parser_simps_off)
  obtain b r' where "peek r [] = (b, r')" by (cases "peek r []")
  then have r: "parseline (4 * length s + 4) s = Ok (c, r)" "buf = nulterminate (length s) c (s @ [0])"
    using assms(1) d by (auto simp: parsecmd_def split: if_splits simp del: parser_simps_off)
  have "suf s s" by (simp add: suf_def)
  then have "toks_ok s (parseline (4 * length s + 4) s)" by (rule parse_toks)
  then have "\<forall>t\<in>set (tokens c). tok_ok s t" using r(1) by (simp add: toks_ok_def del: parser_simps_off)
  then show ?thesis unfolding r(2) nulterminate_nul_at using nul_at_string assms(2,3) by blast
qed

theorem parse_strings_terminated_witness:
  "cstr (drop 3 (nulterminate 5 (EXEC [([108, 115, 32, 97, 98], [32, 97, 98]), ([97, 98], [])]) [108, 115, 32, 97, 98, 0])) = [97, 98]"
proof -
  let ?s = "[108, 115, 32, 97, 98]"
  let ?c = "EXEC [([108, 115, 32, 97, 98], [32, 97, 98]), ([97, 98], [])]"
  have "parsecmd ?s = Ok (?c, nulterminate 5 ?c (?s @ [0]))"
    by code_simp
  from parse_strings_terminated [OF this, of "([97, 98], [])"] show ?thesis by (simp add: counted_def)
qed

end
