(* ===== verification/Umalloc.thy ===== *)
theory Umalloc
  imports Ulib
begin

text \<open>
  The storage allocator of user programs (\<^verbatim>\<open>user/umalloc.c\<close>).  The state is the free list: the two
  fields of the header at each address, and \<^verbatim>\<open>freep\<close>; \<^verbatim>\<open>base\<close> is the address of the static header.  A
  header has 16 bytes, so that \<^verbatim>\<open>p + n\<close> is the address \<open>p + 16 * n\<close>.  \<open>sb n w\<close> is \<^verbatim>\<open>sbrk(n)\<close>; its
  argument is an \<^verbatim>\<open>int\<close>.  A search of a list that has no end has the value \<open>None\<close>.
\<close>

record umst =
  hptr :: "u64 \<Rightarrow> u64"
  hsize :: "u64 \<Rightarrow> u32"
  freep :: u64

abbreviation HEADER :: u64 where "HEADER \<equiv> 16"

definition hplus :: "u64 \<Rightarrow> u32 \<Rightarrow> u64" where
  "hplus p n = p + HEADER * ucast n"

section \<open>free\<close>

partial_function (option) free_find :: "u64 \<Rightarrow> umst \<Rightarrow> u64 \<Rightarrow> u64 option" where
  "free_find bp s p =
     (if bp > p \<and> bp < hptr s p then Some p
      else if p \<ge> hptr s p \<and> (bp > p \<or> bp < hptr s p) then Some p
      else free_find bp s (hptr s p))"

definition free_link :: "u64 \<Rightarrow> u64 \<Rightarrow> umst \<Rightarrow> umst" where
  "free_link bp p s =
     (let s = (if hplus bp (hsize s bp) = hptr s p
               then s\<lparr>hsize := (hsize s)(bp := hsize s bp + hsize s (hptr s p)), hptr := (hptr s)(bp := hptr s (hptr s p))\<rparr>
               else s\<lparr>hptr := (hptr s)(bp := hptr s p)\<rparr>);
          s = (if hplus p (hsize s p) = bp
               then s\<lparr>hsize := (hsize s)(p := hsize s p + hsize s bp), hptr := (hptr s)(p := hptr s bp)\<rparr>
               else s\<lparr>hptr := (hptr s)(p := bp)\<rparr>)
      in s\<lparr>freep := p\<rparr>)"

definition free :: "u64 \<Rightarrow> umst \<Rightarrow> umst option" where
  "free ap s = (let bp = ap - HEADER in map_option (\<lambda>p. free_link bp p s) (free_find bp s (freep s)))"

section \<open>malloc\<close>

text \<open>\<^verbatim>\<open>nu * sizeof(Header)\<close> is computed in 64 bits and passed as an \<^verbatim>\<open>int\<close>.\<close>

definition sbrk_arg :: "u32 \<Rightarrow> int" where
  "sbrk_arg nu = sint (ucast (ucast nu * HEADER :: u64) :: u32)"

definition at_least :: "u32 \<Rightarrow> u32" where
  "at_least nu = (if nu < 4096 then 4096 else nu)"

definition morecore :: "(int \<Rightarrow> 'w \<Rightarrow> u64 \<times> 'w) \<Rightarrow> u32 \<Rightarrow> umst \<Rightarrow> 'w \<Rightarrow> (u64 \<times> umst \<times> 'w) option" where
  "morecore sb nu s w =
     (let nu = at_least nu; (p, w) = sb (sbrk_arg nu) w in
      if p = - 1 then Some (0, s, w)
      else let s = s\<lparr>hsize := (hsize s)(p := nu)\<rparr>
           in map_option (\<lambda>s. (freep s, s, w)) (free (p + HEADER) s))"

definition units :: "u32 \<Rightarrow> u32" where
  "units nbytes = ucast ((ucast nbytes + HEADER - 1) div HEADER + 1)"

text \<open>A block is cut off at the end of a larger one.\<close>

definition malloc_take :: "u32 \<Rightarrow> u64 \<Rightarrow> u64 \<Rightarrow> umst \<Rightarrow> u64 \<times> umst" where
  "malloc_take nunits prevp p s =
     (if hsize s p = nunits then (p + HEADER, s\<lparr>hptr := (hptr s)(prevp := hptr s p), freep := prevp\<rparr>)
      else let s = s\<lparr>hsize := (hsize s)(p := hsize s p - nunits)\<rparr>;
               q = hplus p (hsize s p)
           in (q + HEADER, s\<lparr>hsize := (hsize s)(q := nunits), freep := prevp\<rparr>))"

partial_function (option) malloc_loop :: "(int \<Rightarrow> 'w \<Rightarrow> u64 \<times> 'w) \<Rightarrow> u32 \<Rightarrow> u64 \<Rightarrow> umst \<Rightarrow> 'w \<Rightarrow> (u64 \<times> umst \<times> 'w) option" where
  "malloc_loop sb nunits prevp s w =
     (let p = hptr s prevp in
      if hsize s p \<ge> nunits then (let (a, s) = malloc_take nunits prevp p s in Some (a, s, w))
      else if p = freep s
      then Option.bind (morecore sb nunits s w) (\<lambda>(p, s, w). if p = 0 then Some (0, s, w) else malloc_loop sb nunits p s w)
      else malloc_loop sb nunits p s w)"

definition malloc :: "u64 \<Rightarrow> (int \<Rightarrow> 'w \<Rightarrow> u64 \<times> 'w) \<Rightarrow> u32 \<Rightarrow> umst \<Rightarrow> 'w \<Rightarrow> (u64 \<times> umst \<times> 'w) option" where
  "malloc base sb nbytes s w =
     (let s = (if freep s = 0 then s\<lparr>hptr := (hptr s)(base := base), freep := base, hsize := (hsize s)(base := 0)\<rparr> else s)
      in malloc_loop sb (units nbytes) (freep s) s w)"

section \<open>The first allocation\<close>

text \<open>The list with one block behind the static header.\<close>

lemma morecore_first:
  assumes s: "hptr s base = base" "hsize s base = 0" "freep s = base"
    and sb: "sb (sbrk_arg (at_least nu)) w = (a, v)" "a \<noteq> - 1" "base < a" "unat a + 2 ^ 37 < 2 ^ 64"
  shows "\<exists>t. morecore sb nu s w = Some (base, t, v) \<and> hptr t base = a \<and> hptr t a = base \<and> hsize t a = at_least nu \<and> freep t = base"
proof -
  let ?s = "s\<lparr>hsize := (hsize s)(a := at_least nu)\<rparr>"
  have ne: "base \<noteq> a" using sb(3) by auto
  have find: "free_find a ?s base = Some base" using s(1) sb(3) by (subst free_find.simps) simp
  have "unat (ucast (at_least nu) :: u64) < 2 ^ 32" using unat_u32_less [of "at_least nu"] by simp
  moreover have "unat (HEADER * ucast (at_least nu)) = 16 * unat (ucast (at_least nu) :: u64)"
    using calculation by (subst unat_mult_lem [THEN iffD1]) simp_all
  ultimately have off: "unat (HEADER * ucast (at_least nu)) < 2 ^ 36" by simp
  have "unat (hplus a (at_least nu)) = unat a + unat (HEADER * ucast (at_least nu))"
    unfolding hplus_def using off sb(4) by (subst unat_plus_if') simp
  moreover have "unat base < unat a" using sb(3) by (simp add: word_less_nat_alt)
  ultimately have "hplus a (at_least nu) \<noteq> base" by auto
  then have "free (a + HEADER) ?s = Some (?s\<lparr>hptr := (hptr s)(a := base, base := a), freep := base\<rparr>)"
    using find s ne by (simp add: free_def free_link_def hplus_def)
  then show ?thesis using sb(1,2) by (simp add: morecore_def ne)
qed

lemma malloc_first:
  assumes "freep s = 0" and sb: "sb (sbrk_arg (units n)) w = (a, v)" "a \<noteq> - 1" "base < a" "unat a + 2 ^ 37 < 2 ^ 64"
    and u: "4096 \<le> units n" and b: "base \<noteq> 0"
  shows "\<exists>t. malloc base sb n s w = Some (a + HEADER, t, v)"
proof -
  let ?s = "s\<lparr>hptr := (hptr s)(base := base), freep := base, hsize := (hsize s)(base := 0)\<rparr>"
  have al: "at_least (units n) = units n" unfolding at_least_def using u by (simp add: leD)
  obtain t where t: "morecore sb (units n) ?s w = Some (base, t, v)" "hptr t base = a" "hptr t a = base" "hsize t a = units n" "freep t = base"
    using morecore_first [of ?s base sb "units n" w a v] sb al by auto
  have "\<not> units n \<le> 0" using u by auto
  then have "malloc_loop sb (units n) base ?s w = malloc_loop sb (units n) base t v"
    using t(1) b by (subst malloc_loop.simps) simp
  also have "\<dots> = Some (a + HEADER, t\<lparr>hptr := (hptr t)(base := base), freep := base\<rparr>, v)"
    using t by (subst malloc_loop.simps) (simp add: malloc_take_def)
  finally show ?thesis using assms(1) by (simp add: malloc_def)
qed

lemma unat_ucast_down: "unat (x :: u64) < 2 ^ 32 \<Longrightarrow> unat (ucast x :: u32) = unat x"
  by (simp add: unsigned_ucast_eq take_bit_eq_mod)

text \<open>C35. A request that fits asks the kernel for enough: up to 2147483616 bytes, the number of units that \<open>malloc\<close>
  computes holds the bytes and a header, and the argument of \<^verbatim>\<open>sbrk\<close> is the positive number of bytes of at least so many
  units.\<close>

theorem malloc_request:
  assumes "uint n \<le> 2147483616"
  shows "uint n + 16 \<le> 16 * uint (units n) \<and> sbrk_arg (at_least (units n)) = 16 * uint (at_least (units n)) \<and>
    units n \<le> at_least (units n)"
proof -
  have "int (unat n) \<le> int 2147483616" using assms by simp
  then have n: "unat n \<le> 2147483616" by (simp only: of_nat_le_iff)
  let ?m = "ucast n :: u64"
  have m: "unat ?m = unat n" by simp
  have "unat (?m + HEADER - 1) = unat n + 15" using n m by (simp add: unat_word_ariths)
  moreover define k where "k = (?m + HEADER - 1) div HEADER"
  ultimately have d: "unat k = (unat n + 15) div 16" by (simp add: unat_div)
  have le: "(unat n + 15) div 16 \<le> 134217726" using n by simp
  have "unat (k + 1) = (unat n + 15) div 16 + 1" using d le by (subst unat_plus_no_wrap) simp_all
  then have u: "unat (units n) = (unat n + 15) div 16 + 1"
    unfolding units_def k_def [symmetric] using le by (subst unat_ucast_down) simp_all
  have a: "unat (at_least (units n)) = max 4096 (unat (units n))" by (simp add: at_least_def word_less_nat_alt max_def)
  have lt: "16 * unat (at_least (units n)) < 2 ^ 31" unfolding a u using le by simp
  have "unat (ucast (at_least (units n)) * HEADER :: u64) = 16 * unat (at_least (units n))" using lt by (simp add: unat_word_ariths)
  then have "unat (ucast (ucast (at_least (units n)) * HEADER :: u64) :: u32) = 16 * unat (at_least (units n))"
    using lt by (subst unat_ucast_down) simp_all
  moreover define v where "v = int (16 * unat (at_least (units n)))"
  ultimately have w: "uint (ucast (ucast (at_least (units n)) * HEADER :: u64) :: u32) = v" by (simp only: uint_nat)
  have "0 \<le> v" "v < 2 ^ 31" unfolding v_def using lt by (simp_all only: of_nat_less_numeral_power_cancel_iff of_nat_0_le_iff)
  then have "sbrk_arg (at_least (units n)) = v" unfolding sbrk_arg_def sint_uint w by (simp add: signed_take_bit_int_eq_self)
  then have "sbrk_arg (at_least (units n)) = 16 * uint (at_least (units n))" by (simp add: v_def)
  moreover have "unat n + 16 \<le> 16 * unat (units n)" unfolding u by presburger
  then have "int (unat n + 16) \<le> int (16 * unat (units n))" by (simp only: of_nat_le_iff)
  then have "uint n + 16 \<le> 16 * uint (units n)" by simp
  moreover have "units n \<le> at_least (units n)" using a by (simp add: word_le_nat_alt)
  ultimately show ?thesis by blast
qed

theorem malloc_request_witness:
  "116 \<le> 16 * uint (units 100) \<and> sbrk_arg (at_least (units 100)) = 65536"
  using malloc_request [of 100] by (simp add: units_def at_least_def sbrk_arg_def)

text \<open>C36. A request that does not fit is granted: \<open>malloc(4294967295)\<close> as the first allocation of a program asks the kernel
  for 16 bytes only, since the number of bytes it needs is cut to an \<^verbatim>\<open>int\<close>, and returns the address behind the new
  header as if 4294967295 bytes were there.\<close>

theorem malloc_truncates:
  assumes "freep s = 0" "sb 16 w = (a, v)" "a \<noteq> - 1" "base < a" "unat a + 2 ^ 37 < 2 ^ 64" "base \<noteq> 0"
  shows "\<exists>t. malloc base sb 4294967295 s w = Some (a + 16, t, v)"
proof -
  have u: "units 4294967295 = 268435457" by (simp add: units_def)
  have "sbrk_arg (units 4294967295) = 16" unfolding u by (simp add: sbrk_arg_def)
  then show ?thesis using malloc_first [of s sb 4294967295 w a v base] assms u by simp
qed

theorem malloc_truncates_witness:
  "\<exists>t. malloc 4096 (\<lambda>n brk. (brk, brk + word_of_int n)) 4294967295 \<lparr>hptr = (\<lambda>_. 0), hsize = (\<lambda>_. 0), freep = 0\<rparr> 8192 = Some (8208, t, 8208)"
  using malloc_truncates [of "\<lparr>hptr = (\<lambda>_. 0), hsize = (\<lambda>_. 0), freep = 0\<rparr>" "\<lambda>n brk. (brk, brk + word_of_int n)" 8192 8192 8208 4096] by simp

end
